(* ===== verification/Xv6_Prelude.thy ===== *)
theory Xv6_Prelude
  imports Main "HOL-Library.Word"
begin

text \<open>
  Shared vocabulary of the development: the C integer types, the constants of
  \<^verbatim>\<open>libs/param.h\<close>, the names of kernel objects that code passes around as addresses
  (spin locks, sleep locks, sleep channels), the outcome type of kernel code and its sequencing,
  and generic lemmas on the outcome type, on filtered index lists and on linked chains.
\<close>

section \<open>Machine types and parameters\<close>

type_synonym uint = "32 word"
type_synonym ushort = "16 word"
type_synonym uchar = "8 word"

text \<open>The constants of \<^verbatim>\<open>libs/param.h\<close>.\<close>

abbreviation (input) NPROC :: nat where "NPROC \<equiv> 64"
abbreviation (input) BOOSTTIMER :: uint where "BOOSTTIMER \<equiv> 100"
abbreviation (input) NPRIO :: nat where "NPRIO \<equiv> 3"
abbreviation (input) KSTACKSIZE :: uint where "KSTACKSIZE \<equiv> 4096"
abbreviation (input) NCPU :: nat where "NCPU \<equiv> 8"
abbreviation (input) NOFILE :: nat where "NOFILE \<equiv> 16"
abbreviation (input) NFILE :: nat where "NFILE \<equiv> 100"
abbreviation (input) NINODE :: nat where "NINODE \<equiv> 50"
abbreviation (input) NDEV :: nat where "NDEV \<equiv> 10"
abbreviation (input) ROOTDEV :: uint where "ROOTDEV \<equiv> 1"
abbreviation (input) MAXARG :: nat where "MAXARG \<equiv> 32"
abbreviation (input) MAXOPBLOCKS :: int where "MAXOPBLOCKS \<equiv> 10"
abbreviation (input) LOGSIZE :: int where "LOGSIZE \<equiv> MAXOPBLOCKS * 3"
abbreviation (input) NBUF :: nat where "NBUF \<equiv> 30"
abbreviation (input) FSSIZE :: nat where "FSSIZE \<equiv> 1000"

section \<open>Names of kernel objects\<close>

text \<open>
  The kernel identifies a lock by the address of its structure and a sleep channel by the address
  of any object.  Only the identity of these addresses matters, so each object that the code uses
  as a lock or as a channel has a constructor.
\<close>

datatype slkid = BufSlk nat | InodeSlk nat

datatype lockid =
    PtableLock | KmemLock | TicksLock | ConsLock | BcacheLock | IcacheLock
  | LogLock | FtableLock | IdeLock | PipeLock uint | SlkLock slkid

datatype chan =
    ChanProc nat | ChanTicks | ChanBuf nat | ChanSlk slkid | ChanLog
  | ChanPipeRead uint | ChanPipeWrite uint | ChanInput

section \<open>Outcomes of kernel code\<close>

text \<open>
  A kernel function maps the state it starts in to an outcome.  \<open>Ret\<close> is a normal return with the
  final state; \<open>Panic\<close> is a call of \<open>panic\<close> with its message, after which the machine is
  frozen; \<open>Fault\<close> is a dereference of a null pointer or a read outside an object; \<open>Spin\<close> is the
  busy wait of \<open>acquire\<close> on a lock that is held, or a loop that never ends; \<open>Sleeps\<close> is a call
  of \<open>sleep\<close> from code that is only modelled up to that call.
\<close>

datatype ('a, 's) kres =
    Ret 'a 's
  | Panic string
  | Fault
  | Spin
  | Sleeps chan lockid 's

fun bindK :: "('a, 's) kres \<Rightarrow> ('a \<Rightarrow> 's \<Rightarrow> ('b, 's) kres) \<Rightarrow> ('b, 's) kres" where
  "bindK (Ret a s) f = f a s"
| "bindK (Panic m) f = Panic m"
| "bindK Fault f = Fault"
| "bindK Spin f = Spin"
| "bindK (Sleeps c l s) f = Sleeps c l s"

text \<open>Running a function for each index of a list, in order.\<close>

fun forK :: "'i list \<Rightarrow> ('i \<Rightarrow> 's \<Rightarrow> (unit, 's) kres) \<Rightarrow> 's \<Rightarrow> (unit, 's) kres" where
  "forK [] f s = Ret () s"
| "forK (i # is) f s = bindK (f i s) (\<lambda>_ s. forK is f s)"

text \<open>
  A loop with early exits: \<open>body\<close> either goes on with a new loop variable (\<open>Inl\<close>) or leaves the
  loop with a result (\<open>Inr\<close>).  Running out of the given number of rounds counts as \<open>Spin\<close>.
\<close>

fun loopK :: "nat \<Rightarrow> ('x \<Rightarrow> 's \<Rightarrow> ('x + 'r, 's) kres) \<Rightarrow> 'x \<Rightarrow> 's \<Rightarrow> ('r, 's) kres" where
  "loopK 0 body x s = Spin"
| "loopK (Suc n) body x s =
     bindK (body x s) (\<lambda>y s. case y of Inl x \<Rightarrow> loopK n body x s | Inr r \<Rightarrow> Ret r s)"

section \<open>Generic lemmas\<close>

named_theorems frame \<open>what an operation leaves unchanged\<close>

lemma bindK_Ret_iff:
  "bindK m f = Ret b t \<longleftrightarrow> (\<exists>a s. m = Ret a s \<and> f a s = Ret b t)"
  by (cases m) auto

lemma bindK_RetE [elim!]:
  assumes "bindK m f = Ret b t"
  obtains a s where "m = Ret a s" and "f a s = Ret b t"
  using assms by (auto simp: bindK_Ret_iff)

lemma bindK_assoc: "bindK (bindK m f) g = bindK m (\<lambda>a s. bindK (f a s) g)"
  by (cases m) auto

lemma bindK_Panic_iff:
  "bindK m f = Panic e \<longleftrightarrow> m = Panic e \<or> (\<exists>a s. m = Ret a s \<and> f a s = Panic e)"
  by (cases m) auto

lemma forK_append: "forK (xs @ ys) f s = bindK (forK xs f s) (\<lambda>_ s. forK ys f s)"
proof (induction xs arbitrary: s)
  case (Cons x xs)
  then have "forK (xs @ ys) f = (\<lambda>s. bindK (forK xs f s) (\<lambda>_ s. forK ys f s))" by auto
  then show ?case by (simp add: bindK_assoc)
qed simp

text \<open>An invariant of the body is an invariant of the loop.\<close>

lemma forK_inv:
  assumes "forK is f s = Ret u t" and "P s"
    and "\<And>i s u t. i \<in> set is \<Longrightarrow> P s \<Longrightarrow> f i s = Ret u t \<Longrightarrow> P t"
  shows "P t"
  using assms
proof (induction "is" arbitrary: s)
  case (Cons i "is")
  then obtain u' s' where fi: "f i s = Ret u' s'" and rest: "forK is f s' = Ret u t" by auto
  from Cons.prems(3) [OF _ Cons.prems(2) fi] have "P s'" by simp
  with rest Cons.IH [of s'] Cons.prems(3) show ?case by auto
qed simp

text \<open>A loop whose body always returns, on the states the invariant describes, returns.\<close>

lemma forK_total:
  assumes "P s" and "\<And>i s. i \<in> set is \<Longrightarrow> P s \<Longrightarrow> \<exists>t. f i s = Ret () t \<and> P t"
  shows "\<exists>t. forK is f s = Ret () t \<and> P t"
  using assms
proof (induction "is" arbitrary: s)
  case (Cons i "is")
  then obtain t where "f i s = Ret () t" "P t" by fastforce
  with Cons show ?case by simp
qed simp

text \<open>An invariant of the body, and a variant that bounds the number of rounds.\<close>

lemma loopK_inv:
  assumes "loopK n body x s = Ret r t" and "P x s"
    and "\<And>x s y t. P x s \<Longrightarrow> body x s = Ret (Inl y) t \<Longrightarrow> P y t"
    and "\<And>x s r t. P x s \<Longrightarrow> body x s = Ret (Inr r) t \<Longrightarrow> Q r t"
  shows "Q r t"
  using assms
proof (induction n arbitrary: x s)
  case (Suc n)
  then obtain y u where b: "body x s = Ret y u"
    and c: "(case y of Inl x \<Rightarrow> loopK n body x u | Inr r \<Rightarrow> Ret r u) = Ret r t" by auto
  show ?case
  proof (cases y)
    case (Inl x')
    with b c Suc show ?thesis by auto
  next
    case (Inr r')
    with b c Suc show ?thesis by auto
  qed
qed simp

lemma loopK_total:
  assumes "P x s" and "v x < n"
    and "\<And>x s. P x s \<Longrightarrow>
      (\<exists>y t. body x s = Ret (Inl y) t \<and> P y t \<and> v y < v x) \<or> (\<exists>r t. body x s = Ret (Inr r) t \<and> Q r t)"
  shows "\<exists>r t. loopK n body x s = Ret r t \<and> Q r t"
  using assms(1,2)
proof (induction n arbitrary: x s)
  case (Suc n)
  from assms(3) [OF Suc.prems(1)] show ?case
  proof (elim disjE exE conjE)
    fix y t assume "body x s = Ret (Inl y) t" "P y t" "v y < v x"
    with Suc show ?thesis by simp
  qed simp
qed simp

lemma filter_upt_Suc_first:
  assumes "P i" and "i < n" and "\<And>j. j < i \<Longrightarrow> \<not> P j"
  shows "filter P [0..<n] = i # filter P [Suc i..<n]"
proof -
  have "[0..<n] = [0..<i] @ i # [Suc i..<n]"
    using assms(2) upt_add_eq_append [of 0 i "n - i"] by (simp add: upt_conv_Cons)
  then show ?thesis using assms by simp
qed

subsection \<open>Linked chains\<close>

text \<open>
  \<open>chain nx x xs\<close>: following \<open>nx\<close> from the pointer \<open>x\<close> visits exactly the nodes \<open>xs\<close> and then
  reaches the null pointer.
\<close>

primrec chain :: "('n \<Rightarrow> 'n option) \<Rightarrow> 'n option \<Rightarrow> 'n list \<Rightarrow> bool" where
  "chain nx x [] \<longleftrightarrow> x = None"
| "chain nx x (p # ps) \<longleftrightarrow> x = Some p \<and> chain nx (nx p) ps"

lemma chain_Cons: "chain nx x (p # ps) \<longleftrightarrow> x = Some p \<and> chain nx (nx p) ps"
  by simp

declare chain.simps(2) [simp del]
declare chain_Cons [simp]

lemma chain_None [simp]: "chain nx None xs \<longleftrightarrow> xs = []"
  by (cases xs) auto

lemma chain_Some: "chain nx (Some p) xs \<longleftrightarrow> (\<exists>ys. xs = p # ys \<and> chain nx (nx p) ys)"
  by (cases xs) auto

lemma chain_upd [simp]: "p \<notin> set xs \<Longrightarrow> chain (nx(p := v)) x xs = chain nx x xs"
  by (induction xs arbitrary: x) auto

lemmas chain_upd_lam [simp] = chain_upd [unfolded fun_upd_def]

lemma chain_cong:
  "(\<And>p. p \<in> set xs \<Longrightarrow> nx p = nx' p) \<Longrightarrow> chain nx x xs = chain nx' x xs"
  by (induction xs arbitrary: x) auto

lemma chain_fun: "chain nx x xs \<Longrightarrow> chain nx x ys \<Longrightarrow> xs = ys"
proof (induction xs arbitrary: x ys)
  case (Cons p ps)
  then show ?case by (cases ys) auto
qed auto

lemma chain_append:
  "chain nx x (xs @ p # ys) \<Longrightarrow> chain nx (nx p) ys"
  by (induction xs arbitrary: x) auto

lemma chain_first: "chain nx x xs \<Longrightarrow> x = (if xs = [] then None else Some (hd xs))"
  by (cases xs) auto

text \<open>Linking a fresh node after the last one.\<close>

lemma chain_snoc:
  assumes "chain nx x xs" and "p \<notin> set xs" and "distinct xs" and "xs \<noteq> []"
  shows "chain (nx(last xs := Some p, p := None)) x (xs @ [p])"
  using assms
proof (induction xs arbitrary: x)
  case (Cons q qs)
  show ?case
  proof (cases "qs = []")
    case True
    with Cons.prems show ?thesis by auto
  next
    case False
    with Cons.prems have ne: "q \<noteq> last qs" "q \<noteq> p" by auto
    from Cons.prems False have "chain (nx(last qs := Some p, p := None)) (nx q) (qs @ [p])"
      by (intro Cons.IH) simp_all
    with ne False Cons.prems show ?thesis by (simp add: fun_upd_def)
  qed
qed simp

text \<open>Linking a whole chain after the last node of another.\<close>

lemma chain_join:
  assumes "chain nx x xs" and "chain nx y ys" and "distinct xs" and "xs \<noteq> []"
    and "set xs \<inter> set ys = {}"
  shows "chain (nx(last xs := y)) x (xs @ ys)"
  using assms
proof (induction xs arbitrary: x)
  case (Cons q qs)
  show ?case
  proof (cases "qs = []")
    case True
    with Cons.prems show ?thesis by simp
  next
    case False
    with Cons.prems have ne: "q \<noteq> last qs" by auto
    from Cons.prems False have "chain (nx(last qs := y)) (nx q) (qs @ ys)"
      by (intro Cons.IH) simp_all
    with ne False Cons.prems show ?thesis by (simp add: fun_upd_def)
  qed
qed simp

text \<open>Unlinking a node from the middle of a chain.\<close>

lemma chain_unlink:
  assumes "chain nx x (xs @ q # p # ys)" and "distinct (xs @ q # p # ys)"
  shows "chain (nx(q := nx p)) x (xs @ q # ys)"
  using assms
proof (induction xs arbitrary: x)
  case Nil
  then show ?case by simp
next
  case (Cons r rs)
  then have "r \<noteq> q" by simp
  moreover have "chain (nx(q := nx p)) (nx r) (rs @ q # ys)"
    using Cons.prems by (intro Cons.IH) simp_all
  ultimately show ?case using Cons.prems by (simp add: fun_upd_def)
qed

text \<open>The nodes of a chain, read off with a bound on their number.\<close>

fun walk :: "nat \<Rightarrow> ('n \<Rightarrow> 'n option) \<Rightarrow> 'n option \<Rightarrow> 'n list" where
  "walk 0 nx x = []"
| "walk (Suc n) nx None = []"
| "walk (Suc n) nx (Some p) = p # walk n nx (nx p)"

lemma walk_chain: "chain nx x xs \<Longrightarrow> length xs \<le> n \<Longrightarrow> walk n nx x = xs"
proof (induction n arbitrary: x xs)
  case (Suc n)
  then show ?case by (cases xs) auto
qed simp

lemma distinct_bounded_length:
  assumes "distinct xs" and "set xs \<subseteq> {..<n}"
  shows "length xs \<le> n"
  using assms by (metis card_lessThan card_mono distinct_card finite_lessThan)

end
