(* ===== verification/Spinlock.thy ===== *)
theory Spinlock
  imports Xv6_Prelude
begin

text \<open>
  Processors and spin locks: \<^verbatim>\<open>kernel/spinlock.c\<close> with the per-processor state of
  \<^verbatim>\<open>kernel/proc.h\<close> and the functions \<open>mycpu\<close>, \<open>cpuid\<close> and \<open>myproc\<close> of
  \<^verbatim>\<open>kernel/proc.c\<close>.  The record \<open>mach\<close> is the root of the kernel state: every later component
  extends it.  The locks of the whole kernel are one map from lock names to lock structures.

  The debugging fields of a lock (\<open>name\<close>, \<open>pcs\<close>) have no effect on control flow and are left out.
\<close>

section \<open>State\<close>

text \<open>
  \<open>struct cpu\<close>.  \<open>c_if\<close> is the interrupt flag of the processor's EFLAGS register, \<open>c_cr3\<close> its page
  table register, \<open>c_esp0\<close> the kernel stack in its task state segment; \<open>intena\<close> is only tested for
  zero.  Processes are named by their index in the process table.
\<close>

record cpu =
  c_apicid :: uchar
  c_started :: uint
  c_ncli :: int
  c_intena :: bool
  c_proc :: "nat option"
  c_if :: bool
  c_cr3 :: uint
  c_esp0 :: uint

text \<open>\<open>struct spinlock\<close>.\<close>

record spinlock =
  l_locked :: bool
  l_cpu :: "nat option"

text \<open>The machine: \<open>cur\<close> is the processor that executes the code.\<close>

record mach =
  cpus :: "nat \<Rightarrow> cpu"
  ncpu :: nat
  cur :: nat
  locks :: "lockid \<Rightarrow> spinlock"

section \<open>Operations\<close>

definition cpu_upd :: "(cpu \<Rightarrow> cpu) \<Rightarrow> 'a mach_scheme \<Rightarrow> 'a mach_scheme" where
  "cpu_upd f s = s\<lparr>cpus := (cpus s)(cur s := f (cpus s (cur s)))\<rparr>"

definition cpu_at :: "nat \<Rightarrow> (cpu \<Rightarrow> cpu) \<Rightarrow> 'a mach_scheme \<Rightarrow> 'a mach_scheme" where
  "cpu_at i f s = s\<lparr>cpus := (cpus s)(i := f (cpus s i))\<rparr>"

definition lock_upd :: "lockid \<Rightarrow> (spinlock \<Rightarrow> spinlock) \<Rightarrow> 'a mach_scheme \<Rightarrow> 'a mach_scheme" where
  "lock_upd l f s = s\<lparr>locks := (locks s)(l := f (locks s l))\<rparr>"

text \<open>The instructions of \<^verbatim>\<open>kernel/x86.h\<close> that touch this state.\<close>

definition readeflags :: "'a mach_scheme \<Rightarrow> bool" where
  "readeflags s = c_if (cpus s (cur s))"

definition cli :: "'a mach_scheme \<Rightarrow> 'a mach_scheme" where
  "cli s = cpu_upd (\<lambda>c. c\<lparr>c_if := False\<rparr>) s"

definition sti :: "'a mach_scheme \<Rightarrow> 'a mach_scheme" where
  "sti s = cpu_upd (\<lambda>c. c\<lparr>c_if := True\<rparr>) s"

definition lapicid :: "'a mach_scheme \<Rightarrow> uchar" where
  "lapicid s = c_apicid (cpus s (cur s))"

text \<open>\<open>mycpu\<close>: a search of the processor table for the local APIC identifier.\<close>

fun find_apic :: "(nat \<Rightarrow> cpu) \<Rightarrow> uchar \<Rightarrow> nat list \<Rightarrow> nat option" where
  "find_apic cs a [] = None"
| "find_apic cs a (i # is) = (if c_apicid (cs i) = a then Some i else find_apic cs a is)"

definition mycpu :: "'a mach_scheme \<Rightarrow> (nat, 'a mach_scheme) kres" where
  "mycpu s =
     (if readeflags s then Panic ''mycpu called with interrupts enabled''
      else case find_apic (cpus s) (lapicid s) [0..<ncpu s] of
             Some i \<Rightarrow> Ret i s
           | None \<Rightarrow> Panic ''unknown apicid'')"

definition cpuid :: "'a mach_scheme \<Rightarrow> (nat, 'a mach_scheme) kres" where
  "cpuid s = mycpu s"

definition pushcli :: "'a mach_scheme \<Rightarrow> (unit, 'a mach_scheme) kres" where
  "pushcli s =
     (let eflags = readeflags s in
      bindK (mycpu (cli s)) (\<lambda>i s.
      let s = (if c_ncli (cpus s i) = 0 then cpu_at i (\<lambda>c. c\<lparr>c_intena := eflags\<rparr>) s else s) in
      Ret () (cpu_at i (\<lambda>c. c\<lparr>c_ncli := c_ncli c + 1\<rparr>) s)))"

definition popcli :: "'a mach_scheme \<Rightarrow> (unit, 'a mach_scheme) kres" where
  "popcli s =
     (if readeflags s then Panic ''popcli - interruptible''
      else bindK (mycpu s) (\<lambda>i s.
        let s = cpu_at i (\<lambda>c. c\<lparr>c_ncli := c_ncli c - 1\<rparr>) s in
        if c_ncli (cpus s i) < 0 then Panic ''popcli''
        else if c_ncli (cpus s i) = 0 \<and> c_intena (cpus s i) then Ret () (sti s)
        else Ret () s))"

definition myproc :: "'a mach_scheme \<Rightarrow> (nat option, 'a mach_scheme) kres" where
  "myproc s =
     bindK (pushcli s) (\<lambda>_ s.
     bindK (mycpu s) (\<lambda>i s.
     let p = c_proc (cpus s i) in
     bindK (popcli s) (\<lambda>_ s. Ret p s)))"

definition initlock :: "lockid \<Rightarrow> 'a mach_scheme \<Rightarrow> 'a mach_scheme" where
  "initlock l s = lock_upd l (\<lambda>x. x\<lparr>l_locked := False, l_cpu := None\<rparr>) s"

definition holding :: "lockid \<Rightarrow> 'a mach_scheme \<Rightarrow> (bool, 'a mach_scheme) kres" where
  "holding l s =
     bindK (pushcli s) (\<lambda>_ s.
     bindK (mycpu s) (\<lambda>i s.
     let r = (l_locked (locks s l) \<and> l_cpu (locks s l) = Some i) in
     bindK (popcli s) (\<lambda>_ s. Ret r s)))"

text \<open>The atomic exchange with 1: the old value and the lock word set.\<close>

definition xchg1 :: "lockid \<Rightarrow> 'a mach_scheme \<Rightarrow> bool \<times> 'a mach_scheme" where
  "xchg1 l s = (l_locked (locks s l), lock_upd l (\<lambda>x. x\<lparr>l_locked := True\<rparr>) s)"

text \<open>
  \<open>acquire\<close>.  The exchange loop ends at its first round or, when another processor holds the lock,
  spins; the interleaved execution of the loop is in theory \<open>Spinlock_Mutex\<close>.
\<close>

definition acquire :: "lockid \<Rightarrow> 'a mach_scheme \<Rightarrow> (unit, 'a mach_scheme) kres" where
  "acquire l s =
     bindK (pushcli s) (\<lambda>_ s.
     bindK (holding l s) (\<lambda>h s.
     if h then Panic ''acquire''
     else case xchg1 l s of (old, s) \<Rightarrow>
       if old then Spin
       else bindK (mycpu s) (\<lambda>i s. Ret () (lock_upd l (\<lambda>x. x\<lparr>l_cpu := Some i\<rparr>) s))))"

definition release :: "lockid \<Rightarrow> 'a mach_scheme \<Rightarrow> (unit, 'a mach_scheme) kres" where
  "release l s =
     bindK (holding l s) (\<lambda>h s.
     if \<not> h then Panic ''release''
     else let s = lock_upd l (\<lambda>x. x\<lparr>l_cpu := None\<rparr>) s;
              s = lock_upd l (\<lambda>x. x\<lparr>l_locked := False\<rparr>) s
          in popcli s)"

section \<open>Well-formed machines and the effect of each operation\<close>

text \<open>
  The executing processor is in the table and APIC identifiers are distinct, which \<open>mpinit\<close>
  establishes; the interrupt flag is off while the \<open>pushcli\<close> depth is positive.
\<close>

definition mach_wf :: "'a mach_scheme \<Rightarrow> bool" where
  "mach_wf s \<longleftrightarrow> cur s < ncpu s \<and> ncpu s \<le> NCPU \<and>
     inj_on (\<lambda>i. c_apicid (cpus s i)) {..<ncpu s}"

definition cli_ok :: "'a mach_scheme \<Rightarrow> bool" where
  "cli_ok s \<longleftrightarrow> mach_wf s \<and> 0 \<le> c_ncli (cpus s (cur s)) \<and>
     (0 < c_ncli (cpus s (cur s)) \<longrightarrow> \<not> c_if (cpus s (cur s)))"

definition held :: "lockid \<Rightarrow> 'a mach_scheme \<Rightarrow> bool" where
  "held l s \<longleftrightarrow> l_locked (locks s l) \<and> l_cpu (locks s l) = Some (cur s)"

definition free_lock :: "lockid \<Rightarrow> 'a mach_scheme \<Rightarrow> bool" where
  "free_lock l s \<longleftrightarrow> \<not> l_locked (locks s l)"

text \<open>The pure effects of \<open>pushcli\<close>, \<open>popcli\<close>, \<open>acquire\<close> and \<open>release\<close> where they return.\<close>

definition push_cpu :: "cpu \<Rightarrow> cpu" where
  "push_cpu c = c\<lparr>c_if := False, c_intena := (if c_ncli c = 0 then c_if c else c_intena c),
     c_ncli := c_ncli c + 1\<rparr>"

definition pop_cpu :: "cpu \<Rightarrow> cpu" where
  "pop_cpu c = c\<lparr>c_ncli := c_ncli c - 1, c_if := (c_ncli c = 1 \<and> c_intena c)\<rparr>"

definition acquired :: "lockid \<Rightarrow> 'a mach_scheme \<Rightarrow> 'a mach_scheme" where
  "acquired l s = lock_upd l (\<lambda>x. x\<lparr>l_locked := True, l_cpu := Some (cur s)\<rparr>) (cpu_upd push_cpu s)"

definition released :: "lockid \<Rightarrow> 'a mach_scheme \<Rightarrow> 'a mach_scheme" where
  "released l s = lock_upd l (\<lambda>x. x\<lparr>l_locked := False, l_cpu := None\<rparr>) (cpu_upd pop_cpu s)"

lemmas mach_upd_defs = cpu_upd_def cpu_at_def lock_upd_def

lemma sel_cpu_upd [simp]:
  "cur (cpu_upd f s) = cur s" "ncpu (cpu_upd f s) = ncpu s" "locks (cpu_upd f s) = locks s"
  "cpus (cpu_upd f s) = (cpus s)(cur s := f (cpus s (cur s)))"
  by (simp_all add: cpu_upd_def)

lemma sel_lock_upd [simp]:
  "cur (lock_upd l f s) = cur s" "ncpu (lock_upd l f s) = ncpu s" "cpus (lock_upd l f s) = cpus s"
  "locks (lock_upd l f s) = (locks s)(l := f (locks s l))"
  by (simp_all add: lock_upd_def)

lemma spinlock_set [simp]:
  "(x :: spinlock)\<lparr>l_locked := a, l_cpu := b\<rparr> = \<lparr>l_locked = a, l_cpu = b\<rparr>"
  "(x :: spinlock)\<lparr>l_cpu := b, l_locked := a\<rparr> = \<lparr>l_locked = a, l_cpu = b\<rparr>"
  by (cases x; simp)+

lemma find_apic_inj:
  assumes "inj_on (\<lambda>i. c_apicid (cs i)) (set is)" and "i \<in> set is"
  shows "find_apic cs (c_apicid (cs i)) is = Some i"
  using assms by (induction "is") (auto simp: inj_on_def)

lemma find_apic_cur:
  assumes "mach_wf s"
  shows "find_apic (cpus s) (lapicid s) [0..<ncpu s] = Some (cur s)"
  using assms find_apic_inj [of "cpus s" "[0..<ncpu s]" "cur s"]
  by (simp add: mach_wf_def lapicid_def atLeast0LessThan)

lemma mycpu_wf: "mach_wf s \<Longrightarrow> \<not> c_if (cpus s (cur s)) \<Longrightarrow> mycpu s = Ret (cur s) s"
  by (simp add: mycpu_def find_apic_cur readeflags_def)

lemma mach_wf_cong:
  assumes "cur t = cur s" and "ncpu t = ncpu s" and "\<And>i. c_apicid (cpus t i) = c_apicid (cpus s i)"
  shows "mach_wf t = mach_wf s"
  using assms by (simp add: mach_wf_def)

lemma mach_wf_cpu_upd [simp]:
  "(\<And>c. c_apicid (f c) = c_apicid c) \<Longrightarrow> mach_wf (cpu_upd f s) = mach_wf s"
  by (rule mach_wf_cong) (auto simp: cpu_upd_def)

lemma mach_wf_lock_upd [simp]: "mach_wf (lock_upd l f s) = mach_wf s"
  by (rule mach_wf_cong) (auto simp: lock_upd_def)

lemma pushcli_wf: "mach_wf s \<Longrightarrow> pushcli s = Ret () (cpu_upd push_cpu s)"
proof -
  assume wf: "mach_wf s"
  then have "mycpu (cli s) = Ret (cur s) (cli s)"
    by (subst mycpu_wf) (simp_all add: cli_def)
  then show ?thesis
    by (simp add: pushcli_def Let_def cli_def mach_upd_defs push_cpu_def readeflags_def)
qed

lemma cpu_if_off: "\<not> c_if c \<Longrightarrow> c\<lparr>c_ncli := n, c_if := False\<rparr> = c\<lparr>c_ncli := n\<rparr>"
  by (cases c) simp

lemma popcli_wf:
  assumes "mach_wf s" and "\<not> c_if (cpus s (cur s))" and "0 < c_ncli (cpus s (cur s))"
  shows "popcli s = Ret () (cpu_upd pop_cpu s)"
  using assms by (auto simp: popcli_def mycpu_wf Let_def mach_upd_defs pop_cpu_def sti_def readeflags_def
      cpu_if_off)

lemma popcli_unmatched:
  assumes "mach_wf s" and "\<not> c_if (cpus s (cur s))" and "c_ncli (cpus s (cur s)) \<le> 0"
  shows "popcli s = Panic ''popcli''"
  using assms by (auto simp: popcli_def mycpu_wf Let_def mach_upd_defs readeflags_def)

lemma cpu_upd_cpu_upd [simp]: "cpu_upd f (cpu_upd g s) = cpu_upd (\<lambda>c. f (g c)) s"
  by (simp add: cpu_upd_def)

lemma cpu_upd_id: "f (cpus s (cur s)) = cpus s (cur s) \<Longrightarrow> cpu_upd f s = s"
  by (simp add: cpu_upd_def fun_upd_idem)

lemma apicid_push_pop [simp]:
  "c_apicid (push_cpu c) = c_apicid c" "c_apicid (pop_cpu c) = c_apicid c"
  by (simp_all add: push_cpu_def pop_cpu_def)

lemma mach_wf_push_pop [simp]:
  "mach_wf (cpu_upd push_cpu s) = mach_wf s" "mach_wf (cpu_upd pop_cpu s) = mach_wf s"
  by simp_all

lemma more_mach_upd [simp]:
  "mach.more (cpu_upd f s) = mach.more s" "mach.more (lock_upd l g s) = mach.more s"
  by (simp_all add: cpu_upd_def lock_upd_def)

text \<open>Reading under a matched \<open>pushcli\<close>/\<open>popcli\<close> only normalises \<open>intena\<close>.\<close>

definition norm_cpu :: "cpu \<Rightarrow> cpu" where
  "norm_cpu c = c\<lparr>c_intena := (if c_ncli c = 0 then c_if c else c_intena c)\<rparr>"

lemma pop_push_cpu:
  "0 \<le> c_ncli c \<Longrightarrow> 0 < c_ncli c \<longrightarrow> \<not> c_if c \<Longrightarrow> pop_cpu (push_cpu c) = norm_cpu c"
  by (auto simp: pop_cpu_def push_cpu_def norm_cpu_def)

lemma if_push_cpu: "\<not> c_if (push_cpu c)"
  by (simp add: push_cpu_def)

lemma ncli_push_cpu: "c_ncli (push_cpu c) = c_ncli c + 1"
  by (simp add: push_cpu_def)

lemma push_popcli:
  assumes "cli_ok s"
  shows "pushcli s = Ret () (cpu_upd push_cpu s)"
    and "mycpu (cpu_upd push_cpu s) = Ret (cur s) (cpu_upd push_cpu s)"
    and "popcli (cpu_upd push_cpu s) = Ret () (cpu_upd norm_cpu s)"
proof -
  from assms have wf: "mach_wf s" and n: "0 \<le> c_ncli (cpus s (cur s))"
    "0 < c_ncli (cpus s (cur s)) \<longrightarrow> \<not> c_if (cpus s (cur s))"
    by (auto simp: cli_ok_def)
  from wf show "pushcli s = Ret () (cpu_upd push_cpu s)" by (rule pushcli_wf)
  from wf show "mycpu (cpu_upd push_cpu s) = Ret (cur s) (cpu_upd push_cpu s)"
    by (subst mycpu_wf) (simp_all add: push_cpu_def)
  from wf n show "popcli (cpu_upd push_cpu s) = Ret () (cpu_upd norm_cpu s)"
    by (subst popcli_wf) (simp_all add: if_push_cpu ncli_push_cpu, simp add: cpu_upd_def pop_push_cpu)
qed

lemma holding_wf:
  assumes "cli_ok s"
  shows "holding l s = Ret (held l s) (cpu_upd norm_cpu s)"
  by (simp add: holding_def push_popcli [OF assms] held_def)

lemma myproc_wf:
  assumes "cli_ok s"
  shows "myproc s = Ret (c_proc (cpus s (cur s))) (cpu_upd norm_cpu s)"
  by (simp add: myproc_def push_popcli [OF assms]) (simp add: push_cpu_def)


lemma norm_cpu_pos: "0 < c_ncli c \<Longrightarrow> norm_cpu c = c"
  by (simp add: norm_cpu_def)

lemma cpu_upd_norm_pos: "0 < c_ncli (cpus s (cur s)) \<Longrightarrow> cpu_upd norm_cpu s = s"
  by (rule cpu_upd_id) (rule norm_cpu_pos)

lemma cli_ok_push: "cli_ok s \<Longrightarrow> cli_ok (cpu_upd push_cpu s)"
  by (simp add: cli_ok_def if_push_cpu ncli_push_cpu)

text \<open>Every outcome of \<open>acquire\<close> and of \<open>release\<close>.\<close>

lemma acquire_wf:
  assumes ok: "cli_ok s"
  shows "acquire l s =
    (if held l s then Panic ''acquire''
     else if l_locked (locks s l) then Spin
     else Ret () (acquired l s))"
proof -
  let ?s = "cpu_upd push_cpu s"
  have n: "0 < c_ncli (cpus ?s (cur ?s))" using ok by (simp add: cli_ok_def ncli_push_cpu)
  have h: "holding l ?s = Ret (held l s) ?s"
    using holding_wf [OF cli_ok_push [OF ok], of l] n by (simp only: cpu_upd_norm_pos) (simp add: held_def)
  let ?t = "lock_upd l (\<lambda>x. x\<lparr>l_locked := True\<rparr>) ?s"
  have m: "mycpu ?t = Ret (cur s) ?t"
    using ok by (subst mycpu_wf) (simp_all add: cli_ok_def if_push_cpu)
  show ?thesis
    by (simp add: acquire_def push_popcli(1) [OF ok] h xchg1_def m)
       (simp add: acquired_def lock_upd_def)
qed

lemma release_wf:
  assumes ok: "cli_ok s" and n: "0 < c_ncli (cpus s (cur s))"
  shows "release l s = (if held l s then Ret () (released l s) else Panic ''release'')"
proof -
  have h: "holding l s = Ret (held l s) s"
    using holding_wf [OF ok, of l] n by (simp only: cpu_upd_norm_pos)
  let ?t = "lock_upd l (\<lambda>x. x\<lparr>l_locked := False\<rparr>) (lock_upd l (\<lambda>x. x\<lparr>l_cpu := None\<rparr>) s)"
  have p: "popcli ?t = Ret () (cpu_upd pop_cpu ?t)"
    using ok n by (intro popcli_wf) (simp_all add: cli_ok_def)
  show ?thesis
    by (simp add: release_def h Let_def p) (simp add: released_def mach_upd_defs)
qed

lemma release_unheld:
  assumes "cli_ok s" and "\<not> held l s"
  shows "release l s = Panic ''release''"
  using assms by (simp add: release_def holding_wf)

lemma sel_acquired [simp]:
  "cur (acquired l s) = cur s" "ncpu (acquired l s) = ncpu s"
  "cpus (acquired l s) = (cpus s)(cur s := push_cpu (cpus s (cur s)))"
  "locks (acquired l s) = (locks s)(l := \<lparr>l_locked = True, l_cpu = Some (cur s)\<rparr>)"
  "mach.more (acquired l s) = mach.more s"
  by (simp_all add: acquired_def)

lemma sel_released [simp]:
  "cur (released l s) = cur s" "ncpu (released l s) = ncpu s"
  "cpus (released l s) = (cpus s)(cur s := pop_cpu (cpus s (cur s)))"
  "locks (released l s) = (locks s)(l := \<lparr>l_locked = False, l_cpu = None\<rparr>)"
  "mach.more (released l s) = mach.more s"
  by (simp_all add: released_def)

lemma held_acquired [simp]: "held l (acquired l s)"
  by (simp add: held_def)

lemma cli_ok_acquired: "cli_ok s \<Longrightarrow> cli_ok (acquired l s)"
  by (simp add: cli_ok_def acquired_def if_push_cpu ncli_push_cpu)

lemma cli_ok_released: "cli_ok s \<Longrightarrow> 0 < c_ncli (cpus s (cur s)) \<Longrightarrow> cli_ok (released l s)"
  by (auto simp: cli_ok_def released_def pop_cpu_def mach_upd_defs intro: mach_wf_cong [THEN iffD2])

lemma mach_eqI:
  assumes "cpus s = cpus t" and "ncpu s = ncpu t" and "cur s = cur t" and "locks s = locks t"
    and "mach.more s = mach.more t"
  shows "s = t"
  using assms by (cases s, cases t) simp

lemma released_acquired:
  assumes "cli_ok s" and "locks s l = \<lparr>l_locked = False, l_cpu = None\<rparr>"
  shows "released l (acquired l s) = cpu_upd norm_cpu s"
  using assms by (intro mach_eqI) (auto simp: cli_ok_def pop_push_cpu)

section \<open>Nesting\<close>

text \<open>
  Code that takes and gives back several locks, in any order: the locks it holds at the end, the most
  recent first, or \<open>None\<close> if it takes one that it holds or gives back one that it does not hold.
\<close>

datatype lock_op = Acq (op_lock: lockid) | Rel (op_lock: lockid)

fun run_locks :: "lock_op list \<Rightarrow> 'a mach_scheme \<Rightarrow> (unit, 'a mach_scheme) kres" where
  "run_locks [] s = Ret () s"
| "run_locks (Acq l # os) s = bindK (acquire l s) (\<lambda>_ s. run_locks os s)"
| "run_locks (Rel l # os) s = bindK (release l s) (\<lambda>_ s. run_locks os s)"

fun held_after :: "lock_op list \<Rightarrow> lockid list \<Rightarrow> lockid list option" where
  "held_after [] H = Some H"
| "held_after (Acq l # os) H = (if l \<in> set H then None else held_after os (l # H))"
| "held_after (Rel l # os) H = (if l \<in> set H then held_after os (remove1 l H) else None)"

text \<open>
  \<open>nested L s H t\<close>: the processor of \<open>s\<close> has gone on to \<open>t\<close> and now holds the locks \<open>H\<close>, all
  of them from the locks \<open>L\<close> that were free in \<open>s\<close>.
\<close>

definition nested :: "lockid set \<Rightarrow> 'a mach_scheme \<Rightarrow> lockid list \<Rightarrow> 'a mach_scheme \<Rightarrow> bool" where
  "nested L s H t \<longleftrightarrow> cli_ok t \<and> cur t = cur s \<and> distinct H \<and>
     (\<forall>l \<in> L. l_locked (locks t l) = (l \<in> set H)) \<and>
     (\<forall>l \<in> set H. l \<in> L \<and> l_cpu (locks t l) = Some (cur s)) \<and>
     c_ncli (cpus t (cur s)) = c_ncli (cpus s (cur s)) + int (length H) \<and>
     c_if (cpus t (cur s)) = (H = [] \<and> c_if (cpus s (cur s))) \<and>
     (H \<noteq> [] \<longrightarrow> c_ncli (cpus s (cur s)) = 0 \<longrightarrow> c_intena (cpus t (cur s)) = c_if (cpus s (cur s))) \<and>
     (\<forall>c. c \<noteq> cur s \<longrightarrow> cpus t c = cpus s c) \<and> (\<forall>l. l \<notin> L \<longrightarrow> locks t l = locks s l) \<and>
     mach.more t = mach.more s"

lemma nested_refl: "cli_ok s \<Longrightarrow> \<forall>l \<in> L. \<not> l_locked (locks s l) \<Longrightarrow> nested L s [] s"
  by (simp add: nested_def)

lemma nested_held: "nested L s H t \<Longrightarrow> l \<in> L \<Longrightarrow> held l t \<longleftrightarrow> l \<in> set H"
  by (auto simp: nested_def held_def)

lemma nested_acquire:
  assumes "nested L s H t" and "l \<in> L" and "l \<notin> set H" and "0 \<le> c_ncli (cpus s (cur s))"
  shows "acquire l t = Ret () (acquired l t) \<and> nested L s (l # H) (acquired l t)"
proof -
  have t: "cli_ok t" "\<not> l_locked (locks t l)" using assms(1-3) by (auto simp: nested_def)
  then have "acquire l t = Ret () (acquired l t)" by (simp add: acquire_wf held_def)
  moreover have "nested L s (l # H) (acquired l t)"
    using assms cli_ok_acquired [OF t(1)] by (auto simp: nested_def push_cpu_def)
  ultimately show ?thesis by simp
qed

lemma intena_pop_cpu: "c_intena (pop_cpu c) = c_intena c"
  by (simp add: pop_cpu_def)

lemma nested_release:
  assumes "nested L s H t" and "l \<in> set H" and "0 \<le> c_ncli (cpus s (cur s))"
    and "0 < c_ncli (cpus s (cur s)) \<longrightarrow> \<not> c_if (cpus s (cur s))"
  shows "release l t = Ret () (released l t) \<and> nested L s (remove1 l H) (released l t)"
proof -
  have n: "H \<noteq> []" "0 < length H" using assms(2) by auto
  then have "0 < c_ncli (cpus s (cur s)) + int (length H)" using assms(3) by linarith
  then have t: "cli_ok t" "0 < c_ncli (cpus t (cur t))" "l \<in> L" using assms(1,2) by (auto simp: nested_def)
  have "held l t" using nested_held [OF assms(1) t(3)] assms(2) by simp
  then have r: "release l t = Ret () (released l t)" by (simp add: release_wf [OF t(1,2)])
  have len: "int (length (remove1 l H)) = int (length H) - 1" using assms(2) n(2) by (simp add: length_remove1 of_nat_diff Suc_leI)
  have "remove1 l H = [] \<longleftrightarrow> int (length (remove1 l H)) = 0" by (simp only: of_nat_eq_0_iff length_0_conv)
  then have e: "remove1 l H = [] \<longleftrightarrow> int (length H) = 1" unfolding len by simp
  have one: "c_ncli (cpus s (cur s)) + int (length H) = 1 \<longleftrightarrow> c_ncli (cpus s (cur s)) = 0 \<and> int (length H) = 1"
    using assms(3) n(2) by linarith
  have "c_if (pop_cpu (cpus t (cur t))) = (remove1 l H = [] \<and> c_if (cpus s (cur s)))"
    using assms(1,3,4) n(1) e one by (auto simp: nested_def pop_cpu_def)
  moreover have "c_ncli (pop_cpu (cpus t (cur t))) = c_ncli (cpus s (cur s)) + int (length (remove1 l H))"
    using assms(1) len by (simp add: nested_def pop_cpu_def)
  ultimately have "nested L s (remove1 l H) (released l t)"
    using assms(1) n(1) t(3) cli_ok_released [OF t(1,2), of l] by (auto simp: nested_def intena_pop_cpu)
  with r show ?thesis by simp
qed

lemma run_locks_nested:
  assumes "nested L s H t" and "0 \<le> c_ncli (cpus s (cur s))"
    and "0 < c_ncli (cpus s (cur s)) \<longrightarrow> \<not> c_if (cpus s (cur s))" and "op_lock ` set os \<subseteq> L"
  shows "case held_after os H of
      None \<Rightarrow> run_locks os t = Panic ''acquire'' \<or> run_locks os t = Panic ''release''
    | Some H' \<Rightarrow> \<exists>u. run_locks os t = Ret () u \<and> nested L s H' u"
  using assms(1,4)
proof (induction os H arbitrary: t rule: held_after.induct)
  case (2 l os H)
  show ?case
  proof (cases "l \<in> set H")
    case True
    then have "held l t" "cli_ok t" using 2 nested_held [of L s H t l] by (auto simp: nested_def)
    with True show ?thesis by (simp add: acquire_wf)
  next
    case False
    with nested_acquire [OF 2(2) _ False assms(2)] 2(3) have
      a: "acquire l t = Ret () (acquired l t)" "nested L s (l # H) (acquired l t)" by auto
    with 2(1) [OF False a(2)] 2(3) False show ?thesis by (simp split: option.splits)
  qed
next
  case (3 l os H)
  show ?case
  proof (cases "l \<in> set H")
    case True
    from nested_release [OF 3(2) True assms(2,3)] have
      a: "release l t = Ret () (released l t)" "nested L s (remove1 l H) (released l t)" by auto
    with 3(1) [OF True a(2)] 3(3) True show ?thesis by (simp split: option.splits)
  next
    case False
    then have "\<not> held l t" "cli_ok t" using 3 nested_held [of L s H t l] by (auto simp: nested_def)
    with False show ?thesis by (simp add: release_unheld)
  qed
qed simp

section \<open>Properties\<close>

text \<open>A machine with two processors, all locks free, interrupts on.\<close>

definition mach2 :: mach where
  "mach2 = \<lparr>cpus = (\<lambda>i. \<lparr>c_apicid = of_nat i, c_started = 1, c_ncli = 0, c_intena = False,
              c_proc = None, c_if = True, c_cr3 = 0, c_esp0 = 0\<rparr>),
     ncpu = 2, cur = 0, locks = (\<lambda>_. \<lparr>l_locked = False, l_cpu = None\<rparr>)\<rparr>"

lemma cli_ok_mach2: "cli_ok mach2"
  by (auto simp: cli_ok_def mach_wf_def mach2_def inj_on_def less_2_cases_iff)

text \<open>
  C13. Every outcome of \<open>acquire\<close>: a processor that already holds the lock panics; a lock held by
  another processor makes it spin; otherwise it returns with the lock recorded as held by this
  processor, interrupts off and the \<open>pushcli\<close> depth one higher, the interrupt state being saved in
  \<open>intena\<close> only by the outermost acquisition.
\<close>

theorem acquire_outcomes:
  assumes "cli_ok s"
  shows "acquire l s =
    (if l_locked (locks s l) \<and> l_cpu (locks s l) = Some (cur s) then Panic ''acquire''
     else if l_locked (locks s l) then Spin
     else Ret () (s\<lparr>
       cpus := (cpus s)(cur s := (cpus s (cur s))\<lparr>c_if := False,
         c_intena := (if c_ncli (cpus s (cur s)) = 0 then c_if (cpus s (cur s))
                      else c_intena (cpus s (cur s))),
         c_ncli := c_ncli (cpus s (cur s)) + 1\<rparr>),
       locks := (locks s)(l := \<lparr>l_locked = True, l_cpu = Some (cur s)\<rparr>)\<rparr>))"
  using acquire_wf [OF assms, of l]
  by (simp add: held_def acquired_def push_cpu_def mach_upd_defs)

theorem acquire_outcomes_witness:
  "cli_ok mach2 \<and> (\<exists>t. acquire LogLock mach2 = Ret () t \<and> acquire LogLock t = Panic ''acquire'')"
proof -
  from acquire_outcomes [OF cli_ok_mach2, of LogLock] obtain t where t: "acquire LogLock mach2 = Ret () t"
    by (simp add: mach2_def)
  then have "cli_ok t" and "held LogLock t"
    using acquire_wf [OF cli_ok_mach2, of LogLock] by (auto split: if_splits intro: cli_ok_acquired [OF cli_ok_mach2])
  with acquire_outcomes [of t LogLock] have "acquire LogLock t = Panic ''acquire''"
    by (simp add: held_def)
  with t cli_ok_mach2 show ?thesis by blast
qed

text \<open>
  C14. Nested critical sections: code that takes and gives back free locks, in any order and as deep as
  it likes.  If it takes no lock twice and gives back only what it holds, no call panics or spins; at
  the end exactly the locks it has not given back are taken, by this processor, the \<open>pushcli\<close> depth has
  grown by their number, and interrupts are off while there is one and back to what they were when
  there is none.  Otherwise the code panics.
\<close>

theorem lock_nesting:
  assumes "cli_ok s" and "\<forall>l \<in> op_lock ` set os. \<not> l_locked (locks s l)"
  shows "case held_after os [] of
      None \<Rightarrow> run_locks os s = Panic ''acquire'' \<or> run_locks os s = Panic ''release''
    | Some H \<Rightarrow> \<exists>t. run_locks os s = Ret () t \<and>
        (\<forall>l \<in> op_lock ` set os. if l \<in> set H then locks t l = \<lparr>l_locked = True, l_cpu = Some (cur s)\<rparr>
           else \<not> l_locked (locks t l)) \<and>
        (\<forall>l. l \<notin> op_lock ` set os \<longrightarrow> locks t l = locks s l) \<and>
        c_ncli (cpus t (cur s)) = c_ncli (cpus s (cur s)) + int (length H) \<and>
        c_if (cpus t (cur s)) = (H = [] \<and> c_if (cpus s (cur s))) \<and>
        (\<forall>c. c \<noteq> cur s \<longrightarrow> cpus t c = cpus s c)"
proof (cases "held_after os []")
  case None
  with run_locks_nested [OF nested_refl [OF assms], of os] assms(1) show ?thesis by (simp add: cli_ok_def)
next
  case (Some H)
  with run_locks_nested [OF nested_refl [OF assms], of os] assms(1) obtain t where
    t: "run_locks os s = Ret () t" "nested (op_lock ` set os) s H t" by (auto simp: cli_ok_def)
  have "locks t l = \<lparr>l_locked = True, l_cpu = Some (cur s)\<rparr>" if "l \<in> set H" for l
  proof -
    have "l_locked (locks t l)" "l_cpu (locks t l) = Some (cur s)" using t(2) that unfolding nested_def by blast+
    then show ?thesis by (cases "locks t l") simp
  qed
  moreover have "\<not> l_locked (locks t l)" if "l \<in> op_lock ` set os" "l \<notin> set H" for l
    using t(2) that unfolding nested_def by blast
  ultimately show ?thesis using t Some by (simp add: nested_def)
qed

theorem lock_nesting_witness:
  "\<exists>t. run_locks [Acq LogLock, Acq PtableLock, Rel LogLock] mach2 = Ret () t \<and> \<not> c_if (cpus t 0) \<and>
     l_locked (locks t PtableLock) \<and> \<not> l_locked (locks t LogLock) \<and>
     (\<exists>u. run_locks [Acq LogLock, Acq PtableLock, Rel LogLock, Rel PtableLock] mach2 = Ret () u \<and> c_if (cpus u 0)) \<and>
     (\<exists>m. run_locks [Acq LogLock, Rel LogLock, Rel LogLock] mach2 = Panic m)"
proof -
  have f: "\<not> l_locked (locks mach2 l)" "cur mach2 = 0" "c_if (cpus mach2 0)" for l by (simp_all add: mach2_def)
  show ?thesis
    using lock_nesting [OF cli_ok_mach2, of "[Acq LogLock, Acq PtableLock, Rel LogLock]"]
      lock_nesting [OF cli_ok_mach2, of "[Acq LogLock, Acq PtableLock, Rel LogLock, Rel PtableLock]"]
      lock_nesting [OF cli_ok_mach2, of "[Acq LogLock, Rel LogLock, Rel LogLock]"] f by auto
qed

end
