(* ===== verification/Spinlock_Mutex.thy ===== *)
theory Spinlock_Mutex
  imports Spinlock
begin

text \<open>
  The spin lock under interleaving.  Any number of processors run \<open>acquire\<close>, a critical section and
  \<open>release\<close> of \<^verbatim>\<open>kernel/spinlock.c\<close> on one lock; each load, store and exchange of the lock's
  fields is a step of its own, so the two loads of \<open>holding\<close> and the two stores of \<open>release\<close> may
  interleave with everything the other processors do.  The theorems justify treating the code
  between \<open>acquire\<close> and \<open>release\<close> as one step in the other theories.
\<close>

section \<open>The instruction-level machine\<close>

text \<open>
  Where a processor is: outside; in \<open>acquire\<close> before the load of \<open>locked\<close>, before the load of \<open>cpu\<close>,
  in the exchange loop, before the store of \<open>cpu\<close>; in the critical section; in \<open>release\<close> before
  the two loads of \<open>holding\<close>, before the store that clears \<open>cpu\<close>, before the store that clears
  \<open>locked\<close>; or stopped in \<open>panic\<close>.
\<close>

datatype lpc =
    Outside | AcqLdLocked | AcqLdCpu | AcqXchg | AcqStCpu
  | Critical | RelLdLocked | RelLdCpu | RelStCpu | RelStLocked | Panicked

record lsys =
  lk :: spinlock
  pc :: "nat \<Rightarrow> lpc"

definition lsys0 :: lsys where
  "lsys0 = \<lparr>lk = \<lparr>l_locked = False, l_cpu = None\<rparr>, pc = (\<lambda>_. Outside)\<rparr>"

text \<open>The next state of processor \<open>i\<close>: one instruction of \<open>acquire\<close> or \<open>release\<close>.\<close>

definition lgoto :: "nat \<Rightarrow> lpc \<Rightarrow> lsys \<Rightarrow> lsys" where
  "lgoto i p s = s\<lparr>pc := (pc s)(i := p)\<rparr>"

definition lstep :: "nat \<Rightarrow> lsys \<Rightarrow> lsys" where
  "lstep i s =
     (case pc s i of
        Outside \<Rightarrow> lgoto i AcqLdLocked s
      | AcqLdLocked \<Rightarrow> lgoto i (if l_locked (lk s) then AcqLdCpu else AcqXchg) s
      | AcqLdCpu \<Rightarrow> lgoto i (if l_cpu (lk s) = Some i then Panicked else AcqXchg) s
      | AcqXchg \<Rightarrow>
          let old = l_locked (lk s); s = s\<lparr>lk := (lk s)\<lparr>l_locked := True\<rparr>\<rparr>
          in if old then s else lgoto i AcqStCpu s
      | AcqStCpu \<Rightarrow> lgoto i Critical (s\<lparr>lk := (lk s)\<lparr>l_cpu := Some i\<rparr>\<rparr>)
      | Critical \<Rightarrow> lgoto i RelLdLocked s
      | RelLdLocked \<Rightarrow> lgoto i (if l_locked (lk s) then RelLdCpu else Panicked) s
      | RelLdCpu \<Rightarrow> lgoto i (if l_cpu (lk s) = Some i then RelStCpu else Panicked) s
      | RelStCpu \<Rightarrow> lgoto i RelStLocked (s\<lparr>lk := (lk s)\<lparr>l_cpu := None\<rparr>\<rparr>)
      | RelStLocked \<Rightarrow> lgoto i Outside (s\<lparr>lk := (lk s)\<lparr>l_locked := False\<rparr>\<rparr>)
      | Panicked \<Rightarrow> s)"

inductive lreach :: "lsys \<Rightarrow> bool" where
  start: "lreach lsys0"
| step: "lreach s \<Longrightarrow> lreach (lstep i s)"

section \<open>Invariant\<close>

text \<open>The processors that own the lock word, and those whose number is in the lock.\<close>

definition owner :: "lpc \<Rightarrow> bool" where
  "owner p \<longleftrightarrow> p \<in> {AcqStCpu, Critical, RelLdLocked, RelLdCpu, RelStCpu, RelStLocked}"

definition stamped :: "lpc \<Rightarrow> bool" where
  "stamped p \<longleftrightarrow> p \<in> {Critical, RelLdLocked, RelLdCpu, RelStCpu}"

definition linv :: "lsys \<Rightarrow> bool" where
  "linv s \<longleftrightarrow>
     (\<forall>i j. owner (pc s i) \<longrightarrow> owner (pc s j) \<longrightarrow> i = j) \<and>
     (l_locked (lk s) \<longleftrightarrow> (\<exists>i. owner (pc s i))) \<and>
     (\<forall>i. l_cpu (lk s) = Some i \<longleftrightarrow> stamped (pc s i)) \<and>
     (\<forall>i. pc s i \<noteq> Panicked)"

lemma linv_start: "linv lsys0"
  by (simp add: linv_def lsys0_def owner_def stamped_def)

lemma owner_simps [simp]:
  "owner AcqStCpu" "owner Critical" "owner RelLdLocked" "owner RelLdCpu" "owner RelStCpu"
  "owner RelStLocked" "\<not> owner Outside" "\<not> owner AcqLdLocked" "\<not> owner AcqLdCpu"
  "\<not> owner AcqXchg" "\<not> owner Panicked"
  "stamped Critical" "stamped RelLdLocked" "stamped RelLdCpu" "stamped RelStCpu"
  "\<not> stamped Outside" "\<not> stamped AcqLdLocked" "\<not> stamped AcqLdCpu" "\<not> stamped AcqXchg"
  "\<not> stamped AcqStCpu" "\<not> stamped RelStLocked" "\<not> stamped Panicked"
  by (simp_all add: owner_def stamped_def)

lemma stamped_owner: "stamped p \<Longrightarrow> owner p"
  by (auto simp: owner_def stamped_def)

text \<open>Moving between two positions of the same kind keeps the invariant.\<close>

lemma linv_goto:
  assumes "linv s" and "owner p = owner (pc s i)" and "stamped p = stamped (pc s i)"
    and "p \<noteq> Panicked"
  shows "linv (lgoto i p s)"
proof -
  have o: "owner (((pc s)(i := p)) j) = owner (pc s j)" for j using assms by simp
  have st: "stamped (((pc s)(i := p)) j) = stamped (pc s j)" for j using assms by simp
  show ?thesis using assms(1,4) unfolding linv_def lgoto_def by (simp add: o st del: fun_upd_apply)
    (simp add: fun_upd_apply)
qed

lemma linv_locked: "linv s \<Longrightarrow> owner (pc s i) \<Longrightarrow> l_locked (lk s)"
  by (auto simp: linv_def)

lemma linv_step:
  assumes inv: "linv s"
  shows "linv (lstep i s)"
proof (cases "pc s i")
  case AcqXchg
  then show ?thesis
    using inv by (cases "l_locked (lk s)")
      (auto simp: linv_def lstep_def lgoto_def Let_def dest: stamped_owner)
next
  case AcqStCpu
  then have "stamped (pc s j) \<Longrightarrow> j = i" for j
    using inv stamped_owner unfolding linv_def by (metis owner_simps(1))
  moreover have "l_locked (lk s)" using linv_locked [OF inv, of i] AcqStCpu by simp
  ultimately show ?thesis using AcqStCpu inv by (auto simp: linv_def lstep_def lgoto_def)
next
  case RelStCpu
  then have "stamped (pc s j) \<Longrightarrow> j = i" for j
    using inv stamped_owner unfolding linv_def by (metis owner_simps(5))
  moreover have "l_locked (lk s)" using linv_locked [OF inv, of i] RelStCpu by simp
  ultimately show ?thesis using RelStCpu inv by (auto simp: linv_def lstep_def lgoto_def)
next
  case RelStLocked
  with inv show ?thesis by (auto simp: linv_def lstep_def lgoto_def dest: stamped_owner)
next
  case RelLdLocked
  then have "l_locked (lk s)" using linv_locked [OF inv, of i] by simp
  with RelLdLocked inv show ?thesis by (auto simp: lstep_def intro!: linv_goto)
next
  case RelLdCpu
  then have "l_cpu (lk s) = Some i" using inv by (auto simp: linv_def)
  with RelLdCpu inv show ?thesis by (auto simp: lstep_def intro!: linv_goto)
next
  case AcqLdCpu
  then have "l_cpu (lk s) \<noteq> Some i" using inv by (auto simp: linv_def)
  with AcqLdCpu inv show ?thesis by (auto simp: lstep_def intro!: linv_goto)
qed (use inv in \<open>auto simp: lstep_def intro!: linv_goto\<close>)

lemma lreach_inv: "lreach s \<Longrightarrow> linv s"
  by (induction rule: lreach.induct) (auto intro: linv_start linv_step)

section \<open>Properties\<close>

text \<open>
  C15. Mutual exclusion: in every interleaving at most one processor is between its successful
  exchange in \<open>acquire\<close> and the store that clears the lock in \<open>release\<close>, and neither the panic of
  \<open>acquire\<close> nor that of \<open>release\<close> is ever reached.
\<close>

theorem mutual_exclusion:
  assumes "lreach s"
  shows "(owner (pc s i) \<and> owner (pc s j) \<longrightarrow> i = j) \<and> pc s i \<noteq> Panicked"
  using lreach_inv [OF assms] by (auto simp: linv_def)

definition lrun :: "nat list \<Rightarrow> lsys" where
  "lrun is = fold lstep is lsys0"

lemma lreach_fold: "lreach s \<Longrightarrow> lreach (fold lstep is s)"
  by (induction "is" arbitrary: s) (auto intro: lreach.step)

theorem mutual_exclusion_witness:
  "lreach (lrun [0, 1, 0, 0, 1, 0, 1]) \<and> pc (lrun [0, 1, 0, 0, 1, 0, 1]) 0 = Critical \<and>
   pc (lrun [0, 1, 0, 0, 1, 0, 1]) 1 \<noteq> Critical"
proof -
  have r: "lreach (lrun [0, 1, 0, 0, 1, 0, 1])"
    unfolding lrun_def by (rule lreach_fold) (rule lreach.start)
  have c: "pc (lrun [0, 1, 0, 0, 1, 0, 1]) 0 = Critical"
    by (simp add: lrun_def lsys0_def lstep_def lgoto_def)
  from mutual_exclusion [OF r, of 0 1] c have "pc (lrun [0, 1, 0, 0, 1, 0, 1]) 1 \<noteq> Critical"
    by auto
  with r c show ?thesis by blast
qed

text \<open>
  C16. No lost release: when no processor is between the two points, the lock word is clear, so the
  next exchange of any processor that spins succeeds.
\<close>

theorem spin_ends:
  assumes "lreach s" and "\<forall>j. \<not> owner (pc s j)" and "pc s i = AcqXchg"
  shows "pc (lstep i s) i = AcqStCpu \<and> pc (lstep i (lstep i s)) i = Critical"
proof -
  from lreach_inv [OF assms(1)] assms(2) have "\<not> l_locked (lk s)" by (simp add: linv_def)
  with assms(3) show ?thesis by (simp add: lstep_def lgoto_def)
qed

theorem spin_ends_witness:
  "\<exists>s. lreach s \<and> (\<forall>j. \<not> owner (pc s j)) \<and> pc s 1 = AcqXchg \<and> pc (lstep 1 (lstep 1 s)) 1 = Critical"
proof -
  let ?s = "lrun [1, 1]"
  have r: "lreach ?s" unfolding lrun_def by (rule lreach_fold) (rule lreach.start)
  have p: "pc ?s 1 = AcqXchg" and o: "\<forall>j. \<not> owner (pc ?s j)"
    by (simp_all add: lrun_def lsys0_def lstep_def lgoto_def)
  from spin_ends [OF r o p] r p o show ?thesis by blast
qed

end
