(* ===== verification/Kstring.thy ===== *)
theory Kstring
  imports Xv6_Prelude
begin

unbundle bit_operations_syntax

text \<open>
  Byte memory and \<^verbatim>\<open>kernel/string.c\<close>.  Memory is a total map from 32-bit addresses to bytes;
  pointer arithmetic wraps at 32 bits, as the code's does.  The loops of the copying functions read
  and write memory in the order of the source, so overlapping arguments are covered.
\<close>

section \<open>Memory\<close>

type_synonym bytemem = "uint \<Rightarrow> uchar"

text \<open>A 32-bit load and store, little endian.\<close>

definition store32 :: "bytemem \<Rightarrow> uint \<Rightarrow> uint \<Rightarrow> bytemem" where
  "store32 m a v = m(a := ucast v, a + 1 := ucast (drop_bit 8 v),
                     a + 2 := ucast (drop_bit 16 v), a + 3 := ucast (drop_bit 24 v))"

definition load32 :: "bytemem \<Rightarrow> uint \<Rightarrow> uint" where
  "load32 m a = (ucast (m a) :: uint) OR push_bit 8 (ucast (m (a + 1)))
     OR push_bit 16 (ucast (m (a + 2))) OR push_bit 24 (ucast (m (a + 3)))"

section \<open>Operations\<close>

text \<open>The string-store instructions of \<^verbatim>\<open>kernel/x86.h\<close>.\<close>

fun stosb :: "bytemem \<Rightarrow> uint \<Rightarrow> uchar \<Rightarrow> nat \<Rightarrow> bytemem" where
  "stosb m a c 0 = m"
| "stosb m a c (Suc n) = stosb (m(a := c)) (a + 1) c n"

fun stosl :: "bytemem \<Rightarrow> uint \<Rightarrow> uint \<Rightarrow> nat \<Rightarrow> bytemem" where
  "stosl m a v 0 = m"
| "stosl m a v (Suc n) = stosl (store32 m a v) (a + 4) v n"

definition memset :: "bytemem \<Rightarrow> uint \<Rightarrow> uint \<Rightarrow> uint \<Rightarrow> bytemem" where
  "memset m dst c n =
     (if sint dst mod 4 = 0 \<and> n mod 4 = 0 then
        let c = c AND 255 in
        stosl m dst (push_bit 24 c OR push_bit 16 c OR push_bit 8 c OR c) (unat (n div 4))
      else stosb m dst (ucast c) (unat n))"

fun memcmp_loop :: "bytemem \<Rightarrow> uint \<Rightarrow> uint \<Rightarrow> nat \<Rightarrow> int" where
  "memcmp_loop m s1 s2 0 = 0"
| "memcmp_loop m s1 s2 (Suc n) =
     (if m s1 \<noteq> m s2 then Word.uint (m s1) - Word.uint (m s2) else memcmp_loop m (s1 + 1) (s2 + 1) n)"

definition memcmp :: "bytemem \<Rightarrow> uint \<Rightarrow> uint \<Rightarrow> uint \<Rightarrow> int" where
  "memcmp m v1 v2 n = memcmp_loop m v1 v2 (unat n)"

fun copy_down :: "bytemem \<Rightarrow> uint \<Rightarrow> uint \<Rightarrow> nat \<Rightarrow> bytemem" where
  "copy_down m d s 0 = m"
| "copy_down m d s (Suc n) = copy_down (m(d - 1 := m (s - 1))) (d - 1) (s - 1) n"

fun copy_up :: "bytemem \<Rightarrow> uint \<Rightarrow> uint \<Rightarrow> nat \<Rightarrow> bytemem" where
  "copy_up m d s 0 = m"
| "copy_up m d s (Suc n) = copy_up (m(d := m s)) (d + 1) (s + 1) n"

definition memmove :: "bytemem \<Rightarrow> uint \<Rightarrow> uint \<Rightarrow> uint \<Rightarrow> bytemem" where
  "memmove m dst src n =
     (if src < dst \<and> src + n > dst then copy_down m (dst + n) (src + n) (unat n)
      else copy_up m dst src (unat n))"

definition memcpy :: "bytemem \<Rightarrow> uint \<Rightarrow> uint \<Rightarrow> uint \<Rightarrow> bytemem" where
  "memcpy m dst src n = memmove m dst src n"

fun strncmp_loop :: "bytemem \<Rightarrow> uint \<Rightarrow> uint \<Rightarrow> nat \<Rightarrow> int" where
  "strncmp_loop m p q 0 = 0"
| "strncmp_loop m p q (Suc n) =
     (if m p \<noteq> 0 \<and> m p = m q then strncmp_loop m (p + 1) (q + 1) n
      else Word.uint (m p) - Word.uint (m q))"

definition strncmp :: "bytemem \<Rightarrow> uint \<Rightarrow> uint \<Rightarrow> uint \<Rightarrow> int" where
  "strncmp m p q n = strncmp_loop m p q (unat n)"

fun strncpy_pad :: "bytemem \<Rightarrow> uint \<Rightarrow> nat \<Rightarrow> bytemem" where
  "strncpy_pad m s 0 = m"
| "strncpy_pad m s (Suc n) = strncpy_pad (m(s := 0)) (s + 1) n"

fun strncpy_loop :: "bytemem \<Rightarrow> uint \<Rightarrow> uint \<Rightarrow> nat \<Rightarrow> bytemem" where
  "strncpy_loop m s t 0 = m"
| "strncpy_loop m s t (Suc n) =
     (let c = m t; m = m(s := c)
      in if c \<noteq> 0 then strncpy_loop m (s + 1) (t + 1) n else strncpy_pad m (s + 1) n)"

definition strncpy :: "bytemem \<Rightarrow> uint \<Rightarrow> uint \<Rightarrow> int \<Rightarrow> bytemem" where
  "strncpy m s t n = strncpy_loop m s t (nat n)"

fun safestrcpy_loop :: "bytemem \<Rightarrow> uint \<Rightarrow> uint \<Rightarrow> nat \<Rightarrow> bytemem" where
  "safestrcpy_loop m s t 0 = m(s := 0)"
| "safestrcpy_loop m s t (Suc n) =
     (let c = m t; m = m(s := c)
      in if c \<noteq> 0 then safestrcpy_loop m (s + 1) (t + 1) n else m(s + 1 := 0))"

definition safestrcpy :: "bytemem \<Rightarrow> uint \<Rightarrow> uint \<Rightarrow> int \<Rightarrow> bytemem" where
  "safestrcpy m s t n = (if n \<le> 0 then m else safestrcpy_loop m s t (nat n - 1))"

text \<open>\<open>strlen\<close> does not return when no byte is zero.\<close>

partial_function (option) strlen_loop :: "bytemem \<Rightarrow> uint \<Rightarrow> nat \<Rightarrow> nat option" where
  "strlen_loop m s n = (if m (s + of_nat n) = 0 then Some n else strlen_loop m s (Suc n))"

definition strlen :: "bytemem \<Rightarrow> uint \<Rightarrow> nat option" where
  "strlen m s = strlen_loop m s 0"

section \<open>Word lemmas\<close>

lemma unat_sub_one:
  fixes x a :: "'a::len word"
  assumes "x \<noteq> a"
  shows "unat (x - (a + 1)) = unat (x - a) - 1"
proof -
  have e: "x - (a + 1) = (x - a) - 1" by simp
  have "x - a \<noteq> 0" using assms by simp
  then show ?thesis unfolding e by (simp add: unat_minus_one)
qed

lemma unat_lt_32: "unat (x :: uint) < 2 ^ 32"
  using unsigned_less [of x] by simp

lemma unat_neg1_32: "unat (- 1 :: uint) = 2 ^ 32 - 1"
  by (simp add: unsigned_minus_1_eq_mask mask_eq_exp_minus_1)

text \<open>\<open>x\<close> lies in the \<open>n\<close> bytes from \<open>a\<close>, addresses wrapping.\<close>

definition within :: "uint \<Rightarrow> uint \<Rightarrow> nat \<Rightarrow> bool" where
  "within x a n \<longleftrightarrow> unat (x - a) < n"

lemma within_0 [simp]: "\<not> within x a 0"
  by (simp add: within_def)

lemma within_Suc: "n < 2 ^ 32 \<Longrightarrow> within x a (Suc n) \<longleftrightarrow> x = a \<or> within x (a + 1) n"
proof (cases "x = a")
  case False
  then have "0 < unat (x - a)" by (simp add: unat_gt_0)
  with False show ?thesis by (auto simp: within_def unat_sub_one)
qed (simp add: within_def)

lemma within_notin: "n < 2 ^ 32 \<Longrightarrow> \<not> within a (a + 1) n"
  by (simp add: within_def unat_neg1_32)

lemma within_add: "k < n \<Longrightarrow> n \<le> 2 ^ 32 \<Longrightarrow> within (a + of_nat k) a n"
  by (simp add: within_def unat_of_nat)

section \<open>\<open>memset\<close>\<close>

lemma stosb_spec:
  "n \<le> 2 ^ 32 \<Longrightarrow> stosb m a c n = (\<lambda>x. if within x a n then c else m x)"
proof (induction n arbitrary: m a)
  case (Suc n)
  then show ?case by (auto simp: within_Suc fun_eq_iff)
qed simp

lemma store32_bytes:
  assumes "ucast v = c" and "ucast (drop_bit 8 v) = c" and "ucast (drop_bit 16 v) = c"
    and "ucast (drop_bit 24 v) = c"
  shows "store32 m a v = stosb m a c 4"
  using assms by (simp add: store32_def numeral_eq_Suc add.assoc)

lemma stosb_add: "stosb m a c (k + n) = stosb (stosb m a c k) (a + of_nat k) c n"
  by (induction k arbitrary: m a) (simp_all add: add.assoc)

lemma stosl_spec:
  assumes "ucast v = c" and "ucast (drop_bit 8 v) = c" and "ucast (drop_bit 16 v) = c"
    and "ucast (drop_bit 24 v) = c"
  shows "stosl m a v n = stosb m a c (4 * n)"
proof (induction n arbitrary: m a)
  case (Suc n)
  have "stosb m a c (4 * Suc n) = stosb (stosb m a c 4) (a + 4) c (4 * n)"
    using stosb_add [of m a c 4 "4 * n"] by simp
  with Suc show ?case by (simp add: store32_bytes [OF assms])
qed simp

lemma replicated_bytes:
  fixes c :: uint
  defines "v \<equiv> push_bit 24 (c AND 255) OR push_bit 16 (c AND 255) OR push_bit 8 (c AND 255) OR (c AND 255)"
  shows "ucast v = (ucast c :: uchar)" "ucast (drop_bit 8 v) = (ucast c :: uchar)"
    "ucast (drop_bit 16 v) = (ucast c :: uchar)" "ucast (drop_bit 24 v) = (ucast c :: uchar)"
proof -
  have m: "(255 :: uint) = mask 8" by (simp add: mask_eq_exp_minus_1)
  show "ucast v = (ucast c :: uchar)" "ucast (drop_bit 8 v) = (ucast c :: uchar)"
    "ucast (drop_bit 16 v) = (ucast c :: uchar)" "ucast (drop_bit 24 v) = (ucast c :: uchar)"
    unfolding v_def m by (rule bit_word_eqI, auto simp: bit_simps)+
qed


lemma memset_spec:
  "memset m dst c n = (\<lambda>x. if within x dst (unat n) then ucast c else m x)"
proof (cases "sint dst mod 4 = 0 \<and> n mod 4 = 0")
  case True
  then have "unat (n mod 4) = 0" by simp
  then have "4 dvd unat n" by (simp add: unat_mod mod_eq_0_iff_dvd)
  then have "4 * unat (n div 4) = unat n" by (simp add: unat_div)
  then show ?thesis
    using stosb_spec [of "unat n" m dst "ucast c"] unat_lt_32 [of n]
    unfolding memset_def if_P [OF True] Let_def stosl_spec [OF replicated_bytes] by simp
next
  case False
  then show ?thesis
    using stosb_spec [of "unat n" m dst "ucast c"] unat_lt_32 [of n]
    unfolding memset_def if_not_P [OF False] by simp
qed

section \<open>\<open>memmove\<close>\<close>

lemma within_up: "unat x + n < 2 ^ 32 \<Longrightarrow> within y x n \<longleftrightarrow> x \<le> y \<and> unat y < unat x + n"
proof -
  assume "unat x + n < 2 ^ 32"
  then show ?thesis by (cases "x \<le> y") (auto simp: within_def unat_sub word_le_nat_alt unat_sub_if' not_le)
qed

lemma copy_up_spec:
  assumes "unat d + n < 2 ^ 32" and "unat s + n < 2 ^ 32"
    and "d \<le> s \<or> unat s + n \<le> unat d"
  shows "copy_up m d s n x = (if within x d n then m (s + (x - d)) else m x)"
  using assms
proof (induction n arbitrary: m d s)
  case (Suc n)
  have d1: "unat (d + 1) = unat d + 1" and s1: "unat (s + 1) = unat s + 1"
    using Suc.prems by (simp_all add: unat_word_ariths)
  have "d + 1 \<le> s + 1 \<or> unat (s + 1) + n \<le> unat (d + 1)"
    using Suc.prems d1 s1 by (auto simp: word_le_nat_alt)
  then have IH: "copy_up (m(d := m s)) (d + 1) (s + 1) n x =
      (if within x (d + 1) n then (m(d := m s)) (s + 1 + (x - (d + 1))) else (m(d := m s)) x)"
    using Suc.prems d1 s1 by (intro Suc.IH) simp_all
  show ?case
  proof (cases "within x (d + 1) n")
    case True
    then have k: "unat (x - (d + 1)) < n" by (simp add: within_def)
    let ?k = "unat (x - (d + 1))"
    have "unat (s + 1 + (x - (d + 1))) = unat s + 1 + ?k"
      using k s1 Suc.prems unat_add_lem [of "s + 1" "x - (d + 1)"] by simp
    then have "unat (s + 1 + (x - (d + 1))) \<noteq> unat d"
      using k Suc.prems(3) by (simp only: word_le_nat_alt) linarith
    then have "s + 1 + (x - (d + 1)) \<noteq> d" by (rule contrapos_nn) (rule arg_cong)
    with True IH Suc.prems show ?thesis by (simp add: within_Suc algebra_simps)
  next
    case False
    with IH Suc.prems show ?thesis by (auto simp: within_Suc)
  qed
qed simp

lemma copy_down_spec:
  assumes "unat d + n < 2 ^ 32" and "unat s + n < 2 ^ 32" and "s < d"
  shows "copy_down m (d + of_nat n) (s + of_nat n) n x = (if within x d n then m (s + (x - d)) else m x)"
  using assms
proof (induction n arbitrary: m)
  case (Suc n)
  let ?d = "d + of_nat n" and ?s = "s + of_nat n"
  have dn: "unat ?d = unat d + n" and sn: "unat ?s = unat s + n"
    using Suc.prems unat_add_lem [of d "of_nat n"] unat_add_lem [of s "of_nat n"]
    by (simp_all add: unat_of_nat)
  have e: "d + of_nat (Suc n) - 1 = ?d" "s + of_nat (Suc n) - 1 = ?s" by (simp_all add: algebra_simps)
  have IH: "copy_down (m(?d := m ?s)) ?d ?s n x =
      (if within x d n then (m(?d := m ?s)) (s + (x - d)) else (m(?d := m ?s)) x)"
    using Suc.prems by (intro Suc.IH) simp_all
  have w: "within x d (Suc n) \<longleftrightarrow> within x d n \<or> x = ?d"
    using Suc.prems dn by (auto simp: within_up word_le_nat_alt word_unat_eq_iff)
  have nd: "\<not> within ?d d n" using Suc.prems dn by (simp add: within_up)
  show ?case
  proof (cases "within x d n")
    case True
    then have k: "unat (x - d) < n" by (simp add: within_def)
    have "unat (s + (x - d)) = unat s + unat (x - d)"
      using k Suc.prems unat_add_lem [of s "x - d"] by simp
    then have "unat (s + (x - d)) \<noteq> unat ?d"
      using k dn Suc.prems(3) by (simp only: word_less_nat_alt)
    then have "s + (x - d) \<noteq> ?d" by (rule contrapos_nn) (rule arg_cong)
    with True w IH show ?thesis by (simp add: e)
  next
    case False
    with w nd IH show ?thesis by (auto simp: e algebra_simps)
  qed
qed simp

lemma memmove_spec:
  assumes "unat dst + unat n < 2 ^ 32" and "unat src + unat n < 2 ^ 32"
  shows "memmove m dst src n x = (if within x dst (unat n) then m (src + (x - dst)) else m x)"
proof (cases "src < dst \<and> src + n > dst")
  case True
  then show ?thesis using copy_down_spec [OF assms(1,2), of m x] by (simp add: memmove_def)
next
  case False
  have "unat (src + n) = unat src + unat n" using assms unat_add_lem [of src n] by simp
  with False have "dst \<le> src \<or> unat src + unat n \<le> unat dst"
    by (auto simp: word_less_nat_alt word_le_nat_alt not_less)
  from copy_up_spec [OF assms this] show ?thesis unfolding memmove_def if_not_P [OF False] .
qed

section \<open>Strings\<close>

text \<open>
  \<open>cstr m a xs\<close>: the bytes \<open>xs\<close>, none of them zero, followed by a zero byte, start at \<open>a\<close>.
\<close>

fun cstr :: "bytemem \<Rightarrow> uint \<Rightarrow> uchar list \<Rightarrow> bool" where
  "cstr m a [] \<longleftrightarrow> m a = 0"
| "cstr m a (x # xs) \<longleftrightarrow> x \<noteq> 0 \<and> m a = x \<and> cstr m (a + 1) xs"

lemma strlen_loop_cstr:
  "cstr m (s + of_nat n) xs \<Longrightarrow> strlen_loop m s n = Some (n + length xs)"
proof (induction xs arbitrary: n)
  case Nil
  then show ?case by (subst strlen_loop.simps) simp
next
  case (Cons x xs)
  then have "strlen_loop m s (Suc n) = Some (Suc n + length xs)" by (intro Cons.IH) (simp add: algebra_simps)
  with Cons.prems show ?case by (subst strlen_loop.simps) auto
qed

lemma strlen_cstr: "cstr m s xs \<Longrightarrow> strlen m s = Some (length xs)"
  using strlen_loop_cstr [of m s 0 xs] by (simp add: strlen_def)

text \<open>Comparing the first \<open>n\<close> bytes of two strings.\<close>

lemma strncmp_loop_0_iff:
  "cstr m p xs \<Longrightarrow> cstr m q ys \<Longrightarrow> strncmp_loop m p q n = 0 \<longleftrightarrow> take n xs = take n ys"
proof (induction n arbitrary: p q xs ys)
  case (Suc n)
  show ?case
  proof (cases xs)
    case Nil
    with Suc.prems show ?thesis by (cases ys) (auto simp: uint_0_iff)
  next
    case (Cons x xs')
    show ?thesis
    proof (cases ys)
      case Nil
      with Suc.prems Cons show ?thesis by (auto simp: uint_0_iff)
    next
      case (Cons y ys')
      with Suc \<open>xs = x # xs'\<close> word_uint_eq_iff [of x y] show ?thesis by auto
    qed
  qed
qed simp

lemma safestrcpy_loop_outside:
  "Suc n < 2 ^ 32 \<Longrightarrow> \<not> within x s (Suc n) \<Longrightarrow> safestrcpy_loop m s t n x = m x"
proof (induction n arbitrary: m s t)
  case 0
  then show ?case by (auto simp: within_def)
next
  case (Suc n)
  then have "x \<noteq> s" and "\<not> within x (s + 1) (Suc n)" by (auto simp: within_Suc)
  moreover from this have "x \<noteq> s + 1" by (auto simp: within_def)
  ultimately show ?case using Suc by (auto simp: Let_def)
qed

lemma cstr_cong:
  "(\<And>j. j \<le> length xs \<Longrightarrow> m (a + of_nat j) = m' (a + of_nat j)) \<Longrightarrow> cstr m a xs = cstr m' a xs"
proof (induction xs arbitrary: a)
  case Nil
  from Nil [of 0] show ?case by simp
next
  case (Cons x xs)
  have "cstr m (a + 1) xs = cstr m' (a + 1) xs"
  proof (rule Cons.IH)
    fix j assume "j \<le> length xs"
    then show "m (a + 1 + of_nat j) = m' (a + 1 + of_nat j)"
      using Cons.prems [of "Suc j"] by (simp add: algebra_simps)
  qed
  with Cons.prems [of 0] show ?case by auto
qed

text \<open>The copy of a string that does not overlap its destination.\<close>

lemma safestrcpy_loop_copies:
  assumes "cstr m t xs" and "Suc n < 2 ^ 32"
    and "\<And>j. j \<le> length xs \<Longrightarrow> \<not> within (t + of_nat j) s (Suc n)"
  shows "cstr (safestrcpy_loop m s t n) s (take n xs)"
  using assms
proof (induction n arbitrary: m s t xs)
  case (Suc n)
  show ?case
  proof (cases xs)
    case Nil
    with Suc.prems show ?thesis by (simp add: Let_def)
  next
    case (Cons x xs')
    let ?m = "m(s := x)"
    have out: "\<not> within (t + 1 + of_nat j) s (Suc (Suc n))" if "j \<le> length xs'" for j
      using Suc.prems(3) [of "Suc j"] Cons that by (simp add: algebra_simps)
    have "t + 1 + of_nat j \<noteq> s" if "j \<le> length xs'" for j
      using out [OF that] by (auto simp: within_def)
    then have "cstr ?m (t + 1) xs' = cstr m (t + 1) xs'" by (intro cstr_cong) simp
    then have "cstr ?m (t + 1) xs'" using Suc.prems(1) Cons by simp
    then have "cstr (safestrcpy_loop ?m (s + 1) (t + 1) n) (s + 1) (take n xs')"
      using Suc.prems(2) out by (intro Suc.IH) (assumption | simp add: within_Suc)+
    moreover have "safestrcpy_loop ?m (s + 1) (t + 1) n s = x"
      using Suc.prems(2) within_notin [of "Suc n" s] by (subst safestrcpy_loop_outside) auto
    ultimately show ?thesis using Suc.prems Cons by (simp add: Let_def)
  qed
qed simp

section \<open>Properties\<close>

text \<open>
  The two code paths of \<open>memset\<close> (whole words when the address and the count are multiples of
  4, bytes otherwise) have the same effect: exactly the \<open>n\<close> bytes from \<open>dst\<close> become the low byte
  of \<open>c\<close>.
\<close>

theorem memset_fills:
  "memset m dst c n = (\<lambda>x. if unat (x - dst) < unat n then ucast c else m x)"
  using memset_spec by (simp add: within_def)

text \<open>
  C17. \<open>memmove\<close> copies correctly whether or not the areas overlap: afterwards byte \<open>k\<close> of the
  destination is byte \<open>k\<close> of the source as it was before, and no other byte has changed.  The
  areas must not reach the top of the address space.
\<close>

theorem memmove_copies:
  assumes "unat dst + unat n < 2 ^ 32" and "unat src + unat n < 2 ^ 32"
  shows "memmove m dst src n =
    (\<lambda>x. if unat (x - dst) < unat n then m (src + (x - dst)) else m x)"
  using memmove_spec [OF assms] by (simp add: fun_eq_iff within_def)

theorem memmove_copies_witness:
  "map (memmove (\<lambda>a. ucast a) 101 100 3) [100, 101, 102, 103, 104] = [100, 100, 101, 102, 104]"
  by (subst memmove_copies) (simp_all add: unat_neg1_32)

text \<open>
  C18. \<open>safestrcpy\<close> always leaves a terminated string in the \<open>n\<close> bytes of its destination: the first
  \<open>n - 1\<close> bytes of the source string at most; nothing outside these \<open>n\<close> bytes is written.
\<close>

theorem safestrcpy_terminated:
  assumes "cstr m t xs" and "0 < n" and "n < 2 ^ 32"
    and "\<forall>j \<le> length xs. \<not> within (t + of_nat j) s (nat n)"
  shows "cstr (safestrcpy m s t n) s (take (nat n - 1) xs) \<and>
    (\<forall>x. \<not> within x s (nat n) \<longrightarrow> safestrcpy m s t n x = m x)"
proof -
  have n: "Suc (nat n - 1) = nat n" "nat n < 2 ^ 32" using assms(2,3) by auto
  have "cstr (safestrcpy_loop m s t (nat n - 1)) s (take (nat n - 1) xs)"
    using assms n by (intro safestrcpy_loop_copies) simp_all
  moreover have "safestrcpy_loop m s t (nat n - 1) x = m x" if "\<not> within x s (nat n)" for x
    using that n by (intro safestrcpy_loop_outside) simp_all
  ultimately show ?thesis using assms(2) by (simp add: safestrcpy_def)
qed

theorem safestrcpy_terminated_witness:
  "cstr (safestrcpy (\<lambda>a. if a = 0 then 65 else if a = 1 then 66 else 0) 100 0 2) 100 [65]"
proof -
  have "\<forall>j \<le> length [65, 66 :: uchar]. \<not> within (0 + of_nat j :: uint) 100 (nat 2)"
  proof (intro allI impI)
    fix j assume "j \<le> length [65, 66 :: uchar]"
    then have "j = 0 \<or> j = 1 \<or> j = 2" by auto
    then show "\<not> within (0 + of_nat j :: uint) 100 (nat 2)" by (auto simp: within_def)
  qed
  then show ?thesis
    using safestrcpy_terminated
      [of "\<lambda>a. if a = 0 then 65 else if a = 1 then 66 else 0" 0 "[65, 66]" 2 100] by simp
qed

end
