(* ===== verification/Kalloc.thy ===== *)
theory Kalloc
  imports Spinlock Kstring "HOL-Library.Multiset"
begin

unbundle bit_operations_syntax

text \<open>
  The physical page allocator, \<^verbatim>\<open>kernel/kalloc.c\<close>, with the address constants of
  \<^verbatim>\<open>kernel/memlayout.h\<close> and \<^verbatim>\<open>kernel/mmu.h\<close>.  The free list is the linked list the code
  keeps inside the free pages themselves: its links are words of the byte memory.
\<close>

section \<open>State\<close>

abbreviation (input) PGSIZE :: uint where "PGSIZE \<equiv> 4096"
abbreviation (input) EXTMEM :: uint where "EXTMEM \<equiv> 0x100000"
abbreviation (input) PHYSTOP :: uint where "PHYSTOP \<equiv> 0xE000000"
abbreviation (input) DEVSPACE :: uint where "DEVSPACE \<equiv> 0xFE000000"
abbreviation (input) KERNBASE :: uint where "KERNBASE \<equiv> 0x80000000"
abbreviation (input) KERNLINK :: uint where "KERNLINK \<equiv> KERNBASE + EXTMEM"

definition V2P :: "uint \<Rightarrow> uint" where "V2P a = a - KERNBASE"
definition P2V :: "uint \<Rightarrow> uint" where "P2V a = a + KERNBASE"

definition PGROUNDUP :: "uint \<Rightarrow> uint" where "PGROUNDUP sz = (sz + PGSIZE - 1) AND NOT (PGSIZE - 1)"
definition PGROUNDDOWN :: "uint \<Rightarrow> uint" where "PGROUNDDOWN a = a AND NOT (PGSIZE - 1)"

text \<open>
  \<open>kmem\<close>, and the memory the kernel reaches through its direct map.  \<open>k_end\<close> is the address of the
  linker symbol \<open>end\<close>.
\<close>

record kmem = mach +
  k_mem :: bytemem
  k_use_lock :: bool
  k_freelist :: uint
  k_end :: uint

section \<open>Operations\<close>

definition kmem_lock :: "'a kmem_scheme \<Rightarrow> (unit, 'a kmem_scheme) kres" where
  "kmem_lock s = (if k_use_lock s then acquire KmemLock s else Ret () s)"

definition kmem_unlock :: "'a kmem_scheme \<Rightarrow> (unit, 'a kmem_scheme) kres" where
  "kmem_unlock s = (if k_use_lock s then release KmemLock s else Ret () s)"

definition kfree :: "uint \<Rightarrow> 'a kmem_scheme \<Rightarrow> (unit, 'a kmem_scheme) kres" where
  "kfree v s =
     (if v mod PGSIZE \<noteq> 0 \<or> v < k_end s \<or> V2P v \<ge> PHYSTOP then Panic ''kfree''
      else
        let s = s\<lparr>k_mem := memset (k_mem s) v 1 PGSIZE\<rparr> in
        bindK (kmem_lock s) (\<lambda>_ s.
        let s = s\<lparr>k_mem := store32 (k_mem s) v (k_freelist s)\<rparr>;
            s = s\<lparr>k_freelist := v\<rparr>
        in kmem_unlock s))"

definition kalloc :: "'a kmem_scheme \<Rightarrow> (uint, 'a kmem_scheme) kres" where
  "kalloc s =
     bindK (kmem_lock s) (\<lambda>_ s.
     let r = k_freelist s;
         s = (if r \<noteq> 0 then s\<lparr>k_freelist := load32 (k_mem s) r\<rparr> else s)
     in bindK (kmem_unlock s) (\<lambda>_ s. Ret r s))"

text \<open>
  \<open>freerange\<close>: there are at most \<open>2 ^ 20\<close> pages, so this number of rounds is enough unless the
  address wraps, in which case the loop of the code does not end either.
\<close>

definition freerange :: "uint \<Rightarrow> uint \<Rightarrow> 'a kmem_scheme \<Rightarrow> (unit, 'a kmem_scheme) kres" where
  "freerange vstart vend s =
     loopK (2 ^ 20 + 1) (\<lambda>p s.
       if p + PGSIZE \<le> vend then bindK (kfree p s) (\<lambda>_ s. Ret (Inl (p + PGSIZE)) s)
       else Ret (Inr ()) s) (PGROUNDUP vstart) s"

definition kinit1 :: "uint \<Rightarrow> uint \<Rightarrow> 'a kmem_scheme \<Rightarrow> (unit, 'a kmem_scheme) kres" where
  "kinit1 vstart vend s =
     (let s = initlock KmemLock s; s = s\<lparr>k_use_lock := False\<rparr> in freerange vstart vend s)"

definition kinit2 :: "uint \<Rightarrow> uint \<Rightarrow> 'a kmem_scheme \<Rightarrow> (unit, 'a kmem_scheme) kres" where
  "kinit2 vstart vend s =
     bindK (freerange vstart vend s) (\<lambda>_ s. Ret () (s\<lparr>k_use_lock := True\<rparr>))"

section \<open>Pages of the byte memory\<close>

definition page_of :: "uint \<Rightarrow> nat" where
  "page_of x = unat x div 4096"

definition aligned :: "uint \<Rightarrow> bool" where
  "aligned a \<longleftrightarrow> a mod PGSIZE = 0"

lemma aligned_iff: "aligned a \<longleftrightarrow> unat a mod 4096 = 0"
  by (simp add: aligned_def unat_eq_0 [symmetric] unat_mod_distrib)

lemma unat_diff_32:
  "unat (x - v :: uint) = (if unat v \<le> unat x then unat x - unat v else 4294967296 + unat x - unat v)"
proof -
  have "(2 :: nat) ^ LENGTH(32) = 4294967296" by simp
  then show ?thesis using unat_sub_if' [of x v] by (simp only: word_le_nat_alt add.commute)
qed

lemma page_arith:
  fixes p q r :: nat
  assumes "r < 4096" "q < 1048576"
  shows "(if 4096 * q \<le> 4096 * p + r then 4096 * p + r - 4096 * q
    else 4294967296 + (4096 * p + r) - 4096 * q) < 4096 \<longleftrightarrow> p = q"
proof (cases "4096 * q \<le> 4096 * p + r")
  case True
  with assms have "q \<le> p" by linarith
  then obtain d where "p = q + d" using le_Suc_ex by blast
  with True assms show ?thesis by (cases d) auto
next
  case False
  then have "p \<noteq> q" by auto
  moreover have "\<not> 4294967296 + (4096 * p + r) - 4096 * q < 4096" using False assms by linarith
  ultimately show ?thesis using False by (simp only: if_False simp_thms)
qed

lemma within_page:
  assumes "aligned v"
  shows "within x v 4096 \<longleftrightarrow> page_of x = page_of v"
proof -
  from assms obtain q where q: "unat v = 4096 * q" by (auto simp: aligned_iff mod_eq_0_iff_dvd)
  define p r where "p = unat x div 4096" and "r = unat x mod 4096"
  then have x: "unat x = 4096 * p + r" and r: "r < 4096" by simp_all
  have "unat v < 2 ^ 32" by (rule unat_lt_32)
  with q have v: "q < 1048576" by simp
  have "page_of v = q" "page_of x = p" using q p_def by (simp_all add: page_of_def)
  then show ?thesis
    unfolding within_def unat_diff_32 q x using page_arith [OF r v, of p] by (simp only:)
qed

lemma page_of_offset:
  assumes "aligned a" and "k < 4096"
  shows "page_of (a + of_nat k) = page_of a"
proof -
  from assms obtain q where q: "unat a = 4096 * q" by (auto simp: aligned_iff mod_eq_0_iff_dvd)
  have "unat a < 2 ^ 32" by (rule unat_lt_32)
  with q have "q < 2 ^ 20" by simp
  with assms q have "unat (a + of_nat k) = 4096 * q + k"
    by (simp add: unat_word_ariths unat_of_nat)
  with q assms show ?thesis by (simp add: page_of_def)
qed

lemma page_of_eq: "aligned a \<Longrightarrow> aligned b \<Longrightarrow> page_of a = page_of b \<longleftrightarrow> a = b"
  by (auto simp: page_of_def aligned_iff word_unat_eq_iff mod_eq_0_iff_dvd)

text \<open>Two memories that agree on every page but \<open>v\<close>'s.\<close>

definition same_but :: "uint \<Rightarrow> bytemem \<Rightarrow> bytemem \<Rightarrow> bool" where
  "same_but v m m' \<longleftrightarrow> (\<forall>x. page_of x \<noteq> page_of v \<longrightarrow> m' x = m x)"

lemma load32_same_but:
  assumes "same_but v m m'" and "aligned a" and "aligned v" and "a \<noteq> v"
  shows "load32 m' a = load32 m a"
proof -
  have "page_of a \<noteq> page_of v" using assms page_of_eq by blast
  moreover have "page_of (a + 1) = page_of a" "page_of (a + 2) = page_of a" "page_of (a + 3) = page_of a"
    using page_of_offset [OF assms(2), of 1] page_of_offset [OF assms(2), of 2]
      page_of_offset [OF assms(2), of 3] by simp_all
  ultimately have "m' a = m a" "m' (a + 1) = m (a + 1)" "m' (a + 2) = m (a + 2)" "m' (a + 3) = m (a + 3)"
    using assms(1) by (simp_all add: same_but_def)
  then show ?thesis by (simp only: load32_def)
qed

lemma same_but_memset:
  assumes "aligned v"
  shows "same_but v m (memset m v c PGSIZE)"
  using assms by (simp add: same_but_def memset_spec within_page [symmetric])

lemma same_but_store32:
  assumes "aligned v"
  shows "same_but v m (store32 m v x)"
  using page_of_offset [OF assms, of 1] page_of_offset [OF assms, of 2] page_of_offset [OF assms, of 3]
  by (auto simp: same_but_def store32_def)

lemma same_but_trans: "same_but v m m' \<Longrightarrow> same_but v m' m'' \<Longrightarrow> same_but v m m''"
  by (simp add: same_but_def)

lemma bytes_of_word:
  fixes v :: uint
  shows "(ucast (ucast v :: uchar) :: uint) OR push_bit 8 (ucast (ucast (drop_bit 8 v) :: uchar))
     OR push_bit 16 (ucast (ucast (drop_bit 16 v) :: uchar))
     OR push_bit 24 (ucast (ucast (drop_bit 24 v) :: uchar)) = v"
proof (rule bit_word_eqI)
  fix n assume n: "n < LENGTH(32)"
  define q k where "q = n div 8" and "k = n mod 8"
  then have nk: "n = 8 * q + k" and k: "k < 8" by simp_all
  from n nk have "q < 4" by simp
  then consider "q = 0" | "q = 1" | "q = 2" | "q = 3" by linarith
  then show "bit ((ucast (ucast v :: uchar) :: uint) OR push_bit 8 (ucast (ucast (drop_bit 8 v) :: uchar))
     OR push_bit 16 (ucast (ucast (drop_bit 16 v) :: uchar))
     OR push_bit 24 (ucast (ucast (drop_bit 24 v) :: uchar))) n = bit v n"
    unfolding nk using k by cases (simp_all add: bit_simps)
qed

lemma small_neq:
  "(1 :: uint) \<noteq> 2" "(1 :: uint) \<noteq> 3" "(2 :: uint) \<noteq> 3" "(0 :: uint) \<noteq> 1" "(0 :: uint) \<noteq> 2" "(0 :: uint) \<noteq> 3"
  by simp_all

lemma add_small_neq [simp]:
  "(a :: uint) \<noteq> a + 1" "a + 1 \<noteq> a" "a + 2 \<noteq> a" "a + 3 \<noteq> a" "a + 1 \<noteq> a + 2" "a + 1 \<noteq> a + 3"
  "a + 2 \<noteq> a + 3" "a \<noteq> a + 2" "a \<noteq> a + 3" "a + 2 \<noteq> a + 1" "a + 3 \<noteq> a + 1" "a + 3 \<noteq> a + 2"
  using small_neq by (auto simp only: add_left_cancel add_cancel_right_right add_cancel_left_right)

lemma load32_store32 [simp]: "load32 (store32 m a v) a = v"
  unfolding load32_def store32_def using bytes_of_word [of v]
  by (simp only: fun_upd_apply add_small_neq if_True if_False simp_thms)

section \<open>The free list\<close>

definition ptr :: "uint \<Rightarrow> uint option" where
  "ptr a = (if a = 0 then None else Some a)"

definition run_next :: "bytemem \<Rightarrow> uint \<Rightarrow> uint option" where
  "run_next m p = ptr (load32 m p)"

text \<open>A page the allocator may manage: the guard of \<open>kfree\<close>.\<close>

definition page_ok :: "'a kmem_scheme \<Rightarrow> uint \<Rightarrow> bool" where
  "page_ok s v \<longleftrightarrow> aligned v \<and> k_end s \<le> v \<and> V2P v < PHYSTOP"

text \<open>\<open>xs\<close> are the pages on the free list, first the one that \<open>kalloc\<close> returns next.\<close>

definition free_pages :: "'a kmem_scheme \<Rightarrow> uint list \<Rightarrow> bool" where
  "free_pages s xs \<longleftrightarrow> chain (run_next (k_mem s)) (ptr (k_freelist s)) xs \<and> distinct xs \<and>
     (\<forall>x \<in> set xs. page_ok s x) \<and> 0 < k_end s"

definition kmem_ready :: "'a kmem_scheme \<Rightarrow> bool" where
  "kmem_ready s \<longleftrightarrow> (k_use_lock s \<longrightarrow> cli_ok s \<and> locks s KmemLock = \<lparr>l_locked = False, l_cpu = None\<rparr>)"

text \<open>What a critical section of \<open>kmem.lock\<close> leaves behind on the processor.\<close>

definition kmem_norm :: "'a kmem_scheme \<Rightarrow> 'a kmem_scheme" where
  "kmem_norm s = (if k_use_lock s then cpu_upd norm_cpu s else s)"

lemma acquired_kmem [simp]:
  "k_mem (acquired l s) = k_mem s" "k_freelist (acquired l s) = k_freelist s"
  "k_use_lock (acquired l s) = k_use_lock s" "k_end (acquired l s) = k_end s"
  "(acquired l s)\<lparr>k_mem := m\<rparr> = acquired l (s\<lparr>k_mem := m\<rparr>)"
  "(acquired l s)\<lparr>k_freelist := a\<rparr> = acquired l (s\<lparr>k_freelist := a\<rparr>)"
  by (simp_all add: acquired_def mach_upd_defs)

lemma cpu_upd_kmem [simp]:
  "k_mem (cpu_upd f s) = k_mem s" "k_freelist (cpu_upd f s) = k_freelist s"
  "k_use_lock (cpu_upd f s) = k_use_lock s" "k_end (cpu_upd f s) = k_end s"
  "kmem.more (cpu_upd f s) = kmem.more s"
  by (simp_all add: cpu_upd_def)

lemma cli_ok_kmem [simp]:
  "cli_ok (s\<lparr>k_mem := m\<rparr>) = cli_ok s" "cli_ok (s\<lparr>k_freelist := a\<rparr>) = cli_ok s"
  "cli_ok (s\<lparr>k_use_lock := b\<rparr>) = cli_ok s"
  by (simp_all add: cli_ok_def mach_wf_def)

lemma cli_ok_norm [simp]: "cli_ok (cpu_upd norm_cpu s) = cli_ok s"
proof -
  have "mach_wf (cpu_upd norm_cpu s) = mach_wf s" by (rule mach_wf_cpu_upd) (simp add: norm_cpu_def)
  then show ?thesis by (simp add: cli_ok_def norm_cpu_def)
qed

lemma kmem_section:
  assumes "kmem_ready s"
  shows "kmem_lock s = Ret () (if k_use_lock s then acquired KmemLock s else s)"
    and "kmem_unlock (if k_use_lock s then acquired KmemLock s else s) = Ret () (kmem_norm s)"
proof -
  show "kmem_lock s = Ret () (if k_use_lock s then acquired KmemLock s else s)"
    using assms by (auto simp: kmem_lock_def kmem_ready_def acquire_wf held_def)
  have "release KmemLock (acquired KmemLock s) = Ret () (cpu_upd norm_cpu s)" if "k_use_lock s"
  proof (subst release_wf)
    from assms that have ok: "cli_ok s" and l: "locks s KmemLock = \<lparr>l_locked = False, l_cpu = None\<rparr>"
      by (auto simp: kmem_ready_def)
    show "cli_ok (acquired KmemLock s)" using ok by (rule cli_ok_acquired)
    show "0 < c_ncli (cpus (acquired KmemLock s) (cur (acquired KmemLock s)))"
      using ok by (simp add: cli_ok_def ncli_push_cpu)
    show "(if held KmemLock (acquired KmemLock s) then Ret () (released KmemLock (acquired KmemLock s))
       else Panic ''release'') = Ret () (cpu_upd norm_cpu s)"
      using released_acquired [OF ok l] by simp
  qed
  then show "kmem_unlock (if k_use_lock s then acquired KmemLock s else s) = Ret () (kmem_norm s)"
    by (simp add: kmem_unlock_def kmem_norm_def)
qed

lemma kmem_norm_sel [simp]:
  "k_mem (kmem_norm s) = k_mem s" "k_freelist (kmem_norm s) = k_freelist s"
  "k_use_lock (kmem_norm s) = k_use_lock s" "k_end (kmem_norm s) = k_end s"
  "kmem.more (kmem_norm s) = kmem.more s" "locks (kmem_norm s) = locks s"
  by (simp_all add: kmem_norm_def)

lemma kmem_ready_norm [simp]: "kmem_ready (kmem_norm s) = kmem_ready s"
  by (simp add: kmem_ready_def) (simp add: kmem_norm_def)

lemma kmem_ready_upd [simp]:
  "kmem_ready (s\<lparr>k_mem := m\<rparr>) = kmem_ready s" "kmem_ready (s\<lparr>k_freelist := a\<rparr>) = kmem_ready s"
  by (simp_all add: kmem_ready_def)

lemma kalloc_eq:
  assumes "kmem_ready s"
  shows "kalloc s = Ret (k_freelist s)
    (kmem_norm (if k_freelist s \<noteq> 0 then s\<lparr>k_freelist := load32 (k_mem s) (k_freelist s)\<rparr> else s))"
proof -
  let ?t = "if k_freelist s \<noteq> 0 then s\<lparr>k_freelist := load32 (k_mem s) (k_freelist s)\<rparr> else s"
  have "kmem_ready ?t" using assms by simp
  from kmem_section(2) [OF this] kmem_section(1) [OF assms] show ?thesis
    by (simp add: kalloc_def Let_def split: if_splits)
qed

lemma kfree_eq:
  assumes "kmem_ready s" and "page_ok s v"
  shows "kfree v s = Ret () (kmem_norm (s\<lparr>
    k_mem := store32 (memset (k_mem s) v 1 PGSIZE) v (k_freelist s), k_freelist := v\<rparr>))"
proof -
  let ?s = "s\<lparr>k_mem := memset (k_mem s) v 1 PGSIZE\<rparr>"
  let ?t = "s\<lparr>k_mem := store32 (memset (k_mem s) v 1 PGSIZE) v (k_freelist s), k_freelist := v\<rparr>"
  have "kmem_ready ?s" and "kmem_ready ?t" using assms by simp_all
  from kmem_section(2) [OF this(2)] kmem_section(1) [OF this(1)] assms(2) show ?thesis
    by (simp add: kfree_def Let_def page_ok_def aligned_def not_le not_less split: if_splits)
qed

lemma page_ok_norm [simp]:
  "page_ok (kmem_norm s) = page_ok s" "page_ok (s\<lparr>k_mem := m\<rparr>) = page_ok s"
  "page_ok (s\<lparr>k_freelist := a\<rparr>) = page_ok s"
  by (auto simp: page_ok_def fun_eq_iff)

lemma chain_same_but:
  assumes "same_but v m m'" and "aligned v" and "\<forall>x \<in> set xs. aligned x" and "v \<notin> set xs"
  shows "chain (run_next m') a xs = chain (run_next m) a xs"
proof (rule chain_cong)
  fix p assume "p \<in> set xs"
  with assms(3,4) have "aligned p" and "p \<noteq> v" by auto
  then show "run_next m' p = run_next m p"
    using load32_same_but [OF assms(1) _ assms(2), of p] unfolding run_next_def by metis
qed

lemma free_pages_Nil: "free_pages s [] \<Longrightarrow> k_freelist s = 0"
  by (simp add: free_pages_def ptr_def split: if_splits)

lemma free_pages_Cons:
  "free_pages s (x # xs) \<Longrightarrow> k_freelist s = x \<and> x \<noteq> 0 \<and>
    chain (run_next (k_mem s)) (ptr (load32 (k_mem s) x)) xs"
  by (auto simp: free_pages_def ptr_def run_next_def page_ok_def split: if_splits)

lemma free_pages_norm [simp]: "free_pages (kmem_norm s) = free_pages s"
  by (simp add: free_pages_def fun_eq_iff)

lemma kalloc_free_pages:
  assumes "kmem_ready s" and "free_pages s xs"
  shows "\<exists>t. kalloc s = Ret (case xs of [] \<Rightarrow> 0 | x # _ \<Rightarrow> x) t \<and> free_pages t (tl xs) \<and> kmem_ready t \<and>
    page_ok t = page_ok s \<and> k_mem t = k_mem s \<and> kmem.more t = kmem.more s"
proof (cases xs)
  case Nil
  with assms free_pages_Nil show ?thesis by (auto simp: kalloc_eq)
next
  case (Cons x ys)
  with assms(2) have x: "k_freelist s = x" "x \<noteq> 0"
    and c: "chain (run_next (k_mem s)) (ptr (load32 (k_mem s) x)) ys"
    using free_pages_Cons by blast+
  let ?t = "s\<lparr>k_freelist := load32 (k_mem s) x\<rparr>"
  have "free_pages ?t ys" using assms(2) c Cons by (simp add: free_pages_def)
  with assms(1) x Cons show ?thesis by (simp add: kalloc_eq)
qed

lemma kfree_free_pages:
  assumes "kmem_ready s" and "free_pages s xs" and "page_ok s v" and "v \<notin> set xs"
  shows "\<exists>t. kfree v s = Ret () t \<and> free_pages t (v # xs) \<and> kmem_ready t \<and> page_ok t = page_ok s \<and>
    same_but v (k_mem s) (k_mem t) \<and> kmem.more t = kmem.more s"
proof -
  let ?m = "store32 (memset (k_mem s) v 1 PGSIZE) v (k_freelist s)"
  let ?t = "s\<lparr>k_mem := ?m, k_freelist := v\<rparr>"
  from assms have al: "aligned v" "\<forall>x \<in> set xs. aligned x" and v0: "v \<noteq> 0"
    by (auto simp: page_ok_def free_pages_def)
  have sb: "same_but v (k_mem s) ?m"
    using same_but_trans [OF same_but_memset same_but_store32] al(1) by blast
  have "chain (run_next ?m) (ptr (k_freelist s)) xs"
    using chain_same_but [OF sb al assms(4)] assms(2) by (simp add: free_pages_def)
  then have "free_pages ?t (v # xs)"
    using assms v0 by (auto simp: free_pages_def ptr_def run_next_def)
  with assms sb show ?thesis by (simp add: kfree_eq)
qed

section \<open>A page pool and its clients\<close>

text \<open>
  A client of the allocator: it asks for pages and gives back pages it owns, named by their
  position in the list of the pages it holds.
\<close>

datatype pool_req = AllocPage | FreePage nat

fun pool_client ::
  "('s \<Rightarrow> (uint, 's) kres) \<Rightarrow> (uint \<Rightarrow> 's \<Rightarrow> (unit, 's) kres) \<Rightarrow> pool_req list \<Rightarrow> uint list \<Rightarrow> 's \<Rightarrow>
   (uint list, 's) kres" where
  "pool_client alloc free [] owned s = Ret owned s"
| "pool_client alloc free (AllocPage # rs) owned s =
     bindK (alloc s) (\<lambda>r s. pool_client alloc free rs (if r = 0 then owned else r # owned) s)"
| "pool_client alloc free (FreePage i # rs) owned s =
     (if i < length owned
      then bindK (free (owned ! i) s) (\<lambda>_ s. pool_client alloc free rs (take i owned @ drop (Suc i) owned) s)
      else pool_client alloc free rs owned s)"

text \<open>The same requests served from a stack of pages: the pages held and the pages left.\<close>

fun pool_stack :: "pool_req list \<Rightarrow> uint list \<Rightarrow> uint list \<Rightarrow> uint list \<times> uint list" where
  "pool_stack [] owned xs = (owned, xs)"
| "pool_stack (AllocPage # rs) owned [] = pool_stack rs owned []"
| "pool_stack (AllocPage # rs) owned (x # xs) = pool_stack rs (x # owned) xs"
| "pool_stack (FreePage i # rs) owned xs =
     (if i < length owned then pool_stack rs (take i owned @ drop (Suc i) owned) (owned ! i # xs)
      else pool_stack rs owned xs)"

locale page_pool =
  fixes alloc :: "'s \<Rightarrow> (uint, 's) kres"
    and free :: "uint \<Rightarrow> 's \<Rightarrow> (unit, 's) kres"
    and pool :: "'s \<Rightarrow> uint list \<Rightarrow> bool"
    and valid :: "'s \<Rightarrow> uint \<Rightarrow> bool"
  assumes pool_valid: "pool s xs \<Longrightarrow> distinct xs \<and> 0 \<notin> set xs \<and> (\<forall>x \<in> set xs. valid s x)"
    and alloc_law: "pool s xs \<Longrightarrow>
      \<exists>t. alloc s = Ret (case xs of [] \<Rightarrow> 0 | x # _ \<Rightarrow> x) t \<and> pool t (tl xs) \<and> valid t = valid s"
    and free_law: "pool s xs \<Longrightarrow> valid s v \<Longrightarrow> v \<notin> set xs \<Longrightarrow>
      \<exists>t. free v s = Ret () t \<and> pool t (v # xs) \<and> valid t = valid s"
begin

lemma client_refines:
  assumes "pool s xs" and "distinct (owned @ xs)" and "\<forall>x \<in> set owned. valid s x"
  shows "\<exists>t. pool_client alloc free rs owned s = Ret (fst (pool_stack rs owned xs)) t \<and>
    pool t (snd (pool_stack rs owned xs))"
  using assms
proof (induction rs owned xs arbitrary: s rule: pool_stack.induct)
  case (2 rs owned)
  from alloc_law [OF 2(2)] obtain t where "alloc s = Ret 0 t" "pool t []" "valid t = valid s" by auto
  with 2(1) [of t] 2(3,4) show ?case by simp
next
  case (3 rs owned x xs)
  from alloc_law [OF 3(2)] obtain t where t: "alloc s = Ret x t" "pool t xs" "valid t = valid s" by auto
  have "x \<noteq> 0" "valid s x" using pool_valid [OF 3(2)] by auto
  with 3(1) [OF t(2)] 3(3,4) t show ?case by simp
next
  case (4 i rs owned xs)
  show ?case
  proof (cases "i < length owned")
    case True
    from True have "owned ! i \<in> set owned" by simp
    with 4(4,5) have "valid s (owned ! i)" and "owned ! i \<notin> set xs" by auto
    from free_law [OF 4(3) this] obtain t where
      t: "free (owned ! i) s = Ret () t" "pool t (owned ! i # xs)" "valid t = valid s" by blast
    have "distinct ((take i owned @ drop (Suc i) owned) @ owned ! i # xs)"
      using 4(4) by (subst (asm) id_take_nth_drop [OF True]) fastforce
    moreover have "\<forall>x \<in> set (take i owned @ drop (Suc i) owned). valid t x"
      using t(3) 4(5) by (auto dest: in_set_takeD in_set_dropD)
    ultimately show ?thesis using 4(1) [OF True t(2)] t(1) True by simp
  next
    case False
    with 4(2) [OF False 4(3-5)] show ?thesis by simp
  qed
qed auto

end

interpretation kp: page_pool kalloc kfree "\<lambda>s xs. free_pages s xs \<and> kmem_ready s" page_ok
proof
  fix s :: "'a kmem_scheme" and xs
  assume "free_pages s xs \<and> kmem_ready s"
  then show "distinct xs \<and> 0 \<notin> set xs \<and> (\<forall>x \<in> set xs. page_ok s x)"
    by (auto simp: free_pages_def page_ok_def)
next
  fix s :: "'a kmem_scheme" and xs
  assume "free_pages s xs \<and> kmem_ready s"
  with kalloc_free_pages [of s xs]
  show "\<exists>t. kalloc s = Ret (case xs of [] \<Rightarrow> 0 | x # _ \<Rightarrow> x) t \<and>
      (free_pages t (tl xs) \<and> kmem_ready t) \<and> page_ok t = page_ok s"
    by blast
next
  fix s :: "'a kmem_scheme" and xs v
  assume "free_pages s xs \<and> kmem_ready s" and "page_ok s v" and "v \<notin> set xs"
  with kfree_free_pages [of s xs v]
  show "\<exists>t. kfree v s = Ret () t \<and> (free_pages t (v # xs) \<and> kmem_ready t) \<and> page_ok t = page_ok s"
    by blast
qed

text \<open>A stack of pages loses, invents and doubles none.\<close>

lemma pool_stack_conserves:
  "mset (fst (pool_stack rs owned xs)) + mset (snd (pool_stack rs owned xs)) = mset owned + mset xs"
proof (induction rs owned xs rule: pool_stack.induct)
  case (4 i rs owned xs)
  show ?case
  proof (cases "i < length owned")
    case True
    have "mset (take i owned @ drop (Suc i) owned) + mset (owned ! i # xs) = mset owned + mset xs"
      by (subst (4) id_take_nth_drop [OF True]) simp
    with 4(1) [OF True] True show ?thesis by simp
  next
    case False
    with 4(2) show ?thesis by simp
  qed
qed auto

section \<open>Initialisation\<close>

lemma freerange_loop:
  assumes "kmem_ready s" and "free_pages s xs" and "n < fuel"
    and "unat p + 4096 * n \<le> unat vend" and "unat vend < unat p + 4096 * Suc n"
    and "unat vend + 4096 < 2 ^ 32"
    and "\<And>i. i < n \<Longrightarrow> page_ok s (p + of_nat (4096 * i)) \<and> p + of_nat (4096 * i) \<notin> set xs"
  shows "\<exists>t. loopK fuel (\<lambda>p s.
       if p + PGSIZE \<le> vend then bindK (kfree p s) (\<lambda>_ s. Ret (Inl (p + PGSIZE)) s)
       else Ret (Inr ()) s) p s = Ret () t \<and>
     free_pages t (rev (map (\<lambda>i. p + of_nat (4096 * i)) [0..<n]) @ xs) \<and> kmem_ready t"
  using assms
proof (induction n arbitrary: s xs p fuel)
  case 0
  then have "unat (p + 4096) = unat p + 4096" by (subst unat_add_lem [THEN iffD1]) simp_all
  with 0 have "\<not> p + 4096 \<le> vend" by (simp add: word_le_nat_alt)
  moreover from 0 obtain f where "fuel = Suc f" by (cases fuel) auto
  ultimately show ?case using 0 by simp
next
  case (Suc n)
  let ?q = "p + 4096"
  have uq: "unat ?q = unat p + 4096" using Suc.prems by (subst unat_add_lem [THEN iffD1]) simp_all
  with Suc.prems have le: "?q \<le> vend" by (simp add: word_le_nat_alt)
  have p: "page_ok s p" "p \<notin> set xs" using Suc.prems(7) [of 0] by simp_all
  from kfree_free_pages [OF Suc.prems(1,2) p] obtain t where
    t: "kfree p s = Ret () t" "free_pages t (p # xs)" "kmem_ready t" "page_ok t = page_ok s" by blast
  from Suc.prems(3) obtain f where f: "fuel = Suc f" "n < f" by (cases fuel) auto
  have q: "?q + of_nat (4096 * i) = p + of_nat (4096 * Suc i)" for i by (simp add: algebra_simps)
  have ne: "p + of_nat (4096 * Suc i) \<noteq> p" if "i < n" for i
  proof -
    have "4096 * Suc i < 2 ^ 32" using Suc.prems(4,6) that by simp
    then have "unat (of_nat (4096 * Suc i) :: uint) = 4096 * Suc i"
      unfolding unat_of_nat by simp
    then show ?thesis by (metis add_cancel_right_right mult_eq_0_iff nat.distinct(1) unat_0 zero_neq_numeral)
  qed
  have "page_ok t (?q + of_nat (4096 * i)) \<and> ?q + of_nat (4096 * i) \<notin> set (p # xs)" if "i < n" for i
    using Suc.prems(7) [of "Suc i"] that ne [OF that] t(4) unfolding q by simp
  from Suc.IH [OF t(3,2) f(2) _ _ Suc.prems(6) this] uq Suc.prems obtain u where
    u: "loopK f (\<lambda>p s. if p + PGSIZE \<le> vend then bindK (kfree p s) (\<lambda>_ s. Ret (Inl (p + PGSIZE)) s)
       else Ret (Inr ()) s) ?q t = Ret () u"
    "free_pages u (rev (map (\<lambda>i. ?q + of_nat (4096 * i)) [0..<n]) @ p # xs)" "kmem_ready u"
    by auto
  have "map (\<lambda>i. p + of_nat (4096 * i)) [0..<Suc n] = p # map (\<lambda>i. ?q + of_nat (4096 * i)) [0..<n]"
    unfolding q by (simp add: upt_conv_Cons map_Suc_upt [symmetric] del: upt_Suc map_Suc_upt)
  with u f t(1) le show ?case by simp
qed

text \<open>The addresses of the whole pages between two addresses.\<close>

definition range_pages :: "uint \<Rightarrow> uint \<Rightarrow> uint list" where
  "range_pages vstart vend = map (\<lambda>i. PGROUNDUP vstart + of_nat (4096 * i))
     [0..<(unat vend - unat (PGROUNDUP vstart)) div 4096]"

lemma and_not_mask_12: "(b :: uint) AND NOT (mask 12) = push_bit 12 (drop_bit 12 b)"
  by (rule bit_word_eqI) (auto simp: bit_simps)

lemma aligned_push_bit: "aligned (push_bit 12 b)"
proof -
  have "take_bit 12 (push_bit 12 b) = (0 :: uint)" by (simp add: take_bit_push_bit)
  then show ?thesis by (simp add: aligned_def take_bit_eq_mod)
qed

lemma aligned_PGROUNDUP: "aligned (PGROUNDUP a)"
proof -
  have "(4095 :: uint) = mask 12" by (simp add: mask_eq_exp_minus_1)
  then have "PGROUNDUP a = (a + 4095) AND NOT (mask 12)"
    unfolding PGROUNDUP_def by (simp add: algebra_simps)
  then show ?thesis by (simp only: and_not_mask_12 aligned_push_bit)
qed

section \<open>Properties\<close>

text \<open>A small pool for the witnesses: the pages 0x80200000 and 0x80201000 are free.\<close>

definition pool2 :: kmem where
  "pool2 = \<lparr>cpus = (\<lambda>i. \<lparr>c_apicid = of_nat i, c_started = 1, c_ncli = 0, c_intena = False,
              c_proc = None, c_if = True, c_cr3 = 0, c_esp0 = 0\<rparr>),
     ncpu = 1, cur = 0, locks = (\<lambda>_. \<lparr>l_locked = False, l_cpu = None\<rparr>),
     k_mem = store32 (\<lambda>_. 0) 0x80200000 0x80201000, k_use_lock = True,
     k_freelist = 0x80200000, k_end = 0x80112000\<rparr>"

lemma pool2_ok: "kmem_ready pool2" "free_pages pool2 [0x80200000, 0x80201000]"
proof -
  show "kmem_ready pool2"
    by (simp add: kmem_ready_def pool2_def cli_ok_def mach_wf_def inj_on_def)
  have "load32 (store32 (\<lambda>_. 0) 0x80200000 0x80201000) 0x80201000 = 0"
    by (simp add: load32_def store32_def)
  then show "free_pages pool2 [0x80200000, 0x80201000]"
    by (simp add: free_pages_def pool2_def run_next_def ptr_def page_ok_def aligned_def V2P_def)
qed

text \<open>
  C19. The allocator is a stack of pages.  \<open>kalloc\<close> returns the head of the free list and unlinks it,
  or returns 0 when the list is empty, and writes no memory.  Whatever requests a client makes, no
  call panics, the pages it holds and the free list are those of the stack, and together they are
  always the pages that were there at the start, each exactly once.
\<close>

theorem kalloc_stack:
  assumes "kmem_ready s" and "free_pages s xs"
  shows "(\<exists>t. kalloc s = Ret (case xs of [] \<Rightarrow> 0 | x # _ \<Rightarrow> x) t \<and> free_pages t (tl xs) \<and> k_mem t = k_mem s) \<and>
    (case pool_stack rs [] xs of (owned, ys) \<Rightarrow>
      (\<exists>t. pool_client kalloc kfree rs [] s = Ret owned t \<and> free_pages t ys \<and> kmem_ready t) \<and>
      distinct (owned @ ys) \<and> set (owned @ ys) = set xs)"
proof -
  obtain owned ys where p: "pool_stack rs [] xs = (owned, ys)" by fastforce
  have d: "distinct xs" using assms(2) by (simp add: free_pages_def)
  have "mset (owned @ ys) = mset xs" using pool_stack_conserves [of rs "[]" xs] p by simp
  then have "distinct (owned @ ys)" "set (owned @ ys) = set xs" using d mset_eq_imp_distinct_iff mset_eq_setD by blast+
  with kp.client_refines [of s xs "[]" rs] kalloc_free_pages [OF assms] assms d p show ?thesis by auto
qed

theorem kalloc_stack_witness:
  "\<exists>t. kalloc pool2 = Ret 0x80200000 t \<and>
     (\<exists>u. pool_client kalloc kfree [AllocPage, AllocPage, FreePage 1, AllocPage, AllocPage] [] pool2 =
        Ret [0x80200000, 0x80201000] u \<and> free_pages u [])"
  using kalloc_stack [OF pool2_ok, of "[AllocPage, AllocPage, FreePage 1, AllocPage, AllocPage]"]
  by auto

text \<open>
  C20. \<open>kfree\<close> accepts exactly the page-aligned addresses between the end of the kernel and the top
  of physical memory, and panics on every other one.  The freed page is the next that \<open>kalloc\<close>
  returns, and no byte of any other page changes.
\<close>

theorem kfree_guard_and_reuse:
  assumes "kmem_ready s" and "free_pages s xs" and "v \<notin> set xs"
  shows "if v mod PGSIZE = 0 \<and> k_end s \<le> v \<and> V2P v < PHYSTOP
    then \<exists>t u. kfree v s = Ret () t \<and> free_pages t (v # xs) \<and> kalloc t = Ret v u \<and> free_pages u xs \<and>
      (\<forall>x. unat x div 4096 \<noteq> unat v div 4096 \<longrightarrow> k_mem u x = k_mem s x)
    else kfree v s = Panic ''kfree''"
proof (cases "page_ok s v")
  case True
  from kfree_free_pages [OF assms(1,2) True assms(3)] obtain t where
    t: "kfree v s = Ret () t" "free_pages t (v # xs)" "kmem_ready t" "same_but v (k_mem s) (k_mem t)" by blast
  from kalloc_free_pages [OF t(3,2)] obtain u where
    "kalloc t = Ret v u" "free_pages u xs" "k_mem u = k_mem t" by auto
  with t True show ?thesis by (auto simp: page_ok_def aligned_def same_but_def page_of_def)
next
  case False
  then have n: "\<not> (v mod PGSIZE = 0 \<and> k_end s \<le> v \<and> V2P v < PHYSTOP)"
    unfolding page_ok_def aligned_def .
  then have "v mod PGSIZE \<noteq> 0 \<or> v < k_end s \<or> V2P v \<ge> PHYSTOP" by (metis not_le)
  then show ?thesis unfolding if_not_P [OF n] kfree_def by (rule if_P)
qed

theorem kfree_guard_and_reuse_witness:
  "kfree 0x80202000 pool2 \<noteq> Panic ''kfree'' \<and> kfree 0x80202004 pool2 = Panic ''kfree''"
  using kfree_guard_and_reuse [OF pool2_ok, where v = "0x80202000"] kfree_guard_and_reuse [OF pool2_ok, where v = "0x80202004"]
  by (auto simp: pool2_def V2P_def)

text \<open>
  C21. \<open>freerange\<close>, by which the kernel hands its memory to the allocator at boot, ends without
  panic and puts every whole page of the range on the free list, once, the highest first.
\<close>

theorem freerange_frees:
  assumes "kmem_ready s" and "free_pages s xs" and "unat vend + 4096 < 2 ^ 32"
    and "unat (PGROUNDUP vstart) \<le> unat vend"
    and "\<forall>v \<in> set (range_pages vstart vend). page_ok s v \<and> v \<notin> set xs"
  shows "\<exists>t. freerange vstart vend s = Ret () t \<and> free_pages t (rev (range_pages vstart vend) @ xs) \<and> kmem_ready t"
proof -
  let ?p = "PGROUNDUP vstart"
  let ?n = "(unat vend - unat ?p) div 4096"
  have "unat vend < 2 ^ 32" by (rule unat_lt_32)
  then have "?n < 2 ^ 20 + 1" by simp
  moreover have "unat ?p + 4096 * ?n \<le> unat vend" "unat vend < unat ?p + 4096 * Suc ?n"
    using assms(4) by simp_all
  ultimately show ?thesis
    using freerange_loop [OF assms(1,2), of ?n "2 ^ 20 + 1" ?p vend] assms(3,5)
    by (simp add: freerange_def range_pages_def)
qed

theorem freerange_frees_witness:
  "\<exists>t. freerange 0x80202001 0x80205000 pool2 = Ret () t \<and>
     free_pages t [0x80204000, 0x80203000, 0x80200000, 0x80201000]"
proof -
  have "range_pages 0x80202001 0x80205000 = [0x80203000, 0x80204000]"
    by (simp add: range_pages_def PGROUNDUP_def upt_conv_Cons)
  then show ?thesis
    using freerange_frees [OF pool2_ok, where vend = "0x80205000" and vstart = "0x80202001"]
    by (auto simp: PGROUNDUP_def page_ok_def pool2_def aligned_def V2P_def)
qed

end
