(* ===== verification/Vm.thy ===== *)
theory Vm
  imports Kalloc
begin

unbundle bit_operations_syntax

text \<open>
  Page tables, \<^verbatim>\<open>kernel/vm.c\<close>.  Page directories and page tables are pages of the byte memory,
  entries are 32-bit words of it, as in the code.  \<open>loaduvm\<close> reads an inode and \<open>switchuvm\<close> takes a
  process: they are in the theories of those components.  The messages printed by \<open>allocuvm\<close> are
  not modelled.
\<close>

section \<open>State\<close>

abbreviation (input) NPDENTRIES :: nat where "NPDENTRIES \<equiv> 1024"
abbreviation (input) PTE_P :: uint where "PTE_P \<equiv> 1"
abbreviation (input) PTE_W :: uint where "PTE_W \<equiv> 2"
abbreviation (input) PTE_U :: uint where "PTE_U \<equiv> 4"

definition PDX :: "uint \<Rightarrow> uint" where "PDX va = drop_bit 22 va AND 0x3FF"
definition PTX :: "uint \<Rightarrow> uint" where "PTX va = drop_bit 12 va AND 0x3FF"
definition PGADDR :: "uint \<Rightarrow> uint \<Rightarrow> uint \<Rightarrow> uint" where
  "PGADDR d t off = push_bit 22 d OR push_bit 12 t OR off"
definition PTE_ADDR :: "uint \<Rightarrow> uint" where "PTE_ADDR pte = pte AND NOT 0xFFF"
definition PTE_FLAGS :: "uint \<Rightarrow> uint" where "PTE_FLAGS pte = pte AND 0xFFF"

text \<open>\<open>vm_data\<close> is the address of the linker symbol \<open>data\<close>.\<close>

record vm = kmem +
  kpgdir :: uint
  vm_data :: uint

text \<open>\<open>struct kmap\<close> and the table of the kernel's mappings.\<close>

record kmap =
  km_virt :: uint
  km_phys_start :: uint
  km_phys_end :: uint
  km_perm :: uint

definition kmap_table :: "uint \<Rightarrow> kmap list" where
  "kmap_table data =
    [\<lparr>km_virt = KERNBASE, km_phys_start = 0, km_phys_end = EXTMEM, km_perm = PTE_W\<rparr>,
     \<lparr>km_virt = KERNLINK, km_phys_start = V2P KERNLINK, km_phys_end = V2P data, km_perm = 0\<rparr>,
     \<lparr>km_virt = data, km_phys_start = V2P data, km_phys_end = PHYSTOP, km_perm = PTE_W\<rparr>,
     \<lparr>km_virt = DEVSPACE, km_phys_start = DEVSPACE, km_phys_end = 0, km_perm = PTE_W\<rparr>]"

section \<open>Operations\<close>

text \<open>
  \<open>walkpgdir\<close> returns the address of the page table entry, or 0.  The branch that allocates is the
  only one that changes the state.
\<close>

definition walkpgdir :: "uint \<Rightarrow> uint \<Rightarrow> bool \<Rightarrow> 'a kmem_scheme \<Rightarrow> (uint, 'a kmem_scheme) kres" where
  "walkpgdir pgdir va alloc s =
     (let pde = pgdir + 4 * PDX va in
      if load32 (k_mem s) pde AND PTE_P \<noteq> 0
      then Ret (P2V (PTE_ADDR (load32 (k_mem s) pde)) + 4 * PTX va) s
      else if \<not> alloc then Ret 0 s
      else bindK (kalloc s) (\<lambda>pgtab s.
        if pgtab = 0 then Ret 0 s
        else
          let s = s\<lparr>k_mem := memset (k_mem s) pgtab 0 PGSIZE\<rparr>;
              s = s\<lparr>k_mem := store32 (k_mem s) pde (V2P pgtab OR PTE_P OR PTE_W OR PTE_U)\<rparr>
          in Ret (pgtab + 4 * PTX va) s))"

text \<open>
  \<open>mappages\<close>: at most \<open>2 ^ 20\<close> pages.  The loop ends at \<open>a = last\<close>, after wrapping round if
  \<open>last < a\<close>, so \<open>2 ^ 20\<close> rounds are always enough.
\<close>

definition mappages ::
  "uint \<Rightarrow> uint \<Rightarrow> uint \<Rightarrow> uint \<Rightarrow> uint \<Rightarrow> 'a kmem_scheme \<Rightarrow> (int, 'a kmem_scheme) kres" where
  "mappages pgdir va sz pa perm s =
     (let a = PGROUNDDOWN va; last = PGROUNDDOWN (va + sz - 1) in
      loopK (2 ^ 20) (\<lambda>(a, pa) s.
        bindK (walkpgdir pgdir a True s) (\<lambda>pte s.
        if pte = 0 then Ret (Inr (- 1)) s
        else if load32 (k_mem s) pte AND PTE_P \<noteq> 0 then Panic ''remap''
        else
          let s = s\<lparr>k_mem := store32 (k_mem s) pte (pa OR perm OR PTE_P)\<rparr> in
          if a = last then Ret (Inr 0) s
          else Ret (Inl (a + PGSIZE, pa + PGSIZE)) s)) (a, pa) s)"

definition deallocuvm :: "uint \<Rightarrow> uint \<Rightarrow> uint \<Rightarrow> 'a kmem_scheme \<Rightarrow> (uint, 'a kmem_scheme) kres" where
  "deallocuvm pgdir oldsz newsz s =
     (if newsz \<ge> oldsz then Ret oldsz s
      else loopK (2 ^ 20 + 1) (\<lambda>a s.
        if a < oldsz then
          bindK (walkpgdir pgdir a False s) (\<lambda>pte s.
          if pte = 0 then Ret (Inl (PGADDR (PDX a + 1) 0 0 - PGSIZE + PGSIZE)) s
          else if load32 (k_mem s) pte AND PTE_P \<noteq> 0 then
            let pa = PTE_ADDR (load32 (k_mem s) pte) in
            if pa = 0 then Panic ''kfree''
            else bindK (kfree (P2V pa) s) (\<lambda>_ s.
              Ret (Inl (a + PGSIZE)) (s\<lparr>k_mem := store32 (k_mem s) pte 0\<rparr>))
          else Ret (Inl (a + PGSIZE)) s)
        else Ret (Inr newsz) s) (PGROUNDUP newsz) s)"

definition freevm :: "uint \<Rightarrow> 'a kmem_scheme \<Rightarrow> (unit, 'a kmem_scheme) kres" where
  "freevm pgdir s =
     (if pgdir = 0 then Panic ''freevm: no pgdir''
      else bindK (deallocuvm pgdir KERNBASE 0 s) (\<lambda>_ s.
        bindK (forK [0..<NPDENTRIES] (\<lambda>i s.
          let pde = load32 (k_mem s) (pgdir + 4 * of_nat i) in
          if pde AND PTE_P \<noteq> 0 then kfree (P2V (PTE_ADDR pde)) s else Ret () s) s) (\<lambda>_ s.
        kfree pgdir s)))"

text \<open>The entries of \<open>kmap\<close> are mapped one after the other; the first failure undoes everything.\<close>

fun setupkvm_loop :: "uint \<Rightarrow> kmap list \<Rightarrow> 'a kmem_scheme \<Rightarrow> (uint, 'a kmem_scheme) kres" where
  "setupkvm_loop pgdir [] s = Ret pgdir s"
| "setupkvm_loop pgdir (k # ks) s =
     bindK (mappages pgdir (km_virt k) (km_phys_end k - km_phys_start k) (km_phys_start k) (km_perm k) s)
       (\<lambda>r s. if r < 0 then bindK (freevm pgdir s) (\<lambda>_ s. Ret 0 s) else setupkvm_loop pgdir ks s)"

definition setupkvm :: "'a vm_scheme \<Rightarrow> (uint, 'a vm_scheme) kres" where
  "setupkvm s =
     bindK (kalloc s) (\<lambda>pgdir s.
     if pgdir = 0 then Ret 0 s
     else
       let s = s\<lparr>k_mem := memset (k_mem s) pgdir 0 PGSIZE\<rparr> in
       if P2V PHYSTOP > DEVSPACE then Panic ''PHYSTOP too high''
       else setupkvm_loop pgdir (kmap_table (vm_data s)) s)"

definition switchkvm :: "'a vm_scheme \<Rightarrow> 'a vm_scheme" where
  "switchkvm s = cpu_upd (\<lambda>c. c\<lparr>c_cr3 := V2P (kpgdir s)\<rparr>) s"

definition kvmalloc :: "'a vm_scheme \<Rightarrow> (unit, 'a vm_scheme) kres" where
  "kvmalloc s =
     bindK (setupkvm s) (\<lambda>d s. Ret () (switchkvm (s\<lparr>kpgdir := d\<rparr>)))"

definition inituvm :: "uint \<Rightarrow> uint \<Rightarrow> uint \<Rightarrow> 'a kmem_scheme \<Rightarrow> (unit, 'a kmem_scheme) kres" where
  "inituvm pgdir init sz s =
     (if sz \<ge> PGSIZE then Panic ''inituvm: more than a page''
      else bindK (kalloc s) (\<lambda>mem s.
        let s = s\<lparr>k_mem := memset (k_mem s) mem 0 PGSIZE\<rparr> in
        bindK (mappages pgdir 0 PGSIZE (V2P mem) (PTE_W OR PTE_U) s) (\<lambda>_ s.
        Ret () (s\<lparr>k_mem := memmove (k_mem s) mem init sz\<rparr>))))"

definition allocuvm :: "uint \<Rightarrow> uint \<Rightarrow> uint \<Rightarrow> 'a kmem_scheme \<Rightarrow> (uint, 'a kmem_scheme) kres" where
  "allocuvm pgdir oldsz newsz s =
     (if newsz \<ge> KERNBASE then Ret 0 s
      else if newsz < oldsz then Ret oldsz s
      else loopK (2 ^ 20 + 1) (\<lambda>a s.
        if a < newsz then
          bindK (kalloc s) (\<lambda>mem s.
          if mem = 0 then bindK (deallocuvm pgdir newsz oldsz s) (\<lambda>_ s. Ret (Inr 0) s)
          else
            let s = s\<lparr>k_mem := memset (k_mem s) mem 0 PGSIZE\<rparr> in
            bindK (mappages pgdir a PGSIZE (V2P mem) (PTE_W OR PTE_U) s) (\<lambda>r s.
            if r < 0 then
              bindK (deallocuvm pgdir newsz oldsz s) (\<lambda>_ s. bindK (kfree mem s) (\<lambda>_ s. Ret (Inr 0) s))
            else Ret (Inl (a + PGSIZE)) s))
        else Ret (Inr newsz) s) (PGROUNDUP oldsz) s)"

definition clearpteu :: "uint \<Rightarrow> uint \<Rightarrow> 'a kmem_scheme \<Rightarrow> (unit, 'a kmem_scheme) kres" where
  "clearpteu pgdir uva s =
     bindK (walkpgdir pgdir uva False s) (\<lambda>pte s.
     if pte = 0 then Panic ''clearpteu''
     else Ret () (s\<lparr>k_mem := store32 (k_mem s) pte (load32 (k_mem s) pte AND NOT PTE_U)\<rparr>))"

definition copyuvm :: "uint \<Rightarrow> uint \<Rightarrow> 'a vm_scheme \<Rightarrow> (uint, 'a vm_scheme) kres" where
  "copyuvm pgdir sz s =
     bindK (setupkvm s) (\<lambda>d s.
     if d = 0 then Ret 0 s
     else loopK (2 ^ 20 + 1) (\<lambda>i s.
       if i < sz then
         bindK (walkpgdir pgdir i False s) (\<lambda>pte s.
         if pte = 0 then Panic ''copyuvm: pte should exist''
         else if load32 (k_mem s) pte AND PTE_P = 0 then Panic ''copyuvm: page not present''
         else
           let pa = PTE_ADDR (load32 (k_mem s) pte); flags = PTE_FLAGS (load32 (k_mem s) pte) in
           bindK (kalloc s) (\<lambda>mem s.
           if mem = 0 then bindK (freevm d s) (\<lambda>_ s. Ret (Inr 0) s)
           else
             let s = s\<lparr>k_mem := memmove (k_mem s) mem (P2V pa) PGSIZE\<rparr> in
             bindK (mappages d i PGSIZE (V2P mem) flags s) (\<lambda>r s.
             if r < 0 then
               bindK (kfree mem s) (\<lambda>_ s. bindK (freevm d s) (\<lambda>_ s. Ret (Inr 0) s))
             else Ret (Inl (i + PGSIZE)) s)))
       else Ret (Inr d) s) 0 s)"

text \<open>\<open>uva2ka\<close> reads the entry without testing the pointer: address 0 when there is no page table.\<close>

definition uva2ka :: "uint \<Rightarrow> uint \<Rightarrow> 'a kmem_scheme \<Rightarrow> (uint, 'a kmem_scheme) kres" where
  "uva2ka pgdir uva s =
     bindK (walkpgdir pgdir uva False s) (\<lambda>pte s.
     if pte = 0 then Fault
     else if load32 (k_mem s) pte AND PTE_P = 0 then Ret 0 s
     else if load32 (k_mem s) pte AND PTE_U = 0 then Ret 0 s
     else Ret (P2V (PTE_ADDR (load32 (k_mem s) pte))) s)"

definition copyout :: "uint \<Rightarrow> uint \<Rightarrow> uint \<Rightarrow> uint \<Rightarrow> 'a kmem_scheme \<Rightarrow> (int, 'a kmem_scheme) kres" where
  "copyout pgdir va p len s =
     loopK (2 ^ 20 + 2) (\<lambda>(va, buf, len) s.
       if len > 0 then
         let va0 = PGROUNDDOWN va in
         bindK (uva2ka pgdir va0 s) (\<lambda>pa0 s.
         if pa0 = 0 then Ret (Inr (- 1)) s
         else
           let n = PGSIZE - (va - va0);
               n = (if n > len then len else n);
               s = s\<lparr>k_mem := memmove (k_mem s) (pa0 + (va - va0)) buf n\<rparr>
           in Ret (Inl (va0 + PGSIZE, buf + n, len - n)) s)
       else Ret (Inr 0) s) (va, p, len) s"

end
