(* ===== verification/Proc.thy ===== *)
theory Proc
  imports Vm
begin

unbundle bit_operations_syntax

text \<open>
  Processes and the multilevel feedback queue scheduler, \<^verbatim>\<open>kernel/proc.c\<close> and
  \<^verbatim>\<open>kernel/proc.h\<close>.  A process is named by its index in \<open>ptable.proc\<close>; a null process pointer is
  \<open>None\<close>.  Every operation is modelled with its lock operations.

  A call of \<open>swtch\<close> ends the execution of one kernel thread and continues another.  A function that
  calls it is therefore modelled by two definitions: the part up to the call, which leaves the
  resume point in \<open>p_context\<close>, and the part from there on (suffix \<open>_in\<close> for a process thread,
  \<open>scheduler_back\<close> for the scheduler thread).  The saved registers on the kernel stack are abstracted
  to the resume point; the trap frame is a part of the byte memory, at the address \<open>p_tf\<close>.

  \<open>fork\<close>, \<open>exit\<close> and \<open>userinit\<close> also use files and inodes: their parts that hold \<open>ptable.lock\<close> are
  here, the rest is composed in theory \<open>Proc_Sys\<close>.
\<close>

section \<open>State\<close>

datatype procstate = UNUSED | EMBRYO | SLEEPING | RUNNABLE | RUNNING | ZOMBIE

text \<open>
  Where a kernel thread continues when the scheduler switches to it.  The Boolean is the local
  variable \<open>intena\<close> of the interrupted call of \<open>sched\<close>.
\<close>

datatype ctx =
    CtxNone
  | CtxForkret
  | CtxYield bool
  | CtxSleep lockid bool
  | CtxExit bool

text \<open>
  \<open>struct proc\<close>.  The priority only takes values below \<open>NPRIO\<close> and is a natural number; \<open>name\<close> holds
  the bytes before the terminator.
\<close>

record proc =
  p_sz :: uint
  p_pgdir :: uint
  p_kstack :: uint
  p_state :: procstate
  p_pid :: int
  p_parent :: "nat option"
  p_tf :: uint
  p_context :: ctx
  p_chan :: "chan option"
  p_killed :: bool
  p_ofile :: "nat \<Rightarrow> nat option"
  p_cwd :: "nat option"
  p_name :: "uchar list"
  p_priority :: nat
  p_ticks_running :: uint
  p_next_proc :: "nat option"

text \<open>\<open>ptable\<close>, the other variables of \<^verbatim>\<open>proc.c\<close>, and \<open>ticks\<close> of \<^verbatim>\<open>trap.c\<close>.\<close>

record pt = vm +
  procs :: "nat \<Rightarrow> proc"
  queue_first :: "nat \<Rightarrow> nat option"
  queue_last :: "nat \<Rightarrow> nat option"
  initproc :: "nat option"
  nextpid :: int
  forkret_first :: bool
  ticks :: uint

definition proc_upd :: "nat \<Rightarrow> (proc \<Rightarrow> proc) \<Rightarrow> 'a pt_scheme \<Rightarrow> 'a pt_scheme" where
  "proc_upd p f s = s\<lparr>procs := (procs s)(p := f (procs s p))\<rparr>"

section \<open>Ready queues\<close>

definition enqueue :: "nat \<Rightarrow> 'a pt_scheme \<Rightarrow> 'a pt_scheme" where
  "enqueue p s =
     (let prio = p_priority (procs s p);
          s = (case queue_last s prio of
                 Some q \<Rightarrow> proc_upd q (\<lambda>x. x\<lparr>p_next_proc := Some p\<rparr>) s
               | None \<Rightarrow> s\<lparr>queue_first := (queue_first s)(prio := Some p)\<rparr>);
          s = proc_upd p (\<lambda>x. x\<lparr>p_next_proc := None\<rparr>) s;
          s = s\<lparr>queue_last := (queue_last s)(prio := Some p)\<rparr>
      in proc_upd p (\<lambda>x. x\<lparr>p_state := RUNNABLE\<rparr>) s)"

text \<open>
  The search of \<open>dequeue\<close> for the process that points to \<open>p\<close>: \<open>Some None\<close> is the dereference of a
  null pointer, \<open>None\<close> a search that never ends.
\<close>

partial_function (option) find_prev ::
  "(nat \<Rightarrow> nat option) \<Rightarrow> nat \<Rightarrow> nat option \<Rightarrow> nat option option" where
  "find_prev nx p prev =
     (case prev of
        None \<Rightarrow> Some None
      | Some q \<Rightarrow> if nx q = Some p then Some (Some q) else find_prev nx p (nx q))"

definition dequeue :: "nat \<Rightarrow> 'a pt_scheme \<Rightarrow> (unit, 'a pt_scheme) kres" where
  "dequeue p s =
     (let prio = p_priority (procs s p) in
      bindK
        (if queue_first s prio = Some p
         then Ret None (s\<lparr>queue_first := (queue_first s)(prio := p_next_proc (procs s p))\<rparr>)
         else case find_prev (\<lambda>q. p_next_proc (procs s q)) p (queue_first s prio) of
                None \<Rightarrow> Spin
              | Some None \<Rightarrow> Fault
              | Some (Some q) \<Rightarrow>
                  Ret (Some q) (proc_upd q (\<lambda>x. x\<lparr>p_next_proc := p_next_proc (procs s p)\<rparr>) s))
        (\<lambda>previous_p s.
         Ret () (if queue_last s prio = Some p then s\<lparr>queue_last := (queue_last s)(prio := previous_p)\<rparr>
                 else s)))"

section \<open>Switching\<close>

definition pinit :: "'a pt_scheme \<Rightarrow> 'a pt_scheme" where
  "pinit s = initlock PtableLock s"

text \<open>\<open>switchuvm\<close> of \<^verbatim>\<open>vm.c\<close>: of the task state segment only \<open>esp0\<close> depends on the process.\<close>

definition switchuvm :: "nat option \<Rightarrow> 'a pt_scheme \<Rightarrow> (unit, 'a pt_scheme) kres" where
  "switchuvm po s =
     (case po of
        None \<Rightarrow> Panic ''switchuvm: no process''
      | Some p \<Rightarrow>
          if p_kstack (procs s p) = 0 then Panic ''switchuvm: no kstack''
          else if p_pgdir (procs s p) = 0 then Panic ''switchuvm: no pgdir''
          else
            bindK (pushcli s) (\<lambda>_ s.
            bindK (mycpu s) (\<lambda>i s.
            let s = cpu_at i (\<lambda>c. c\<lparr>c_esp0 := p_kstack (procs s p) + KSTACKSIZE\<rparr>) s;
                s = cpu_upd (\<lambda>c. c\<lparr>c_cr3 := V2P (p_pgdir (procs s p))\<rparr>) s
            in popcli s)))"

text \<open>\<open>sched\<close>, up to the switch to the scheduler and from the return on.\<close>

definition sched :: "(bool \<Rightarrow> ctx) \<Rightarrow> 'a pt_scheme \<Rightarrow> (unit, 'a pt_scheme) kres" where
  "sched k s =
     bindK (myproc s) (\<lambda>po s.
     bindK (holding PtableLock s) (\<lambda>h s.
     if \<not> h then Panic ''sched ptable.lock''
     else bindK (mycpu s) (\<lambda>i s.
       if c_ncli (cpus s i) \<noteq> 1 then Panic ''sched locks''
       else case po of
         None \<Rightarrow> Fault
       | Some p \<Rightarrow>
           if p_state (procs s p) = RUNNING then Panic ''sched running''
           else if readeflags s then Panic ''sched interruptible''
           else bindK (mycpu s) (\<lambda>i s.
             let intena = c_intena (cpus s i)
             in Ret () (proc_upd p (\<lambda>x. x\<lparr>p_context := k intena\<rparr>) s)))))"

definition sched_in :: "bool \<Rightarrow> 'a pt_scheme \<Rightarrow> (unit, 'a pt_scheme) kres" where
  "sched_in intena s =
     bindK (mycpu s) (\<lambda>i s. Ret () (cpu_at i (\<lambda>c. c\<lparr>c_intena := intena\<rparr>) s))"

text \<open>
  \<open>scheduler\<close>: the code before the loop; one round of the loop up to the switch to the chosen
  process, whose index is the result, or to the end of the round if no process is ready; and the
  rest of the round after the switch back.
\<close>

definition scheduler_start :: "'a pt_scheme \<Rightarrow> (nat, 'a pt_scheme) kres" where
  "scheduler_start s =
     bindK (mycpu s) (\<lambda>c s. Ret c (cpu_at c (\<lambda>x. x\<lparr>c_proc := None\<rparr>) s))"

fun scheduler_pick :: "nat \<Rightarrow> nat list \<Rightarrow> 'a pt_scheme \<Rightarrow> (nat option, 'a pt_scheme) kres" where
  "scheduler_pick c [] s = bindK (release PtableLock s) (\<lambda>_ s. Ret None s)"
| "scheduler_pick c (i # is) s =
     (case queue_first s i of
        None \<Rightarrow> scheduler_pick c is s
      | Some p \<Rightarrow>
          let s = cpu_at c (\<lambda>x. x\<lparr>c_proc := Some p\<rparr>) s in
          bindK (switchuvm (Some p) s) (\<lambda>_ s.
          bindK (dequeue p s) (\<lambda>_ s.
          Ret (Some p) (proc_upd p (\<lambda>x. x\<lparr>p_state := RUNNING\<rparr>) s))))"

definition scheduler_round :: "nat \<Rightarrow> 'a pt_scheme \<Rightarrow> (nat option, 'a pt_scheme) kres" where
  "scheduler_round c s =
     (let s = sti s in
      bindK (acquire PtableLock s) (\<lambda>_ s. scheduler_pick c [0..<NPRIO] s))"

definition scheduler_back :: "nat \<Rightarrow> 'a pt_scheme \<Rightarrow> (unit, 'a pt_scheme) kres" where
  "scheduler_back c s =
     (let s = switchkvm s;
          s = cpu_at c (\<lambda>x. x\<lparr>c_proc := None\<rparr>) s
      in release PtableLock s)"

section \<open>Giving up the processor, sleeping and waking\<close>

text \<open>
  \<open>yield\<close>.  The calls of \<open>myproc\<close> all run with \<open>ptable.lock\<close> held and return the same process; one
  call stands for them.
\<close>

definition yield :: "'a pt_scheme \<Rightarrow> (unit, 'a pt_scheme) kres" where
  "yield s =
     bindK (acquire PtableLock s) (\<lambda>_ s.
     bindK (myproc s) (\<lambda>po s.
     case po of
       None \<Rightarrow> Fault
     | Some p \<Rightarrow>
         let s = proc_upd p (\<lambda>x. x\<lparr>p_priority := p_priority x +
                   (if p_priority x = NPRIO - 1 then 0 else 1)\<rparr>) s;
             s = proc_upd p (\<lambda>x. x\<lparr>p_ticks_running := 0\<rparr>) s;
             s = enqueue p s
         in sched CtxYield s))"

definition yield_in :: "bool \<Rightarrow> 'a pt_scheme \<Rightarrow> (unit, 'a pt_scheme) kres" where
  "yield_in intena s = bindK (sched_in intena s) (\<lambda>_ s. release PtableLock s)"

text \<open>
  \<open>forkret\<close>: the initialisation of the file system, run by the first process, is a parameter.
\<close>

definition forkret ::
  "('a pt_scheme \<Rightarrow> (unit, 'a pt_scheme) kres) \<Rightarrow> 'a pt_scheme \<Rightarrow> (unit, 'a pt_scheme) kres" where
  "forkret init s =
     bindK (release PtableLock s) (\<lambda>_ s.
     if forkret_first s then init (s\<lparr>forkret_first := False\<rparr>) else Ret () s)"

text \<open>\<open>sleep\<close>; \<open>lk\<close> is null when it is \<open>None\<close>.\<close>

definition sleep :: "chan \<Rightarrow> lockid option \<Rightarrow> 'a pt_scheme \<Rightarrow> (unit, 'a pt_scheme) kres" where
  "sleep chan lko s =
     bindK (myproc s) (\<lambda>po s.
     case po of
       None \<Rightarrow> Panic ''sleep''
     | Some p \<Rightarrow>
         (case lko of
            None \<Rightarrow> Panic ''sleep without lk''
          | Some lk \<Rightarrow>
              bindK (if lk \<noteq> PtableLock
                     then bindK (acquire PtableLock s) (\<lambda>_ s. release lk s)
                     else Ret () s) (\<lambda>_ s.
              let s = proc_upd p (\<lambda>x. x\<lparr>p_chan := Some chan\<rparr>) s;
                  s = proc_upd p (\<lambda>x. x\<lparr>p_state := SLEEPING\<rparr>) s
              in sched (CtxSleep lk) s)))"

text \<open>After the switch back: the tidying up, then the reacquisition of the caller's lock.\<close>

definition sleep_wake :: "nat \<Rightarrow> lockid \<Rightarrow> bool \<Rightarrow> 'a pt_scheme \<Rightarrow> (unit, 'a pt_scheme) kres" where
  "sleep_wake p lk intena s =
     bindK (sched_in intena s) (\<lambda>_ s.
     let s = proc_upd p (\<lambda>x. x\<lparr>p_chan := None\<rparr>) s in
     if lk \<noteq> PtableLock then release PtableLock s else Ret () s)"

definition sleep_in :: "nat \<Rightarrow> lockid \<Rightarrow> bool \<Rightarrow> 'a pt_scheme \<Rightarrow> (unit, 'a pt_scheme) kres" where
  "sleep_in p lk intena s =
     bindK (sleep_wake p lk intena s) (\<lambda>_ s. if lk \<noteq> PtableLock then acquire lk s else Ret () s)"

fun wakeup1_loop :: "chan option \<Rightarrow> nat list \<Rightarrow> 'a pt_scheme \<Rightarrow> 'a pt_scheme" where
  "wakeup1_loop chan [] s = s"
| "wakeup1_loop chan (p # ps) s =
     wakeup1_loop chan ps
       (if p_state (procs s p) = SLEEPING \<and> p_chan (procs s p) = chan then enqueue p s else s)"

definition wakeup1 :: "chan option \<Rightarrow> 'a pt_scheme \<Rightarrow> 'a pt_scheme" where
  "wakeup1 chan s = wakeup1_loop chan [0..<NPROC] s"

definition wakeup :: "chan \<Rightarrow> 'a pt_scheme \<Rightarrow> (unit, 'a pt_scheme) kres" where
  "wakeup chan s =
     bindK (acquire PtableLock s) (\<lambda>_ s.
     release PtableLock (wakeup1 (Some chan) s))"

fun kill_loop :: "int \<Rightarrow> nat list \<Rightarrow> 'a pt_scheme \<Rightarrow> (int, 'a pt_scheme) kres" where
  "kill_loop pid [] s = bindK (release PtableLock s) (\<lambda>_ s. Ret (- 1) s)"
| "kill_loop pid (p # ps) s =
     (if p_pid (procs s p) = pid then
        let s = proc_upd p (\<lambda>x. x\<lparr>p_killed := True\<rparr>) s;
            s = (if p_state (procs s p) = SLEEPING then enqueue p s else s)
        in bindK (release PtableLock s) (\<lambda>_ s. Ret 0 s)
      else kill_loop pid ps s)"

definition kill :: "int \<Rightarrow> 'a pt_scheme \<Rightarrow> (int, 'a pt_scheme) kres" where
  "kill pid s = bindK (acquire PtableLock s) (\<lambda>_ s. kill_loop pid [0..<NPROC] s)"

section \<open>Priority boost\<close>

function first_non_empty :: "(nat \<Rightarrow> nat option) \<Rightarrow> nat \<Rightarrow> nat" where
  "first_non_empty qf i = (if i < NPRIO \<and> qf i = None then first_non_empty qf (i + 1) else i)"
  by pat_completeness auto

termination by (relation "measure (\<lambda>(qf, i). NPRIO - i)") auto

text \<open>The concatenation loop; \<open>lst\<close> is the local variable \<open>last\<close>.\<close>

fun boost_join :: "nat list \<Rightarrow> nat option \<Rightarrow> 'a pt_scheme \<Rightarrow> (nat option, 'a pt_scheme) kres" where
  "boost_join [] lst s = Ret lst s"
| "boost_join (i # is) lst s =
     (if queue_first s i \<noteq> None then
        (case lst of
           None \<Rightarrow> Fault
         | Some l \<Rightarrow>
             let s = proc_upd l (\<lambda>x. x\<lparr>p_next_proc := queue_first s i\<rparr>) s
             in boost_join is (queue_last s i) s)
      else boost_join is lst s)"

definition boost_queues :: "'a pt_scheme \<Rightarrow> (unit, 'a pt_scheme) kres" where
  "boost_queues s =
     (let s = fold (\<lambda>p. proc_upd p (\<lambda>x. x\<lparr>p_priority := 0\<rparr>)) [0..<NPROC] s;
          first_ne = first_non_empty (queue_first s) 0
      in bindK
        (if first_ne < NPRIO then
           let s = s\<lparr>queue_first := (queue_first s)(0 := queue_first s first_ne)\<rparr>;
               lst = queue_last s first_ne
           in bindK (boost_join [first_ne + 1..<NPRIO] lst s) (\<lambda>lst s.
              Ret () (s\<lparr>queue_last := (queue_last s)(0 := lst)\<rparr>))
         else Ret () s)
        (\<lambda>_ s. Ret () (fold (\<lambda>i s. s\<lparr>queue_first := (queue_first s)(i := None),
                                     queue_last := (queue_last s)(i := None)\<rparr>) [1..<NPRIO] s)))"

definition priority_boost :: "'a pt_scheme \<Rightarrow> (unit, 'a pt_scheme) kres" where
  "priority_boost s =
     bindK (acquire PtableLock s) (\<lambda>_ s.
     bindK (boost_queues s) (\<lambda>_ s.
     release PtableLock s))"

section \<open>Process creation, exit and wait\<close>

text \<open>
  \<open>allocproc\<close>: the scan under the lock, then the kernel stack.  A trap frame takes 76 bytes.
\<close>

fun find_unused :: "(nat \<Rightarrow> proc) \<Rightarrow> nat list \<Rightarrow> nat option" where
  "find_unused ps [] = None"
| "find_unused ps (p # rest) = (if p_state (ps p) = UNUSED then Some p else find_unused ps rest)"

definition claim_slot :: "nat \<Rightarrow> 'a pt_scheme \<Rightarrow> 'a pt_scheme" where
  "claim_slot p s =
     (let s = proc_upd p (\<lambda>x. x\<lparr>p_state := EMBRYO\<rparr>) s;
          s = proc_upd p (\<lambda>x. x\<lparr>p_pid := nextpid s\<rparr>) s;
          s = s\<lparr>nextpid := nextpid s + 1\<rparr>
      in proc_upd p (\<lambda>x. x\<lparr>p_priority := 0\<rparr>) s)"

definition alloc_slot :: "'a pt_scheme \<Rightarrow> (nat option, 'a pt_scheme) kres" where
  "alloc_slot s =
     bindK (acquire PtableLock s) (\<lambda>_ s.
     case find_unused (procs s) [0..<NPROC] of
       None \<Rightarrow> bindK (release PtableLock s) (\<lambda>_ s. Ret None s)
     | Some p \<Rightarrow> bindK (release PtableLock (claim_slot p s)) (\<lambda>_ s. Ret (Some p) s))"

definition allocproc :: "'a pt_scheme \<Rightarrow> (nat option, 'a pt_scheme) kres" where
  "allocproc s =
     bindK (alloc_slot s) (\<lambda>po s.
     case po of
       None \<Rightarrow> Ret None s
     | Some p \<Rightarrow>
         bindK (kalloc s) (\<lambda>k s.
         let s = proc_upd p (\<lambda>x. x\<lparr>p_kstack := k\<rparr>) s in
         if k = 0 then Ret None (proc_upd p (\<lambda>x. x\<lparr>p_state := UNUSED\<rparr>) s)
         else Ret (Some p) (proc_upd p (\<lambda>x. x\<lparr>p_tf := k + KSTACKSIZE - 76, p_context := CtxForkret\<rparr>) s)))"

definition growproc :: "int \<Rightarrow> 'a pt_scheme \<Rightarrow> (int, 'a pt_scheme) kres" where
  "growproc n s =
     bindK (myproc s) (\<lambda>po s.
     case po of
       None \<Rightarrow> Fault
     | Some p \<Rightarrow>
         let sz = p_sz (procs s p); pgdir = p_pgdir (procs s p) in
         bindK (if n > 0 then
                  bindK (allocuvm pgdir sz (sz + of_int n) s) (\<lambda>sz s. Ret (sz, sz = 0) s)
                else if n < 0 then
                  bindK (deallocuvm pgdir sz (sz + of_int n) s) (\<lambda>sz s. Ret (sz, sz = 0) s)
                else Ret (sz, False) s) (\<lambda>(sz, fail) s.
         if fail then Ret (- 1) s
         else
           bindK (switchuvm (Some p) (proc_upd p (\<lambda>x. x\<lparr>p_sz := sz\<rparr>) s)) (\<lambda>_ s. Ret 0 s)))"

text \<open>The end of \<open>fork\<close> and of \<open>userinit\<close>: the new process becomes ready.\<close>

definition make_ready :: "nat \<Rightarrow> 'a pt_scheme \<Rightarrow> (unit, 'a pt_scheme) kres" where
  "make_ready np s =
     bindK (acquire PtableLock s) (\<lambda>_ s. release PtableLock (enqueue np s))"

text \<open>\<open>exit\<close> from the acquisition of \<open>ptable.lock\<close> on.\<close>

fun reparent :: "nat \<Rightarrow> nat list \<Rightarrow> 'a pt_scheme \<Rightarrow> 'a pt_scheme" where
  "reparent cp [] s = s"
| "reparent cp (p # ps) s =
     reparent cp ps
       (if p_parent (procs s p) = Some cp then
          let s = proc_upd p (\<lambda>x. x\<lparr>p_parent := initproc s\<rparr>) s in
          if p_state (procs s p) = ZOMBIE then wakeup1 (map_option ChanProc (initproc s)) s else s
        else s)"

definition exit_final :: "nat \<Rightarrow> 'a pt_scheme \<Rightarrow> (unit, 'a pt_scheme) kres" where
  "exit_final cp s =
     bindK (acquire PtableLock s) (\<lambda>_ s.
     let s = wakeup1 (map_option ChanProc (p_parent (procs s cp))) s;
         s = reparent cp [0..<NPROC] s;
         s = proc_upd cp (\<lambda>x. x\<lparr>p_state := ZOMBIE\<rparr>) s
     in sched CtxExit s)"

text \<open>
  \<open>wait\<close>.  The scan returns the process identifier of a reaped child (\<open>Inl\<close>), the lock released,
  or the flag \<open>havekids\<close> (\<open>Inr\<close>) with the lock still held.  A round that finds nothing to reap goes
  to sleep, result \<open>None\<close>; \<open>wait_in\<close> is the next round after the wakeup.
\<close>

fun wait_scan :: "nat \<Rightarrow> nat list \<Rightarrow> bool \<Rightarrow> 'a pt_scheme \<Rightarrow> (int + bool, 'a pt_scheme) kres" where
  "wait_scan cp [] havekids s = Ret (Inr havekids) s"
| "wait_scan cp (p # ps) havekids s =
     (if p_parent (procs s p) \<noteq> Some cp then wait_scan cp ps havekids s
      else if p_state (procs s p) = ZOMBIE then
        let pid = p_pid (procs s p) in
        bindK (kfree (p_kstack (procs s p)) s) (\<lambda>_ s.
        let s = proc_upd p (\<lambda>x. x\<lparr>p_kstack := 0\<rparr>) s in
        bindK (freevm (p_pgdir (procs s p)) s) (\<lambda>_ s.
        let s = proc_upd p (\<lambda>x. x\<lparr>p_pid := 0, p_parent := None, p_name := [], p_killed := False,
                  p_state := UNUSED\<rparr>) s
        in bindK (release PtableLock s) (\<lambda>_ s. Ret (Inl pid) s)))
      else wait_scan cp ps True s)"

definition wait_round :: "nat \<Rightarrow> 'a pt_scheme \<Rightarrow> (int option, 'a pt_scheme) kres" where
  "wait_round cp s =
     bindK (wait_scan cp [0..<NPROC] False s) (\<lambda>r s.
     case r of
       Inl pid \<Rightarrow> Ret (Some pid) s
     | Inr havekids \<Rightarrow>
         if \<not> havekids \<or> p_killed (procs s cp)
         then bindK (release PtableLock s) (\<lambda>_ s. Ret (Some (- 1)) s)
         else bindK (sleep (ChanProc cp) (Some PtableLock) s) (\<lambda>_ s. Ret None s))"

definition wait :: "'a pt_scheme \<Rightarrow> (int option, 'a pt_scheme) kres" where
  "wait s =
     bindK (myproc s) (\<lambda>po s.
     bindK (acquire PtableLock s) (\<lambda>_ s.
     case po of None \<Rightarrow> Fault | Some cp \<Rightarrow> wait_round cp s))"

definition wait_in :: "nat \<Rightarrow> bool \<Rightarrow> 'a pt_scheme \<Rightarrow> (int option, 'a pt_scheme) kres" where
  "wait_in cp intena s =
     bindK (sleep_in cp PtableLock intena s) (\<lambda>_ s. wait_round cp s)"

text \<open>A slot of the process table before its first use.\<close>

definition idle_proc :: proc where
  "idle_proc = \<lparr>p_sz = 0, p_pgdir = 0, p_kstack = 0, p_state = UNUSED, p_pid = 0, p_parent = None, p_tf = 0,
     p_context = CtxNone, p_chan = None, p_killed = False, p_ofile = (\<lambda>_. None), p_cwd = None, p_name = [],
     p_priority = 0, p_ticks_running = 0, p_next_proc = None\<rparr>"

end
