(* ===== verification/Mlfq.thy ===== *)
theory Mlfq
  imports Proc
begin

text \<open>
  The ready queues of \<^verbatim>\<open>kernel/proc.c\<close> as lists.  \<open>rqueues s Q\<close> says that the pointers of the
  process table represent the lists \<open>Q 0\<close>, \<open>Q 1\<close>, \<open>Q 2\<close>; each pointer operation is shown to implement
  the obvious operation on lists.  The interface between the queues and their users is the locale
  \<open>ready_lists\<close>.
\<close>

section \<open>Representation\<close>

definition nxt :: "'a pt_scheme \<Rightarrow> nat \<Rightarrow> nat option" where
  "nxt s q = p_next_proc (procs s q)"

definition prio :: "'a pt_scheme \<Rightarrow> nat \<Rightarrow> nat" where
  "prio s p = p_priority (procs s p)"

definition pstate :: "'a pt_scheme \<Rightarrow> nat \<Rightarrow> procstate" where
  "pstate s p = p_state (procs s p)"

definition rqueue :: "'a pt_scheme \<Rightarrow> nat \<Rightarrow> nat list \<Rightarrow> bool" where
  "rqueue s i xs \<longleftrightarrow> chain (nxt s) (queue_first s i) xs \<and> distinct xs \<and>
     queue_last s i = (if xs = [] then None else Some (last xs))"

definition rqueues :: "'a pt_scheme \<Rightarrow> (nat \<Rightarrow> nat list) \<Rightarrow> bool" where
  "rqueues s Q \<longleftrightarrow>
     (\<forall>i < NPRIO. rqueue s i (Q i) \<and> (\<forall>p \<in> set (Q i). p < NPROC \<and> prio s p = i))"

lemma rqueuesD:
  assumes "rqueues s Q" and "i < NPRIO"
  shows "chain (nxt s) (queue_first s i) (Q i)" and "distinct (Q i)"
    and "queue_last s i = (if Q i = [] then None else Some (last (Q i)))"
    and "p \<in> set (Q i) \<Longrightarrow> p < NPROC" and "p \<in> set (Q i) \<Longrightarrow> prio s p = i"
  using assms by (auto simp: rqueues_def rqueue_def)

lemma rqueuesI:
  assumes "\<And>i. i < NPRIO \<Longrightarrow> chain (nxt s) (queue_first s i) (Q i)"
    and "\<And>i. i < NPRIO \<Longrightarrow> distinct (Q i)"
    and "\<And>i. i < NPRIO \<Longrightarrow> queue_last s i = (if Q i = [] then None else Some (last (Q i)))"
    and "\<And>i p. i < NPRIO \<Longrightarrow> p \<in> set (Q i) \<Longrightarrow> p < NPROC"
    and "\<And>i p. i < NPRIO \<Longrightarrow> p \<in> set (Q i) \<Longrightarrow> prio s p = i"
  shows "rqueues s Q"
  using assms by (simp add: rqueues_def rqueue_def)

text \<open>The pointers determine the lists.\<close>

lemma rqueues_fun: "rqueues s Q \<Longrightarrow> rqueues s R \<Longrightarrow> i < NPRIO \<Longrightarrow> Q i = R i"
  using chain_fun rqueuesD(1) by blast

lemma rqueues_cong:
  assumes "rqueues s Q" and "nxt t = nxt s" and "prio t = prio s"
    and "queue_first t = queue_first s" and "queue_last t = queue_last s"
  shows "rqueues t Q"
  using assms by (simp add: rqueues_def rqueue_def)

lemma sel_proc_upd [simp]:
  "procs (proc_upd p f s) = (procs s)(p := f (procs s p))"
  "queue_first (proc_upd p f s) = queue_first s" "queue_last (proc_upd p f s) = queue_last s"
  "pt.more (proc_upd p f s) = pt.more s" "initproc (proc_upd p f s) = initproc s"
  "nextpid (proc_upd p f s) = nextpid s" "forkret_first (proc_upd p f s) = forkret_first s"
  "ticks (proc_upd p f s) = ticks s" "cur (proc_upd p f s) = cur s" "ncpu (proc_upd p f s) = ncpu s"
  "cpus (proc_upd p f s) = cpus s" "locks (proc_upd p f s) = locks s" "k_mem (proc_upd p f s) = k_mem s"
  "k_freelist (proc_upd p f s) = k_freelist s" "k_use_lock (proc_upd p f s) = k_use_lock s"
  "k_end (proc_upd p f s) = k_end s" "kpgdir (proc_upd p f s) = kpgdir s" "vm_data (proc_upd p f s) = vm_data s"
  by (simp_all add: proc_upd_def)

section \<open>What the queue operations leave alone\<close>

text \<open>A process without the fields that belong to scheduling.\<close>

definition pcore :: "proc \<Rightarrow> proc" where
  "pcore x = x\<lparr>p_next_proc := None, p_priority := 0, p_state := UNUSED\<rparr>"

definition sched_frame :: "'a pt_scheme \<Rightarrow> 'a pt_scheme \<Rightarrow> bool" where
  "sched_frame s t \<longleftrightarrow> (\<forall>q. pcore (procs t q) = pcore (procs s q)) \<and>
     t\<lparr>procs := procs s, queue_first := queue_first s, queue_last := queue_last s\<rparr> = s"

lemma pcore_upd [simp]:
  "pcore (x\<lparr>p_next_proc := n\<rparr>) = pcore x" "pcore (x\<lparr>p_priority := k\<rparr>) = pcore x"
  "pcore (x\<lparr>p_state := st\<rparr>) = pcore x"
  by (simp_all add: pcore_def)

lemma pcore_eqD:
  assumes "pcore y = pcore x"
  shows "p_sz y = p_sz x" "p_pgdir y = p_pgdir x" "p_kstack y = p_kstack x" "p_pid y = p_pid x"
    "p_parent y = p_parent x" "p_tf y = p_tf x" "p_context y = p_context x" "p_chan y = p_chan x"
    "p_killed y = p_killed x" "p_ofile y = p_ofile x" "p_cwd y = p_cwd x" "p_name y = p_name x"
    "p_ticks_running y = p_ticks_running x"
  using assms by (cases x, cases y, simp add: pcore_def)+

lemma sched_frame_refl [simp]: "sched_frame s s"
  by (simp add: sched_frame_def)

lemma sched_frame_trans: "sched_frame s t \<Longrightarrow> sched_frame t u \<Longrightarrow> sched_frame s u"
  by (cases s, cases t, cases u) (auto simp: sched_frame_def)

lemma sched_frame_proc_upd:
  "(\<And>x. pcore (f x) = pcore x) \<Longrightarrow> sched_frame s (proc_upd p f s)"
  by (simp add: sched_frame_def proc_upd_def)

lemma sched_frameD:
  assumes "sched_frame s t"
  shows "cpus t = cpus s" "ncpu t = ncpu s" "cur t = cur s" "locks t = locks s" "k_mem t = k_mem s"
    "k_use_lock t = k_use_lock s" "k_freelist t = k_freelist s" "k_end t = k_end s"
    "kpgdir t = kpgdir s" "vm_data t = vm_data s" "initproc t = initproc s" "nextpid t = nextpid s"
    "forkret_first t = forkret_first s" "ticks t = ticks s" "pt.more t = pt.more s"
    "pcore (procs t q) = pcore (procs s q)"
  using assms by (cases s, cases t, auto simp: sched_frame_def)+

lemma sched_frame_enqueue: "sched_frame s (enqueue p s)"
  by (auto simp: sched_frame_def enqueue_def Let_def proc_upd_def split: option.splits)

section \<open>\<open>enqueue\<close>\<close>

lemma enqueue_first:
  "queue_first (enqueue p s) = (if queue_last s (prio s p) = None
     then (queue_first s)(prio s p := Some p) else queue_first s)"
  by (auto simp: enqueue_def Let_def prio_def split: option.splits)

lemma enqueue_last: "queue_last (enqueue p s) = (queue_last s)(prio s p := Some p)"
  by (auto simp: enqueue_def Let_def prio_def split: option.splits)

lemma enqueue_nxt:
  "nxt (enqueue p s) = (case queue_last s (prio s p) of
     Some q \<Rightarrow> (nxt s)(q := Some p, p := None) | None \<Rightarrow> (nxt s)(p := None))"
  by (auto simp: enqueue_def Let_def prio_def nxt_def fun_eq_iff split: option.splits)

lemma enqueue_prio [simp]: "prio (enqueue p s) = prio s"
  by (auto simp: enqueue_def Let_def prio_def fun_eq_iff split: option.splits)

lemma enqueue_pstate [simp]: "pstate (enqueue p s) = (pstate s)(p := RUNNABLE)"
  by (auto simp: enqueue_def Let_def pstate_def fun_eq_iff split: option.splits)

lemma rqueues_enqueue:
  assumes rq: "rqueues s Q" and p: "p < NPROC" "prio s p < NPRIO" "p \<notin> set (Q (prio s p))"
  shows "rqueues (enqueue p s) (Q(prio s p := Q (prio s p) @ [p]))"
proof (rule rqueuesI)
  fix i assume i: "i < NPRIO"
  note D = rqueuesD [OF rq]
  let ?k = "prio s p"
  have out: "p \<notin> set (Q i)" if "i \<noteq> ?k" using D(5) [OF i, of p] that by auto
  have last_out: "last (Q ?k) \<notin> set (Q i)" if "i \<noteq> ?k" "Q ?k \<noteq> []"
    using D(5) [OF i] D(5) [OF p(2) last_in_set] that by metis
  show "chain (nxt (enqueue p s)) (queue_first (enqueue p s) i) ((Q(?k := Q ?k @ [p])) i)"
  proof (cases "Q ?k = []")
    case True
    then show ?thesis
      using D(1) [OF i] D(3) [OF p(2)] out by (auto simp: enqueue_nxt enqueue_first)
  next
    case False
    then show ?thesis
      using D(1) [OF i] D(3) [OF p(2)] D(2) [OF p(2)] out last_out p(3)
        chain_snoc [OF D(1) [OF p(2)] p(3) D(2) [OF p(2)] False]
      by (auto simp: enqueue_nxt enqueue_first)
  qed
  show "distinct ((Q(?k := Q ?k @ [p])) i)" using D(2) [OF i] D(2) [OF p(2)] p(3) by auto
  show "queue_last (enqueue p s) i =
      (if (Q(?k := Q ?k @ [p])) i = [] then None else Some (last ((Q(?k := Q ?k @ [p])) i)))"
    using D(3) [OF i] by (simp add: enqueue_last)
  fix q assume "q \<in> set ((Q(?k := Q ?k @ [p])) i)"
  then show "q < NPROC" and "prio (enqueue p s) q = i"
    using D(4,5) [OF i, of q] D(4,5) [OF p(2), of q] p by (auto split: if_splits)
qed

section \<open>\<open>dequeue\<close>\<close>

lemma find_prev_chain:
  assumes "chain nx x (xs @ q # p # ys)" and "distinct (xs @ q # p # ys)"
  shows "find_prev nx p x = Some (Some q)"
  using assms
proof (induction xs arbitrary: x)
  case Nil
  then show ?case by (subst find_prev.simps) simp
next
  case (Cons r rs)
  then have "nx r \<noteq> Some p" by (cases rs) auto
  moreover have "find_prev nx p (nx r) = Some (Some q)" using Cons by simp
  ultimately show ?case using Cons.prems by (subst find_prev.simps) simp
qed

lemma dequeue_first_eq:
  assumes "rqueues s Q" and "prio s p < NPRIO" and "Q (prio s p) = p # xs"
  shows "\<exists>t. dequeue p s = Ret () t \<and> rqueues t (Q(prio s p := xs)) \<and> sched_frame s t \<and> pstate t = pstate s \<and> prio t = prio s"
proof -
  let ?k = "prio s p"
  note D = rqueuesD [OF assms(1)]
  let ?s = "s\<lparr>queue_first := (queue_first s)(?k := nxt s p)\<rparr>"
  let ?t = "if queue_last s ?k = Some p then ?s\<lparr>queue_last := (queue_last s)(?k := None)\<rparr> else ?s"
  from D(1) [OF assms(2)] assms(3) have f: "queue_first s ?k = Some p" and c: "chain (nxt s) (nxt s p) xs"
    by auto
  have d: "dequeue p s = Ret () ?t"
    using f by (simp add: dequeue_def Let_def prio_def nxt_def)
  have n: "nxt ?t = nxt s" "prio ?t = prio s" by (simp_all add: nxt_def prio_def fun_eq_iff)
  have l: "queue_last s ?k = Some p \<longleftrightarrow> xs = []"
    using D(3) [OF assms(2)] D(2) [OF assms(2)] assms(3) by auto
  have "rqueues ?t (Q(?k := xs))"
  proof (rule rqueuesI)
    fix i assume i: "i < NPRIO"
    show "chain (nxt ?t) (queue_first ?t i) ((Q(?k := xs)) i)"
      using c D(1) [OF i] unfolding n by auto
    show "distinct ((Q(?k := xs)) i)" using D(2) [OF i] assms(3) by auto
    show "queue_last ?t i = (if (Q(?k := xs)) i = [] then None else Some (last ((Q(?k := xs)) i)))"
      using D(3) [OF i] assms(3) l by auto
    fix q assume "q \<in> set ((Q(?k := xs)) i)"
    then show "q < NPROC" and "prio ?t q = i"
      using D(4,5) [OF i, of q] assms(3) unfolding n by (auto split: if_splits)
  qed
  moreover have "sched_frame s ?t" "pstate ?t = pstate s"
    by (simp_all add: sched_frame_def pstate_def fun_eq_iff)
  ultimately show ?thesis using d n(2) by blast
qed

lemma dequeue_middle_eq:
  assumes "rqueues s Q" and "prio s p < NPRIO" and "Q (prio s p) = xs @ q # p # ys"
  shows "\<exists>t. dequeue p s = Ret () t \<and> rqueues t (Q(prio s p := xs @ q # ys)) \<and>
    sched_frame s t \<and> pstate t = pstate s \<and> prio t = prio s"
proof -
  let ?k = "prio s p"
  note D = rqueuesD [OF assms(1)]
  let ?s = "proc_upd q (\<lambda>x. x\<lparr>p_next_proc := nxt s p\<rparr>) s"
  let ?t = "if queue_last s ?k = Some p then ?s\<lparr>queue_last := (queue_last s)(?k := Some q)\<rparr> else ?s"
  have c: "chain (nxt s) (queue_first s ?k) (xs @ q # p # ys)" and ds: "distinct (xs @ q # p # ys)"
    using D(1,2) [OF assms(2)] assms(3) by simp_all
  from c ds have f: "queue_first s ?k \<noteq> Some p" by (cases xs) auto
  from find_prev_chain [OF c ds]
  have "find_prev (\<lambda>q. p_next_proc (procs s q)) p (queue_first s ?k) = Some (Some q)"
    by (simp add: nxt_def [abs_def])
  then have d: "dequeue p s = Ret () ?t"
    using f by (simp add: dequeue_def Let_def prio_def nxt_def)
  have n: "nxt ?t = (nxt s)(q := nxt s p)" "prio ?t = prio s" "pstate ?t = pstate s"
    by (auto simp: nxt_def prio_def pstate_def fun_eq_iff)
  have l: "queue_last s ?k = Some p \<longleftrightarrow> ys = []"
    using D(3) [OF assms(2)] ds assms(3) by auto
  have q_out: "q \<notin> set (Q i)" if "i < NPRIO" "i \<noteq> ?k" for i
    using D(5) [OF that(1), of q] D(5) [OF assms(2), of q] assms(3) that(2) by auto
  have "rqueues ?t (Q(?k := xs @ q # ys))"
  proof (rule rqueuesI)
    fix i assume i: "i < NPRIO"
    show "chain (nxt ?t) (queue_first ?t i) ((Q(?k := xs @ q # ys)) i)"
      using chain_unlink [OF c ds] D(1) [OF i] q_out [OF i] unfolding n by auto
    show "distinct ((Q(?k := xs @ q # ys)) i)" using D(2) [OF i] ds by auto
    show "queue_last ?t i =
        (if (Q(?k := xs @ q # ys)) i = [] then None else Some (last ((Q(?k := xs @ q # ys)) i)))"
      using D(3) [OF i] assms(3) l by auto
    fix r assume "r \<in> set ((Q(?k := xs @ q # ys)) i)"
    then show "r < NPROC" and "prio ?t r = i"
      using D(4,5) [OF i, of r] assms(3) unfolding n by (auto split: if_splits)
  qed
  moreover have "sched_frame s ?t" by (simp add: sched_frame_def proc_upd_def)
  ultimately show ?thesis using d n by blast
qed

lemma rqueues_dequeue:
  assumes "rqueues s Q" and "prio s p < NPRIO" and "p \<in> set (Q (prio s p))"
  shows "\<exists>t. dequeue p s = Ret () t \<and> rqueues t (Q(prio s p := remove1 p (Q (prio s p)))) \<and>
    sched_frame s t \<and> pstate t = pstate s \<and> prio t = prio s"
proof -
  from split_list [OF assms(3)] obtain xs ys where e: "Q (prio s p) = xs @ p # ys" by blast
  with rqueuesD(2) [OF assms(1,2)] have r: "remove1 p (Q (prio s p)) = xs @ ys"
    by (simp add: remove1_append)
  show ?thesis
  proof (cases xs rule: rev_cases)
    case Nil
    with dequeue_first_eq [OF assms(1,2)] e r show ?thesis by simp
  next
    case (snoc zs q)
    with dequeue_middle_eq [OF assms(1,2), of zs q ys] e r show ?thesis by simp
  qed
qed

section \<open>The interface of the ready queues\<close>

text \<open>
  What the users of the queues rely on: \<open>enq\<close> appends a process to the list of its priority, \<open>deq\<close>
  removes it from there, and neither changes a priority.
\<close>

locale ready_lists =
  fixes view :: "'s \<Rightarrow> (nat \<Rightarrow> nat list) \<Rightarrow> bool"
    and prio_of :: "'s \<Rightarrow> nat \<Rightarrow> nat"
    and enq :: "nat \<Rightarrow> 's \<Rightarrow> 's"
    and deq :: "nat \<Rightarrow> 's \<Rightarrow> (unit, 's) kres"
  assumes view_distinct: "view s Q \<Longrightarrow> i < NPRIO \<Longrightarrow> distinct (Q i)"
    and view_prio: "view s Q \<Longrightarrow> i < NPRIO \<Longrightarrow> p \<in> set (Q i) \<Longrightarrow> prio_of s p = i"
    and enq_law: "view s Q \<Longrightarrow> p < NPROC \<Longrightarrow> prio_of s p < NPRIO \<Longrightarrow> p \<notin> set (Q (prio_of s p)) \<Longrightarrow>
      view (enq p s) (Q(prio_of s p := Q (prio_of s p) @ [p])) \<and> prio_of (enq p s) = prio_of s"
    and deq_law: "view s Q \<Longrightarrow> prio_of s p < NPRIO \<Longrightarrow> p \<in> set (Q (prio_of s p)) \<Longrightarrow>
      \<exists>t. deq p s = Ret () t \<and> view t (Q(prio_of s p := remove1 p (Q (prio_of s p)))) \<and>
        prio_of t = prio_of s"
begin

text \<open>Enqueueing several processes appends each to its list, in their order.\<close>

lemma enq_many:
  assumes "view s Q" and "distinct ps"
    and "\<And>p. p \<in> set ps \<Longrightarrow> p < NPROC \<and> prio_of s p < NPRIO \<and> p \<notin> set (Q (prio_of s p))"
  shows "view (fold enq ps s) (\<lambda>i. Q i @ filter (\<lambda>p. prio_of s p = i) ps) \<and>
    prio_of (fold enq ps s) = prio_of s"
  using assms
proof (induction ps arbitrary: s Q)
  case (Cons p ps)
  let ?k = "prio_of s p"
  let ?Q = "Q(?k := Q ?k @ [p])"
  have v: "view (enq p s) ?Q" and pr: "prio_of (enq p s) = prio_of s"
    using enq_law [OF Cons.prems(1)] Cons.prems(3) [of p] by auto
  have "r < NPROC \<and> prio_of (enq p s) r < NPRIO \<and> r \<notin> set (?Q (prio_of (enq p s) r))"
    if "r \<in> set ps" for r
    using Cons.prems(3) [of r] Cons.prems(2) that pr by auto
  from Cons.IH [OF v _ this] Cons.prems(2) pr
  have "view (fold enq ps (enq p s)) (\<lambda>i. ?Q i @ filter (\<lambda>r. prio_of s r = i) ps)"
    and "prio_of (fold enq ps (enq p s)) = prio_of s"
    by simp_all
  moreover have "(\<lambda>i. ?Q i @ filter (\<lambda>r. prio_of s r = i) ps) =
      (\<lambda>i. Q i @ filter (\<lambda>r. prio_of s r = i) (p # ps))"
    by (auto simp: fun_eq_iff)
  ultimately show ?case by simp
qed simp

text \<open>The list of a priority is a queue: dequeueing heads gives back the enqueued processes in order.\<close>

lemma fifo:
  assumes "view s Q" and "k < NPRIO" and "Q k = xs @ ys"
  shows "\<exists>t. forK xs deq s = Ret () t \<and> view t (Q(k := ys)) \<and> prio_of t = prio_of s"
  using assms
proof (induction xs arbitrary: s Q)
  case Nil
  then have "Q(k := ys) = Q" by auto
  with Nil show ?case by simp
next
  case (Cons p xs)
  then have p: "prio_of s p = k" using view_prio by auto
  from deq_law [OF Cons.prems(1), of p] p Cons.prems(2,3) obtain u where
    u: "deq p s = Ret () u" "view u (Q(k := xs @ ys))" "prio_of u = prio_of s" by auto
  have "\<exists>t. forK xs deq u = Ret () t \<and> view t (Q(k := ys)) \<and> prio_of t = prio_of u"
    using Cons.IH [OF u(2) Cons.prems(2)] by (simp add: fun_upd_def cong: if_cong)
  with u show ?case by (simp add: fun_upd_def)
qed

end

interpretation rl: ready_lists rqueues prio enqueue dequeue
proof
  fix s :: "'a pt_scheme" and Q i p
  assume v: "rqueues s Q"
  show "i < NPRIO \<Longrightarrow> distinct (Q i)" using rqueuesD(2) [OF v] .
  show "i < NPRIO \<Longrightarrow> p \<in> set (Q i) \<Longrightarrow> prio s p = i" using rqueuesD(5) [OF v] .
  show "p < NPROC \<Longrightarrow> prio s p < NPRIO \<Longrightarrow> p \<notin> set (Q (prio s p)) \<Longrightarrow>
      rqueues (enqueue p s) (Q(prio s p := Q (prio s p) @ [p])) \<and> prio (enqueue p s) = prio s"
    using rqueues_enqueue [OF v] by simp
  show "prio s p < NPRIO \<Longrightarrow> p \<in> set (Q (prio s p)) \<Longrightarrow>
      \<exists>t. dequeue p s = Ret () t \<and> rqueues t (Q(prio s p := remove1 p (Q (prio s p)))) \<and> prio t = prio s"
    using rqueues_dequeue [OF v] by blast
qed

section \<open>\<open>wakeup1\<close>\<close>

definition sleepers :: "chan option \<Rightarrow> 'a pt_scheme \<Rightarrow> nat list" where
  "sleepers c s = filter (\<lambda>p. pstate s p = SLEEPING \<and> p_chan (procs s p) = c) [0..<NPROC]"

lemma enqueue_chan [simp]: "p_chan (procs (enqueue p s) q) = p_chan (procs s q)"
  using pcore_eqD(8) [OF sched_frameD(16) [OF sched_frame_enqueue]] .

lemma wakeup1_loop_fold:
  "distinct ps \<Longrightarrow> wakeup1_loop c ps s =
    fold enqueue (filter (\<lambda>p. pstate s p = SLEEPING \<and> p_chan (procs s p) = c) ps) s"
proof (induction ps arbitrary: s)
  case (Cons p ps)
  let ?awake = "pstate s p = SLEEPING \<and> p_chan (procs s p) = c"
  have e: "filter (\<lambda>q. pstate (enqueue p s) q = SLEEPING \<and> p_chan (procs (enqueue p s) q) = c) ps =
      filter (\<lambda>q. pstate s q = SLEEPING \<and> p_chan (procs s q) = c) ps"
    using Cons.prems by (intro filter_cong) auto
  have IH: "wakeup1_loop c ps t =
      fold enqueue (filter (\<lambda>q. pstate t q = SLEEPING \<and> p_chan (procs t q) = c) ps) t" for t :: "'a pt_scheme"
    using Cons.IH [of t] Cons.prems by simp
  show ?case
  proof (cases ?awake)
    case True
    then have "wakeup1_loop c (p # ps) s = wakeup1_loop c ps (enqueue p s)" by (simp add: pstate_def)
    also have "\<dots> = fold enqueue
        (filter (\<lambda>q. pstate s q = SLEEPING \<and> p_chan (procs s q) = c) ps) (enqueue p s)"
      unfolding IH e ..
    finally show ?thesis using True by simp
  next
    case False
    then have "wakeup1_loop c (p # ps) s = wakeup1_loop c ps s" by (auto simp: pstate_def)
    with False IH [of s] show ?thesis by auto
  qed
qed simp

lemma wakeup1_fold: "wakeup1 c s = fold enqueue (sleepers c s) s"
  unfolding wakeup1_def sleepers_def by (rule wakeup1_loop_fold) simp

lemma sched_frame_fold_enqueue: "sched_frame s (fold enqueue ps s)"
proof (induction ps arbitrary: s)
  case (Cons p ps)
  show ?case using sched_frame_trans [OF sched_frame_enqueue Cons.IH] by simp
qed simp

lemma pstate_fold_enqueue:
  "pstate (fold enqueue ps s) q = (if q \<in> set ps then RUNNABLE else pstate s q)"
  by (induction ps arbitrary: s) auto

lemma sched_frame_wakeup1: "sched_frame s (wakeup1 c s)"
  by (simp add: wakeup1_fold sched_frame_fold_enqueue)

lemma pstate_wakeup1:
  "pstate (wakeup1 c s) q = (if q < NPROC \<and> pstate s q = SLEEPING \<and> p_chan (procs s q) = c
     then RUNNABLE else pstate s q)"
  by (auto simp: wakeup1_fold pstate_fold_enqueue sleepers_def)

text \<open>The queues hold the ready processes and no others.\<close>

definition ready_ok :: "'a pt_scheme \<Rightarrow> (nat \<Rightarrow> nat list) \<Rightarrow> bool" where
  "ready_ok s Q \<longleftrightarrow> rqueues s Q \<and> (\<forall>p < NPROC. prio s p < NPRIO) \<and>
     (\<forall>p < NPROC. pstate s p = RUNNABLE \<longleftrightarrow> p \<in> set (Q (prio s p)))"

lemma ready_ok_enqueue:
  assumes "ready_ok s Q" and "p < NPROC" and "pstate s p \<noteq> RUNNABLE"
  shows "ready_ok (enqueue p s) (Q(prio s p := Q (prio s p) @ [p]))"
  using assms rqueues_enqueue [of s Q p] by (auto simp: ready_ok_def)

lemma ready_ok_wakeup1:
  assumes "ready_ok s Q"
  shows "ready_ok (wakeup1 c s) (\<lambda>i. Q i @ filter (\<lambda>p. prio s p = i) (sleepers c s))"
    and "prio (wakeup1 c s) = prio s"
proof -
  have "p < NPROC \<and> prio s p < NPRIO \<and> p \<notin> set (Q (prio s p))" if "p \<in> set (sleepers c s)" for p
    using that assms by (auto simp: sleepers_def ready_ok_def)
  moreover have "rqueues s Q" and "distinct (sleepers c s)"
    using assms by (simp_all add: ready_ok_def sleepers_def)
  ultimately have "rqueues (wakeup1 c s) (\<lambda>i. Q i @ filter (\<lambda>p. prio s p = i) (sleepers c s))"
    and pr: "prio (wakeup1 c s) = prio s"
    using rl.enq_many [of s Q "sleepers c s"] unfolding wakeup1_fold by blast+
  then show "ready_ok (wakeup1 c s) (\<lambda>i. Q i @ filter (\<lambda>p. prio s p = i) (sleepers c s))"
    using assms by (auto simp: ready_ok_def pstate_wakeup1 sleepers_def)
  show "prio (wakeup1 c s) = prio s" by (rule pr)
qed

section \<open>\<open>priority_boost\<close>\<close>

declare first_non_empty.simps [simp del]

lemma first_non_empty_spec:
  assumes "i \<le> NPRIO"
  shows "i \<le> first_non_empty qf i \<and> first_non_empty qf i \<le> NPRIO \<and>
    (\<forall>j. i \<le> j \<longrightarrow> j < first_non_empty qf i \<longrightarrow> qf j = None) \<and>
    (first_non_empty qf i < NPRIO \<longrightarrow> qf (first_non_empty qf i) \<noteq> None)"
  using assms
proof (induction qf i rule: first_non_empty.induct)
  case (1 qf i)
  show ?case
  proof (cases "i < NPRIO \<and> qf i = None")
    case True
    then have e: "first_non_empty qf i = first_non_empty qf (i + 1)"
      by (subst first_non_empty.simps) simp
    from 1 True have "i + 1 \<le> first_non_empty qf (i + 1)"
      and le: "first_non_empty qf (i + 1) \<le> NPRIO"
      and none: "\<And>j. i + 1 \<le> j \<Longrightarrow> j < first_non_empty qf (i + 1) \<Longrightarrow> qf j = None"
      and some: "first_non_empty qf (i + 1) < NPRIO \<Longrightarrow> qf (first_non_empty qf (i + 1)) \<noteq> None"
      by auto
    moreover have "qf j = None" if "i \<le> j" "j < first_non_empty qf (i + 1)" for j
      using that True none [of j] by (cases "j = i") auto
    ultimately show ?thesis unfolding e by auto
  next
    case False
    then have "first_non_empty qf i = i" by (subst first_non_empty.simps) auto
    with False 1 show ?thesis by auto
  qed
qed

lemma boost_join_spec:
  assumes "chain (nxt s) x xs" and "xs \<noteq> []" and "distinct (xs @ concat (map Q is))"
    and "\<And>i. i \<in> set is \<Longrightarrow> chain (nxt s) (queue_first s i) (Q i) \<and>
      queue_last s i = (if Q i = [] then None else Some (last (Q i)))"
  shows "\<exists>t. boost_join is (Some (last xs)) s = Ret (Some (last (xs @ concat (map Q is)))) t \<and>
    chain (nxt t) x (xs @ concat (map Q is)) \<and> sched_frame s t \<and> pstate t = pstate s \<and> prio t = prio s \<and>
    queue_first t = queue_first s \<and> queue_last t = queue_last s"
  using assms
proof (induction "is" arbitrary: s xs)
  case (Cons i "is")
  show ?case
  proof (cases "Q i = []")
    case True
    with Cons.prems(4) [of i] have "queue_first s i = None" by simp
    moreover have "\<exists>t. boost_join is (Some (last xs)) s = Ret (Some (last (xs @ concat (map Q is)))) t \<and>
        chain (nxt t) x (xs @ concat (map Q is)) \<and> sched_frame s t \<and> pstate t = pstate s \<and>
        prio t = prio s \<and> queue_first t = queue_first s \<and> queue_last t = queue_last s"
      using Cons.prems True by (intro Cons.IH) auto
    ultimately show ?thesis using True by simp
  next
    case False
    with Cons.prems(4) [of i] have f: "queue_first s i \<noteq> None"
      and c: "chain (nxt s) (queue_first s i) (Q i)" and l: "queue_last s i = Some (last (Q i))"
      by (auto dest: chain_first)
    let ?s = "proc_upd (last xs) (\<lambda>x. x\<lparr>p_next_proc := queue_first s i\<rparr>) s"
    have n: "nxt ?s = (nxt s)(last xs := queue_first s i)" "prio ?s = prio s" "pstate ?s = pstate s"
      by (auto simp: nxt_def prio_def pstate_def)
    have "chain (nxt ?s) x (xs @ Q i)"
      unfolding n using Cons.prems c by (intro chain_join) auto
    moreover have "chain (nxt ?s) (queue_first ?s j) (Q j) \<and>
        queue_last ?s j = (if Q j = [] then None else Some (last (Q j)))" if "j \<in> set is" for j
    proof -
      have "last xs \<notin> set (Q j)" using Cons.prems(2,3) that last_in_set by fastforce
      with Cons.prems(4) [of j] that show ?thesis unfolding n by simp
    qed
    ultimately have "\<exists>t. boost_join is (Some (last (xs @ Q i))) ?s =
        Ret (Some (last ((xs @ Q i) @ concat (map Q is)))) t \<and>
        chain (nxt t) x ((xs @ Q i) @ concat (map Q is)) \<and> sched_frame ?s t \<and> pstate t = pstate ?s \<and>
        prio t = prio ?s \<and> queue_first t = queue_first ?s \<and> queue_last t = queue_last ?s"
      using Cons.prems False by (intro Cons.IH) auto
    then obtain t where t: "boost_join is (Some (last (Q i))) ?s =
        Ret (Some (last (xs @ Q i @ concat (map Q is)))) t"
      "chain (nxt t) x (xs @ Q i @ concat (map Q is))" "sched_frame ?s t"
      "pstate t = pstate s" "prio t = prio s" "queue_first t = queue_first s" "queue_last t = queue_last s"
      using False n by auto
    moreover have "sched_frame s t"
      using sched_frame_trans [OF sched_frame_proc_upd t(3)] by simp
    ultimately show ?thesis using f l by auto
  qed
qed auto

lemma boost_prios_spec:
  fixes s :: "'a pt_scheme"
  defines "t n \<equiv> fold (\<lambda>p. proc_upd p (\<lambda>x. x\<lparr>p_priority := 0\<rparr>)) [0..<n] s"
  shows "sched_frame s (t n) \<and> nxt (t n) = nxt s \<and> pstate (t n) = pstate s \<and>
    queue_first (t n) = queue_first s \<and> queue_last (t n) = queue_last s \<and>
    prio (t n) = (\<lambda>p. if p < n then 0 else prio s p)"
proof (induction n)
  case (Suc n)
  have e: "t (Suc n) = proc_upd n (\<lambda>x. x\<lparr>p_priority := 0\<rparr>) (t n)" by (simp add: t_def)
  have "sched_frame s (t (Suc n))"
    unfolding e using Suc sched_frame_trans sched_frame_proc_upd pcore_upd(2) by metis
  with Suc show ?case unfolding e by (auto simp: nxt_def pstate_def prio_def fun_eq_iff less_Suc_eq)
qed (simp add: t_def)

text \<open>The lists after a boost: everything in the first, the lists of higher priority in front.\<close>

definition boosted :: "(nat \<Rightarrow> nat list) \<Rightarrow> nat \<Rightarrow> nat list" where
  "boosted Q = (\<lambda>i. if i = 0 then Q 0 @ Q 1 @ Q 2 else [])"

lemma upt_NPRIO: "[0..<3] = [0, 1, 2 :: nat]" "[1..<3] = [1, 2 :: nat]"
  by (simp_all add: upt_rec)

lemma concat_split:
  assumes "f < NPRIO" and "\<And>j. j < f \<Longrightarrow> Q j = []"
  shows "Q f @ concat (map Q [f + 1..<NPRIO]) = Q 0 @ Q 1 @ Q 2"
proof -
  from assms(1) consider "f = 0" | "f = 1" | "f = 2" by linarith
  then show ?thesis
    by cases (use assms(2) [of 0] assms(2) [of 1] in \<open>simp_all add: upt_rec numeral_2_eq_2\<close>)
qed

lemma rqueues_distinct:
  assumes "rqueues s Q"
  shows "distinct (Q 0 @ Q 1 @ Q 2)"
proof -
  have d: "distinct (Q i)" if "i < 3" for i using rqueuesD(2) [OF assms that] .
  have "set (Q i) \<inter> set (Q j) = {}" if "i < 3" "j < 3" "i \<noteq> j" for i j
    using rqueuesD(5) [OF assms that(1)] rqueuesD(5) [OF assms that(2)] that(3) by auto
  from this [of 0 1] this [of 0 2] this [of 1 2] d [of 0] d [of 1] d [of 2]
  show ?thesis by auto
qed

lemma rqueues_boost:
  assumes "rqueues s Q"
  shows "\<exists>t. boost_queues s = Ret () t \<and> rqueues t (boosted Q) \<and> sched_frame s t \<and>
    pstate t = pstate s \<and> prio t = (\<lambda>p. if p < NPROC then 0 else prio s p)"
proof -
  let ?b = "fold (\<lambda>p. proc_upd p (\<lambda>x. x\<lparr>p_priority := 0\<rparr>)) [0..<NPROC] s"
  let ?clear = "\<lambda>u. fold (\<lambda>i s. s\<lparr>queue_first := (queue_first s)(i := None),
     queue_last := (queue_last s)(i := None)\<rparr>) [1..<NPRIO] u"
  note B = boost_prios_spec [of s NPROC]
  note D = rqueuesD [OF assms]
  define f where "f = first_non_empty (queue_first ?b) 0"
  have f: "f \<le> NPRIO" "\<And>j. j < f \<Longrightarrow> queue_first s j = None" "f < NPRIO \<Longrightarrow> queue_first s f \<noteq> None"
    using first_non_empty_spec [of 0 "queue_first ?b"] B by (auto simp: f_def)
  have e: "Q j = []" if "j < f" for j using D(1) [of j] f(1) f(2) [OF that] that by simp
  have cl: "sched_frame u (?clear u)" "pstate (?clear u) = pstate u" "prio (?clear u) = prio u"
    "nxt (?clear u) = nxt u"
    "queue_first (?clear u) = (queue_first u)(1 := None, 2 := None)"
    "queue_last (?clear u) = (queue_last u)(1 := None, 2 := None)" for u :: "'a pt_scheme"
    unfolding upt_NPRIO by (simp_all add: sched_frame_def pstate_def prio_def nxt_def fun_eq_iff)
  have all: "p < NPROC" if "p \<in> set (Q 0 @ Q 1 @ Q 2)" for p
    using that D(4) [of 0 p] D(4) [of 1 p] D(4) [of 2 p] by auto
  show ?thesis
  proof (cases "f < NPRIO")
    case True
    let ?xs = "Q f @ concat (map Q [f + 1..<NPRIO])"
    let ?c = "?b\<lparr>queue_first := (queue_first ?b)(0 := queue_first ?b f)\<rparr>"
    have xs: "?xs = Q 0 @ Q 1 @ Q 2" using True e by (rule concat_split)
    have ne: "Q f \<noteq> []" using D(1) [OF True] f(3) [OF True] by auto
    have n: "nxt ?c = nxt s" "sched_frame ?b ?c" "pstate ?c = pstate ?b" "prio ?c = prio ?b"
      using B by (simp_all add: nxt_def sched_frame_def pstate_def prio_def fun_eq_iff)
    have "\<exists>u. boost_join [f + 1..<NPRIO] (Some (last (Q f))) ?c = Ret (Some (last ?xs)) u \<and>
        chain (nxt u) (queue_first ?b f) ?xs \<and> sched_frame ?c u \<and> pstate u = pstate ?c \<and>
        prio u = prio ?c \<and> queue_first u = queue_first ?c \<and> queue_last u = queue_last ?c"
    proof (rule boost_join_spec)
      show "chain (nxt ?c) (queue_first ?b f) (Q f)" using D(1) [OF True] B n by simp
      show "distinct ?xs" unfolding xs by (rule rqueues_distinct [OF assms])
      fix i assume i: "i \<in> set [f + 1..<NPRIO]"
      then show "chain (nxt ?c) (queue_first ?c i) (Q i) \<and>
          queue_last ?c i = (if Q i = [] then None else Some (last (Q i)))"
        using D(1,3) [of i] B n by simp
    qed (rule ne)
    then obtain u where u: "boost_join [f + 1..<NPRIO] (Some (last (Q f))) ?c = Ret (Some (last ?xs)) u"
      "chain (nxt u) (queue_first ?b f) ?xs" "sched_frame ?c u" "pstate u = pstate ?c"
      "prio u = prio ?c" "queue_first u = queue_first ?c" "queue_last u = queue_last ?c" by blast
    let ?v = "u\<lparr>queue_last := (queue_last u)(0 := Some (last ?xs))\<rparr>"
    let ?t = "?clear ?v"
    have "queue_last ?c f = Some (last (Q f))" using D(3) [OF True] ne B by simp
    then have r: "boost_queues s = Ret () ?t"
      using True u(1) by (simp add: boost_queues_def Let_def f_def [symmetric])
    have v: "nxt ?v = nxt u" "pstate ?v = pstate u" "prio ?v = prio u" "sched_frame u ?v"
      by (simp_all add: nxt_def pstate_def prio_def sched_frame_def fun_eq_iff)
    have p: "prio ?t = (\<lambda>p. if p < NPROC then 0 else prio s p)" using cl v u n B by simp
    have "rqueues ?t (boosted Q)"
    proof (rule rqueuesI)
      fix i :: nat assume i: "i < NPRIO"
      show "chain (nxt ?t) (queue_first ?t i) (boosted Q i)"
        using u(2) [unfolded xs] u(6) i unfolding cl v boosted_def by (cases "i = 0") auto
      show "distinct (boosted Q i)" using rqueues_distinct [OF assms] by (simp add: boosted_def)
      show "queue_last ?t i = (if boosted Q i = [] then None else Some (last (boosted Q i)))"
        using i ne unfolding cl boosted_def xs [symmetric] by (cases "i = 0") auto
      fix p assume "p \<in> set (boosted Q i)"
      then show "p < NPROC" and "prio ?t p = i" using all p by (auto simp: boosted_def split: if_splits)
    qed
    moreover have "sched_frame s ?t"
      using B n(2) u(3) v(4) cl(1) [of ?v] sched_frame_trans by blast
    moreover have "pstate ?t = pstate s" using cl v u n B by simp
    ultimately show ?thesis using r p by blast
  next
    case False
    then have z: "Q 0 = []" "Q 1 = []" "Q 2 = []" using e f(1) by auto
    let ?t = "?clear ?b"
    have r: "boost_queues s = Ret () ?t" using False by (simp add: boost_queues_def Let_def f_def [symmetric])
    have "rqueues ?t (boosted Q)"
    proof (rule rqueuesI)
      fix i :: nat assume i: "i < NPRIO"
      show "chain (nxt ?t) (queue_first ?t i) (boosted Q i)"
        using D(1) [OF i] z i B unfolding cl boosted_def by (cases "i = 0") auto
      show "queue_last ?t i = (if boosted Q i = [] then None else Some (last (boosted Q i)))"
        using D(3) [OF i] z i B unfolding cl boosted_def by (cases "i = 0") auto
    qed (simp_all add: boosted_def z z(2) [simplified] split: if_splits)
    then show ?thesis using r B cl sched_frame_trans [of s ?b ?t] by auto
  qed
qed

lemma boosted_members:
  assumes "ready_ok s Q" and "p < NPROC"
  shows "p \<in> set (boosted Q 0) \<longleftrightarrow> pstate s p = RUNNABLE"
proof -
  have rq: "rqueues s Q" and "prio s p < 3" and r: "pstate s p = RUNNABLE \<longleftrightarrow> p \<in> set (Q (prio s p))"
    using assms by (simp_all add: ready_ok_def)
  have "p \<in> set (Q i) \<longleftrightarrow> i = prio s p \<and> pstate s p = RUNNABLE" if "i < 3" for i
    using rqueuesD(5) [OF rq that, of p] r by blast
  from this [of 0] this [of 1] this [of 2]
  have "p \<in> set (Q 0 @ Q 1 @ Q 2) \<longleftrightarrow>
      (prio s p = 0 \<or> prio s p = 1 \<or> prio s p = 2) \<and> pstate s p = RUNNABLE" by auto
  moreover have "prio s p = 0 \<or> prio s p = 1 \<or> prio s p = 2" using \<open>prio s p < 3\<close> by linarith
  ultimately show ?thesis by (simp add: boosted_def)
qed

lemma ready_ok_boosted:
  assumes "ready_ok s Q" and "rqueues u (boosted Q)" and "pstate u = pstate s"
    and "prio u = (\<lambda>p. if p < NPROC then 0 else prio s p)"
  shows "ready_ok u (boosted Q)"
  using assms(2) boosted_members [OF assms(1)] unfolding ready_ok_def assms(3,4) by simp

end
