(* ===== verification/Lock_Inv.thy ===== *)
theory Lock_Inv
  imports Spinlock
begin

text \<open>
  The lock discipline of the whole machine.  \<open>mach_inv s H\<close> relates the machine to the lists \<open>H c\<close> of
  the locks that each processor \<open>c\<close> holds, the most recent first: the \<open>pushcli\<close> depth of a
  processor is the number of locks it holds, interrupts are off while it holds one, and a lock
  structure names its holder.  \<open>acquire\<close> and \<open>release\<close> maintain the relation.
\<close>

definition mach_inv :: "'a mach_scheme \<Rightarrow> (nat \<Rightarrow> lockid list) \<Rightarrow> bool" where
  "mach_inv s H \<longleftrightarrow> ncpu s \<le> NCPU \<and> inj_on (\<lambda>i. c_apicid (cpus s i)) {..<ncpu s} \<and>
     (\<forall>c < ncpu s. distinct (H c) \<and> c_ncli (cpus s c) = int (length (H c)) \<and>
        (H c \<noteq> [] \<longrightarrow> \<not> c_if (cpus s c)) \<and>
        (\<forall>l \<in> set (H c). locks s l = \<lparr>l_locked = True, l_cpu = Some c\<rparr>)) \<and>
     (\<forall>l. l_locked (locks s l) \<longrightarrow> (\<exists>c < ncpu s. l \<in> set (H c))) \<and>
     (\<forall>l. \<not> l_locked (locks s l) \<longrightarrow> l_cpu (locks s l) = None)"

lemma mach_invD:
  assumes "mach_inv s H" and "c < ncpu s"
  shows "distinct (H c)" "c_ncli (cpus s c) = int (length (H c))" "H c \<noteq> [] \<Longrightarrow> \<not> c_if (cpus s c)"
    "l \<in> set (H c) \<Longrightarrow> locks s l = \<lparr>l_locked = True, l_cpu = Some c\<rparr>"
  using assms by (simp_all add: mach_inv_def)

lemma mach_inv_cur [simp]: "mach_inv (s\<lparr>cur := c\<rparr>) H = mach_inv s H"
  by (simp add: mach_inv_def)

lemma mach_inv_wf: "mach_inv s H \<Longrightarrow> cur s < ncpu s \<Longrightarrow> mach_wf s"
  by (simp add: mach_inv_def mach_wf_def)

lemma mach_inv_cli_ok: "mach_inv s H \<Longrightarrow> cur s < ncpu s \<Longrightarrow> cli_ok s"
  using mach_invD(2,3) [of s H "cur s"] by (auto simp: cli_ok_def mach_inv_wf)

text \<open>The invariant does not depend on the fields of a processor that locking does not use.\<close>

lemma mach_inv_cong:
  assumes "mach_inv s H" and "ncpu t = ncpu s" and "locks t = locks s"
    and "\<And>c. c < ncpu s \<Longrightarrow> c_apicid (cpus t c) = c_apicid (cpus s c) \<and>
      c_ncli (cpus t c) = c_ncli (cpus s c) \<and> (H c \<noteq> [] \<longrightarrow> c_if (cpus t c) = c_if (cpus s c))"
  shows "mach_inv t H"
proof -
  have "inj_on (\<lambda>i. c_apicid (cpus t i)) {..<ncpu s} = inj_on (\<lambda>i. c_apicid (cpus s i)) {..<ncpu s}"
    using assms(4) by (intro inj_on_cong) simp
  with assms show ?thesis by (simp add: mach_inv_def)
qed

lemma mach_inv_cpu_upd:
  assumes "mach_inv s H"
    and "\<And>x. c_apicid (f x) = c_apicid x" "\<And>x. c_ncli (f x) = c_ncli x" "\<And>x. c_if (f x) = c_if x"
  shows "mach_inv (cpu_upd f s) H" "mach_inv (cpu_at c f s) H"
  by (rule mach_inv_cong [OF assms(1)]; simp add: cpu_upd_def cpu_at_def assms(2-4))+

lemma mach_inv_free:
  assumes "mach_inv s H" and "\<not> l_locked (locks s l)"
  shows "locks s l = \<lparr>l_locked = False, l_cpu = None\<rparr>"
proof -
  from assms have "l_cpu (locks s l) = None" by (simp add: mach_inv_def)
  with assms(2) show ?thesis by (cases "locks s l") simp
qed

text \<open>A lock that no processor holds, and one that another processor holds.\<close>

lemma mach_inv_locked:
  assumes "mach_inv s H" and "l_locked (locks s l)"
  obtains c where "c < ncpu s" and "l \<in> set (H c)"
  using assms by (auto simp: mach_inv_def)

lemma mach_inv_held:
  assumes "mach_inv s H" and "cur s < ncpu s"
  shows "held l s \<longleftrightarrow> l \<in> set (H (cur s))"
proof
  assume h: "held l s"
  then obtain c where c: "c < ncpu s" "l \<in> set (H c)"
    using mach_inv_locked [OF assms(1), of l] by (auto simp: held_def)
  with mach_invD(4) [OF assms(1) c] h show "l \<in> set (H (cur s))" by (simp add: held_def)
next
  assume "l \<in> set (H (cur s))"
  with mach_invD(4) [OF assms] show "held l s" by (simp add: held_def)
qed

lemma mach_inv_acquired:
  assumes inv: "mach_inv s H" and c: "cur s < ncpu s" and free: "\<not> l_locked (locks s l)"
  shows "mach_inv (acquired l s) (H(cur s := l # H (cur s)))"
proof -
  have out: "l \<notin> set (H d)" if "d < ncpu s" for d
    using mach_invD(4) [OF inv that] free by force
  have ap: "(\<lambda>i. c_apicid (cpus (acquired l s) i)) = (\<lambda>i. c_apicid (cpus s i))"
    by (auto simp: fun_eq_iff)
  have "(\<forall>l'. l_locked (locks (acquired l s) l') \<longrightarrow>
      (\<exists>d < ncpu s. l' \<in> set ((H(cur s := l # H (cur s))) d)))"
  proof (intro allI impI)
    fix l' assume "l_locked (locks (acquired l s) l')"
    then have "l' = l \<or> l_locked (locks s l')" by (auto split: if_splits)
    then show "\<exists>d < ncpu s. l' \<in> set ((H(cur s := l # H (cur s))) d)"
      using mach_inv_locked [OF inv, of l'] c by (metis fun_upd_apply list.set_intros)
  qed
  moreover have "locks (acquired l s) l' = locks s l'" if "d < ncpu s" "l' \<in> set (H d)" for d l'
    using out that by auto
  ultimately show ?thesis
    using inv out c unfolding mach_inv_def ap
    by (auto simp: if_push_cpu ncli_push_cpu)
qed

lemma acquire_inv:
  assumes inv: "mach_inv s H" and c: "cur s < ncpu s" and out: "l \<notin> set (H (cur s))"
  shows "acquire l s = (if l_locked (locks s l) then Spin else Ret () (acquired l s))"
  using acquire_wf [OF mach_inv_cli_ok [OF inv c], of l] mach_inv_held [OF inv c, of l] out by simp

lemma mach_inv_released:
  assumes inv: "mach_inv s H" and c: "cur s < ncpu s" and l: "l \<in> set (H (cur s))"
  shows "mach_inv (released l s) (H(cur s := remove1 l (H (cur s))))"
proof -
  have out: "l \<notin> set (H d)" if "d < ncpu s" "d \<noteq> cur s" for d
    using mach_invD(4) [OF inv that(1)] mach_invD(4) [OF inv c l] that(2) by force
  have ap: "(\<lambda>i. c_apicid (cpus (released l s) i)) = (\<lambda>i. c_apicid (cpus s i))"
    by (auto simp: fun_eq_iff)
  let ?c = "cpus s (cur s)"
  from l have "H (cur s) \<noteq> []" by auto
  then have n: "c_ncli ?c = int (length (H (cur s)))" "\<not> c_if ?c" "distinct (H (cur s))"
    using mach_invD(1-3) [OF inv c] by simp_all
  then have len: "length (H (cur s)) = Suc (length (remove1 l (H (cur s))))"
    using l by (simp add: length_remove1) (metis Suc_pred length_pos_if_in_set)
  have "\<exists>d < ncpu s. l' \<in> set ((H(cur s := remove1 l (H (cur s)))) d)"
    if "l_locked (locks (released l s) l')" for l'
  proof -
    from that have "l' \<noteq> l" "l_locked (locks s l')" by (auto split: if_splits)
    with mach_inv_locked [OF inv] show ?thesis by (metis fun_upd_apply in_set_remove1)
  qed
  moreover have "remove1 l (H (cur s)) = [] \<Longrightarrow> length (H (cur s)) = 1" using len by simp
  ultimately show ?thesis
    using inv out c n len unfolding mach_inv_def ap
    by (auto simp: pop_cpu_def)
qed

lemma release_inv:
  assumes inv: "mach_inv s H" and c: "cur s < ncpu s" and l: "l \<in> set (H (cur s))"
  shows "release l s = Ret () (released l s)"
proof -
  have "0 < c_ncli (cpus s (cur s))" using mach_invD(2) [OF inv c] l by (auto simp: length_pos_if_in_set)
  with release_wf [OF mach_inv_cli_ok [OF inv c]] mach_inv_held [OF inv c] l show ?thesis by simp
qed

text \<open>Reading the current process while a lock is held changes nothing.\<close>

lemma myproc_inv:
  assumes inv: "mach_inv s H" and c: "cur s < ncpu s"
  shows "myproc s = Ret (c_proc (cpus s (cur s))) (cpu_upd norm_cpu s)"
    and "mach_inv (cpu_upd norm_cpu s) H"
    and "H (cur s) \<noteq> [] \<Longrightarrow> cpu_upd norm_cpu s = s"
proof -
  show "myproc s = Ret (c_proc (cpus s (cur s))) (cpu_upd norm_cpu s)"
    by (rule myproc_wf [OF mach_inv_cli_ok [OF inv c]])
  show "mach_inv (cpu_upd norm_cpu s) H"
    by (rule mach_inv_cpu_upd [OF inv]) (simp_all add: norm_cpu_def)
  assume "H (cur s) \<noteq> []"
  then show "cpu_upd norm_cpu s = s"
    using mach_invD(2) [OF inv c] by (intro cpu_upd_norm_pos) (cases "H (cur s)"; simp)
qed

end
