(* ===== verification/Vm_Frame.thy ===== *)
theory Vm_Frame
  imports Vm Lock_Inv
begin

text \<open>
  What the page allocator and the freeing of page tables change when they are called with a lock
  held: the byte memory and the free list, and nothing else.
\<close>

definition mem_only :: "'a kmem_scheme \<Rightarrow> 'a kmem_scheme \<Rightarrow> bool" where
  "mem_only s t \<longleftrightarrow> t = s\<lparr>k_mem := k_mem t, k_freelist := k_freelist t\<rparr>"

lemma mem_only_refl [simp]: "mem_only s s"
  by (simp add: mem_only_def)

lemma mem_only_upd [simp]:
  "mem_only s (s\<lparr>k_mem := m\<rparr>)" "mem_only s (s\<lparr>k_freelist := a\<rparr>)"
  "mem_only s (s\<lparr>k_mem := m, k_freelist := a\<rparr>)"
  by (simp_all add: mem_only_def)

lemma mem_only_trans [trans]:
  assumes "mem_only s t" and "mem_only t u"
  shows "mem_only s u"
proof -
  from assms have t: "t = s\<lparr>k_mem := k_mem t, k_freelist := k_freelist t\<rparr>"
    and u: "u = t\<lparr>k_mem := k_mem u, k_freelist := k_freelist u\<rparr>" by (simp_all add: mem_only_def)
  show ?thesis unfolding mem_only_def by (subst u, subst t) simp
qed

lemma mem_onlyD:
  assumes "mem_only s t"
  shows "cpus t = cpus s" "ncpu t = ncpu s" "cur t = cur s" "locks t = locks s"
    "k_use_lock t = k_use_lock s" "k_end t = k_end s" "kmem.more t = kmem.more s"
proof -
  from assms have t: "t = s\<lparr>k_mem := k_mem t, k_freelist := k_freelist t\<rparr>" by (simp add: mem_only_def)
  show "cpus t = cpus s" "ncpu t = ncpu s" "cur t = cur s" "locks t = locks s"
    "k_use_lock t = k_use_lock s" "k_end t = k_end s" "kmem.more t = kmem.more s"
    by (subst t, simp)+
qed

text \<open>The situation in which \<open>wait\<close> frees the memory of a child.\<close>

definition may_free :: "(nat \<Rightarrow> lockid list) \<Rightarrow> 'a kmem_scheme \<Rightarrow> bool" where
  "may_free H s \<longleftrightarrow> mach_inv s H \<and> cur s < ncpu s \<and> H (cur s) \<noteq> [] \<and> KmemLock \<notin> set (H (cur s))"

lemma may_free_mem_only:
  assumes "may_free H s" and "mem_only s t"
  shows "may_free H t"
  using assms mem_onlyD(1-4) [OF assms(2)] by (simp add: may_free_def mach_inv_def)

lemma may_free_norm: "may_free H s \<Longrightarrow> kmem_norm s = s"
  using myproc_inv(3) by (auto simp: may_free_def kmem_norm_def)

lemma may_free_cases:
  assumes "may_free H s"
  shows "kmem_ready s \<or> k_use_lock s \<and> l_locked (locks s KmemLock)"
  using assms mach_inv_cli_ok [of s H] mach_inv_free [of s H KmemLock]
  by (auto simp: may_free_def kmem_ready_def)

lemma kmem_lock_spin:
  assumes "may_free H s" and "k_use_lock s" and "l_locked (locks s KmemLock)"
  shows "kmem_lock s = Spin"
  using assms acquire_inv [of s H KmemLock] by (simp add: may_free_def kmem_lock_def)

lemma kfree_mem_only:
  assumes "may_free H s" and "kfree v s = Ret u t"
  shows "mem_only s t"
proof -
  from assms(2) have v: "page_ok s v"
    unfolding kfree_def page_ok_def aligned_def by (auto split: if_splits)
  from may_free_cases [OF assms(1)] show ?thesis
  proof
    assume "kmem_ready s"
    let ?t = "s\<lparr>k_mem := store32 (memset (k_mem s) v 1 PGSIZE) v (k_freelist s), k_freelist := v\<rparr>"
    from kfree_eq [OF \<open>kmem_ready s\<close> v] assms(2) have "t = kmem_norm ?t" by simp
    with may_free_norm [OF may_free_mem_only [OF assms(1), of ?t]] show ?thesis by simp
  next
    assume "k_use_lock s \<and> l_locked (locks s KmemLock)"
    then have "kmem_lock (s\<lparr>k_mem := memset (k_mem s) v 1 PGSIZE\<rparr>) = Spin"
      using kmem_lock_spin [OF may_free_mem_only [OF assms(1)]] by simp
    with assms(2) v show ?thesis by (auto simp: kfree_def Let_def split: if_splits)
  qed
qed

lemma kfree_mem_only_step:
  assumes "may_free H s" and "mem_only s v" and "kfree a v = Ret y z"
  shows "mem_only s z" and "mem_only s (z\<lparr>k_mem := m\<rparr>)"
  using kfree_mem_only [OF may_free_mem_only [OF assms(1,2)] assms(3)] assms(2)
    mem_only_trans mem_only_upd(1) by blast+

lemma walkpgdir_ro: "walkpgdir pgdir va False s = Ret r t \<Longrightarrow> t = s"
  by (auto simp: walkpgdir_def Let_def split: if_splits)

lemma deallocuvm_mem_only:
  assumes "may_free H s" and "deallocuvm pgdir oldsz newsz s = Ret r t"
  shows "mem_only s t"
proof (cases "newsz \<ge> oldsz")
  case True
  with assms(2) show ?thesis by (simp add: deallocuvm_def)
next
  case False
  from False assms(2) show ?thesis
    unfolding deallocuvm_def if_not_P [OF False]
    by (elim loopK_inv [where P = "\<lambda>_ v. mem_only s v" and Q = "\<lambda>_ v. mem_only s v"])
       (auto simp: Let_def dest!: walkpgdir_ro intro: kfree_mem_only_step [OF assms(1)] split: if_splits)
qed

lemma freevm_mem_only:
  assumes "may_free H s" and "freevm pgdir s = Ret r t"
  shows "mem_only s t"
proof -
  from assms(2) obtain a u b v where
    u: "deallocuvm pgdir KERNBASE 0 s = Ret a u"
    and v: "forK [0..<NPDENTRIES] (\<lambda>i s.
          let pde = load32 (k_mem s) (pgdir + 4 * of_nat i) in
          if pde AND PTE_P \<noteq> 0 then kfree (P2V (PTE_ADDR pde)) s else Ret () s) u = Ret b v"
    and t: "kfree pgdir v = Ret r t"
    by (auto simp: freevm_def split: if_splits)
  have su: "mem_only s u" by (rule deallocuvm_mem_only [OF assms(1) u])
  have sv: "mem_only s v"
    by (rule forK_inv [OF v, where P = "\<lambda>v. mem_only s v"])
       (auto simp: Let_def su intro: kfree_mem_only_step [OF assms(1)] split: if_splits)
  then show ?thesis using t by (rule kfree_mem_only_step [OF assms(1)])
qed

end
