(* ===== verification/Sched_Inv.thy ===== *)
theory Sched_Inv
  imports Mlfq Vm_Frame
begin

text \<open>
  The operations of \<^verbatim>\<open>proc.c\<close> on machines that satisfy the lock discipline: for each operation, what
  it returns and what state it leaves.  These lemmas compose the lock operations, the queue
  operations and the changes of the process table; theory \<open>Sched_Machine\<close> uses them for the machine
  as a whole.
\<close>

section \<open>Fields that the lock operations leave alone\<close>

lemma pt_cpu_upd [simp]:
  "procs (cpu_upd f s) = procs s" "queue_first (cpu_upd f s) = queue_first s"
  "queue_last (cpu_upd f s) = queue_last s" "initproc (cpu_upd f s) = initproc s"
  "nextpid (cpu_upd f s) = nextpid s" "forkret_first (cpu_upd f s) = forkret_first s"
  "ticks (cpu_upd f s) = ticks s" "pt.more (cpu_upd f s) = pt.more s"
  "kpgdir (cpu_upd f s) = kpgdir s" "vm_data (cpu_upd f s) = vm_data s"
  by (simp_all add: cpu_upd_def)

lemma pt_lock_upd [simp]:
  "procs (lock_upd l g s) = procs s" "queue_first (lock_upd l g s) = queue_first s"
  "queue_last (lock_upd l g s) = queue_last s" "initproc (lock_upd l g s) = initproc s"
  "nextpid (lock_upd l g s) = nextpid s" "forkret_first (lock_upd l g s) = forkret_first s"
  "ticks (lock_upd l g s) = ticks s" "pt.more (lock_upd l g s) = pt.more s"
  "kpgdir (lock_upd l g s) = kpgdir s" "vm_data (lock_upd l g s) = vm_data s"
  by (simp_all add: lock_upd_def)

lemma pt_acquired [simp]:
  "procs (acquired l s) = procs s" "queue_first (acquired l s) = queue_first s"
  "queue_last (acquired l s) = queue_last s" "initproc (acquired l s) = initproc s"
  "nextpid (acquired l s) = nextpid s" "forkret_first (acquired l s) = forkret_first s"
  "ticks (acquired l s) = ticks s" "pt.more (acquired l s) = pt.more s"
  by (simp_all add: acquired_def)

lemma pt_released [simp]:
  "procs (released l s) = procs s" "queue_first (released l s) = queue_first s"
  "queue_last (released l s) = queue_last s" "initproc (released l s) = initproc s"
  "nextpid (released l s) = nextpid s" "forkret_first (released l s) = forkret_first s"
  "ticks (released l s) = ticks s" "pt.more (released l s) = pt.more s"
  by (simp_all add: released_def)

lemma cpu_at_cur: "cpu_at (cur s) f s = cpu_upd f s"
  by (simp add: cpu_at_def cpu_upd_def)

lemma view_mach [simp]:
  "pstate (cpu_upd f s) = pstate s" "prio (cpu_upd f s) = prio s" "nxt (cpu_upd f s) = nxt s"
  "pstate (acquired l s) = pstate s" "prio (acquired l s) = prio s" "nxt (acquired l s) = nxt s"
  "pstate (released l s) = pstate s" "prio (released l s) = prio s" "nxt (released l s) = nxt s"
  "pstate (s\<lparr>cur := c\<rparr>) = pstate s" "prio (s\<lparr>cur := c\<rparr>) = prio s" "nxt (s\<lparr>cur := c\<rparr>) = nxt s"
  by (simp_all add: pstate_def prio_def nxt_def fun_eq_iff)

lemma ready_ok_cong:
  assumes "procs t = procs s" and "queue_first t = queue_first s" and "queue_last t = queue_last s"
  shows "ready_ok t = ready_ok s"
  using assms
  by (simp add: fun_eq_iff ready_ok_def rqueues_def rqueue_def nxt_def [abs_def] prio_def [abs_def] pstate_def)

lemma ready_ok_mach [simp]:
  "ready_ok (cpu_upd f s) = ready_ok s" "ready_ok (lock_upd l g s) = ready_ok s"
  "ready_ok (acquired l s) = ready_ok s" "ready_ok (released l s) = ready_ok s"
  "ready_ok (s\<lparr>cur := c\<rparr>) = ready_ok s"
  by (rule ready_ok_cong; simp)+

lemma mach_inv_frame:
  assumes "cpus t = cpus s" and "ncpu t = ncpu s" and "locks t = locks s"
  shows "mach_inv t H = mach_inv s H"
  using assms by (simp add: mach_inv_def)

lemma mach_inv_proc_upd [simp]: "mach_inv (proc_upd p f s) H = mach_inv s H"
  by (rule mach_inv_frame) simp_all

lemma mach_inv_sched_frame: "sched_frame s t \<Longrightarrow> mach_inv t H = mach_inv s H"
  by (rule mach_inv_frame) (simp_all add: sched_frameD)

section \<open>Switching\<close>

lemma mycpu_inv: "mach_inv s H \<Longrightarrow> cur s < ncpu s \<Longrightarrow> H (cur s) \<noteq> [] \<Longrightarrow> mycpu s = Ret (cur s) s"
  by (rule mycpu_wf) (simp_all add: mach_inv_wf mach_invD)

lemma holding_inv:
  assumes "mach_inv s H" and "cur s < ncpu s" and "H (cur s) \<noteq> []"
  shows "holding l s = Ret (l \<in> set (H (cur s))) s"
  using holding_wf [OF mach_inv_cli_ok [OF assms(1,2)], of l] mach_inv_held [OF assms(1,2), of l]
    myproc_inv(3) [OF assms] by simp

text \<open>None of the panics of \<open>sched\<close> happens when exactly \<open>ptable.lock\<close> is held.\<close>

lemma sched_inv:
  assumes inv: "mach_inv s H" and c: "cur s < ncpu s" and h: "H (cur s) = [PtableLock]"
    and p: "c_proc (cpus s (cur s)) = Some p" and st: "pstate s p \<noteq> RUNNING"
  shows "sched k s = Ret () (proc_upd p (\<lambda>x. x\<lparr>p_context := k (c_intena (cpus s (cur s)))\<rparr>) s)"
proof -
  have ne: "H (cur s) \<noteq> []" using h by simp
  note m = myproc_inv [OF inv c]
  have "myproc s = Ret (Some p) s" using m(1) m(3) [OF ne] p by simp
  moreover have "holding PtableLock s = Ret True s" using holding_inv [OF inv c ne] h by simp
  moreover have "c_ncli (cpus s (cur s)) = 1" "\<not> readeflags s"
    using mach_invD(2,3) [OF inv c] h by (simp_all add: readeflags_def)
  ultimately show ?thesis
    using mycpu_inv [OF inv c ne] st by (simp add: sched_def pstate_def)
qed

lemma sched_in_inv:
  assumes "mach_inv s H" and "cur s < ncpu s" and "H (cur s) \<noteq> []"
  shows "sched_in b s = Ret () (cpu_upd (\<lambda>x. x\<lparr>c_intena := b\<rparr>) s)"
    and "mach_inv (cpu_upd (\<lambda>x. x\<lparr>c_intena := b\<rparr>) s) H"
proof -
  show "sched_in b s = Ret () (cpu_upd (\<lambda>x. x\<lparr>c_intena := b\<rparr>) s)"
    using mycpu_inv [OF assms] by (simp add: sched_in_def cpu_at_cur)
  show "mach_inv (cpu_upd (\<lambda>x. x\<lparr>c_intena := b\<rparr>) s) H"
    by (rule mach_inv_cpu_upd [OF assms(1)]) simp_all
qed

definition uvm_cpu :: "uint \<Rightarrow> uint \<Rightarrow> cpu \<Rightarrow> cpu" where
  "uvm_cpu kst pgd x = x\<lparr>c_esp0 := kst + KSTACKSIZE, c_cr3 := V2P pgd\<rparr>"

lemma switchuvm_inv:
  assumes inv: "mach_inv s H" and c: "cur s < ncpu s" and h: "H (cur s) \<noteq> []"
    and k: "p_kstack (procs s p) \<noteq> 0" "p_pgdir (procs s p) \<noteq> 0"
  shows "switchuvm (Some p) s =
    Ret () (cpu_upd (uvm_cpu (p_kstack (procs s p)) (p_pgdir (procs s p))) s)"
proof -
  let ?f = "uvm_cpu (p_kstack (procs s p)) (p_pgdir (procs s p))"
  note ok = mach_inv_cli_ok [OF inv c]
  let ?u = "cpu_upd (\<lambda>x. ?f (push_cpu x)) s"
  have n: "0 < c_ncli (cpus s (cur s))" "\<not> c_if (cpus s (cur s))"
    using mach_invD(2,3) [OF inv c] h by (simp_all)
  have "popcli ?u = Ret () (cpu_upd pop_cpu ?u)"
  proof (rule popcli_wf)
    have "mach_wf s" using inv c by (rule mach_inv_wf)
    then show "mach_wf ?u" by (subst mach_wf_cpu_upd) (simp_all add: uvm_cpu_def push_cpu_def)
  qed (use n in \<open>simp_all add: uvm_cpu_def push_cpu_def\<close>)
  moreover have "pop_cpu (?f (push_cpu x)) = ?f x" if "0 < c_ncli x" "\<not> c_if x" for x
    using that by (cases x) (simp add: uvm_cpu_def push_cpu_def pop_cpu_def)
  then have "cpu_upd pop_cpu ?u = cpu_upd ?f s" using n by (simp add: cpu_upd_def)
  ultimately show ?thesis
    using k push_popcli(1,2) [OF ok]
    by (simp add: switchuvm_def Let_def) (simp add: cpu_at_def cpu_upd_def uvm_cpu_def)
qed

lemma mach_inv_uvm: "mach_inv s H \<Longrightarrow> mach_inv (cpu_upd (uvm_cpu k d) s) H"
  by (rule mach_inv_cpu_upd) (simp_all add: uvm_cpu_def)

lemma scheduler_back_inv:
  assumes inv: "mach_inv s H" and c: "cur s < ncpu s" and h: "H (cur s) = [PtableLock]"
  shows "\<exists>t. scheduler_back (cur s) s = Ret () t \<and> mach_inv t (H(cur s := [])) \<and>
    mach.more t = mach.more s \<and> ncpu t = ncpu s \<and>
    (\<lambda>d. c_proc (cpus t d)) = (\<lambda>d. c_proc (cpus s d))(cur s := None)"
proof -
  let ?s = "cpu_upd (\<lambda>x. x\<lparr>c_cr3 := V2P (kpgdir s), c_proc := None\<rparr>) s"
  have s: "cpu_at (cur s) (\<lambda>x. x\<lparr>c_proc := None\<rparr>) (switchkvm s) = ?s"
    by (simp add: switchkvm_def cpu_at_def cpu_upd_def)
  have inv': "mach_inv ?s H" by (rule mach_inv_cpu_upd [OF inv]) simp_all
  then have "release PtableLock ?s = Ret () (released PtableLock ?s)"
    by (rule release_inv) (use c h in simp_all)
  moreover have "mach_inv (released PtableLock ?s) (H(cur s := []))"
    using mach_inv_released [OF inv', of PtableLock] c h by simp
  ultimately show ?thesis using s
    by (auto simp: scheduler_back_def fun_eq_iff pop_cpu_def)
qed

section \<open>Sections under \<open>ptable.lock\<close>\<close>

text \<open>The machine part of a section that leaves the processors and the locks alone.\<close>

lemma section_release:
  assumes inv: "mach_inv s H" and c: "cur s < ncpu s" and out: "PtableLock \<notin> set (H (cur s))"
    and free: "\<not> l_locked (locks s PtableLock)"
    and u: "cpus u = cpus (acquired PtableLock s)" "ncpu u = ncpu s" "cur u = cur s"
      "locks u = locks (acquired PtableLock s)"
  shows "release PtableLock u = Ret () (released PtableLock u)"
    and "mach_inv (released PtableLock u) H"
    and "cpus (released PtableLock u) = cpus (cpu_upd norm_cpu s)"
proof -
  let ?H = "H(cur s := PtableLock # H (cur s))"
  have i: "mach_inv u ?H"
    using mach_inv_acquired [OF inv c free] u mach_inv_frame [of u "acquired PtableLock s" ?H] by simp
  then show "release PtableLock u = Ret () (released PtableLock u)"
    by (rule release_inv) (use u c in simp_all)
  from mach_inv_released [OF i, of PtableLock] u c
  show "mach_inv (released PtableLock u) H" by (simp add: fun_upd_idem)
  show "cpus (released PtableLock u) = cpus (cpu_upd norm_cpu s)"
    using mach_inv_cli_ok [OF inv c] u by (auto simp: cli_ok_def pop_push_cpu)
qed

text \<open>The same with the frame of the queue operations.\<close>

lemma section_frame:
  assumes inv: "mach_inv s H" and c: "cur s < ncpu s" and out: "PtableLock \<notin> set (H (cur s))"
    and free: "\<not> l_locked (locks s PtableLock)" and fr: "sched_frame (acquired PtableLock s) u"
  shows "release PtableLock u = Ret () (released PtableLock u)"
    and "mach_inv (released PtableLock u) H"
    and "cpus (released PtableLock u) = cpus (cpu_upd norm_cpu s)"
  using section_release [OF inv c out free, of u] sched_frameD(1-4) [OF fr] by simp_all

lemma wakeup_inv:
  assumes inv: "mach_inv s H" and c: "cur s < ncpu s" and out: "PtableLock \<notin> set (H (cur s))"
  shows "wakeup ch s = (if l_locked (locks s PtableLock) then Spin
     else Ret () (released PtableLock (wakeup1 (Some ch) (acquired PtableLock s))))"
  using acquire_inv [OF inv c out] section_frame(1) [OF inv c out _ sched_frame_wakeup1]
  by (simp add: wakeup_def)

lemma boost_inv:
  assumes inv: "mach_inv s H" and c: "cur s < ncpu s" and out: "PtableLock \<notin> set (H (cur s))"
    and rq: "rqueues s Q"
  shows "priority_boost s = Spin \<and> l_locked (locks s PtableLock) \<or>
    (\<exists>u. \<not> l_locked (locks s PtableLock) \<and> priority_boost s = Ret () (released PtableLock u) \<and>
       boost_queues (acquired PtableLock s) = Ret () u \<and> rqueues u (boosted Q) \<and>
       sched_frame (acquired PtableLock s) u \<and> pstate u = pstate s \<and>
       prio u = (\<lambda>p. if p < NPROC then 0 else prio s p))"
proof (cases "l_locked (locks s PtableLock)")
  case True
  with acquire_inv [OF inv c out] show ?thesis by (simp add: priority_boost_def)
next
  case False
  have "rqueues (acquired PtableLock s) Q"
    by (rule rqueues_cong [OF rq]) simp_all
  from rqueues_boost [OF this] obtain u where u: "boost_queues (acquired PtableLock s) = Ret () u"
    "rqueues u (boosted Q)" "sched_frame (acquired PtableLock s) u"
    "pstate u = pstate s" "prio u = (\<lambda>p. if p < NPROC then 0 else prio s p)"
    by (auto cong: if_cong)
  then have "priority_boost s = Ret () (released PtableLock u)"
    using acquire_inv [OF inv c out] section_frame(1) [OF inv c out False u(3)] False
    by (simp add: priority_boost_def)
  with u False show ?thesis by blast
qed

lemma make_ready_inv:
  assumes inv: "mach_inv s H" and c: "cur s < ncpu s" and out: "PtableLock \<notin> set (H (cur s))"
  shows "make_ready p s = (if l_locked (locks s PtableLock) then Spin
     else Ret () (released PtableLock (enqueue p (acquired PtableLock s))))"
  using acquire_inv [OF inv c out] section_frame(1) [OF inv c out _ sched_frame_enqueue]
  by (simp add: make_ready_def)

text \<open>The process that \<open>kill\<close> finds, and what it does to it.\<close>

definition kill_mark :: "nat \<Rightarrow> 'a pt_scheme \<Rightarrow> 'a pt_scheme" where
  "kill_mark p s =
     (let s = proc_upd p (\<lambda>x. x\<lparr>p_killed := True\<rparr>) s
      in if pstate s p = SLEEPING then enqueue p s else s)"

lemma kill_loop_find:
  "kill_loop pid ps s =
    (case find (\<lambda>p. p_pid (procs s p) = pid) ps of
       Some p \<Rightarrow> bindK (release PtableLock (kill_mark p s)) (\<lambda>_ s. Ret 0 s)
     | None \<Rightarrow> bindK (release PtableLock s) (\<lambda>_ s. Ret (- 1) s))"
  by (induction ps) (auto simp: kill_mark_def Let_def pstate_def)

lemma kill_mark_mach:
  "cpus (kill_mark p s) = cpus s" "ncpu (kill_mark p s) = ncpu s" "cur (kill_mark p s) = cur s"
  "locks (kill_mark p s) = locks s"
  by (simp_all add: kill_mark_def Let_def sched_frameD [OF sched_frame_enqueue])

lemma kill_inv:
  assumes inv: "mach_inv s H" and c: "cur s < ncpu s" and out: "PtableLock \<notin> set (H (cur s))"
  shows "kill pid s = (if l_locked (locks s PtableLock) then Spin
     else case find (\<lambda>p. p_pid (procs s p) = pid) [0..<NPROC] of
       Some p \<Rightarrow> Ret 0 (released PtableLock (kill_mark p (acquired PtableLock s)))
     | None \<Rightarrow> Ret (- 1) (released PtableLock (acquired PtableLock s)))"
  using acquire_inv [OF inv c out] section_release(1) [OF inv c out, of "acquired PtableLock s"]
    section_release(1) [OF inv c out, of "kill_mark p (acquired PtableLock s)" for p]
  by (auto simp: kill_def kill_loop_find kill_mark_mach split: option.splits)

section \<open>Giving up the processor\<close>

text \<open>The change of the process by \<open>yield\<close> before it is put back into a queue.\<close>

definition demote :: "proc \<Rightarrow> proc" where
  "demote x = x\<lparr>p_priority := (if p_priority x = NPRIO - 1 then p_priority x else p_priority x + 1),
     p_ticks_running := 0\<rparr>"

lemma yield_inv:
  assumes inv: "mach_inv s H" and c: "cur s < ncpu s" and h: "H (cur s) = []"
    and p: "c_proc (cpus s (cur s)) = Some p"
  shows "yield s = (if l_locked (locks s PtableLock) then Spin
    else Ret () (proc_upd p (\<lambda>x. x\<lparr>p_context := CtxYield (c_if (cpus s (cur s)))\<rparr>)
           (enqueue p (proc_upd p demote (acquired PtableLock s)))))"
proof (cases "l_locked (locks s PtableLock)")
  case True
  with acquire_inv [OF inv c, of PtableLock] h show ?thesis by (simp add: yield_def)
next
  case False
  let ?a = "acquired PtableLock s"
  let ?H = "H(cur s := [PtableLock])"
  let ?e = "enqueue p (proc_upd p demote ?a)"
  have ia: "mach_inv ?a ?H" using mach_inv_acquired [OF inv c False] h by simp
  have m: "myproc ?a = Ret (Some p) ?a"
    using myproc_inv(1,3) [OF ia] c p by (simp add: push_cpu_def)
  have fr: "sched_frame (proc_upd p demote ?a) ?e" by (rule sched_frame_enqueue)
  have e: "enqueue p (proc_upd p (\<lambda>x. x\<lparr>p_ticks_running := 0\<rparr>)
      (proc_upd p (\<lambda>x. x\<lparr>p_priority := p_priority x + (if p_priority x = NPRIO - 1 then 0 else 1)\<rparr>) ?a)) = ?e"
    by (rule arg_cong [where f = "enqueue p"]) (simp add: proc_upd_def demote_def)
  have "sched CtxYield ?e = Ret () (proc_upd p (\<lambda>x. x\<lparr>p_context := CtxYield (c_intena (cpus ?e (cur ?e)))\<rparr>) ?e)"
  proof (rule sched_inv)
    show "mach_inv ?e ?H" using ia mach_inv_sched_frame [OF fr] by simp
  qed (use sched_frameD(1-3) [OF fr] c p in \<open>simp_all add: push_cpu_def\<close>)
  moreover have "c_intena (cpus ?e (cur ?e)) = c_if (cpus s (cur s))"
    using sched_frameD(1,3) [OF fr] mach_invD(2) [OF inv c] h by (simp add: push_cpu_def)
  ultimately show ?thesis
    using acquire_inv [OF inv c, of PtableLock] h False m e
    by (simp add: yield_def Let_def)
qed

text \<open>
  \<open>sleep\<close> with a lock other than \<open>ptable.lock\<close>: while that lock is given up, \<open>ptable.lock\<close> is held, so
  the processor never holds neither.
\<close>

definition asleep :: "chan \<Rightarrow> proc \<Rightarrow> proc" where
  "asleep ch x = x\<lparr>p_chan := Some ch, p_state := SLEEPING\<rparr>"

lemma sleep_inv:
  assumes inv: "mach_inv s H" and c: "cur s < ncpu s" and h: "H (cur s) = [lk]"
    and lk: "lk \<noteq> PtableLock" and p: "c_proc (cpus s (cur s)) = Some p"
  shows "sleep ch (Some lk) s = (if l_locked (locks s PtableLock) then Spin
    else Ret () (proc_upd p (\<lambda>x. x\<lparr>p_context := CtxSleep lk (c_intena (cpus s (cur s)))\<rparr>)
           (proc_upd p (asleep ch) (released lk (acquired PtableLock s)))))"
    and "\<not> l_locked (locks s PtableLock) \<Longrightarrow>
      mach_inv (released lk (acquired PtableLock s)) (H(cur s := [PtableLock]))"
proof -
  have ne: "H (cur s) \<noteq> []" using h by simp
  have m: "myproc s = Ret (Some p) s" using myproc_inv(1,3) [OF inv c] ne p by simp
  let ?a = "acquired PtableLock s"
  let ?r = "released lk ?a"
  show ri: "mach_inv ?r (H(cur s := [PtableLock]))" if free: "\<not> l_locked (locks s PtableLock)"
    using mach_inv_released [OF mach_inv_acquired [OF inv c free], of lk] c h lk by simp
  show "sleep ch (Some lk) s = (if l_locked (locks s PtableLock) then Spin
    else Ret () (proc_upd p (\<lambda>x. x\<lparr>p_context := CtxSleep lk (c_intena (cpus s (cur s)))\<rparr>)
           (proc_upd p (asleep ch) ?r)))"
  proof (cases "l_locked (locks s PtableLock)")
    case True
    with acquire_inv [OF inv c, of PtableLock] h lk m show ?thesis by (simp add: sleep_def)
  next
    case False
    have r: "release lk ?a = Ret () ?r"
      by (rule release_inv [OF mach_inv_acquired [OF inv c False]]) (use c h in simp_all)
    let ?z = "proc_upd p (asleep ch) ?r"
    have z: "proc_upd p (\<lambda>x. x\<lparr>p_state := SLEEPING\<rparr>) (proc_upd p (\<lambda>x. x\<lparr>p_chan := Some ch\<rparr>) ?r) = ?z"
      by (simp add: proc_upd_def asleep_def)
    have "c_ncli (cpus s (cur s)) = 1" using mach_invD(2) [OF inv c] h by simp
    then have i: "c_intena (cpus ?z (cur ?z)) = c_intena (cpus s (cur s))"
      by (simp add: push_cpu_def pop_cpu_def)
    have "sched (CtxSleep lk) ?z =
        Ret () (proc_upd p (\<lambda>x. x\<lparr>p_context := CtxSleep lk (c_intena (cpus ?z (cur ?z)))\<rparr>) ?z)"
    proof (rule sched_inv)
      show "mach_inv ?z (H(cur s := [PtableLock]))" using ri [OF False] by simp
    qed (use c p in \<open>simp_all add: push_cpu_def pop_cpu_def pstate_def asleep_def\<close>)
    then show ?thesis
      using acquire_inv [OF inv c, of PtableLock] h lk m r False z unfolding i
      by (simp add: sleep_def Let_def)
  qed
qed

text \<open>\<open>sleep\<close> on \<open>ptable.lock\<close> itself, as \<open>wait\<close> does.\<close>

lemma sleep_ptable_inv:
  assumes inv: "mach_inv s H" and c: "cur s < ncpu s" and h: "H (cur s) = [PtableLock]"
    and p: "c_proc (cpus s (cur s)) = Some p"
  shows "sleep ch (Some PtableLock) s =
    Ret () (proc_upd p (\<lambda>x. x\<lparr>p_context := CtxSleep PtableLock (c_intena (cpus s (cur s)))\<rparr>)
           (proc_upd p (asleep ch) s))"
proof -
  have m: "myproc s = Ret (Some p) s" using myproc_inv(1,3) [OF inv c] h p by simp
  let ?z = "proc_upd p (asleep ch) s"
  have z: "proc_upd p (\<lambda>x. x\<lparr>p_state := SLEEPING\<rparr>) (proc_upd p (\<lambda>x. x\<lparr>p_chan := Some ch\<rparr>) s) = ?z"
    by (simp add: proc_upd_def asleep_def)
  have "sched (CtxSleep PtableLock) ?z =
      Ret () (proc_upd p (\<lambda>x. x\<lparr>p_context := CtxSleep PtableLock (c_intena (cpus ?z (cur ?z)))\<rparr>) ?z)"
    by (rule sched_inv [where H = H]) (use inv c h p in \<open>simp_all add: pstate_def asleep_def\<close>)
  with m z show ?thesis by (simp add: sleep_def Let_def)
qed

section \<open>The scheduler\<close>

text \<open>The first process of the first non-empty list.\<close>

fun pick :: "(nat \<Rightarrow> nat list) \<Rightarrow> nat list \<Rightarrow> nat option" where
  "pick Q [] = None"
| "pick Q (i # is) = (case Q i of [] \<Rightarrow> pick Q is | p # _ \<Rightarrow> Some p)"

lemma pick_Some:
  "pick Q is = Some p \<Longrightarrow> \<exists>i xs. i \<in> set is \<and> Q i = p # xs"
  by (induction "is") (auto split: list.splits)

lemma scheduler_pick_inv:
  assumes inv: "mach_inv s H" and c: "cur s < ncpu s" and h: "H (cur s) = [PtableLock]"
    and rq: "rqueues s Q" and "set is \<subseteq> {..<NPRIO}"
    and img: "\<forall>i < NPRIO. \<forall>p \<in> set (Q i). p_kstack (procs s p) \<noteq> 0 \<and> p_pgdir (procs s p) \<noteq> 0"
  shows "case pick Q is of
      None \<Rightarrow> scheduler_pick (cur s) is s = Ret None (released PtableLock s)
    | Some p \<Rightarrow> \<exists>u. scheduler_pick (cur s) is s = Ret (Some p) (proc_upd p (\<lambda>x. x\<lparr>p_state := RUNNING\<rparr>) u) \<and>
        rqueues u (Q(prio s p := tl (Q (prio s p)))) \<and> pstate u = pstate s \<and> prio u = prio s \<and>
        mach_inv u H \<and> (\<forall>q. pcore (procs u q) = pcore (procs s q)) \<and> ncpu u = ncpu s \<and>
        (\<lambda>d. c_proc (cpus u d)) = (\<lambda>d. c_proc (cpus s d))(cur s := Some p)"
  using assms(5)
proof (induction "is")
  case Nil
  have "release PtableLock s = Ret () (released PtableLock s)"
    by (rule release_inv [OF inv c]) (simp add: h)
  then show ?case by simp
next
  case (Cons i "is")
  then have i: "i < NPRIO" by simp
  show ?case
  proof (cases "Q i")
    case Nil
    then have "queue_first s i = None" using rqueuesD(1) [OF rq i] by simp
    with Nil have e: "scheduler_pick (cur s) (i # is) s = scheduler_pick (cur s) is s"
      "pick Q (i # is) = pick Q is" by simp_all
    show ?thesis unfolding e by (rule Cons.IH) (use Cons.prems in simp)
  next
    case (Cons p xs)
    then have f: "queue_first s i = Some p" and pr: "prio s p = i" and pq: "p \<in> set (Q i)"
      using rqueuesD(1) [OF rq i] rqueuesD(5) [OF rq i, of p] by auto
    let ?s = "cpu_upd (\<lambda>x. x\<lparr>c_proc := Some p\<rparr>) s"
    let ?w = "cpu_upd (uvm_cpu (p_kstack (procs s p)) (p_pgdir (procs s p))) ?s"
    have im: "mach_inv ?s H" by (rule mach_inv_cpu_upd [OF inv]) simp_all
    have sw: "switchuvm (Some p) ?s = Ret () ?w"
      using switchuvm_inv [OF im, of p] c h img i pq by simp
    have "rqueues ?w Q" by (rule rqueues_cong [OF rq]) simp_all
    from rqueues_dequeue [OF this, of p] obtain u where u: "dequeue p ?w = Ret () u"
      "rqueues u (Q(i := remove1 p (Q i)))" "sched_frame ?w u" "pstate u = pstate s" "prio u = prio s"
      using pr i pq by auto
    have "mach_inv u H" using mach_inv_sched_frame [OF u(3)] mach_inv_uvm [OF im] by simp
    moreover have "(\<lambda>d. c_proc (cpus u d)) = (\<lambda>d. c_proc (cpus s d))(cur s := Some p)"
      using sched_frameD(1) [OF u(3)] by (auto simp: fun_eq_iff uvm_cpu_def)
    moreover have "\<forall>q. pcore (procs u q) = pcore (procs s q)" "ncpu u = ncpu s"
      using sched_frameD(2,16) [OF u(3)] by simp_all
    ultimately show ?thesis
      using Cons f sw u pr by (simp add: cpu_at_cur) (rule exI [of _ u], simp)
  qed
qed

text \<open>A round of the scheduler loop takes the first process of the highest non-empty priority.\<close>

lemma scheduler_round_inv:
  assumes inv: "mach_inv s H" and c: "cur s < ncpu s" and h: "H (cur s) = []"
    and free: "\<not> l_locked (locks s PtableLock)" and rq: "rqueues s Q"
    and img: "\<forall>i < NPRIO. \<forall>p \<in> set (Q i). p_kstack (procs s p) \<noteq> 0 \<and> p_pgdir (procs s p) \<noteq> 0"
  shows "case pick Q [0..<NPRIO] of
      None \<Rightarrow> scheduler_round (cur s) s = Ret None (released PtableLock (acquired PtableLock (sti s)))
    | Some p \<Rightarrow> \<exists>u. scheduler_round (cur s) s = Ret (Some p) (proc_upd p (\<lambda>x. x\<lparr>p_state := RUNNING\<rparr>) u) \<and>
        rqueues u (Q(prio s p := tl (Q (prio s p)))) \<and> pstate u = pstate s \<and> prio u = prio s \<and>
        mach_inv u (H(cur s := [PtableLock])) \<and> (\<forall>q. pcore (procs u q) = pcore (procs s q)) \<and>
        ncpu u = ncpu s \<and>
        (\<lambda>d. c_proc (cpus u d)) = (\<lambda>d. c_proc (cpus s d))(cur s := Some p)"
proof -
  let ?t = "sti s"
  let ?a = "acquired PtableLock ?t"
  have it: "mach_inv ?t H" by (rule mach_inv_cong [OF inv]) (auto simp: sti_def h)
  have ia: "mach_inv ?a (H(cur s := [PtableLock]))"
    using mach_inv_acquired [OF it, of PtableLock] c free h by (simp add: sti_def)
  have aq: "acquire PtableLock ?t = Ret () ?a"
    using acquire_inv [OF it, of PtableLock] c free h by (simp add: sti_def)
  have ra: "rqueues ?a Q" by (rule rqueues_cong [OF rq]) (simp_all add: sti_def)
  have a: "pstate ?a = pstate s" "prio ?a = prio s" "procs ?a = procs s" "ncpu ?a = ncpu s" "cur ?a = cur s"
    "c_proc (cpus ?a d) = c_proc (cpus s d)" for d
    by (simp_all add: sti_def push_cpu_def)
  have e: "scheduler_round (cur s) s = scheduler_pick (cur ?a) [0..<NPRIO] ?a"
    using aq a by (simp add: scheduler_round_def)
  show ?thesis
    unfolding e using scheduler_pick_inv [OF ia _ _ ra, of "[0..<NPRIO]", unfolded a] c img
    by (simp only: a fun_upd_same) (simp add: atLeast0LessThan)
qed

section \<open>\<open>exit\<close>\<close>

text \<open>
  What \<open>exit\<close> does to other processes: some sleepers become ready, some parents change, and nothing
  else.
\<close>

definition wakes :: "'a pt_scheme \<Rightarrow> 'a pt_scheme \<Rightarrow> bool" where
  "wakes s t \<longleftrightarrow>
     (\<forall>q. (pcore (procs t q))\<lparr>p_parent := None\<rparr> = (pcore (procs s q))\<lparr>p_parent := None\<rparr>) \<and>
     t\<lparr>procs := procs s, queue_first := queue_first s, queue_last := queue_last s\<rparr> = s \<and>
     (\<forall>q. pstate t q = pstate s q \<or> pstate s q = SLEEPING \<and> pstate t q = RUNNABLE) \<and> prio t = prio s \<and>
     (\<forall>Q. ready_ok s Q \<longrightarrow> (\<exists>R. ready_ok t R))"

lemma wakes_refl [simp]: "wakes s s"
  by (auto simp: wakes_def)

lemma wakes_trans:
  assumes "wakes s t" and "wakes t u"
  shows "wakes s u"
proof -
  have "t\<lparr>procs := procs s, queue_first := queue_first s, queue_last := queue_last s\<rparr> = s"
    "u\<lparr>procs := procs t, queue_first := queue_first t, queue_last := queue_last t\<rparr> = t"
    using assms by (simp_all add: wakes_def)
  then have "u\<lparr>procs := procs s, queue_first := queue_first s, queue_last := queue_last s\<rparr> = s"
    by (metis (no_types, lifting) pt.update_convs(1-3) pt.surjective)
  moreover have "pstate u q = pstate s q \<or> pstate s q = SLEEPING \<and> pstate u q = RUNNABLE" for q
    using assms unfolding wakes_def by (metis procstate.distinct(15))
  ultimately show ?thesis using assms unfolding wakes_def by auto
qed

lemma wakes_wakeup1: "wakes s (wakeup1 c s)"
proof -
  have "prio (fold enqueue ps s) = prio s" for ps
    by (induction ps arbitrary: s) simp_all
  then have "prio (wakeup1 c s) = prio s" by (simp add: wakeup1_fold)
  with sched_frame_wakeup1 [of s c] ready_ok_wakeup1(1) [of s _ c] show ?thesis
    by (auto simp: wakes_def sched_frame_def pstate_wakeup1 split: if_splits)
qed

lemma wakes_parent: "wakes s (proc_upd p (\<lambda>x. x\<lparr>p_parent := v\<rparr>) s)"
proof -
  let ?t = "proc_upd p (\<lambda>x. x\<lparr>p_parent := v\<rparr>) s"
  have v: "nxt ?t = nxt s" "prio ?t = prio s" "pstate ?t = pstate s"
    by (auto simp: nxt_def prio_def pstate_def)
  then have "ready_ok ?t Q = ready_ok s Q" for Q
    by (simp add: ready_ok_def rqueues_def rqueue_def)
  with v show ?thesis by (auto simp: wakes_def pcore_def proc_upd_def)
qed

lemma wakes_reparent: "wakes s (reparent cp ps s)"
proof (induction ps arbitrary: s)
  case (Cons p ps)
  let ?s = "proc_upd p (\<lambda>x. x\<lparr>p_parent := initproc s\<rparr>) s"
  have "wakes s (if p_parent (procs s p) = Some cp then
      (if p_state (procs ?s p) = ZOMBIE then wakeup1 (map_option ChanProc (initproc ?s)) ?s else ?s) else s)"
    by (simp add: wakes_parent wakes_trans [OF wakes_parent wakes_wakeup1])
  from wakes_trans [OF this Cons.IH] show ?case by (simp add: Let_def split: if_splits)
qed simp

lemma wakesD:
  assumes "wakes s t"
  shows "cpus t = cpus s" "ncpu t = ncpu s" "cur t = cur s" "locks t = locks s" "initproc t = initproc s"
    "p_context (procs t q) = p_context (procs s q)" "p_kstack (procs t q) = p_kstack (procs s q)"
    "p_pgdir (procs t q) = p_pgdir (procs s q)" "p_pid (procs t q) = p_pid (procs s q)"
    "p_chan (procs t q) = p_chan (procs s q)"
    "pstate t q = pstate s q \<or> pstate s q = SLEEPING \<and> pstate t q = RUNNABLE"
    "prio t = prio s"
proof -
  from assms have e: "(pcore (procs t q))\<lparr>p_parent := None\<rparr> = (pcore (procs s q))\<lparr>p_parent := None\<rparr>"
    by (simp add: wakes_def)
  then show "p_context (procs t q) = p_context (procs s q)" "p_kstack (procs t q) = p_kstack (procs s q)"
    "p_pgdir (procs t q) = p_pgdir (procs s q)" "p_pid (procs t q) = p_pid (procs s q)"
    "p_chan (procs t q) = p_chan (procs s q)"
    by (cases "procs t q", cases "procs s q", simp add: pcore_def)+
  from assms have t: "s = t\<lparr>procs := procs s, queue_first := queue_first s, queue_last := queue_last s\<rparr>"
    by (simp add: wakes_def)
  show "cpus t = cpus s" "ncpu t = ncpu s" "cur t = cur s" "locks t = locks s" "initproc t = initproc s"
    by (subst t, simp)+
  show "pstate t q = pstate s q \<or> pstate s q = SLEEPING \<and> pstate t q = RUNNABLE" "prio t = prio s"
    using assms by (simp_all add: wakes_def)
qed

definition exit_mark :: "nat \<Rightarrow> 'a pt_scheme \<Rightarrow> 'a pt_scheme" where
  "exit_mark cp s = reparent cp [0..<NPROC] (wakeup1 (map_option ChanProc (p_parent (procs s cp))) s)"

lemma wakes_exit_mark: "wakes s (exit_mark cp s)"
  unfolding exit_mark_def by (rule wakes_trans [OF wakes_wakeup1 wakes_reparent])

lemma exit_final_inv:
  assumes inv: "mach_inv s H" and c: "cur s < ncpu s" and h: "H (cur s) = []"
    and p: "c_proc (cpus s (cur s)) = Some p"
  shows "exit_final p s = (if l_locked (locks s PtableLock) then Spin
    else Ret () (proc_upd p (\<lambda>x. x\<lparr>p_context := CtxExit (c_if (cpus s (cur s)))\<rparr>)
       (proc_upd p (\<lambda>x. x\<lparr>p_state := ZOMBIE\<rparr>) (exit_mark p (acquired PtableLock s)))))"
proof (cases "l_locked (locks s PtableLock)")
  case True
  with acquire_inv [OF inv c, of PtableLock] h show ?thesis by (simp add: exit_final_def)
next
  case False
  let ?a = "acquired PtableLock s"
  let ?H = "H(cur s := [PtableLock])"
  let ?z = "proc_upd p (\<lambda>x. x\<lparr>p_state := ZOMBIE\<rparr>) (exit_mark p ?a)"
  note w = wakesD(1-4) [OF wakes_exit_mark [of ?a p]]
  have "mach_inv ?a ?H" using mach_inv_acquired [OF inv c False] h by simp
  then have "mach_inv ?z ?H" using mach_inv_frame [of "exit_mark p ?a" ?a ?H] w by simp
  then have "sched CtxExit ?z =
      Ret () (proc_upd p (\<lambda>x. x\<lparr>p_context := CtxExit (c_intena (cpus ?z (cur ?z)))\<rparr>) ?z)"
    by (rule sched_inv) (use c p w in \<open>simp_all add: push_cpu_def pstate_def\<close>)
  moreover have "c_intena (cpus ?z (cur ?z)) = c_if (cpus s (cur s))"
    using w mach_invD(2) [OF inv c] h by (simp add: push_cpu_def)
  ultimately show ?thesis
    using acquire_inv [OF inv c, of PtableLock] h False
    by (simp add: exit_final_def Let_def exit_mark_def)
qed

section \<open>\<open>wait\<close>\<close>

text \<open>A reaped slot of the process table.\<close>

definition reap :: "proc \<Rightarrow> proc" where
  "reap x = x\<lparr>p_kstack := 0, p_pid := 0, p_parent := None, p_name := [], p_killed := False,
     p_state := UNUSED\<rparr>"

lemma mem_only_proc_upd:
  assumes "mem_only (proc_upd p f s) t"
  obtains u where "mem_only s u" and "t = proc_upd p f u"
proof
  let ?u = "s\<lparr>k_mem := k_mem t, k_freelist := k_freelist t\<rparr>"
  show "mem_only s ?u" by simp
  from assms have "t = (proc_upd p f s)\<lparr>k_mem := k_mem t, k_freelist := k_freelist t\<rparr>"
    by (simp add: mem_only_def)
  moreover have "(proc_upd p f s)\<lparr>k_mem := a, k_freelist := b\<rparr> = proc_upd p f (s\<lparr>k_mem := a, k_freelist := b\<rparr>)" for a b
    by (cases s) (simp add: proc_upd_def)
  ultimately show "t = proc_upd p f ?u" by simp
qed

lemma wait_scan_cases:
  assumes inv: "mach_inv s H" and c: "cur s < ncpu s" and h: "H (cur s) = [PtableLock]"
    and r: "wait_scan cp ps hk s = Ret r t"
  shows "r = Inr (hk \<or> (\<exists>p \<in> set ps. p_parent (procs s p) = Some cp)) \<and> t = s \<or>
    (\<exists>p u. p \<in> set ps \<and> r = Inl (p_pid (procs s p)) \<and> p_parent (procs s p) = Some cp \<and>
       pstate s p = ZOMBIE \<and> mem_only s u \<and> t = released PtableLock (proc_upd p reap u))"
  using r
proof (induction ps arbitrary: hk)
  case (Cons p ps)
  have mf: "may_free H s" using inv c h by (simp add: may_free_def)
  show ?case
  proof (cases "p_parent (procs s p) = Some cp \<and> pstate s p = ZOMBIE")
    case False
    then show ?thesis
      using Cons.IH [of hk] Cons.IH [of True] Cons.prems
      by (auto simp: pstate_def split: if_splits)
  next
    case True
    then obtain u1 u2 v where k: "kfree (p_kstack (procs s p)) s = Ret () u1"
      and f: "freevm (p_pgdir (procs u1 p)) (proc_upd p (\<lambda>x. x\<lparr>p_kstack := 0\<rparr>) u1) = Ret () u2"
      and rl: "release PtableLock (proc_upd p (\<lambda>x. x\<lparr>p_pid := 0, p_parent := None, p_name := [],
        p_killed := False, p_state := UNUSED\<rparr>) u2) = Ret () v"
      and res: "r = Inl (p_pid (procs s p))" "t = v"
      using Cons.prems by (auto simp: pstate_def Let_def)
    have m1: "mem_only s u1" by (rule kfree_mem_only [OF mf k])
    have "may_free H (proc_upd p (\<lambda>x. x\<lparr>p_kstack := 0\<rparr>) u1)"
      using may_free_mem_only [OF mf m1] by (simp add: may_free_def)
    from mem_only_proc_upd [OF freevm_mem_only [OF this f]] obtain u where
      u: "mem_only u1 u" "u2 = proc_upd p (\<lambda>x. x\<lparr>p_kstack := 0\<rparr>) u" .
    have m: "mem_only s u" by (rule mem_only_trans [OF m1 u(1)])
    let ?z = "proc_upd p reap u"
    have z: "proc_upd p (\<lambda>x. x\<lparr>p_pid := 0, p_parent := None, p_name := [],
        p_killed := False, p_state := UNUSED\<rparr>) u2 = ?z"
      unfolding u(2) by (simp add: proc_upd_def reap_def)
    have "mach_inv ?z H" "cur ?z = cur s" "ncpu ?z = ncpu s"
      using mach_inv_frame [of u s H] inv mem_onlyD(1-4) [OF m] by simp_all
    then have "release PtableLock ?z = Ret () (released PtableLock ?z)"
      using release_inv [of ?z H PtableLock] c h by simp
    with rl z res True m show ?thesis by auto
  qed
qed auto

lemma wait_round_cases:
  assumes inv: "mach_inv s H" and c: "cur s < ncpu s" and h: "H (cur s) = [PtableLock]"
    and p: "c_proc (cpus s (cur s)) = Some cp" and r: "wait_round cp s = Ret r t"
  shows "(\<exists>p u. p < NPROC \<and> r = Some (p_pid (procs s p)) \<and> p_parent (procs s p) = Some cp \<and>
       pstate s p = ZOMBIE \<and> mem_only s u \<and> t = released PtableLock (proc_upd p reap u)) \<or>
    (r = Some (- 1) \<and> t = released PtableLock s \<and>
       ((\<forall>p < NPROC. p_parent (procs s p) \<noteq> Some cp) \<or> p_killed (procs s cp))) \<or>
    (r = None \<and> (\<exists>p < NPROC. p_parent (procs s p) = Some cp) \<and> \<not> p_killed (procs s cp) \<and>
       t = proc_upd cp (\<lambda>x. x\<lparr>p_context := CtxSleep PtableLock (c_intena (cpus s (cur s)))\<rparr>)
             (proc_upd cp (asleep (ChanProc cp)) s))"
proof -
  from r obtain q u where w: "wait_scan cp [0..<NPROC] False s = Ret q u"
    and rest: "(case q of Inl pid \<Rightarrow> Ret (Some pid) u
      | Inr havekids \<Rightarrow> if \<not> havekids \<or> p_killed (procs u cp)
         then bindK (release PtableLock u) (\<lambda>_ s. Ret (Some (- 1)) s)
         else bindK (sleep (ChanProc cp) (Some PtableLock) u) (\<lambda>_ s. Ret None s)) = Ret r t"
    by (auto simp: wait_round_def)
  have rl: "release PtableLock s = Ret () (released PtableLock s)"
    using release_inv [OF inv c] h by simp
  from wait_scan_cases [OF inv c h w] show ?thesis
  proof (elim disjE)
    assume "q = Inr (False \<or> (\<exists>p \<in> set [0..<NPROC]. p_parent (procs s p) = Some cp)) \<and> u = s"
    with rest rl sleep_ptable_inv [OF inv c h p, of "ChanProc cp"] show ?thesis
      by (auto split: if_splits)
  next
    assume "\<exists>p v. p \<in> set [0..<NPROC] \<and> q = Inl (p_pid (procs s p)) \<and> p_parent (procs s p) = Some cp \<and>
       pstate s p = ZOMBIE \<and> mem_only s v \<and> u = released PtableLock (proc_upd p reap v)"
    with rest show ?thesis by (intro disjI1) fastforce
  qed
qed

end
