(* ===== verification/Sched_Machine.thy ===== *)
theory Sched_Machine
  imports Sched_Inv
begin

text \<open>
  All processors together.  A step of the machine is the execution, by one processor, of a piece of
  \<^verbatim>\<open>proc.c\<close> between two points where another processor may get in: an operation that takes and
  releases \<open>ptable.lock\<close>, or one half of a switch between a process and the scheduler, which takes
  or releases the lock on the other side of the switch.  Between the two halves the lock stays held.
  The rest of the kernel appears as steps that take and release other locks, change memory, change
  fields of the running process or of a process under construction, or switch interrupts.
\<close>

section \<open>The machine\<close>

text \<open>
  What a processor executes: the scheduler thread or the kernel thread of a process, each with the
  locks it holds; the scheduler just after a process has switched to it; a process the scheduler
  has just switched to.
\<close>

datatype phase = PSched "lockid list" | PKern nat "lockid list" | PBack | PResume nat

fun locks_of :: "phase \<Rightarrow> lockid list" where
  "locks_of (PSched ls) = ls"
| "locks_of (PKern p ls) = ls"
| "locks_of PBack = [PtableLock]"
| "locks_of (PResume p) = [PtableLock]"

fun running :: "phase \<Rightarrow> nat option" where
  "running (PSched ls) = None"
| "running (PKern p ls) = Some p"
| "running PBack = None"
| "running (PResume p) = Some p"

definition keeps_sched :: "(proc \<Rightarrow> proc) \<Rightarrow> bool" where
  "keeps_sched f \<longleftrightarrow> (\<forall>x. p_state (f x) = p_state x \<and> p_next_proc (f x) = p_next_proc x \<and>
     p_priority (f x) = p_priority x)"

inductive sched_step ::
  "'a pt_scheme \<Rightarrow> (nat \<Rightarrow> phase) \<Rightarrow> 'a pt_scheme \<Rightarrow> (nat \<Rightarrow> phase) \<Rightarrow> bool" where
  pick: "c < ncpu s \<Longrightarrow> ph c = PSched [] \<Longrightarrow> scheduler_round c (s\<lparr>cur := c\<rparr>) = Ret (Some p) t \<Longrightarrow>
    sched_step s ph t (ph(c := PResume p))"
| idle: "c < ncpu s \<Longrightarrow> ph c = PSched [] \<Longrightarrow> scheduler_round c (s\<lparr>cur := c\<rparr>) = Ret None t \<Longrightarrow>
    sched_step s ph t ph"
| switch_back: "c < ncpu s \<Longrightarrow> ph c = PBack \<Longrightarrow> scheduler_back c (s\<lparr>cur := c\<rparr>) = Ret () t \<Longrightarrow>
    sched_step s ph t (ph(c := PSched []))"
| resume_yield: "c < ncpu s \<Longrightarrow> ph c = PResume p \<Longrightarrow> p_context (procs s p) = CtxYield b \<Longrightarrow>
    yield_in b (s\<lparr>cur := c\<rparr>) = Ret () t \<Longrightarrow> sched_step s ph t (ph(c := PKern p []))"
| resume_forkret: "c < ncpu s \<Longrightarrow> ph c = PResume p \<Longrightarrow> p_context (procs s p) = CtxForkret \<Longrightarrow>
    forkret (Ret ()) (s\<lparr>cur := c\<rparr>) = Ret () t \<Longrightarrow> sched_step s ph t (ph(c := PKern p []))"
| resume_sleep: "c < ncpu s \<Longrightarrow> ph c = PResume p \<Longrightarrow> p_context (procs s p) = CtxSleep lk b \<Longrightarrow>
    sleep_wake p lk b (s\<lparr>cur := c\<rparr>) = Ret () t \<Longrightarrow>
    sched_step s ph t (ph(c := PKern p (if lk = PtableLock then [PtableLock] else [])))"
| timer: "c < ncpu s \<Longrightarrow> ph c = PKern p ls \<Longrightarrow> c_if (cpus s c) \<Longrightarrow>
    yield (cli (s\<lparr>cur := c\<rparr>)) = Ret () t \<Longrightarrow> sched_step s ph t (ph(c := PBack))"
| sleep: "c < ncpu s \<Longrightarrow> ph c = PKern p [lk] \<Longrightarrow> lk \<noteq> PtableLock \<Longrightarrow>
    sleep ch (Some lk) (s\<lparr>cur := c\<rparr>) = Ret () t \<Longrightarrow> sched_step s ph t (ph(c := PBack))"
| wait_done: "c < ncpu s \<Longrightarrow> ph c = PKern p [PtableLock] \<Longrightarrow>
    wait_round p (s\<lparr>cur := c\<rparr>) = Ret (Some r) t \<Longrightarrow> sched_step s ph t (ph(c := PKern p []))"
| wait_sleep: "c < ncpu s \<Longrightarrow> ph c = PKern p [PtableLock] \<Longrightarrow>
    wait_round p (s\<lparr>cur := c\<rparr>) = Ret None t \<Longrightarrow> sched_step s ph t (ph(c := PBack))"
| exit: "c < ncpu s \<Longrightarrow> ph c = PKern p [] \<Longrightarrow> exit_final p (s\<lparr>cur := c\<rparr>) = Ret () t \<Longrightarrow>
    sched_step s ph t (ph(c := PBack))"
| lock: "c < ncpu s \<Longrightarrow> ph c = PKern p ls \<Longrightarrow> l \<notin> set ls \<Longrightarrow> acquire l (s\<lparr>cur := c\<rparr>) = Ret () t \<Longrightarrow>
    sched_step s ph t (ph(c := PKern p (l # ls)))"
| unlock: "c < ncpu s \<Longrightarrow> ph c = PKern p ls \<Longrightarrow> l \<in> set ls \<Longrightarrow> release l (s\<lparr>cur := c\<rparr>) = Ret () t \<Longrightarrow>
    sched_step s ph t (ph(c := PKern p (remove1 l ls)))"
| lock_sched: "c < ncpu s \<Longrightarrow> ph c = PSched ls \<Longrightarrow> l \<notin> set ls \<Longrightarrow> acquire l (s\<lparr>cur := c\<rparr>) = Ret () t \<Longrightarrow>
    sched_step s ph t (ph(c := PSched (l # ls)))"
| unlock_sched: "c < ncpu s \<Longrightarrow> ph c = PSched ls \<Longrightarrow> l \<in> set ls \<Longrightarrow> release l (s\<lparr>cur := c\<rparr>) = Ret () t \<Longrightarrow>
    sched_step s ph t (ph(c := PSched (remove1 l ls)))"
| wakeup: "c < ncpu s \<Longrightarrow> PtableLock \<notin> set (locks_of (ph c)) \<Longrightarrow> wakeup ch (s\<lparr>cur := c\<rparr>) = Ret () t \<Longrightarrow>
    sched_step s ph t ph"
| kill: "c < ncpu s \<Longrightarrow> PtableLock \<notin> set (locks_of (ph c)) \<Longrightarrow> kill pid (s\<lparr>cur := c\<rparr>) = Ret r t \<Longrightarrow>
    sched_step s ph t ph"
| boost: "c < ncpu s \<Longrightarrow> PtableLock \<notin> set (locks_of (ph c)) \<Longrightarrow> priority_boost (s\<lparr>cur := c\<rparr>) = Ret () t \<Longrightarrow>
    sched_step s ph t ph"
| alloc: "c < ncpu s \<Longrightarrow> PtableLock \<notin> set (locks_of (ph c)) \<Longrightarrow> alloc_slot (s\<lparr>cur := c\<rparr>) = Ret r t \<Longrightarrow>
    sched_step s ph t ph"
| embryo: "p < NPROC \<Longrightarrow> pstate s p = EMBRYO \<Longrightarrow> keeps_sched f \<Longrightarrow> sched_step s ph (proc_upd p f s) ph"
| drop: "p < NPROC \<Longrightarrow> pstate s p = EMBRYO \<Longrightarrow>
    sched_step s ph (proc_upd p (\<lambda>x. x\<lparr>p_kstack := 0, p_state := UNUSED\<rparr>) s) ph"
| ready: "c < ncpu s \<Longrightarrow> PtableLock \<notin> set (locks_of (ph c)) \<Longrightarrow> p < NPROC \<Longrightarrow> pstate s p = EMBRYO \<Longrightarrow>
    p_kstack (procs s p) \<noteq> 0 \<Longrightarrow> p_pgdir (procs s p) \<noteq> 0 \<Longrightarrow> p_context (procs s p) = CtxForkret \<Longrightarrow>
    make_ready p (s\<lparr>cur := c\<rparr>) = Ret () t \<Longrightarrow> sched_step s ph t ph"
| own: "c < ncpu s \<Longrightarrow> ph c = PKern p ls \<Longrightarrow> keeps_sched f \<Longrightarrow>
    p_kstack (f (procs s p)) = p_kstack (procs s p) \<Longrightarrow> p_pgdir (f (procs s p)) \<noteq> 0 \<Longrightarrow>
    sched_step s ph (proc_upd p f s) ph"
| memory: "mem_only s t \<Longrightarrow> sched_step s ph t ph"
| intr: "c < ncpu s \<Longrightarrow> locks_of (ph c) = [] \<Longrightarrow>
    sched_step s ph (cpu_at c (\<lambda>x. x\<lparr>c_if := b\<rparr>) s) ph"

text \<open>
  The machine when the processors enter the scheduler: no process has run yet, the queues are empty,
  no lock is held.
\<close>

definition sched_init :: "'a pt_scheme \<Rightarrow> bool" where
  "sched_init s \<longleftrightarrow> ncpu s \<le> NCPU \<and> inj_on (\<lambda>i. c_apicid (cpus s i)) {..<ncpu s} \<and>
     (\<forall>c < ncpu s. c_ncli (cpus s c) = 0 \<and> c_proc (cpus s c) = None) \<and>
     (\<forall>l. locks s l = \<lparr>l_locked = False, l_cpu = None\<rparr>) \<and>
     (\<forall>i < NPRIO. queue_first s i = None \<and> queue_last s i = None) \<and>
     (\<forall>p < NPROC. (pstate s p = UNUSED \<or> pstate s p = EMBRYO) \<and> prio s p = 0)"

inductive sched_reach :: "'a pt_scheme \<Rightarrow> (nat \<Rightarrow> phase) \<Rightarrow> bool" where
  init: "sched_init s \<Longrightarrow> sched_reach s (\<lambda>_. PSched [])"
| step: "sched_reach s ph \<Longrightarrow> sched_step s ph t ph' \<Longrightarrow> sched_reach t ph'"

section \<open>The invariant\<close>

definition resumable :: "ctx \<Rightarrow> bool" where
  "resumable k \<longleftrightarrow> (case k of CtxForkret \<Rightarrow> True | CtxYield b \<Rightarrow> True | CtxSleep l b \<Rightarrow> True | _ \<Rightarrow> False)"

definition live :: "procstate \<Rightarrow> bool" where
  "live st \<longleftrightarrow> st = RUNNABLE \<or> st = SLEEPING \<or> st = RUNNING"

fun cproc_ok :: "phase \<Rightarrow> nat option \<Rightarrow> bool" where
  "cproc_ok (PSched ls) po \<longleftrightarrow> po = None"
| "cproc_ok (PKern p ls) po \<longleftrightarrow> po = Some p"
| "cproc_ok PBack po \<longleftrightarrow> True"
| "cproc_ok (PResume p) po \<longleftrightarrow> po = Some p"

definition proc_inv :: "'a pt_scheme \<Rightarrow> (nat \<Rightarrow> phase) \<Rightarrow> bool" where
  "proc_inv s ph \<longleftrightarrow>
     (\<exists>Q. ready_ok s Q) \<and>
     (\<forall>c < ncpu s. cproc_ok (ph c) (c_proc (cpus s c))) \<and>
     (\<forall>c < ncpu s. \<forall>p. running (ph c) = Some p \<longrightarrow> p < NPROC \<and> pstate s p = RUNNING) \<and>
     (\<forall>c < ncpu s. \<forall>d < ncpu s. \<forall>p. running (ph c) = Some p \<longrightarrow> running (ph d) = Some p \<longrightarrow> c = d) \<and>
     (\<forall>p < NPROC. pstate s p = RUNNING \<longrightarrow> (\<exists>c < ncpu s. running (ph c) = Some p)) \<and>
     (\<forall>p < NPROC. live (pstate s p) \<longrightarrow> p_kstack (procs s p) \<noteq> 0 \<and> p_pgdir (procs s p) \<noteq> 0) \<and>
     (\<forall>p < NPROC. pstate s p = RUNNABLE \<or> pstate s p = SLEEPING \<longrightarrow> resumable (p_context (procs s p))) \<and>
     (\<forall>c < ncpu s. \<forall>p. ph c = PResume p \<longrightarrow> resumable (p_context (procs s p)))"

definition sched_inv_all :: "'a pt_scheme \<Rightarrow> (nat \<Rightarrow> phase) \<Rightarrow> bool" where
  "sched_inv_all s ph \<longleftrightarrow> mach_inv s (\<lambda>c. locks_of (ph c)) \<and> proc_inv s ph"

lemma sched_init_inv: "sched_init s \<Longrightarrow> sched_inv_all s (\<lambda>_. PSched [])"
proof -
  assume i: "sched_init s"
  then have "ready_ok s (\<lambda>_. [])"
    by (auto simp: sched_init_def ready_ok_def rqueues_def rqueue_def)
  with i show ?thesis
    by (auto simp: sched_inv_all_def proc_inv_def mach_inv_def sched_init_def live_def)
qed

lemma locks_of_upd:
  "(\<lambda>d. locks_of ((ph(c := x)) d)) = (\<lambda>d. locks_of (ph d))(c := locks_of x)"
  by (simp add: fun_eq_iff)

text \<open>How the process part changes, by the kind of step.\<close>

lemma proc_invD:
  assumes "proc_inv s ph"
  shows "\<exists>Q. ready_ok s Q" and "c < ncpu s \<Longrightarrow> cproc_ok (ph c) (c_proc (cpus s c))"
    and "c < ncpu s \<Longrightarrow> running (ph c) = Some p \<Longrightarrow> p < NPROC \<and> pstate s p = RUNNING"
    and "c < ncpu s \<Longrightarrow> d < ncpu s \<Longrightarrow> running (ph c) = Some p \<Longrightarrow> running (ph d) = Some p \<Longrightarrow> c = d"
    and "p < NPROC \<Longrightarrow> pstate s p = RUNNING \<Longrightarrow> \<exists>c < ncpu s. running (ph c) = Some p"
    and "p < NPROC \<Longrightarrow> live (pstate s p) \<Longrightarrow> p_kstack (procs s p) \<noteq> 0 \<and> p_pgdir (procs s p) \<noteq> 0"
    and "p < NPROC \<Longrightarrow> pstate s p = RUNNABLE \<or> pstate s p = SLEEPING \<Longrightarrow> resumable (p_context (procs s p))"
    and "c < ncpu s \<Longrightarrow> ph c = PResume p \<Longrightarrow> resumable (p_context (procs s p))"
  using assms unfolding proc_inv_def by blast+

text \<open>Steps that change neither the process table nor which processes run where.\<close>

lemma proc_inv_same:
  assumes "proc_inv s ph" and "procs t = procs s" and "queue_first t = queue_first s"
    and "queue_last t = queue_last s" and "ncpu t = ncpu s"
    and "\<And>c. c_proc (cpus t c) = c_proc (cpus s c)"
    and "\<And>c. running (ph' c) = running (ph c)"
    and "\<And>c po. cproc_ok (ph c) po \<Longrightarrow> cproc_ok (ph' c) po"
    and "\<And>c p. ph' c = PResume p \<Longrightarrow> ph c = PResume p"
  shows "proc_inv t ph'"
proof -
  have e: "pstate t = pstate s" "ready_ok t = ready_ok s"
    using assms(2) ready_ok_cong [OF assms(2-4)] by (simp_all add: pstate_def fun_eq_iff)
  show ?thesis
    using assms(1) unfolding proc_inv_def assms(2,5,6,7) e by (blast intro: assms(8) dest: assms(9))
qed

text \<open>Steps that change processes but not which processes run.\<close>

lemma proc_inv_change:
  assumes inv: "proc_inv s ph" and "\<exists>Q. ready_ok t Q" and n: "ncpu t = ncpu s"
    and cp: "\<And>c. c_proc (cpus t c) = c_proc (cpus s c)"
    and st: "\<And>q. q < NPROC \<Longrightarrow> pstate t q = RUNNING \<longleftrightarrow> pstate s q = RUNNING"
    and im: "\<And>q. q < NPROC \<Longrightarrow> live (pstate t q) \<Longrightarrow>
      p_kstack (procs t q) \<noteq> 0 \<and> p_pgdir (procs t q) \<noteq> 0"
    and cx: "\<And>q. q < NPROC \<Longrightarrow> pstate t q = RUNNABLE \<or> pstate t q = SLEEPING \<Longrightarrow>
      resumable (p_context (procs t q))"
    and cr: "\<And>c p. c < ncpu s \<Longrightarrow> ph c = PResume p \<Longrightarrow> p_context (procs t p) = p_context (procs s p)"
  shows "proc_inv t ph"
  unfolding proc_inv_def n cp
proof (intro conjI allI impI)
  show "\<exists>Q. ready_ok t Q" by fact
  show "\<exists>c < ncpu s. running (ph c) = Some p" if "p < NPROC" "pstate t p = RUNNING" for p
    using proc_invD(5) [OF inv] st that by blast
  show "resumable (p_context (procs t p))" if "c < ncpu s" "ph c = PResume p" for c p
    using proc_invD(8) [OF inv that] cr [OF that] by simp
qed (use proc_invD(2-4) [OF inv] st im cx in blast)+

text \<open>A process leaves its processor.\<close>

lemma proc_inv_leave:
  assumes inv: "proc_inv s ph" and c: "c < ncpu s" and r: "running (ph c) = Some p"
    and "\<exists>Q. ready_ok t Q" and n: "ncpu t = ncpu s"
    and cp: "\<And>c. c_proc (cpus t c) = c_proc (cpus s c)"
    and sp: "pstate t p \<noteq> RUNNING"
    and st: "\<And>q. q < NPROC \<Longrightarrow> q \<noteq> p \<Longrightarrow> pstate t q = RUNNING \<longleftrightarrow> pstate s q = RUNNING"
    and im: "\<And>q. q < NPROC \<Longrightarrow> live (pstate t q) \<Longrightarrow>
      p_kstack (procs t q) \<noteq> 0 \<and> p_pgdir (procs t q) \<noteq> 0"
    and cx: "\<And>q. q < NPROC \<Longrightarrow> pstate t q = RUNNABLE \<or> pstate t q = SLEEPING \<Longrightarrow>
      resumable (p_context (procs t q))"
    and cr: "\<And>d q. d < ncpu s \<Longrightarrow> ph d = PResume q \<Longrightarrow> q \<noteq> p \<Longrightarrow> p_context (procs t q) = p_context (procs s q)"
  shows "proc_inv t (ph(c := PBack))"
  unfolding proc_inv_def n cp
proof (intro conjI allI impI)
  show "\<exists>Q. ready_ok t Q" by fact
  have other: "q \<noteq> p" if "d < ncpu s" "d \<noteq> c" "running (ph d) = Some q" for d q
    using proc_invD(4) [OF inv that(1) c, of p] r that by auto
  fix d assume d: "d < ncpu s"
  show "cproc_ok ((ph(c := PBack)) d) (c_proc (cpus s d))" using proc_invD(2) [OF inv d] by simp
  show "q < NPROC" "pstate t q = RUNNING" if "running ((ph(c := PBack)) d) = Some q" for q
    using that proc_invD(3) [OF inv d, of q] other [OF d] st by (auto split: if_splits)
  show "d = e" if "e < ncpu s" "running ((ph(c := PBack)) d) = Some q" "running ((ph(c := PBack)) e) = Some q" for e q
    using that proc_invD(4) [OF inv d that(1)] by (auto split: if_splits)
  show "resumable (p_context (procs t q))" if "(ph(c := PBack)) d = PResume q" for q
  proof -
    from that have "d \<noteq> c" "ph d = PResume q" by (auto split: if_splits)
    with proc_invD(8) [OF inv d] cr [OF d] other [OF d, of q] show ?thesis by simp
  qed
next
  fix q assume q: "q < NPROC"
  show "\<exists>d < ncpu s. running ((ph(c := PBack)) d) = Some q" if "pstate t q = RUNNING"
  proof -
    from that sp have "q \<noteq> p" by auto
    with proc_invD(5) [OF inv q] st [OF q] that r show ?thesis by (metis fun_upd_apply option.inject)
  qed
qed (use im cx in blast)+

text \<open>A ready process gets a processor.\<close>

lemma proc_inv_enter:
  assumes inv: "proc_inv s ph" and c: "c < ncpu s" and r: "running (ph c) = None"
    and "\<exists>Q. ready_ok t Q" and n: "ncpu t = ncpu s"
    and cp: "\<And>d. c_proc (cpus t d) = (if d = c then Some p else c_proc (cpus s d))"
    and p: "p < NPROC" "pstate s p = RUNNABLE"
    and st: "pstate t = (pstate s)(p := RUNNING)"
    and fr: "\<And>q. p_kstack (procs t q) = p_kstack (procs s q) \<and> p_pgdir (procs t q) = p_pgdir (procs s q) \<and>
      p_context (procs t q) = p_context (procs s q)"
  shows "proc_inv t (ph(c := PResume p))"
  unfolding proc_inv_def n cp
proof (intro conjI allI impI)
  show "\<exists>Q. ready_ok t Q" by fact
  have other: "q \<noteq> p" if "d < ncpu s" "running (ph d) = Some q" for d q
    using proc_invD(3) [OF inv that] p by auto
  fix d assume d: "d < ncpu s"
  show "cproc_ok ((ph(c := PResume p)) d) (if d = c then Some p else c_proc (cpus s d))"
    using proc_invD(2) [OF inv d] by simp
  show "q < NPROC" "pstate t q = RUNNING" if "running ((ph(c := PResume p)) d) = Some q" for q
    using that proc_invD(3) [OF inv d, of q] p unfolding st by (auto split: if_splits)
  show "d = e" if "e < ncpu s" "running ((ph(c := PResume p)) d) = Some q"
      "running ((ph(c := PResume p)) e) = Some q" for e q
    using that proc_invD(4) [OF inv d that(1)] other [OF d, of q] other [OF that(1), of q]
    by (auto split: if_splits)
  show "resumable (p_context (procs t q))" if "(ph(c := PResume p)) d = PResume q" for q
    using that proc_invD(7) [OF inv p(1)] proc_invD(8) [OF inv d, of q] p fr by (auto split: if_splits)
next
  fix q assume q: "q < NPROC"
  show "\<exists>d < ncpu s. running ((ph(c := PResume p)) d) = Some q" if "pstate t q = RUNNING"
  proof (cases "q = p")
    case False
    with that have "pstate s q = RUNNING" by (simp add: st)
    with proc_invD(5) [OF inv q] r show ?thesis by (metis fun_upd_apply option.distinct(1))
  qed (use c in auto)
  show "p_kstack (procs t q) \<noteq> 0" "p_pgdir (procs t q) \<noteq> 0" if "live (pstate t q)"
    using that proc_invD(6) [OF inv q] p fr unfolding st by (auto simp: live_def split: if_splits)
  show "resumable (p_context (procs t q))" if "pstate t q = RUNNABLE \<or> pstate t q = SLEEPING"
    using that proc_invD(7) [OF inv q] fr unfolding st by (auto split: if_splits)
qed

section \<open>Every step keeps the invariant\<close>

lemma sched_inv_allD:
  assumes "sched_inv_all s ph" and "c < ncpu s"
  shows "mach_inv (s\<lparr>cur := c\<rparr>) (\<lambda>d. locks_of (ph d))"
    and "cur (s\<lparr>cur := c\<rparr>) < ncpu (s\<lparr>cur := c\<rparr>)" and "proc_inv s ph"
    and "proc_inv (s\<lparr>cur := c\<rparr>) ph"
  using assms proc_inv_same [of s ph "s\<lparr>cur := c\<rparr>" ph] by (simp_all add: sched_inv_all_def)

lemma sched_inv_allI:
  "mach_inv t (\<lambda>d. locks_of (ph d)) \<Longrightarrow> proc_inv t ph \<Longrightarrow> sched_inv_all t ph"
  by (simp add: sched_inv_all_def)

lemma sched_inv_all_upd:
  "mach_inv t ((\<lambda>d. locks_of (ph d))(c := locks_of x)) \<Longrightarrow> proc_inv t (ph(c := x)) \<Longrightarrow>
   sched_inv_all t (ph(c := x))"
  by (simp only: sched_inv_all_def locks_of_upd)

lemma c_proc_push_pop [simp]:
  "c_proc (push_cpu x) = c_proc x" "c_proc (pop_cpu x) = c_proc x" "c_proc (norm_cpu x) = c_proc x"
  by (simp_all add: push_cpu_def pop_cpu_def norm_cpu_def)

lemma queued_live:
  assumes "proc_inv s ph" and "ready_ok s Q" and "i < NPRIO" and "p \<in> set (Q i)"
  shows "p < NPROC" "pstate s p = RUNNABLE" "prio s p = i"
    and "p_kstack (procs s p) \<noteq> 0 \<and> p_pgdir (procs s p) \<noteq> 0"
proof -
  show pn: "p < NPROC" and pr: "prio s p = i"
    using assms(2) rqueuesD(4,5) [of s Q i p] assms(3,4) by (auto simp: ready_ok_def)
  show r: "pstate s p = RUNNABLE" using assms pn pr by (auto simp: ready_ok_def)
  show "p_kstack (procs s p) \<noteq> 0 \<and> p_pgdir (procs s p) \<noteq> 0"
    using proc_invD(6) [OF assms(1) pn] r by (simp add: live_def)
qed

text \<open>A round of the scheduler.\<close>

lemma ready_ok_run:
  assumes "ready_ok s Q" and "rqueues u (Q(prio s p := tl (Q (prio s p))))" and "Q (prio s p) = p # xs"
    and "pstate u = pstate s" and "prio u = prio s" and "prio s p < NPRIO"
  shows "ready_ok (proc_upd p (\<lambda>x. x\<lparr>p_state := RUNNING\<rparr>) u) (Q(prio s p := xs))"
proof -
  let ?t = "proc_upd p (\<lambda>x. x\<lparr>p_state := RUNNING\<rparr>) u"
  have v: "nxt ?t = nxt u" "prio ?t = prio s" "pstate ?t = (pstate s)(p := RUNNING)"
    using assms(4,5) by (auto simp: nxt_def prio_def pstate_def fun_eq_iff)
  have rq: "rqueues s Q" using assms(1) by (simp add: ready_ok_def)
  have "p \<notin> set xs" using rqueuesD(2) [OF rq assms(6)] assms(3) by simp
  moreover have "rqueues ?t (Q(prio s p := xs))"
    by (rule rqueues_cong [of u]) (use assms v in simp_all)
  ultimately show ?thesis
    using assms(1,3) rqueuesD(5) [OF rq, of _ p] unfolding ready_ok_def v by auto
qed

lemma round_outcome:
  assumes inv: "sched_inv_all s ph" and c: "c < ncpu s" and h: "ph c = PSched []"
  shows "scheduler_round c (s\<lparr>cur := c\<rparr>) = Spin \<or>
    (\<exists>t. scheduler_round c (s\<lparr>cur := c\<rparr>) = Ret None t \<and> sched_inv_all t ph) \<or>
    (\<exists>p t. scheduler_round c (s\<lparr>cur := c\<rparr>) = Ret (Some p) t \<and> sched_inv_all t (ph(c := PResume p)))"
proof -
  let ?s = "s\<lparr>cur := c\<rparr>"
  let ?H = "\<lambda>d. locks_of (ph d)"
  note I = sched_inv_allD [OF inv c]
  obtain Q where Q: "ready_ok ?s Q" using proc_invD(1) [OF I(4)] by blast
  then have rq: "rqueues ?s Q" unfolding ready_ok_def by blast
  have img: "\<forall>i < NPRIO. \<forall>p \<in> set (Q i). p_kstack (procs ?s p) \<noteq> 0 \<and> p_pgdir (procs ?s p) \<noteq> 0"
    using queued_live(4) [OF I(4) Q] by blast
  have H: "?H (cur ?s) = []" using h by simp
  show ?thesis
  proof (cases "l_locked (locks s PtableLock)")
    case True
    have "mach_inv (sti ?s) ?H" by (rule mach_inv_cong [OF I(1)]) (auto simp: sti_def h)
    from acquire_inv [OF this, of PtableLock] True c h show ?thesis
      by (simp add: scheduler_round_def sti_def)
  next
    case False
    then have free: "\<not> l_locked (locks ?s PtableLock)" by simp
    note R = scheduler_round_inv [OF I(1,2) H free rq img]
    show ?thesis
    proof (cases "pick Q [0..<NPRIO]")
      case None
      let ?t = "released PtableLock (acquired PtableLock (sti ?s))"
      have it: "mach_inv (sti ?s) ?H" by (rule mach_inv_cong [OF I(1)]) (auto simp: sti_def h)
      have "mach_inv ?t ?H"
        using section_release(2) [OF it, of "acquired PtableLock (sti ?s)"] c h False
        by (simp add: sti_def)
      moreover have "proc_inv ?t ph"
        by (rule proc_inv_same [OF I(3)]) (simp_all add: sti_def)
      ultimately show ?thesis using R None by (auto simp: sched_inv_all_def)
    next
      case (Some p)
      with R obtain u where u: "scheduler_round c ?s = Ret (Some p) (proc_upd p (\<lambda>x. x\<lparr>p_state := RUNNING\<rparr>) u)"
        "rqueues u (Q(prio s p := tl (Q (prio s p))))" "pstate u = pstate s" "prio u = prio s"
        "mach_inv u (?H(c := [PtableLock]))" "\<forall>q. pcore (procs u q) = pcore (procs s q)"
        "ncpu u = ncpu s" "(\<lambda>d. c_proc (cpus u d)) = (\<lambda>d. c_proc (cpus s d))(c := Some p)"
        by auto
      let ?t = "proc_upd p (\<lambda>x. x\<lparr>p_state := RUNNING\<rparr>) u"
      from pick_Some [OF Some] obtain i xs where i: "i < NPRIO" "Q i = p # xs" by auto
      then have p: "p < NPROC" "pstate s p = RUNNABLE" "prio s p = i"
        using queued_live(1-3) [OF I(4) Q i(1), of p] by simp_all
      have "ready_ok ?t (Q(prio s p := xs))"
        by (rule ready_ok_run [of s]) (use Q u i p in simp_all)
      moreover have "c_proc (cpus ?t d) = (if d = c then Some p else c_proc (cpus s d))" for d
        using fun_cong [OF u(8), of d] by simp
      moreover have "pstate ?t = (pstate s)(p := RUNNING)"
        using u(3) by (auto simp: pstate_def fun_eq_iff)
      moreover have "p_kstack (procs ?t q) = p_kstack (procs s q) \<and>
          p_pgdir (procs ?t q) = p_pgdir (procs s q) \<and> p_context (procs ?t q) = p_context (procs s q)" for q
        using pcore_eqD(2,3,7) [of "procs u q" "procs s q"] u(6) by auto
      ultimately have "proc_inv ?t (ph(c := PResume p))"
        using u(7) h p by (intro proc_inv_enter [OF I(3) c]) auto
      with u(1,5) show ?thesis by (auto intro!: sched_inv_all_upd)
    qed
  qed
qed

text \<open>The other half of a switch.\<close>

lemma back_outcome:
  assumes inv: "sched_inv_all s ph" and c: "c < ncpu s" and h: "ph c = PBack"
  shows "\<exists>t. scheduler_back c (s\<lparr>cur := c\<rparr>) = Ret () t \<and> sched_inv_all t (ph(c := PSched []))"
proof -
  let ?s = "s\<lparr>cur := c\<rparr>"
  note I = sched_inv_allD [OF inv c]
  from scheduler_back_inv [OF I(1,2)] h obtain t where
    t: "scheduler_back c ?s = Ret () t" "mach_inv t ((\<lambda>d. locks_of (ph d))(c := []))"
      "mach.more t = mach.more s" "ncpu t = ncpu s"
      "(\<lambda>d. c_proc (cpus t d)) = (\<lambda>d. c_proc (cpus s d))(c := None)" by auto
  have m: "procs t = procs s" "queue_first t = queue_first s" "queue_last t = queue_last s"
    using t(3) by (cases t, cases s, simp)+
  have e: "ready_ok t = ready_ok s" "pstate t = pstate s"
    using ready_ok_cong [OF m] m(1) by (simp_all add: pstate_def fun_eq_iff)
  have cp: "c_proc (cpus t d) = (if d = c then None else c_proc (cpus s d))" for d
    using fun_cong [OF t(5), of d] by simp
  have ru: "running ((ph(c := PSched [])) d) = running (ph d)" for d using h by simp
  have "proc_inv t (ph(c := PSched []))"
    using I(3) unfolding proc_inv_def t(4) m e cp ru by auto
  with t show ?thesis by (auto intro!: sched_inv_all_upd)
qed

lemma resume_proc_inv:
  assumes "proc_inv s ph" and "ph c = PResume p"
    and "procs t = procs s" and "queue_first t = queue_first s" and "queue_last t = queue_last s"
    and "ncpu t = ncpu s" and "\<And>c. c_proc (cpus t c) = c_proc (cpus s c)"
  shows "proc_inv t (ph(c := PKern p ls))"
  by (rule proc_inv_same [OF assms(1,3-7)]) (use assms(2) in \<open>auto split: if_splits\<close>)

lemma resume_yield_outcome:
  assumes inv: "sched_inv_all s ph" and c: "c < ncpu s" and h: "ph c = PResume p"
  shows "\<exists>t. yield_in b (s\<lparr>cur := c\<rparr>) = Ret () t \<and> sched_inv_all t (ph(c := PKern p []))"
proof -
  let ?s = "s\<lparr>cur := c\<rparr>"
  note I = sched_inv_allD [OF inv c]
  have ne: "locks_of (ph (cur ?s)) \<noteq> []" using h by simp
  note S = sched_in_inv [OF I(1,2) ne, of b]
  let ?u = "cpu_upd (\<lambda>x. x\<lparr>c_intena := b\<rparr>) ?s"
  have r: "release PtableLock ?u = Ret () (released PtableLock ?u)"
    by (rule release_inv [OF S(2)]) (use c h in simp_all)
  have "mach_inv (released PtableLock ?u) ((\<lambda>d. locks_of (ph d))(c := []))"
    using mach_inv_released [OF S(2), of PtableLock] c h by simp
  moreover have "proc_inv (released PtableLock ?u) (ph(c := PKern p []))"
    by (rule resume_proc_inv [OF I(3) h]) simp_all
  ultimately show ?thesis using S(1) r by (auto simp: yield_in_def intro!: sched_inv_all_upd)
qed

lemma resume_forkret_outcome:
  assumes inv: "sched_inv_all s ph" and c: "c < ncpu s" and h: "ph c = PResume p"
  shows "\<exists>t. forkret (Ret ()) (s\<lparr>cur := c\<rparr>) = Ret () t \<and> sched_inv_all t (ph(c := PKern p []))"
proof -
  let ?s = "s\<lparr>cur := c\<rparr>"
  note I = sched_inv_allD [OF inv c]
  have r: "release PtableLock ?s = Ret () (released PtableLock ?s)"
    by (rule release_inv [OF I(1,2)]) (use h in simp)
  let ?t = "if forkret_first s then (released PtableLock ?s)\<lparr>forkret_first := False\<rparr> else released PtableLock ?s"
  have "mach_inv (released PtableLock ?s) ((\<lambda>d. locks_of (ph d))(c := []))"
    using mach_inv_released [OF I(1,2), of PtableLock] h by simp
  then have "mach_inv ?t ((\<lambda>d. locks_of (ph d))(c := []))"
    using mach_inv_frame [of ?t "released PtableLock ?s"] by simp
  moreover have "proc_inv ?t (ph(c := PKern p []))"
    by (rule resume_proc_inv [OF I(3) h]) simp_all
  moreover have "forkret (Ret ()) ?s = Ret () ?t" using r by (simp add: forkret_def)
  ultimately show ?thesis by (auto intro!: sched_inv_all_upd)
qed

lemma proc_inv_own:
  assumes inv: "proc_inv s ph" and c: "c < ncpu s" and r: "running (ph c) = Some p" and f: "keeps_sched f"
    and k: "p_kstack (f (procs s p)) = p_kstack (procs s p)" "p_pgdir (f (procs s p)) \<noteq> 0"
    and x: "ph c = PResume p \<Longrightarrow> p_context (f (procs s p)) = p_context (procs s p)"
  shows "proc_inv (proc_upd p f s) ph"
proof (rule proc_inv_change [OF inv])
  let ?t = "proc_upd p f s"
  have v: "nxt ?t = nxt s" "prio ?t = prio s" "pstate ?t = pstate s"
    using f by (auto simp: keeps_sched_def nxt_def prio_def pstate_def fun_eq_iff)
  then show "\<exists>Q. ready_ok ?t Q"
    using proc_invD(1) [OF inv] by (simp add: ready_ok_def rqueues_def rqueue_def)
  have p: "p < NPROC" "pstate s p = RUNNING" using proc_invD(3) [OF inv c r] by simp_all
  fix q assume q: "q < NPROC"
  show "pstate ?t q = RUNNING \<longleftrightarrow> pstate s q = RUNNING" by (simp add: v)
  show "p_kstack (procs ?t q) \<noteq> 0 \<and> p_pgdir (procs ?t q) \<noteq> 0" if "live (pstate ?t q)"
    using that proc_invD(6) [OF inv q] k v by auto
  show "resumable (p_context (procs ?t q))" if "pstate ?t q = RUNNABLE \<or> pstate ?t q = SLEEPING"
    using that proc_invD(7) [OF inv q] p v by auto
next
  fix d q assume d: "d < ncpu s" "ph d = PResume q"
  with proc_invD(4) [OF inv d(1) c, of p] r x
  show "p_context (procs (proc_upd p f s) q) = p_context (procs s q)" by auto
qed simp_all

lemma resume_sleep_outcome:
  assumes inv: "sched_inv_all s ph" and c: "c < ncpu s" and h: "ph c = PResume p"
  shows "\<exists>t. sleep_wake p lk b (s\<lparr>cur := c\<rparr>) = Ret () t \<and>
    sched_inv_all t (ph(c := PKern p (if lk = PtableLock then [PtableLock] else [])))"
proof -
  let ?s = "s\<lparr>cur := c\<rparr>"
  note I = sched_inv_allD [OF inv c]
  have ne: "locks_of (ph (cur ?s)) \<noteq> []" using h by simp
  note S = sched_in_inv [OF I(1,2) ne, of b]
  let ?i = "cpu_upd (\<lambda>x. x\<lparr>c_intena := b\<rparr>) ?s"
  let ?u = "proc_upd p (\<lambda>x. x\<lparr>p_chan := None\<rparr>) ?i"
  have iu: "mach_inv ?u (\<lambda>d. locks_of (ph d))" using S(2) by simp
  have r: "release PtableLock ?u = Ret () (released PtableLock ?u)"
    by (rule release_inv [OF iu]) (use c h in simp_all)
  have m: "mach_inv (released PtableLock ?u) ((\<lambda>d. locks_of (ph d))(c := []))"
    using mach_inv_released [OF iu, of PtableLock] c h by simp
  have "p < NPROC" "pstate s p = RUNNING" using proc_invD(3) [OF I(3) c, of p] h by auto
  then have pg: "p_pgdir (procs s p) \<noteq> 0" using proc_invD(6) [OF I(3), of p] by (simp add: live_def)
  have "proc_inv ?i ph" by (rule proc_inv_same [OF I(3)]) simp_all
  then have pu: "proc_inv ?u ph"
    by (rule proc_inv_own [where c = c]) (use c h pg in \<open>simp_all add: keeps_sched_def\<close>)
  have "proc_inv ?u (ph(c := PKern p [PtableLock]))" "proc_inv (released PtableLock ?u) (ph(c := PKern p []))"
    by (rule resume_proc_inv [OF pu h]; simp)+
  moreover have "(\<lambda>d. locks_of (ph d))(c := [PtableLock]) = (\<lambda>d. locks_of (ph d))"
    using h by (simp add: fun_eq_iff)
  ultimately show ?thesis using S(1) r m iu
    by (cases "lk = PtableLock") (auto simp: sleep_wake_def Let_def intro!: sched_inv_all_upd)
qed

text \<open>A process gives up its processor.\<close>

lemma not_queued:
  assumes "ready_ok s Q" and "i < NPRIO" and "pstate s p \<noteq> RUNNABLE"
  shows "p \<notin> set (Q i)"
  using assms rqueuesD(4,5) [of s Q i p] by (auto simp: ready_ok_def)

text \<open>Changing a process that is not in a queue, and its state to one other than ready.\<close>

lemma ready_ok_unqueued:
  assumes "ready_ok s Q" and "pstate s p \<noteq> RUNNABLE"
    and "p_state (f (procs s p)) \<noteq> RUNNABLE" and "p_priority (f (procs s p)) < NPRIO"
  shows "ready_ok (proc_upd p f s) Q"
proof -
  let ?t = "proc_upd p f s"
  have out: "p \<notin> set (Q i)" if "i < NPRIO" for i using not_queued [OF assms(1) that assms(2)] .
  have rq: "rqueues s Q" using assms(1) by (simp add: ready_ok_def)
  have v: "nxt ?t q = nxt s q" "prio ?t q = prio s q" "pstate ?t q = pstate s q" if "q \<noteq> p" for q
    using that by (simp_all add: nxt_def prio_def pstate_def)
  have "rqueues ?t Q"
  proof (rule rqueuesI)
    fix i assume i: "i < NPRIO"
    have "chain (nxt ?t) x (Q i) = chain (nxt s) x (Q i)" for x
      using out [OF i] v(1) by (intro chain_cong) metis
    then show "chain (nxt ?t) (queue_first ?t i) (Q i)" using rqueuesD(1) [OF rq i] by simp
    show "distinct (Q i)" by (rule rqueuesD(2) [OF rq i])
    show "queue_last ?t i = (if Q i = [] then None else Some (last (Q i)))"
      using rqueuesD(3) [OF rq i] by simp
    fix q assume q: "q \<in> set (Q i)"
    then show "q < NPROC" "prio ?t q = i" using rqueuesD(4,5) [OF rq i q] v(2) [of q] out [OF i] by auto
  qed
  moreover have "prio ?t q < NPRIO \<and> (pstate ?t q = RUNNABLE \<longleftrightarrow> q \<in> set (Q (prio ?t q)))" if "q < NPROC" for q
  proof (cases "q = p")
    case True
    with assms(3,4) out show ?thesis by (simp add: prio_def pstate_def)
  next
    case False
    with assms(1) that v show ?thesis by (simp add: ready_ok_def)
  qed
  ultimately show ?thesis by (simp add: ready_ok_def)
qed

text \<open>A process that goes to sleep or exits.\<close>

lemma leave_outcome:
  assumes inv: "sched_inv_all s ph" and c: "c < ncpu s" and r: "running (ph c) = Some p"
    and w: "wakes u v" and u: "procs u = procs s" "queue_first u = queue_first s" "queue_last u = queue_last s"
      "ncpu u = ncpu s" "\<And>d. c_proc (cpus u d) = c_proc (cpus s d)"
      "mach_inv u ((\<lambda>d. locks_of (ph d))(c := [PtableLock]))"
    and f: "\<And>x. p_state (f x) = SLEEPING \<and> resumable k \<or> p_state (f x) = ZOMBIE"
      "\<And>x. p_priority (f x) = p_priority x" "\<And>x. p_kstack (f x) = p_kstack x"
      "\<And>x. p_pgdir (f x) = p_pgdir x"
  shows "sched_inv_all (proc_upd p (\<lambda>x. x\<lparr>p_context := k\<rparr>) (proc_upd p f v)) (ph(c := PBack))"
proof (rule sched_inv_all_upd)
  let ?t = "proc_upd p (\<lambda>x. x\<lparr>p_context := k\<rparr>) (proc_upd p f v)"
  note I = sched_inv_allD [OF inv c]
  note W = wakesD [OF w]
  show "mach_inv ?t ((\<lambda>d. locks_of (ph d))(c := locks_of PBack))"
    using u(6) mach_inv_frame [of v u] W(1-4) by simp
  have p: "p < NPROC" "pstate s p = RUNNING" using proc_invD(3) [OF I(3) c r] by simp_all
  have ps: "pstate u = pstate s" "prio u = prio s" using u(1) by (simp_all add: pstate_def prio_def fun_eq_iff)
  have vp: "pstate v p = RUNNING" using W(11) [of p] p ps by auto
  obtain Q where Q: "ready_ok s Q" using proc_invD(1) [OF I(3)] by blast
  then have "ready_ok u Q" using ready_ok_cong [OF u(1-3)] by simp
  with w obtain R where R: "ready_ok v R" by (auto simp: wakes_def)
  have pr: "p_priority (procs v p) < NPRIO" using Q p W(12) ps by (auto simp: ready_ok_def prio_def fun_eq_iff)
  have "ready_ok (proc_upd p f v) R"
    by (rule ready_ok_unqueued [OF R]) (use vp f(1) [of "procs v p"] f(2) pr in auto)
  then have rt: "ready_ok ?t R"
    by (rule ready_ok_unqueued) (use f(1) [of "procs v p"] f(2) pr in \<open>auto simp: pstate_def\<close>)
  have tp: "pstate ?t p = SLEEPING \<and> resumable k \<or> pstate ?t p = ZOMBIE"
    using f(1) [of "procs v p"] by (simp add: pstate_def)
  have tq: "pstate ?t q = pstate v q" if "q \<noteq> p" for q using that by (simp add: pstate_def)
  show "proc_inv ?t (ph(c := PBack))"
  proof (rule proc_inv_leave [OF I(3) c r])
    show "\<exists>Q. ready_ok ?t Q" using rt by blast
    show "pstate ?t p \<noteq> RUNNING" using tp by auto
    fix q assume q: "q < NPROC"
    show "pstate ?t q = RUNNING \<longleftrightarrow> pstate s q = RUNNING" if "q \<noteq> p"
      using tq [OF that] W(11) [of q] ps by auto
    show "p_kstack (procs ?t q) \<noteq> 0 \<and> p_pgdir (procs ?t q) \<noteq> 0" if "live (pstate ?t q)"
      using that proc_invD(6) [OF I(3) q] W(7,8) [of q] W(11) [of q] u(1) ps p tq f(3,4)
      by (cases "q = p") (auto simp: live_def)
    show "resumable (p_context (procs ?t q))" if "pstate ?t q = RUNNABLE \<or> pstate ?t q = SLEEPING"
      using that proc_invD(7) [OF I(3) q] W(6) [of q] W(11) [of q] u(1) ps tp tq
      by (cases "q = p") auto
  qed (use u W in simp_all)
qed

lemma view_context [simp]:
  "nxt (proc_upd p (\<lambda>x. x\<lparr>p_context := k\<rparr>) s) = nxt s" "prio (proc_upd p (\<lambda>x. x\<lparr>p_context := k\<rparr>) s) = prio s"
  "pstate (proc_upd p (\<lambda>x. x\<lparr>p_context := k\<rparr>) s) = pstate s"
  by (auto simp: nxt_def prio_def pstate_def)

lemma ready_ok_context [simp]: "ready_ok (proc_upd p (\<lambda>x. x\<lparr>p_context := k\<rparr>) s) = ready_ok s"
  by (simp add: fun_eq_iff ready_ok_def rqueues_def rqueue_def)

lemma yield_state:
  assumes inv: "mach_inv s H" and c: "cur s < ncpu s" and h: "H (cur s) = []"
    and cp: "c_proc (cpus s (cur s)) = Some p" and free: "\<not> l_locked (locks s PtableLock)"
    and p: "p < NPROC" "pstate s p = RUNNING" and Q: "ready_ok s Q"
  shows "\<exists>t R b. yield s = Ret () t \<and> mach_inv t (H(cur s := [PtableLock])) \<and> ready_ok t R \<and>
    ncpu t = ncpu s \<and> (\<forall>d. c_proc (cpus t d) = c_proc (cpus s d)) \<and>
    pstate t = (pstate s)(p := RUNNABLE) \<and> p_context (procs t p) = CtxYield b \<and>
    (\<forall>q. p_kstack (procs t q) = p_kstack (procs s q) \<and> p_pgdir (procs t q) = p_pgdir (procs s q)) \<and>
    (\<forall>q. q \<noteq> p \<longrightarrow> p_context (procs t q) = p_context (procs s q))"
proof -
  let ?a = "acquired PtableLock s"
  let ?d = "proc_upd p demote ?a"
  let ?e = "enqueue p ?d"
  let ?k = "CtxYield (c_if (cpus s (cur s)))"
  let ?t = "proc_upd p (\<lambda>x. x\<lparr>p_context := ?k\<rparr>) ?e"
  have y: "yield s = Ret () ?t" using yield_inv [OF inv c h cp] free by simp
  have fr: "sched_frame ?d ?e" by (rule sched_frame_enqueue)
  from Q p have "p_priority (procs s p) < NPRIO" by (auto simp: ready_ok_def prio_def)
  then have "p_priority (demote (procs s p)) < NPRIO" by (auto simp: demote_def)
  then have "ready_ok ?d Q"
    using Q p by (intro ready_ok_unqueued) (simp_all add: pstate_def demote_def)
  moreover have pd: "pstate ?d = pstate s" by (auto simp: pstate_def demote_def fun_eq_iff)
  ultimately have "ready_ok ?e (Q(prio ?d p := Q (prio ?d p) @ [p]))"
    using ready_ok_enqueue [of ?d Q p] p by simp
  then have rt: "ready_ok ?t (Q(prio ?d p := Q (prio ?d p) @ [p]))" by (simp only: ready_ok_context)
  have co: "pcore (procs ?e q) = pcore (if q = p then demote (procs s p) else procs s q)" for q
    using sched_frameD(16) [OF fr, of q] by simp
  have kt: "p_kstack (procs ?t q) = p_kstack (procs s q)" "p_pgdir (procs ?t q) = p_pgdir (procs s q)"
    "q \<noteq> p \<Longrightarrow> p_context (procs ?t q) = p_context (procs s q)" for q
    using pcore_eqD(2,3,7) [OF co [of q]] by (auto simp: demote_def)
  have "mach_inv ?t (H(cur s := [PtableLock]))"
    using mach_inv_acquired [OF inv c free] h mach_inv_sched_frame [OF fr] by simp
  moreover have "c_proc (cpus ?t d) = c_proc (cpus s d)" for d
    using sched_frameD(1) [OF fr] by simp
  moreover have "pstate ?t = (pstate s)(p := RUNNABLE)" "p_context (procs ?t p) = ?k" "ncpu ?t = ncpu s"
    using pd sched_frameD(2) [OF fr] by simp_all
  ultimately show ?thesis using y rt kt by blast
qed

lemma timer_outcome:
  assumes inv: "sched_inv_all s ph" and c: "c < ncpu s" and h: "ph c = PKern p ls" and ion: "c_if (cpus s c)"
  shows "yield (cli (s\<lparr>cur := c\<rparr>)) = Spin \<or>
    (\<exists>t. yield (cli (s\<lparr>cur := c\<rparr>)) = Ret () t \<and> sched_inv_all t (ph(c := PBack)))"
proof -
  let ?s = "cli (s\<lparr>cur := c\<rparr>)"
  note I = sched_inv_allD [OF inv c]
  have ls: "ls = []" using mach_invD(3) [OF I(1), of c] c h ion by (cases ls) auto
  have im: "mach_inv ?s (\<lambda>d. locks_of (ph d))"
    by (rule mach_inv_cong [OF I(1)]) (auto simp: cli_def h ls)
  have s: "cur ?s = c" "ncpu ?s = ncpu s" "pstate ?s = pstate s" "locks ?s = locks s" "procs ?s = procs s"
    "ready_ok ?s = ready_ok s" "c_proc (cpus ?s d) = c_proc (cpus s d)" for d
    by (simp_all add: cli_def)
  have cp: "c_proc (cpus ?s c) = Some p" using proc_invD(2) [OF I(3) c] h s by simp
  have p: "p < NPROC" "pstate s p = RUNNING" using proc_invD(3) [OF I(3) c, of p] h by auto
  obtain Q where Q: "ready_ok s Q" using proc_invD(1) [OF I(3)] by blast
  show ?thesis
  proof (cases "l_locked (locks s PtableLock)")
    case True
    with yield_inv [OF im] cp c h ls s show ?thesis by simp
  next
    case False
    from yield_state [OF im, unfolded s, OF c _ cp [unfolded s] False p Q] h ls obtain t R b where
      t: "yield ?s = Ret () t" "mach_inv t ((\<lambda>d. locks_of (ph d))(c := [PtableLock]))" "ready_ok t R"
      "ncpu t = ncpu s" "\<And>d. c_proc (cpus t d) = c_proc (cpus s d)" "pstate t = (pstate s)(p := RUNNABLE)"
      "p_context (procs t p) = CtxYield b"
      "\<And>q. p_kstack (procs t q) = p_kstack (procs s q) \<and> p_pgdir (procs t q) = p_pgdir (procs s q)"
      "\<And>q. q \<noteq> p \<Longrightarrow> p_context (procs t q) = p_context (procs s q)"
      by auto
    have "proc_inv t (ph(c := PBack))"
    proof (rule proc_inv_leave [OF I(3) c])
      fix q assume q: "q < NPROC"
      show "p_kstack (procs t q) \<noteq> 0 \<and> p_pgdir (procs t q) \<noteq> 0" if "live (pstate t q)"
        using that proc_invD(6) [OF I(3) q] p t(6,8) by (auto simp: live_def split: if_splits)
      show "resumable (p_context (procs t q))" if "pstate t q = RUNNABLE \<or> pstate t q = SLEEPING"
        using that proc_invD(7) [OF I(3) q] t(6,7,9) by (cases "q = p") (auto simp: resumable_def)
    qed (use h t in auto)
    with t(1,2) show ?thesis by (auto intro!: sched_inv_all_upd)
  qed
qed

lemma sleep_outcome:
  assumes inv: "sched_inv_all s ph" and c: "c < ncpu s" and h: "ph c = PKern p [lk]" and lk: "lk \<noteq> PtableLock"
  shows "sleep ch (Some lk) (s\<lparr>cur := c\<rparr>) = Spin \<or>
    (\<exists>t. sleep ch (Some lk) (s\<lparr>cur := c\<rparr>) = Ret () t \<and> sched_inv_all t (ph(c := PBack)))"
proof -
  let ?s = "s\<lparr>cur := c\<rparr>"
  note I = sched_inv_allD [OF inv c]
  have cp: "c_proc (cpus ?s (cur ?s)) = Some p" using proc_invD(2) [OF I(3) c] h by simp
  have H: "locks_of (ph (cur ?s)) = [lk]" using h by simp
  note S = sleep_inv(1) [OF I(1,2) H lk cp, of ch] sleep_inv(2) [OF I(1,2) H lk cp]
  show ?thesis
  proof (cases "l_locked (locks s PtableLock)")
    case True
    with S(1) show ?thesis by simp
  next
    case False
    let ?u = "released lk (acquired PtableLock ?s)"
    have "sched_inv_all (proc_upd p (\<lambda>x. x\<lparr>p_context := CtxSleep lk (c_intena (cpus ?s (cur ?s)))\<rparr>)
        (proc_upd p (asleep ch) ?u)) (ph(c := PBack))"
      by (rule leave_outcome [OF inv c _ wakes_refl])
         (use S(2) False h in \<open>simp_all add: asleep_def resumable_def\<close>)
    with S(1) False show ?thesis by auto
  qed
qed

lemma exit_outcome:
  assumes inv: "sched_inv_all s ph" and c: "c < ncpu s" and h: "ph c = PKern p []"
  shows "exit_final p (s\<lparr>cur := c\<rparr>) = Spin \<or>
    (\<exists>t. exit_final p (s\<lparr>cur := c\<rparr>) = Ret () t \<and> sched_inv_all t (ph(c := PBack)))"
proof -
  let ?s = "s\<lparr>cur := c\<rparr>"
  note I = sched_inv_allD [OF inv c]
  have cp: "c_proc (cpus ?s (cur ?s)) = Some p" using proc_invD(2) [OF I(3) c] h by simp
  have H: "locks_of (ph (cur ?s)) = []" using h by simp
  note E = exit_final_inv [OF I(1,2) H cp]
  show ?thesis
  proof (cases "l_locked (locks s PtableLock)")
    case True
    with E show ?thesis by simp
  next
    case False
    let ?u = "acquired PtableLock ?s"
    have m: "mach_inv ?u ((\<lambda>d. locks_of (ph d))(c := [PtableLock]))"
      using mach_inv_acquired [OF I(1,2), of PtableLock] False h by simp
    have "sched_inv_all (proc_upd p (\<lambda>x. x\<lparr>p_context := CtxExit (c_if (cpus ?s (cur ?s)))\<rparr>)
        (proc_upd p (\<lambda>x. x\<lparr>p_state := ZOMBIE\<rparr>) (exit_mark p ?u))) (ph(c := PBack))"
      by (rule leave_outcome [OF inv c _ wakes_exit_mark _ _ _ _ _ m]) (use h in simp_all)
    with E False show ?thesis by auto
  qed
qed

lemma keep_phase: "ph c = x \<Longrightarrow> ph(c := x) = ph"
  by auto

text \<open>A round of \<open>wait\<close>.\<close>

lemma reap_proc_inv:
  assumes inv: "proc_inv s ph" and p: "p < NPROC" "pstate s p = ZOMBIE" and m: "mem_only s u"
  shows "proc_inv (proc_upd p reap u) ph"
proof (rule proc_inv_change [OF inv])
  let ?t = "proc_upd p reap u"
  have u: "procs u = procs s" "queue_first u = queue_first s" "queue_last u = queue_last s"
    "cpus u = cpus s" "ncpu u = ncpu s"
    using mem_onlyD(7) [OF m] mem_onlyD(1,2) [OF m] by (cases u, cases s, simp)+
  obtain Q where Q: "ready_ok s Q" using proc_invD(1) [OF inv] by blast
  have ps: "pstate u = pstate s" using u(1) by (simp add: pstate_def fun_eq_iff)
  have "ready_ok u Q" using ready_ok_cong [OF u(1-3)] Q by simp
  moreover have "p_priority (procs s p) < NPRIO" using Q p by (auto simp: ready_ok_def prio_def)
  ultimately have "ready_ok ?t Q"
    using p ps u by (intro ready_ok_unqueued) (simp_all add: reap_def)
  then show "\<exists>Q. ready_ok ?t Q" by blast
  show "ncpu ?t = ncpu s" "\<And>c. c_proc (cpus ?t c) = c_proc (cpus s c)" using u by simp_all
  have st: "pstate ?t = (pstate s)(p := UNUSED)" using u(1) by (auto simp: pstate_def reap_def fun_eq_iff)
  fix q assume q: "q < NPROC"
  show "pstate ?t q = RUNNING \<longleftrightarrow> pstate s q = RUNNING" using p by (auto simp: st)
  show "p_kstack (procs ?t q) \<noteq> 0 \<and> p_pgdir (procs ?t q) \<noteq> 0" if "live (pstate ?t q)"
    using that proc_invD(6) [OF inv q] u(1) by (auto simp: st live_def split: if_splits)
  show "resumable (p_context (procs ?t q))" if "pstate ?t q = RUNNABLE \<or> pstate ?t q = SLEEPING"
    using that proc_invD(7) [OF inv q] u(1) by (auto simp: st split: if_splits)
next
  fix c q assume "c < ncpu s" "ph c = PResume q"
  then have "q \<noteq> p" using proc_invD(3) [OF inv, of c q] p by auto
  then show "p_context (procs (proc_upd p reap u) q) = p_context (procs s q)"
    using mem_onlyD(7) [OF m] by (cases u, cases s) simp
qed

lemma wait_outcome:
  assumes inv: "sched_inv_all s ph" and c: "c < ncpu s" and h: "ph c = PKern p [PtableLock]"
    and r: "wait_round p (s\<lparr>cur := c\<rparr>) = Ret r t"
  shows "sched_inv_all t (ph(c := (case r of Some _ \<Rightarrow> PKern p [] | None \<Rightarrow> PBack)))"
proof -
  let ?s = "s\<lparr>cur := c\<rparr>"
  note I = sched_inv_allD [OF inv c]
  have cp: "c_proc (cpus ?s (cur ?s)) = Some p" using proc_invD(2) [OF I(3) c] h by simp
  have H: "locks_of (ph (cur ?s)) = [PtableLock]" using h by simp
  have fin: "sched_inv_all (released PtableLock u) (ph(c := PKern p []))"
    if "mach_inv u (\<lambda>d. locks_of (ph d))" "proc_inv u ph" "cur u = c" "ncpu u = ncpu s" for u :: "'a pt_scheme"
  proof (rule sched_inv_all_upd)
    show "mach_inv (released PtableLock u) ((\<lambda>d. locks_of (ph d))(c := locks_of (PKern p [])))"
      using mach_inv_released [OF that(1), of PtableLock] that(3,4) c h by simp
    show "proc_inv (released PtableLock u) (ph(c := PKern p []))"
      by (rule proc_inv_same [OF that(2)]) (use h in \<open>auto split: if_splits\<close>)
  qed
  have fin': "sched_inv_all t (ph(c := (case r of Some _ \<Rightarrow> PKern p [] | None \<Rightarrow> PBack)))"
    if "r = Some (- 1)" "t = released PtableLock ?s"
    using that fin [of ?s] I(1,4) by simp
  from wait_round_cases [OF I(1,2) H cp r] show ?thesis
  proof (elim disjE exE conjE)
    fix q u assume q: "q < NPROC" "r = Some (p_pid (procs ?s q))" "pstate ?s q = ZOMBIE" "mem_only ?s u"
      "t = released PtableLock (proc_upd q reap u)"
    have "mach_inv u (\<lambda>d. locks_of (ph d))"
      using I(1) mach_inv_frame [of u ?s] mem_onlyD(1-4) [OF q(4)] by simp
    then show ?thesis
      using fin [of "proc_upd q reap u"] reap_proc_inv [OF I(4) q(1,3,4)] mem_onlyD(2,3) [OF q(4)] q by simp
  next
    assume n: "r = None" "t = proc_upd p (\<lambda>x. x\<lparr>p_context := CtxSleep PtableLock (c_intena (cpus ?s (cur ?s)))\<rparr>)
       (proc_upd p (asleep (ChanProc p)) ?s)"
    have "(\<lambda>d. locks_of (ph d))(c := [PtableLock]) = (\<lambda>d. locks_of (ph d))" using h by (simp add: fun_eq_iff)
    then have "sched_inv_all t (ph(c := PBack))" unfolding n
      by (intro leave_outcome [OF inv c _ wakes_refl])
         (use h I(1) in \<open>simp_all add: asleep_def resumable_def\<close>)
    with n show ?thesis by simp
  qed (rule fin'; assumption)+
qed

text \<open>Other locks.\<close>

lemma lock_mach_outcome:
  assumes inv: "sched_inv_all s ph" and c: "c < ncpu s"
  shows "l \<notin> set (locks_of (ph c)) \<Longrightarrow> acquire l (s\<lparr>cur := c\<rparr>) = Ret () t \<Longrightarrow>
      mach_inv t ((\<lambda>d. locks_of (ph d))(c := l # locks_of (ph c))) \<and> t = acquired l (s\<lparr>cur := c\<rparr>)"
    and "l \<in> set (locks_of (ph c)) \<Longrightarrow> release l (s\<lparr>cur := c\<rparr>) = Ret () t \<Longrightarrow>
      mach_inv t ((\<lambda>d. locks_of (ph d))(c := remove1 l (locks_of (ph c)))) \<and> t = released l (s\<lparr>cur := c\<rparr>)"
proof -
  let ?s = "s\<lparr>cur := c\<rparr>"
  note I = sched_inv_allD [OF inv c]
  show "mach_inv t ((\<lambda>d. locks_of (ph d))(c := l # locks_of (ph c))) \<and> t = acquired l ?s"
    if "l \<notin> set (locks_of (ph c))" "acquire l ?s = Ret () t"
    using acquire_inv [OF I(1,2), of l] mach_inv_acquired [OF I(1,2), of l] that by (auto split: if_splits)
  show "mach_inv t ((\<lambda>d. locks_of (ph d))(c := remove1 l (locks_of (ph c)))) \<and> t = released l ?s"
    if "l \<in> set (locks_of (ph c))" "release l ?s = Ret () t"
    using release_inv [OF I(1,2), of l] mach_inv_released [OF I(1,2), of l] that by auto
qed

lemma lock_outcome:
  assumes inv: "sched_inv_all s ph" and c: "c < ncpu s"
    and ph: "ph c = PKern p ls \<and> x = PKern p ls' \<or> ph c = PSched ls \<and> x = PSched ls'"
    and r: "l \<notin> set ls \<and> acquire l (s\<lparr>cur := c\<rparr>) = Ret () t \<and> ls' = l # ls \<or>
      l \<in> set ls \<and> release l (s\<lparr>cur := c\<rparr>) = Ret () t \<and> ls' = remove1 l ls"
  shows "sched_inv_all t (ph(c := x))"
proof (rule sched_inv_all_upd)
  have ls: "locks_of (ph c) = ls" "locks_of x = ls'" using ph by auto
  then have mt: "mach_inv t ((\<lambda>d. locks_of (ph d))(c := ls')) \<and>
      (t = acquired l (s\<lparr>cur := c\<rparr>) \<or> t = released l (s\<lparr>cur := c\<rparr>))"
    using lock_mach_outcome [OF inv c, of l t] r by auto
  then show "mach_inv t ((\<lambda>d. locks_of (ph d))(c := locks_of x))" using ls by simp
  show "proc_inv t (ph(c := x))"
    by (rule proc_inv_same [OF sched_inv_allD(3) [OF inv c]])
       (use mt ph in \<open>auto split: if_splits\<close>)
qed

text \<open>Waking, killing and boosting.\<close>

lemma proc_inv_wake:
  assumes inv: "proc_inv s ph" and rt: "\<exists>Q. ready_ok t Q" and n: "ncpu t = ncpu s"
    and cp: "\<And>c. c_proc (cpus t c) = c_proc (cpus s c)"
    and st: "\<And>q. pstate t q = pstate s q \<or> pstate s q = SLEEPING \<and> pstate t q = RUNNABLE"
    and fr: "\<And>q. p_kstack (procs t q) = p_kstack (procs s q) \<and> p_pgdir (procs t q) = p_pgdir (procs s q) \<and>
      p_context (procs t q) = p_context (procs s q)"
  shows "proc_inv t ph"
proof (rule proc_inv_change [OF inv rt n cp])
  fix q assume q: "q < NPROC"
  show "pstate t q = RUNNING \<longleftrightarrow> pstate s q = RUNNING" using st [of q] by auto
  show "p_kstack (procs t q) \<noteq> 0 \<and> p_pgdir (procs t q) \<noteq> 0" if "live (pstate t q)"
    using that proc_invD(6) [OF inv q] st [of q] fr by (auto simp: live_def)
  show "resumable (p_context (procs t q))" if "pstate t q = RUNNABLE \<or> pstate t q = SLEEPING"
    using that proc_invD(7) [OF inv q] st [of q] fr by auto
qed (simp add: fr)

lemma wakeup_outcome:
  assumes inv: "sched_inv_all s ph" and c: "c < ncpu s" and h: "PtableLock \<notin> set (locks_of (ph c))"
  shows "wakeup ch (s\<lparr>cur := c\<rparr>) = Spin \<or>
    (\<exists>t. wakeup ch (s\<lparr>cur := c\<rparr>) = Ret () t \<and> sched_inv_all t ph)"
proof (cases "l_locked (locks s PtableLock)")
  let ?s = "s\<lparr>cur := c\<rparr>"
  note I = sched_inv_allD [OF inv c]
  have out: "PtableLock \<notin> set (locks_of (ph (cur ?s)))" using h by simp
  note W = wakeup_inv [OF I(1,2) out, of ch]
  {
    case True
    with W show ?thesis by simp
  next
    case False
    let ?a = "acquired PtableLock ?s"
    let ?w = "wakeup1 (Some ch) ?a"
    note M = section_frame [OF I(1,2) out _ sched_frame_wakeup1 [of ?a "Some ch"]]
    obtain Q where Q: "ready_ok ?a Q" using proc_invD(1) [OF I(3)] by auto
    have "proc_inv (released PtableLock ?w) ph"
    proof (rule proc_inv_wake [OF I(3)])
      show "\<exists>Q. ready_ok (released PtableLock ?w) Q" using ready_ok_wakeup1(1) [OF Q, of "Some ch"] by auto
      show "ncpu (released PtableLock ?w) = ncpu s"
        "\<And>c. c_proc (cpus (released PtableLock ?w) c) = c_proc (cpus s c)"
        using sched_frameD(1-3) [OF sched_frame_wakeup1 [of ?a "Some ch"]] by simp_all
      fix q
      show "pstate (released PtableLock ?w) q = pstate s q \<or>
          pstate s q = SLEEPING \<and> pstate (released PtableLock ?w) q = RUNNABLE"
        by (simp add: pstate_wakeup1)
      show "p_kstack (procs (released PtableLock ?w) q) = p_kstack (procs s q) \<and>
          p_pgdir (procs (released PtableLock ?w) q) = p_pgdir (procs s q) \<and>
          p_context (procs (released PtableLock ?w) q) = p_context (procs s q)"
        using pcore_eqD(2,3,7) [OF sched_frameD(16) [OF sched_frame_wakeup1 [of ?a "Some ch"], of q]] by simp
    qed
    with W M(2) False show ?thesis by (auto intro!: sched_inv_allI)
  }
qed

lemma ready_ok_view:
  assumes "nxt t = nxt s" "prio t = prio s" "pstate t = pstate s"
    "queue_first t = queue_first s" "queue_last t = queue_last s"
  shows "ready_ok t = ready_ok s"
  by (rule ext) (simp add: ready_ok_def rqueues_def rqueue_def assms)

lemma ready_ok_killed:
  "ready_ok (proc_upd p (\<lambda>x. x\<lparr>p_killed := b\<rparr>) s) = ready_ok s"
  "pstate (proc_upd p (\<lambda>x. x\<lparr>p_killed := b\<rparr>) s) = pstate s"
proof -
  let ?t = "proc_upd p (\<lambda>x. x\<lparr>p_killed := b\<rparr>) s"
  have v: "nxt ?t = nxt s" "prio ?t = prio s" "pstate ?t = pstate s"
    by (auto simp: nxt_def prio_def pstate_def)
  then show "ready_ok ?t = ready_ok s" by (intro ready_ok_view) simp_all
  show "pstate ?t = pstate s" by (rule v)
qed

lemma kill_mark_view:
  assumes "ready_ok s Q" and "p < NPROC"
  shows "\<exists>R. ready_ok (kill_mark p s) R"
    and "pstate (kill_mark p s) q = pstate s q \<or> pstate s q = SLEEPING \<and> pstate (kill_mark p s) q = RUNNABLE"
    and "p_kstack (procs (kill_mark p s) q) = p_kstack (procs s q) \<and>
      p_pgdir (procs (kill_mark p s) q) = p_pgdir (procs s q) \<and>
      p_context (procs (kill_mark p s) q) = p_context (procs s q)"
proof -
  let ?k = "proc_upd p (\<lambda>x. x\<lparr>p_killed := True\<rparr>) s"
  have k: "ready_ok ?k Q" "pstate ?k = pstate s" using assms(1) by (simp_all add: ready_ok_killed)
  show "\<exists>R. ready_ok (kill_mark p s) R"
    using ready_ok_enqueue [OF k(1) assms(2)] k by (auto simp: kill_mark_def Let_def)
  show "pstate (kill_mark p s) q = pstate s q \<or> pstate s q = SLEEPING \<and> pstate (kill_mark p s) q = RUNNABLE"
    using k(2) by (auto simp: kill_mark_def Let_def)
  show "p_kstack (procs (kill_mark p s) q) = p_kstack (procs s q) \<and>
      p_pgdir (procs (kill_mark p s) q) = p_pgdir (procs s q) \<and>
      p_context (procs (kill_mark p s) q) = p_context (procs s q)"
    using pcore_eqD(2,3,7) [OF sched_frameD(16) [OF sched_frame_enqueue [of ?k p], of q]]
    by (auto simp: kill_mark_def Let_def)
qed

lemma kill_outcome:
  assumes inv: "sched_inv_all s ph" and c: "c < ncpu s" and h: "PtableLock \<notin> set (locks_of (ph c))"
  shows "kill pid (s\<lparr>cur := c\<rparr>) = Spin \<or>
    (\<exists>r t. kill pid (s\<lparr>cur := c\<rparr>) = Ret r t \<and> sched_inv_all t ph)"
proof -
  let ?s = "s\<lparr>cur := c\<rparr>"
  let ?a = "acquired PtableLock ?s"
  note I = sched_inv_allD [OF inv c]
  have out: "PtableLock \<notin> set (locks_of (ph (cur ?s)))" using h by simp
  obtain Q where Q: "ready_ok ?a Q" using proc_invD(1) [OF I(3)] by auto
  have one: "sched_inv_all (released PtableLock (kill_mark p ?a)) ph"
    if "p < NPROC" "\<not> l_locked (locks s PtableLock)" for p
  proof (rule sched_inv_allI)
    show "mach_inv (released PtableLock (kill_mark p ?a)) (\<lambda>d. locks_of (ph d))"
      using section_release(2) [OF I(1,2) out, of "kill_mark p ?a"] that by (simp add: kill_mark_mach)
    show "proc_inv (released PtableLock (kill_mark p ?a)) ph"
      by (rule proc_inv_wake [OF I(3)])
         (use kill_mark_view [OF Q that(1)] in \<open>simp_all add: kill_mark_mach\<close>)
  qed
  have none: "sched_inv_all (released PtableLock ?a) ph" if "\<not> l_locked (locks s PtableLock)"
  proof (rule sched_inv_allI)
    show "mach_inv (released PtableLock ?a) (\<lambda>d. locks_of (ph d))"
      using section_release(2) [OF I(1,2) out, of ?a] that by simp
    show "proc_inv (released PtableLock ?a) ph" by (rule proc_inv_same [OF I(3)]) simp_all
  qed
  show ?thesis
    using kill_inv [OF I(1,2) out, of pid] one none
    by (auto split: if_splits option.splits simp: find_Some_iff)
qed

lemma boost_outcome:
  assumes inv: "sched_inv_all s ph" and c: "c < ncpu s" and h: "PtableLock \<notin> set (locks_of (ph c))"
  shows "priority_boost (s\<lparr>cur := c\<rparr>) = Spin \<or>
    (\<exists>t. priority_boost (s\<lparr>cur := c\<rparr>) = Ret () t \<and> sched_inv_all t ph)"
proof -
  let ?s = "s\<lparr>cur := c\<rparr>"
  let ?a = "acquired PtableLock ?s"
  note I = sched_inv_allD [OF inv c]
  have out: "PtableLock \<notin> set (locks_of (ph (cur ?s)))" using h by simp
  obtain Q where Q: "ready_ok ?s Q" using proc_invD(1) [OF I(4)] by auto
  then have rq: "rqueues ?s Q" unfolding ready_ok_def by blast
  show ?thesis
  proof (cases "l_locked (locks s PtableLock)")
    case True
    with boost_inv [OF I(1,2) out rq] show ?thesis by auto
  next
    case False
    with boost_inv [OF I(1,2) out rq] obtain u where
      u: "priority_boost ?s = Ret () (released PtableLock u)" "rqueues u (boosted Q)" "sched_frame ?a u"
        "pstate u = pstate s" "prio u = (\<lambda>p. if p < NPROC then 0 else prio s p)" by (auto cong: if_cong)
    have m: "mach_inv (released PtableLock u) (\<lambda>d. locks_of (ph d))"
      using section_frame(2) [OF I(1,2) out _ u(3)] False by simp
    have "ready_ok u (boosted Q)" using ready_ok_boosted [OF Q u(2)] u(4,5) by (simp cong: if_cong)
    then have "proc_inv (released PtableLock u) ph"
      using pcore_eqD(2,3,7) [OF sched_frameD(16) [OF u(3)]] sched_frameD(1-3) [OF u(3)] u(4)
      by (intro proc_inv_wake [OF I(3)]) auto
    with m u(1) show ?thesis by (auto intro!: sched_inv_allI)
  qed
qed

text \<open>Processes under construction.\<close>

lemma embryo_proc_inv:
  assumes inv: "proc_inv s ph" and p: "p < NPROC" "pstate s p = UNUSED \<or> pstate s p = EMBRYO"
    and f: "p_state (f (procs s p)) = UNUSED \<or> p_state (f (procs s p)) = EMBRYO"
      "p_priority (f (procs s p)) < NPRIO"
  shows "proc_inv (proc_upd p f s) ph"
proof (rule proc_inv_change [OF inv])
  let ?t = "proc_upd p f s"
  obtain Q where Q: "ready_ok s Q" using proc_invD(1) [OF inv] by blast
  have "ready_ok ?t Q" by (rule ready_ok_unqueued [OF Q]) (use p f in auto)
  then show "\<exists>Q. ready_ok ?t Q" by blast
  have tp: "pstate ?t p = UNUSED \<or> pstate ?t p = EMBRYO" using f(1) by (simp add: pstate_def)
  have tq: "pstate ?t q = pstate s q" if "q \<noteq> p" for q using that by (simp add: pstate_def)
  fix q assume q: "q < NPROC"
  show "pstate ?t q = RUNNING \<longleftrightarrow> pstate s q = RUNNING" using p tp tq by (cases "q = p") auto
  show "p_kstack (procs ?t q) \<noteq> 0 \<and> p_pgdir (procs ?t q) \<noteq> 0" if "live (pstate ?t q)"
    using that proc_invD(6) [OF inv q] tp tq by (cases "q = p") (auto simp: live_def)
  show "resumable (p_context (procs ?t q))" if "pstate ?t q = RUNNABLE \<or> pstate ?t q = SLEEPING"
    using that proc_invD(7) [OF inv q] tp tq by (cases "q = p") auto
next
  fix c q assume "c < ncpu s" "ph c = PResume q"
  then have "q \<noteq> p" using proc_invD(3) [OF inv, of c q] p by auto
  then show "p_context (procs (proc_upd p f s) q) = p_context (procs s q)" by simp
qed simp_all

lemma find_unused_Some: "find_unused ps xs = Some p \<Longrightarrow> p \<in> set xs \<and> p_state (ps p) = UNUSED"
  by (induction xs) (auto split: if_splits)

lemma claim_slot_eq:
  "claim_slot p s = (proc_upd p (\<lambda>x. x\<lparr>p_state := EMBRYO, p_pid := nextpid s, p_priority := 0\<rparr>) s)
     \<lparr>nextpid := nextpid s + 1\<rparr>"
  by (simp add: claim_slot_def Let_def proc_upd_def)

lemma alloc_outcome:
  assumes inv: "sched_inv_all s ph" and c: "c < ncpu s" and h: "PtableLock \<notin> set (locks_of (ph c))"
  shows "alloc_slot (s\<lparr>cur := c\<rparr>) = Spin \<or>
    (\<exists>r t. alloc_slot (s\<lparr>cur := c\<rparr>) = Ret r t \<and> sched_inv_all t ph)"
proof (cases "l_locked (locks s PtableLock)")
  case True
  note I = sched_inv_allD [OF inv c]
  with acquire_inv [OF I(1,2), of PtableLock] h True show ?thesis by (simp add: alloc_slot_def)
next
  case False
  let ?s = "s\<lparr>cur := c\<rparr>"
  let ?a = "acquired PtableLock ?s"
  note I = sched_inv_allD [OF inv c]
  have out: "PtableLock \<notin> set (locks_of (ph (cur ?s)))" using h by simp
  have aq: "acquire PtableLock ?s = Ret () ?a" using acquire_inv [OF I(1,2) out] False by simp
  have ia: "proc_inv ?a ph" by (rule proc_inv_same [OF I(3)]) simp_all
  have fin: "release PtableLock u = Ret () (released PtableLock u) \<and> sched_inv_all (released PtableLock u) ph"
    if "proc_inv u ph" "cpus u = cpus ?a" "ncpu u = ncpu s" "cur u = c" "locks u = locks ?a" for u
  proof -
    have "proc_inv (released PtableLock u) ph" by (rule proc_inv_same [OF that(1)]) simp_all
    then show ?thesis
      using section_release(1,2) [OF I(1,2) out, of u] that(2-5) False by (simp add: sched_inv_all_def)
  qed
  show ?thesis
  proof (cases "find_unused (procs ?a) [0..<NPROC]")
    case None
    with fin [OF ia] aq show ?thesis by (simp add: alloc_slot_def)
  next
    case (Some p)
    then have p: "p < NPROC" "pstate ?a p = UNUSED"
      using find_unused_Some [OF Some] by (simp_all add: pstate_def)
    let ?f = "\<lambda>x. x\<lparr>p_state := EMBRYO, p_pid := nextpid ?a, p_priority := 0\<rparr>"
    have "proc_inv (proc_upd p ?f ?a) ph" by (rule embryo_proc_inv [OF ia p(1)]) (use p in simp_all)
    then have "proc_inv (claim_slot p ?a) ph"
      unfolding claim_slot_eq by (rule proc_inv_same) simp_all
    from fin [OF this] aq Some show ?thesis by (simp add: alloc_slot_def claim_slot_eq)
  qed
qed

lemma ready_outcome:
  assumes inv: "sched_inv_all s ph" and c: "c < ncpu s" and h: "PtableLock \<notin> set (locks_of (ph c))"
    and p: "p < NPROC" "pstate s p = EMBRYO" "p_kstack (procs s p) \<noteq> 0" "p_pgdir (procs s p) \<noteq> 0"
      "p_context (procs s p) = CtxForkret"
  shows "make_ready p (s\<lparr>cur := c\<rparr>) = Spin \<or>
    (\<exists>t. make_ready p (s\<lparr>cur := c\<rparr>) = Ret () t \<and> sched_inv_all t ph)"
proof (cases "l_locked (locks s PtableLock)")
  case True
  note I = sched_inv_allD [OF inv c]
  with make_ready_inv [OF I(1,2), of p] h True show ?thesis by simp
next
  case False
  let ?s = "s\<lparr>cur := c\<rparr>"
  let ?a = "acquired PtableLock ?s"
  let ?e = "enqueue p ?a"
  note I = sched_inv_allD [OF inv c]
  have out: "PtableLock \<notin> set (locks_of (ph (cur ?s)))" using h by simp
  have fr: "sched_frame ?a ?e" by (rule sched_frame_enqueue)
  obtain Q where Q: "ready_ok ?a Q" using proc_invD(1) [OF I(3)] by auto
  have st: "pstate ?e = (pstate s)(p := RUNNABLE)" by simp
  have co: "p_kstack (procs ?e q) = p_kstack (procs s q)" "p_pgdir (procs ?e q) = p_pgdir (procs s q)"
    "p_context (procs ?e q) = p_context (procs s q)" for q
    using pcore_eqD(2,3,7) [OF sched_frameD(16) [OF fr, of q]] by simp_all
  have "proc_inv ?e ph"
  proof (rule proc_inv_change [OF I(3)])
    show "\<exists>Q. ready_ok ?e Q" using ready_ok_enqueue [OF Q p(1)] p(2) by auto
    fix q assume q: "q < NPROC"
    show "pstate ?e q = RUNNING \<longleftrightarrow> pstate s q = RUNNING" using p(2) unfolding st by auto
    show "p_kstack (procs ?e q) \<noteq> 0 \<and> p_pgdir (procs ?e q) \<noteq> 0" if "live (pstate ?e q)"
      using that proc_invD(6) [OF I(3) q] p co unfolding st by (auto split: if_splits)
    show "resumable (p_context (procs ?e q))" if "pstate ?e q = RUNNABLE \<or> pstate ?e q = SLEEPING"
      using that proc_invD(7) [OF I(3) q] p co unfolding st by (auto simp: resumable_def split: if_splits)
  qed (use co sched_frameD(1,2) [OF fr] in simp_all)
  then have "proc_inv (released PtableLock ?e) ph"
    by (rule proc_inv_same) (use sched_frameD(1-3) [OF fr] in simp_all)
  moreover have "mach_inv (released PtableLock ?e) (\<lambda>d. locks_of (ph d))"
    using section_frame(2) [OF I(1,2) out _ fr] False by simp
  ultimately show ?thesis
    using make_ready_inv [OF I(1,2) out, of p] False by (auto intro!: sched_inv_allI)
qed

end
