(* ===== verification/Sched_Safety.thy ===== *)
theory Sched_Safety
  imports Sched_Machine
begin

text \<open>
  The invariant of \<open>Sched_Machine\<close> holds in every reachable state, and what follows from it for the
  kernel: no panic of the scheduler, no process on two processors, no ready process lost.
\<close>

lemma proc_inv_memory: "proc_inv s ph \<Longrightarrow> mem_only s t \<Longrightarrow> proc_inv t ph"
proof -
  assume inv: "proc_inv s ph" and m: "mem_only s t"
  have "procs t = procs s" "queue_first t = queue_first s" "queue_last t = queue_last s"
    using mem_onlyD(7) [OF m] by (cases t, cases s, simp)+
  then show ?thesis using mem_onlyD(1,2) [OF m] by (intro proc_inv_same [OF inv]) simp_all
qed

lemma sched_step_inv:
  assumes "sched_step s ph t ph'" and "sched_inv_all s ph"
  shows "sched_inv_all t ph'"
  using assms(1)
proof cases
  case (pick c p)
  with assms(2) round_outcome [of s ph c] show ?thesis by auto
next
  case (idle c)
  with assms(2) round_outcome [of s ph c] show ?thesis by auto
next
  case (switch_back c)
  with assms(2) back_outcome [of s ph c] show ?thesis by auto
next
  case (resume_yield c p b)
  with assms(2) resume_yield_outcome [of s ph c p b] show ?thesis by auto
next
  case (resume_forkret c p)
  with assms(2) resume_forkret_outcome [of s ph c p] show ?thesis by auto
next
  case (resume_sleep c p lk b)
  with assms(2) resume_sleep_outcome [of s ph c p lk b] show ?thesis by (auto simp del: fun_upd_apply)
next
  case (timer c p ls)
  with assms(2) timer_outcome [of s ph c p ls] show ?thesis by auto
next
  case (sleep c p lk ch)
  with assms(2) sleep_outcome [of s ph c p lk ch] show ?thesis by auto
next
  case (wait_done c p r)
  with assms(2) wait_outcome [of s ph c p "Some r" t] show ?thesis by simp
next
  case (wait_sleep c p)
  with assms(2) wait_outcome [of s ph c p None t] show ?thesis by simp
next
  case (exit c p)
  with assms(2) exit_outcome [of s ph c p] show ?thesis by auto
next
  case (lock c p ls l)
  with assms(2) show ?thesis by (auto intro!: lock_outcome simp del: fun_upd_apply)
next
  case (unlock c p ls l)
  with assms(2) show ?thesis by (auto intro!: lock_outcome simp del: fun_upd_apply)
next
  case (lock_sched c ls l)
  with assms(2) show ?thesis by (auto intro!: lock_outcome simp del: fun_upd_apply)
next
  case (unlock_sched c ls l)
  with assms(2) show ?thesis by (auto intro!: lock_outcome simp del: fun_upd_apply)
next
  case (wakeup c ch)
  with assms(2) wakeup_outcome [of s ph c ch] show ?thesis by auto
next
  case (kill c pid r)
  with assms(2) kill_outcome [of s ph c pid] show ?thesis by auto
next
  case (boost c)
  with assms(2) boost_outcome [of s ph c] show ?thesis by auto
next
  case (alloc c r)
  with assms(2) alloc_outcome [of s ph c] show ?thesis by auto
next
  case (embryo p f)
  obtain Q where "ready_ok s Q" using assms(2) proc_invD(1) by (auto simp: sched_inv_all_def)
  with embryo have "p_priority (f (procs s p)) < NPRIO"
    by (auto simp: ready_ok_def prio_def keeps_sched_def)
  with assms(2) embryo embryo_proc_inv [of s ph p f] show ?thesis
    by (simp add: sched_inv_all_def keeps_sched_def pstate_def)
next
  case (drop p)
  obtain Q where "ready_ok s Q" using assms(2) proc_invD(1) by (auto simp: sched_inv_all_def)
  with drop have "p_priority (procs s p) < NPRIO" by (auto simp: ready_ok_def prio_def)
  with assms(2) drop embryo_proc_inv [of s ph p "\<lambda>x. x\<lparr>p_kstack := 0, p_state := UNUSED\<rparr>"] show ?thesis
    by (simp add: sched_inv_all_def pstate_def)
next
  case (ready c p)
  with assms(2) ready_outcome [of s ph c p] show ?thesis by auto
next
  case (own c p ls f)
  with assms(2) proc_inv_own [of s ph c p f] show ?thesis by (simp add: sched_inv_all_def)
next
  case memory
  with assms(2) proc_inv_memory [of s ph t] mach_inv_frame [of t s] mem_onlyD(1,2,4) [OF memory(2)] show ?thesis
    by (simp add: sched_inv_all_def)
next
  case (intr c b)
  have "mach_inv s (\<lambda>d. locks_of (ph d))" using assms(2) by (simp add: sched_inv_all_def)
  then have "mach_inv (cpu_at c (\<lambda>x. x\<lparr>c_if := b\<rparr>) s) (\<lambda>d. locks_of (ph d))"
    by (rule mach_inv_cong) (use intr in \<open>auto simp: cpu_at_def\<close>)
  moreover have "proc_inv (cpu_at c (\<lambda>x. x\<lparr>c_if := b\<rparr>) s) ph"
    by (rule proc_inv_same [of s ph]) (use intr assms(2) in \<open>simp_all add: sched_inv_all_def cpu_at_def\<close>)
  ultimately show ?thesis using intr by (simp add: sched_inv_all_def)
qed

lemma sched_reach_inv: "sched_reach s ph \<Longrightarrow> sched_inv_all s ph"
  by (induction rule: sched_reach.induct) (auto intro: sched_init_inv sched_step_inv)

section \<open>Properties\<close>

lemma sched_inv_all_proc: "sched_inv_all s ph \<Longrightarrow> proc_inv s ph"
  by (simp add: sched_inv_all_def)

text \<open>An outcome that is neither a panic nor a null dereference.\<close>

fun safe_out :: "('a, 's) kres \<Rightarrow> bool" where
  "safe_out (Ret a s) = True"
| "safe_out Spin = True"
| "safe_out (Panic m) = False"
| "safe_out Fault = False"
| "safe_out (Sleeps c l s) = False"

text \<open>A machine with two processors at boot, its process table empty.\<close>

definition boot_pt :: pt where
  "boot_pt = \<lparr>cpus = (\<lambda>i. \<lparr>c_apicid = of_nat i, c_started = 1, c_ncli = 0, c_intena = False,
              c_proc = None, c_if = True, c_cr3 = 0, c_esp0 = 0\<rparr>),
     ncpu = 2, cur = 0, locks = (\<lambda>_. \<lparr>l_locked = False, l_cpu = None\<rparr>),
     k_mem = (\<lambda>_. 0), k_use_lock = True, k_freelist = 0, k_end = 0x80112000, kpgdir = 0x80200000,
     vm_data = 0x80108000, procs = (\<lambda>_. idle_proc), queue_first = (\<lambda>_. None), queue_last = (\<lambda>_. None),
     initproc = None, nextpid = 1, forkret_first = True, ticks = 0\<rparr>"

lemma boot_reach: "sched_reach boot_pt (\<lambda>_. PSched [])"
proof (rule sched_reach.init)
  have "inj_on (\<lambda>i. of_nat i :: uchar) {..<2}" by (auto simp: inj_on_def less_2_cases_iff)
  then show "sched_init boot_pt"
    by (auto simp: sched_init_def boot_pt_def idle_proc_def pstate_def prio_def)
qed

text \<open>
  C1. No panic in the scheduler: in every reachable state of the machine, whatever half of a switch
  a processor is about to execute returns or waits for \<open>ptable.lock\<close>.  In particular none of the
  four panics of \<open>sched\<close> (lock not held, other locks held, process still running, interrupts on) and
  none of those of \<open>switchuvm\<close>, \<open>acquire\<close> and \<open>release\<close> can happen there, \<open>dequeue\<close> never
  dereferences a null pointer, and a process the scheduler switches to always has a saved context.
\<close>

theorem scheduler_never_panics:
  assumes "sched_reach s ph" and "c < ncpu s"
  shows "(ph c = PSched [] \<longrightarrow> safe_out (scheduler_round c (s\<lparr>cur := c\<rparr>))) \<and>
    (ph c = PBack \<longrightarrow> safe_out (scheduler_back c (s\<lparr>cur := c\<rparr>))) \<and>
    (\<forall>p. ph c = PResume p \<longrightarrow> (case p_context (procs s p) of
        CtxForkret \<Rightarrow> safe_out (forkret (Ret ()) (s\<lparr>cur := c\<rparr>))
      | CtxYield b \<Rightarrow> safe_out (yield_in b (s\<lparr>cur := c\<rparr>))
      | CtxSleep lk b \<Rightarrow> safe_out (sleep_wake p lk b (s\<lparr>cur := c\<rparr>))
      | _ \<Rightarrow> False)) \<and>
    (\<forall>p ls. ph c = PKern p ls \<and> c_if (cpus s c) \<longrightarrow> safe_out (yield (cli (s\<lparr>cur := c\<rparr>)))) \<and>
    (\<forall>p lk ch. ph c = PKern p [lk] \<and> lk \<noteq> PtableLock \<longrightarrow> safe_out (sleep ch (Some lk) (s\<lparr>cur := c\<rparr>))) \<and>
    (\<forall>p. ph c = PKern p [] \<longrightarrow> safe_out (exit_final p (s\<lparr>cur := c\<rparr>)))"
proof -
  have inv: "sched_inv_all s ph" by (rule sched_reach_inv [OF assms(1)])
  note c = assms(2)
  have "safe_out (scheduler_round c (s\<lparr>cur := c\<rparr>))" if "ph c = PSched []"
    using round_outcome [OF inv c that] by auto
  moreover have "safe_out (scheduler_back c (s\<lparr>cur := c\<rparr>))" if "ph c = PBack"
    using back_outcome [OF inv c that] by auto
  moreover have "case p_context (procs s p) of
        CtxForkret \<Rightarrow> safe_out (forkret (Ret ()) (s\<lparr>cur := c\<rparr>))
      | CtxYield b \<Rightarrow> safe_out (yield_in b (s\<lparr>cur := c\<rparr>))
      | CtxSleep lk b \<Rightarrow> safe_out (sleep_wake p lk b (s\<lparr>cur := c\<rparr>))
      | _ \<Rightarrow> False" if "ph c = PResume p" for p
  proof -
    have "resumable (p_context (procs s p))"
      using proc_invD(8) [OF sched_inv_all_proc [OF inv] c that] .
    moreover have "safe_out (forkret (Ret ()) (s\<lparr>cur := c\<rparr>))" "safe_out (yield_in b (s\<lparr>cur := c\<rparr>))"
      "safe_out (sleep_wake p lk b (s\<lparr>cur := c\<rparr>))" for b lk
      using resume_forkret_outcome [OF inv c that] resume_yield_outcome [OF inv c that, of b]
        resume_sleep_outcome [OF inv c that, of lk b] by auto
    ultimately show ?thesis by (auto simp: resumable_def split: ctx.splits)
  qed
  moreover have "safe_out (yield (cli (s\<lparr>cur := c\<rparr>)))" if "ph c = PKern p ls" "c_if (cpus s c)" for p ls
    using timer_outcome [OF inv c that] by auto
  moreover have "safe_out (sleep ch (Some lk) (s\<lparr>cur := c\<rparr>))" if "ph c = PKern p [lk]" "lk \<noteq> PtableLock" for p lk ch
    using sleep_outcome [OF inv c that, of ch] by auto
  moreover have "safe_out (exit_final p (s\<lparr>cur := c\<rparr>))" if "ph c = PKern p []" for p
    using exit_outcome [OF inv c that] by auto
  ultimately show ?thesis by blast
qed

text \<open>
  C4. The operations that other kernel code calls on processes (\<open>wakeup\<close>, \<open>kill\<close>, \<open>priority_boost\<close>,
  the search of \<open>allocproc\<close> for a free slot) never panic on a processor that does not already hold
  \<open>ptable.lock\<close>, whichever other locks it holds.
\<close>

theorem ptable_sections_never_panic:
  assumes "sched_reach s ph" and "c < ncpu s" and "PtableLock \<notin> set (locks_of (ph c))"
  shows "safe_out (wakeup ch (s\<lparr>cur := c\<rparr>)) \<and> safe_out (kill pid (s\<lparr>cur := c\<rparr>)) \<and>
    safe_out (priority_boost (s\<lparr>cur := c\<rparr>)) \<and> safe_out (alloc_slot (s\<lparr>cur := c\<rparr>))"
  using wakeup_outcome [OF sched_reach_inv [OF assms(1)] assms(2,3), of ch]
    kill_outcome [OF sched_reach_inv [OF assms(1)] assms(2,3), of pid]
    boost_outcome [OF sched_reach_inv [OF assms(1)] assms(2,3)]
    alloc_outcome [OF sched_reach_inv [OF assms(1)] assms(2,3)] by auto

theorem ptable_sections_never_panic_witness:
  "safe_out (wakeup ChanTicks (boot_pt\<lparr>cur := 0\<rparr>)) \<and> safe_out (kill 7 (boot_pt\<lparr>cur := 0\<rparr>)) \<and>
   safe_out (priority_boost (boot_pt\<lparr>cur := 0\<rparr>)) \<and> safe_out (alloc_slot (boot_pt\<lparr>cur := 0\<rparr>))"
  using ptable_sections_never_panic [OF boot_reach, of 0 ChanTicks 7] by (simp add: boot_pt_def)

text \<open>
  C3. In every reachable state a process is RUNNING exactly when one processor executes it, that
  processor is unique, and its \<open>proc\<close> pointer says so; a processor in the scheduler has none.
\<close>

theorem one_processor_per_process:
  assumes "sched_reach s ph" and "p < NPROC"
  shows "(p_state (procs s p) = RUNNING \<longleftrightarrow> (\<exists>!c. c < ncpu s \<and> running (ph c) = Some p)) \<and>
    (\<forall>c < ncpu s. running (ph c) = Some p \<longrightarrow> c_proc (cpus s c) = Some p) \<and>
    (\<forall>c < ncpu s. \<forall>ls. ph c = PSched ls \<longrightarrow> c_proc (cpus s c) = None)"
proof -
  have inv: "proc_inv s ph" using sched_reach_inv [OF assms(1)] by (simp add: sched_inv_all_def)
  have "p_state (procs s p) = RUNNING \<longleftrightarrow> (\<exists>!c. c < ncpu s \<and> running (ph c) = Some p)"
    using proc_invD(3,4,5) [OF inv] assms(2) unfolding pstate_def by (metis (no_types, lifting))
  moreover have "c_proc (cpus s c) = Some p" if "c < ncpu s" "running (ph c) = Some p" for c
    using proc_invD(2) [OF inv that(1)] that(2) by (cases "ph c") auto
  moreover have "c_proc (cpus s c) = None" if "c < ncpu s" "ph c = PSched ls" for c ls
    using proc_invD(2) [OF inv that(1)] that(2) by simp
  ultimately show ?thesis by blast
qed

text \<open>
  C2. No ready process is lost or duplicated: in every reachable state the pointers of the three
  queues represent lists without repetition, and a process is RUNNABLE exactly when it is in the
  list of its priority; every priority is below \<open>NPRIO\<close>.
\<close>

theorem ready_queues_consistent:
  assumes "sched_reach s ph"
  shows "\<exists>Q. (\<forall>i < NPRIO. chain (\<lambda>q. p_next_proc (procs s q)) (queue_first s i) (Q i) \<and> distinct (Q i) \<and>
      queue_last s i = (if Q i = [] then None else Some (last (Q i)))) \<and>
    (\<forall>p < NPROC. p_priority (procs s p) < NPRIO \<and>
      (\<forall>i < NPRIO. p \<in> set (Q i) \<longleftrightarrow> p_state (procs s p) = RUNNABLE \<and> p_priority (procs s p) = i))"
proof -
  have inv: "proc_inv s ph" using sched_reach_inv [OF assms] by (simp add: sched_inv_all_def)
  obtain Q where Q: "ready_ok s Q" using proc_invD(1) [OF inv] by blast
  then have rq: "rqueues s Q" by (simp add: ready_ok_def)
  have "p \<in> set (Q i) \<longleftrightarrow> pstate s p = RUNNABLE \<and> prio s p = i" if "p < NPROC" "i < NPRIO" for p i
    using Q rqueuesD(5) [OF rq that(2), of p] that by (auto simp: ready_ok_def)
  moreover have "prio s p < NPRIO" if "p < NPROC" for p using Q that by (simp add: ready_ok_def)
  ultimately show ?thesis
    using rqueuesD(1-3) [OF rq] unfolding pstate_def prio_def nxt_def [abs_def] by blast
qed

text \<open>
  C5. The lock discipline of the whole machine: no lock is held by two processors, a processor's
  \<open>pushcli\<close> depth is the number of locks it holds, its interrupts are off while it holds one, and
  every lock structure that is taken names its holder.
\<close>

theorem lock_discipline:
  assumes "sched_reach s ph" and "c < ncpu s"
  shows "c_ncli (cpus s c) = int (length (locks_of (ph c))) \<and> distinct (locks_of (ph c)) \<and>
    (locks_of (ph c) \<noteq> [] \<longrightarrow> \<not> c_if (cpus s c)) \<and>
    (\<forall>l. l \<in> set (locks_of (ph c)) \<longleftrightarrow> l_locked (locks s l) \<and> l_cpu (locks s l) = Some c)"
proof -
  have inv: "mach_inv s (\<lambda>d. locks_of (ph d))"
    using sched_reach_inv [OF assms(1)] by (simp add: sched_inv_all_def)
  have "l \<in> set (locks_of (ph c)) \<longleftrightarrow> l_locked (locks s l) \<and> l_cpu (locks s l) = Some c" for l
    using mach_inv_held [of "s\<lparr>cur := c\<rparr>" "\<lambda>d. locks_of (ph d)" l] inv assms(2) by (simp add: held_def)
  with mach_invD(1-3) [OF inv assms(2)] show ?thesis by blast
qed

end
