(* ===== verification/Sched_Live.thy ===== *)
theory Sched_Live
  imports Sched_Safety "HOL-Library.Sublist"
begin

text \<open>
  No process starves.  The first queue is served in the order in which processes enter it, by all
  processors together: no step of any processor puts a process in front of another there, and the
  scheduler takes from other queues only while the first is empty.  As \<open>priority_boost\<close> moves every
  ready process to the first queue, a ready process is chosen at the latest when the scheduler has
  chosen a process as many times as there are slots in the process table.
\<close>

section \<open>The first queue only grows at its end\<close>

definition grows :: "'a pt_scheme \<Rightarrow> 'a pt_scheme \<Rightarrow> bool" where
  "grows s t \<longleftrightarrow> (\<forall>Q. ready_ok s Q \<longrightarrow> (\<exists>R. ready_ok t R \<and> prefix (Q 0) (R 0)))"

lemma growsI_same: "ready_ok t = ready_ok s \<Longrightarrow> grows s t"
  by (auto simp: grows_def)

lemma grows_refl [simp]: "grows s s"
  by (rule growsI_same) simp

lemma grows_trans: "grows s t \<Longrightarrow> grows t u \<Longrightarrow> grows s u"
  unfolding grows_def by (meson prefix_order.trans)

lemma grows_ready: "ready_ok s = ready_ok s' \<Longrightarrow> grows s t = grows s' t"
  by (simp add: grows_def)

lemma grows_ready': "ready_ok t = ready_ok t' \<Longrightarrow> grows s t = grows s t'"
  by (simp add: grows_def)

lemma grows_unqueued:
  assumes "pstate s p \<noteq> RUNNABLE" and "p_state (f (procs s p)) \<noteq> RUNNABLE"
    and "\<And>Q. ready_ok s Q \<Longrightarrow> p_priority (f (procs s p)) < NPRIO"
  shows "grows s (proc_upd p f s)"
proof -
  have "ready_ok (proc_upd p f s) Q" if "ready_ok s Q" for Q
    using ready_ok_unqueued [of s Q p f] that assms(1,2) assms(3) [OF that] by blast
  then show ?thesis unfolding grows_def by blast
qed

lemma grows_enqueue:
  assumes "p < NPROC" and "pstate s p \<noteq> RUNNABLE"
  shows "grows s (enqueue p s)"
  unfolding grows_def using ready_ok_enqueue [OF _ assms] by fastforce

lemma grows_wakeup1: "grows s (wakeup1 c s)"
  unfolding grows_def using ready_ok_wakeup1(1) by fastforce

lemma grows_view: "nxt t = nxt s \<Longrightarrow> prio t = prio s \<Longrightarrow> pstate t = pstate s \<Longrightarrow>
    queue_first t = queue_first s \<Longrightarrow> queue_last t = queue_last s \<Longrightarrow> grows s t"
  by (rule growsI_same) (rule ready_ok_view)

lemma grows_keeps: "keeps_sched f \<Longrightarrow> grows s (proc_upd p f s)"
  by (rule grows_view) (auto simp: keeps_sched_def nxt_def prio_def pstate_def fun_eq_iff)

lemma grows_reparent: "grows s (reparent cp ps s)"
proof (induction ps arbitrary: s)
  case (Cons p ps)
  let ?s = "proc_upd p (\<lambda>x. x\<lparr>p_parent := initproc s\<rparr>) s"
  have k: "grows s ?s" by (rule grows_keeps) (simp add: keeps_sched_def)
  have "grows s (if p_parent (procs s p) = Some cp then
      (if p_state (procs ?s p) = ZOMBIE then wakeup1 (map_option ChanProc (initproc ?s)) ?s else ?s) else s)"
    using k grows_trans [OF k grows_wakeup1] by simp
  from grows_trans [OF this Cons.IH] show ?case by (simp add: Let_def split: if_splits)
qed simp

lemma grows_exit_mark: "grows s (exit_mark p s)"
  unfolding exit_mark_def by (rule grows_trans [OF grows_wakeup1 grows_reparent])

lemma ready_prio: "ready_ok s Q \<Longrightarrow> p < NPROC \<Longrightarrow> p_priority (procs s p) < NPRIO"
  by (simp add: ready_ok_def prio_def)

lemma grows_kill_mark: "p < NPROC \<Longrightarrow> grows s (kill_mark p s)"
proof -
  assume p: "p < NPROC"
  let ?s = "proc_upd p (\<lambda>x. x\<lparr>p_killed := True\<rparr>) s"
  have "grows s ?s" by (rule grows_keeps) (simp add: keeps_sched_def)
  then show ?thesis using grows_trans [OF _ grows_enqueue [OF p, of ?s]]
    by (auto simp: kill_mark_def Let_def)
qed

lemma grows_leave:
  assumes "grows s v" and "pstate v p \<noteq> RUNNABLE" and "p < NPROC"
    and "\<And>x. p_state (f x) \<noteq> RUNNABLE" and "\<And>x. p_priority (f x) = p_priority x"
  shows "grows s (proc_upd p (\<lambda>x. x\<lparr>p_context := k\<rparr>) (proc_upd p f v))"
proof -
  have "grows v (proc_upd p f v)" by (rule grows_unqueued) (use assms ready_prio in auto)
  moreover have "grows (proc_upd p f v) (proc_upd p (\<lambda>x. x\<lparr>p_context := k\<rparr>) (proc_upd p f v))"
    by (rule grows_keeps) (simp add: keeps_sched_def)
  ultimately show ?thesis using assms(1) grows_trans by blast
qed

section \<open>Every step\<close>

text \<open>The scheduler takes the head of the first queue, unless that queue is empty.\<close>

definition takes_head :: "'a pt_scheme \<Rightarrow> 'a pt_scheme \<Rightarrow> nat \<Rightarrow> bool" where
  "takes_head s t p \<longleftrightarrow>
     (\<forall>Q. ready_ok s Q \<longrightarrow> (\<exists>R. ready_ok t R \<and> (Q 0 = p # R 0 \<or> Q 0 = [] \<and> R 0 = [])))"

lemma pick_first: "pick Q [0..<NPRIO] = Some p \<Longrightarrow> Q 0 \<noteq> [] \<Longrightarrow> hd (Q 0) = p"
  by (auto simp: upt_NPRIO split: list.splits)

lemma pick_takes_head:
  assumes inv: "sched_inv_all s ph" and c: "c < ncpu s" and h: "ph c = PSched []"
    and r: "scheduler_round c (s\<lparr>cur := c\<rparr>) = Ret (Some p) t"
  shows "takes_head s t p"
  unfolding takes_head_def
proof (intro allI impI)
  fix Q assume Q: "ready_ok s Q"
  let ?s = "s\<lparr>cur := c\<rparr>"
  let ?H = "\<lambda>d. locks_of (ph d)"
  note I = sched_inv_allD [OF inv c]
  have Qs: "ready_ok ?s Q" using Q by simp
  then have rq: "rqueues ?s Q" unfolding ready_ok_def by blast
  have img: "\<forall>i < NPRIO. \<forall>p \<in> set (Q i). p_kstack (procs ?s p) \<noteq> 0 \<and> p_pgdir (procs ?s p) \<noteq> 0"
    using queued_live(4) [OF I(4) Qs] by blast
  have H: "?H (cur ?s) = []" using h by simp
  have free: "\<not> l_locked (locks ?s PtableLock)"
  proof
    assume l: "l_locked (locks ?s PtableLock)"
    have "mach_inv (sti ?s) ?H" by (rule mach_inv_cong [OF I(1)]) (auto simp: sti_def h)
    from acquire_inv [OF this, of PtableLock] l c h r show False by (simp add: scheduler_round_def sti_def)
  qed
  from scheduler_round_inv [OF I(1,2) H free rq img] r obtain u where
    pk: "pick Q [0..<NPRIO] = Some p" and t: "t = proc_upd p (\<lambda>x. x\<lparr>p_state := RUNNING\<rparr>) u"
    and u: "rqueues u (Q(prio s p := tl (Q (prio s p))))" "pstate u = pstate s" "prio u = prio s"
    by (auto split: option.splits)
  from pick_Some [OF pk] obtain i xs where i: "i < NPRIO" "Q i = p # xs" by auto
  then have p: "prio s p = i" using queued_live(3) [OF I(4) Qs i(1), of p] by simp
  have "ready_ok t (Q(i := xs))"
    unfolding t using ready_ok_run [OF Q, of u p xs] u i p by simp
  moreover have "Q 0 = p # (Q(i := xs)) 0 \<or> Q 0 = [] \<and> (Q(i := xs)) 0 = []"
  proof (cases "Q 0 = []")
    case False
    then obtain ys where "Q 0 = p # ys" using pick_first [OF pk] by (cases "Q 0") auto
    moreover have "prio s p = 0" using queued_live(3) [OF I(4) Qs, of 0 p] calculation by simp
    ultimately show ?thesis using i p by auto
  qed (use i in auto)
  ultimately show "\<exists>R. ready_ok t R \<and> (Q 0 = p # R 0 \<or> Q 0 = [] \<and> R 0 = [])" by blast
qed

lemma grows_more: "mach.more t = mach.more s \<Longrightarrow> grows s t"
proof -
  assume "mach.more t = mach.more s"
  then have "procs t = procs s" "queue_first t = queue_first s" "queue_last t = queue_last s"
    by (cases t, cases s, simp)+
  then show ?thesis by (intro growsI_same ready_ok_cong)
qed

lemma more_ops:
  "mycpu s = Ret i t \<Longrightarrow> t = s" "pushcli s = Ret u t \<Longrightarrow> mach.more t = mach.more s"
  "popcli s = Ret u t \<Longrightarrow> mach.more t = mach.more s"
  by (auto simp: mycpu_def pushcli_def popcli_def cli_def sti_def mach_upd_defs Let_def split: if_splits option.splits)

lemma more_holding: "holding l s = Ret b t \<Longrightarrow> mach.more t = mach.more s"
  unfolding holding_def by (auto dest!: more_ops)

lemma more_acquire: "acquire l s = Ret u t \<Longrightarrow> mach.more t = mach.more s"
  unfolding acquire_def xchg1_def
  by (auto dest!: more_ops more_holding simp: lock_upd_def split: if_splits)

lemma more_release: "release l s = Ret u t \<Longrightarrow> mach.more t = mach.more s"
  unfolding release_def by (auto dest!: more_ops more_holding simp: lock_upd_def Let_def split: if_splits)

lemma ready_ok_cpu_at [simp]: "ready_ok (cpu_at c f s) = ready_ok s"
  by (rule ready_ok_cong) (simp_all add: cpu_at_def)

lemma grows_cur [simp]: "grows (s\<lparr>cur := c\<rparr>) t = grows s t" "grows s (t\<lparr>cur := c\<rparr>) = grows s t"
  "grows s (cpu_at c f t) = grows s t"
  "grows s (cpu_upd f t) = grows s t" "grows s (acquired l t) = grows s t" "grows s (released l t) = grows s t"
  by (simp_all add: grows_def)

lemma grows_locks:
  "acquire l s = Ret u t \<Longrightarrow> grows s t" "release l s = Ret u t \<Longrightarrow> grows s t"
  by (auto dest!: more_acquire more_release intro: grows_more)

lemma more_pick_None: "scheduler_pick c is s = Ret None t \<Longrightarrow> mach.more t = mach.more s"
  by (induction "is") (auto dest!: more_release simp: Let_def split: option.splits)

lemma grows_idle: "scheduler_round c s = Ret None t \<Longrightarrow> grows s t"
  by (auto simp: scheduler_round_def Let_def sti_def cpu_upd_def dest!: more_acquire more_pick_None intro!: grows_more)

lemma grows_back: "scheduler_back c s = Ret () t \<Longrightarrow> grows s t"
  by (auto simp: scheduler_back_def switchkvm_def Let_def cpu_at_def cpu_upd_def dest!: more_release intro!: grows_more)

lemma grows_resume:
  "yield_in b s = Ret () t \<Longrightarrow> grows s t"
  "forkret (Ret ()) s = Ret () t \<Longrightarrow> grows s t"
  "sleep_wake p lk b s = Ret () t \<Longrightarrow> grows s t"
proof -
  show "yield_in b s = Ret () t \<Longrightarrow> grows s t"
    by (auto simp: yield_in_def sched_in_def cpu_at_def dest!: more_ops more_release intro!: grows_more)
  show "grows s t" if "forkret (Ret ()) s = Ret () t"
  proof -
    from that obtain u where u: "release PtableLock s = Ret () u"
      and t: "t = u \<or> t = u\<lparr>forkret_first := False\<rparr>" by (auto simp: forkret_def split: if_splits)
    from t have "grows u t" by (auto intro!: grows_view simp: fun_eq_iff nxt_def prio_def pstate_def)
    with grows_locks(2) [OF u] show ?thesis by (rule grows_trans)
  qed
  show "grows s t" if "sleep_wake p lk b s = Ret () t"
  proof -
    from that obtain i where i: "mycpu s = Ret i s"
      and t: "(let v = proc_upd p (\<lambda>x. x\<lparr>p_chan := None\<rparr>) (cpu_at i (\<lambda>c. c\<lparr>c_intena := b\<rparr>) s) in
        if lk \<noteq> PtableLock then release PtableLock v else Ret () v) = Ret () t"
      by (auto simp: sleep_wake_def sched_in_def dest: more_ops)
    let ?v = "proc_upd p (\<lambda>x. x\<lparr>p_chan := None\<rparr>) (cpu_at i (\<lambda>c. c\<lparr>c_intena := b\<rparr>) s)"
    have "grows (cpu_at i (\<lambda>c. c\<lparr>c_intena := b\<rparr>) s) ?v" by (rule grows_keeps) (simp add: keeps_sched_def)
    then have "grows s ?v" using grows_trans [of s "cpu_at i (\<lambda>c. c\<lparr>c_intena := b\<rparr>) s" ?v] by simp
    with t grows_trans grows_locks(2) show ?thesis by (fastforce simp: Let_def split: if_splits)
  qed
qed

lemma kern_proc:
  assumes inv: "sched_inv_all s ph" and c: "c < ncpu s" and h: "ph c = PKern p ls"
  shows "c_proc (cpus s c) = Some p" "p < NPROC" "pstate s p = RUNNING" "\<exists>Q. ready_ok s Q"
  using proc_invD(1) [OF sched_inv_all_proc [OF inv]]
    proc_invD(2,3) [OF sched_inv_all_proc [OF inv], of c] c h by auto

lemma grows_timer:
  assumes inv: "sched_inv_all s ph" and c: "c < ncpu s" and h: "ph c = PKern p ls" and ion: "c_if (cpus s c)"
    and r: "yield (cli (s\<lparr>cur := c\<rparr>)) = Ret () t"
  shows "grows s t"
proof -
  let ?s = "cli (s\<lparr>cur := c\<rparr>)"
  let ?a = "acquired PtableLock ?s"
  note I = sched_inv_allD [OF inv c]
  note K = kern_proc [OF inv c h]
  have ls: "ls = []" using mach_invD(3) [OF I(1), of c] c h ion by (cases ls) auto
  have im: "mach_inv ?s (\<lambda>d. locks_of (ph d))"
    by (rule mach_inv_cong [OF I(1)]) (auto simp: cli_def h ls)
  have t: "t = proc_upd p (\<lambda>x. x\<lparr>p_context := CtxYield (c_if (cpus ?s (cur ?s)))\<rparr>) (enqueue p (proc_upd p demote ?a))"
    using yield_inv [OF im, of p] r K c h ls by (auto simp: cli_def split: if_splits)
  have "grows s ?a" by (simp add: cli_def)
  moreover have "grows ?a (proc_upd p demote ?a)"
  proof (rule grows_unqueued)
    show "p_priority (demote (procs ?a p)) < NPRIO" if "ready_ok ?a Q" for Q
      using ready_prio [OF that K(2)] by (auto simp: demote_def)
  qed (use K in \<open>simp_all add: cli_def pstate_def demote_def\<close>)
  moreover have "grows (proc_upd p demote ?a) (enqueue p (proc_upd p demote ?a))"
    by (rule grows_enqueue) (use K in \<open>simp_all add: cli_def pstate_def demote_def\<close>)
  moreover have "grows u (proc_upd p (\<lambda>x. x\<lparr>p_context := k\<rparr>) u)" for u :: "'a pt_scheme" and k
    by (rule grows_keeps) (simp add: keeps_sched_def)
  ultimately show ?thesis unfolding t by (meson grows_trans)
qed

lemma grows_sleep:
  assumes inv: "sched_inv_all s ph" and c: "c < ncpu s" and h: "ph c = PKern p [lk]" and lk: "lk \<noteq> PtableLock"
    and r: "sleep ch (Some lk) (s\<lparr>cur := c\<rparr>) = Ret () t"
  shows "grows s t"
proof -
  let ?s = "s\<lparr>cur := c\<rparr>"
  note I = sched_inv_allD [OF inv c]
  note K = kern_proc [OF inv c h]
  have t: "t = proc_upd p (\<lambda>x. x\<lparr>p_context := CtxSleep lk (c_intena (cpus ?s (cur ?s)))\<rparr>)
      (proc_upd p (asleep ch) (released lk (acquired PtableLock ?s)))"
    using sleep_inv(1) [OF I(1,2) _ lk, of p ch] r K h by (auto split: if_splits)
  show ?thesis unfolding t by (rule grows_leave) (use K in \<open>simp_all add: asleep_def\<close>)
qed

lemma grows_exit:
  assumes inv: "sched_inv_all s ph" and c: "c < ncpu s" and h: "ph c = PKern p []"
    and r: "exit_final p (s\<lparr>cur := c\<rparr>) = Ret () t"
  shows "grows s t"
proof -
  let ?s = "s\<lparr>cur := c\<rparr>"
  let ?m = "exit_mark p (acquired PtableLock ?s)"
  note I = sched_inv_allD [OF inv c]
  note K = kern_proc [OF inv c h]
  have t: "t = proc_upd p (\<lambda>x. x\<lparr>p_context := CtxExit (c_if (cpus ?s (cur ?s)))\<rparr>)
      (proc_upd p (\<lambda>x. x\<lparr>p_state := ZOMBIE\<rparr>) ?m)"
    using exit_final_inv [OF I(1,2), of p] r K h by (auto split: if_splits)
  have "grows s ?m" by (rule grows_trans [of _ "acquired PtableLock ?s"]) (simp_all add: grows_exit_mark)
  moreover have "pstate ?m p = pstate ?s p \<or> pstate ?s p = SLEEPING"
    using wakesD(11) [OF wakes_exit_mark [of "acquired PtableLock ?s" p], of p] by auto
  then have "pstate ?m p \<noteq> RUNNABLE" using K(3) by auto
  ultimately show ?thesis unfolding t by (rule grows_leave) (use K in simp_all)
qed

lemma grows_mem: "mem_only s t \<Longrightarrow> grows s t"
proof -
  assume m: "mem_only s t"
  have "procs t = procs s" "queue_first t = queue_first s" "queue_last t = queue_last s"
    using mem_onlyD(7) [OF m] by (cases t, cases s, simp)+
  then show ?thesis by (intro growsI_same ready_ok_cong)
qed

lemma grows_wait:
  assumes inv: "sched_inv_all s ph" and c: "c < ncpu s" and h: "ph c = PKern p [PtableLock]"
    and r: "wait_round p (s\<lparr>cur := c\<rparr>) = Ret r t"
  shows "grows s t"
proof -
  let ?s = "s\<lparr>cur := c\<rparr>"
  note I = sched_inv_allD [OF inv c]
  note K = kern_proc [OF inv c h]
  have H: "locks_of (ph (cur ?s)) = [PtableLock]" using h by simp
  have cp: "c_proc (cpus ?s (cur ?s)) = Some p" using K by simp
  have reap: "grows s (released PtableLock (proc_upd q reap u))"
    if q: "q < NPROC" "pstate ?s q = ZOMBIE" "mem_only ?s u" for q u
  proof -
    have "procs u = procs s" using mem_onlyD(7) [OF q(3)] by (cases u, cases s, simp)
    then have "grows u (proc_upd q reap u)"
      using q ready_prio [of u _ q] by (intro grows_unqueued) (auto simp: pstate_def reap_def)
    with grows_mem [OF q(3)] show ?thesis by (auto intro: grows_trans)
  qed
  have slp: "grows s (proc_upd p (\<lambda>x. x\<lparr>p_context := k\<rparr>) (proc_upd p (asleep (ChanProc p)) ?s))" for k
    by (rule grows_leave) (use K in \<open>simp_all add: asleep_def\<close>)
  from wait_round_cases [OF I(1,2) H cp r] show ?thesis
    by (elim disjE exE conjE) (use reap slp in simp_all)
qed

lemma grows_wakeup: "wakeup ch s = Ret () t \<Longrightarrow> grows s t"
proof -
  assume "wakeup ch s = Ret () t"
  then obtain u where "acquire PtableLock s = Ret () u" "release PtableLock (wakeup1 (Some ch) u) = Ret () t"
    by (auto simp: wakeup_def)
  then show ?thesis by (meson grows_locks grows_wakeup1 grows_trans)
qed

lemma grows_kill: "kill pid s = Ret r t \<Longrightarrow> grows s t"
proof -
  assume "kill pid s = Ret r t"
  then obtain u where u: "acquire PtableLock s = Ret () u" and k: "kill_loop pid [0..<NPROC] u = Ret r t"
    by (auto simp: kill_def)
  have "grows u t"
  proof (cases "find (\<lambda>p. p_pid (procs u p) = pid) [0..<NPROC]")
    case None
    with k show ?thesis by (auto simp: kill_loop_find dest: grows_locks(2))
  next
    case (Some p)
    then have "p < NPROC" by (auto simp: find_Some_iff)
    with k Some show ?thesis
      by (auto simp: kill_loop_find dest!: grows_locks(2) intro: grows_trans [OF grows_kill_mark])
  qed
  with grows_locks(1) [OF u] show ?thesis by (rule grows_trans)
qed

lemma grows_alloc: "alloc_slot s = Ret r t \<Longrightarrow> grows s t"
proof -
  assume "alloc_slot s = Ret r t"
  then obtain u where u: "acquire PtableLock s = Ret () u"
    and k: "(case find_unused (procs u) [0..<NPROC] of
       None \<Rightarrow> bindK (release PtableLock u) (\<lambda>_ s. Ret None s)
     | Some p \<Rightarrow> bindK (release PtableLock (claim_slot p u)) (\<lambda>_ s. Ret (Some p) s)) = Ret r t"
    by (auto simp: alloc_slot_def)
  have "grows u t"
  proof (cases "find_unused (procs u) [0..<NPROC]")
    case None
    with k show ?thesis by (auto dest: grows_locks(2))
  next
    case (Some p)
    let ?v = "proc_upd p (\<lambda>x. x\<lparr>p_state := EMBRYO, p_pid := nextpid u, p_priority := 0\<rparr>) u"
    have "grows u ?v"
      using find_unused_Some [OF Some] by (intro grows_unqueued) (simp_all add: pstate_def)
    moreover have "grows ?v (claim_slot p u)"
      unfolding claim_slot_eq by (rule grows_view) (simp_all add: fun_eq_iff nxt_def prio_def pstate_def)
    moreover have "release PtableLock (claim_slot p u) = Ret () t" using k Some by auto
    ultimately show ?thesis by (meson grows_locks(2) grows_trans)
  qed
  with grows_locks(1) [OF u] show ?thesis by (rule grows_trans)
qed

lemma grows_make_ready:
  assumes "p < NPROC" and "pstate s p = EMBRYO" and "make_ready p s = Ret () t"
  shows "grows s t"
proof -
  from assms(3) obtain u where u: "acquire PtableLock s = Ret () u" "release PtableLock (enqueue p u) = Ret () t"
    by (auto simp: make_ready_def)
  have "procs u = procs s" using more_acquire [OF u(1)] by (cases u, cases s, simp)
  then have "grows u (enqueue p u)" using assms by (intro grows_enqueue) (simp_all add: pstate_def)
  with u show ?thesis by (meson grows_locks grows_trans)
qed

text \<open>What a boost leaves: every queue in the first one, in the order of the priorities.\<close>

lemma boost_ready:
  assumes inv: "sched_inv_all s ph" and c: "c < ncpu s" and h: "PtableLock \<notin> set (locks_of (ph c))"
    and r: "priority_boost (s\<lparr>cur := c\<rparr>) = Ret () t" and Q: "ready_ok s Q"
  shows "ready_ok t (boosted Q)"
proof -
  let ?s = "s\<lparr>cur := c\<rparr>"
  note I = sched_inv_allD [OF inv c]
  have out: "PtableLock \<notin> set (locks_of (ph (cur ?s)))" using h by simp
  have Qs: "ready_ok ?s Q" using Q by simp
  then have rq: "rqueues ?s Q" unfolding ready_ok_def by blast
  from boost_inv [OF I(1,2) out rq] r obtain u where
    u: "t = released PtableLock u" "rqueues u (boosted Q)" "pstate u = pstate s"
      "prio u = (\<lambda>p. if p < NPROC then 0 else prio s p)" by (auto cong: if_cong)
  then have "ready_ok u (boosted Q)" using ready_ok_boosted [OF Qs u(2)] by (simp cong: if_cong)
  then show ?thesis using u by simp
qed

lemma grows_boost:
  assumes "sched_inv_all s ph" and "c < ncpu s" and "PtableLock \<notin> set (locks_of (ph c))"
    and "priority_boost (s\<lparr>cur := c\<rparr>) = Ret () t"
  shows "grows s t"
  using boost_ready [OF assms] by (fastforce simp: grows_def boosted_def)

definition picks :: "(nat \<Rightarrow> phase) \<Rightarrow> (nat \<Rightarrow> phase) \<Rightarrow> nat \<Rightarrow> nat \<Rightarrow> bool" where
  "picks ph ph' c p \<longleftrightarrow> ph c = PSched [] \<and> ph' c = PResume p"

lemma sched_step_grows:
  assumes "sched_step s ph t ph'" and "sched_inv_all s ph"
  shows "grows s t \<and> (\<forall>c p. \<not> picks ph ph' c p) \<or> (\<exists>c p. takes_head s t p \<and> picks ph ph' c p \<and> ph' = ph(c := PResume p))"
  using assms(1)
proof cases
  case (pick c p)
  with assms(2) have "takes_head s t p" by (intro pick_takes_head)
  with pick show ?thesis by (intro disjI2 exI [of _ c] exI [of _ p]) (simp add: picks_def)
next
  case (boost c)
  with assms(2) show ?thesis by (auto simp: picks_def intro: grows_boost)
next
  case (timer c p ls)
  with assms(2) show ?thesis by (auto simp: picks_def intro: grows_timer)
next
  case (sleep c p lk ch)
  with assms(2) show ?thesis by (auto simp: picks_def intro: grows_sleep)
next
  case (wait_done c p r)
  with assms(2) show ?thesis by (auto simp: picks_def intro: grows_wait)
next
  case (wait_sleep c p)
  with assms(2) show ?thesis by (auto simp: picks_def intro: grows_wait)
next
  case (exit c p)
  with assms(2) show ?thesis by (auto simp: picks_def intro: grows_exit)
next
  case (drop p)
  then have "grows s t" using ready_prio [of s _ p] by (auto intro!: grows_unqueued)
  with drop show ?thesis by (simp add: picks_def)
next
  case (ready c p)
  then have "grows (s\<lparr>cur := c\<rparr>) t" by (intro grows_make_ready [of p "s\<lparr>cur := c\<rparr>"]) simp_all
  with ready show ?thesis by (simp add: picks_def)
qed (auto simp: picks_def dest: grows_idle grows_back grows_resume grows_locks grows_wakeup grows_kill grows_alloc
    grows_keeps grows_mem)

section \<open>Runs and the processes they choose\<close>

text \<open>An execution from \<open>s\<close>, with the list of the processes the schedulers choose, in order.\<close>

inductive sched_run ::
  "'a pt_scheme \<Rightarrow> (nat \<Rightarrow> phase) \<Rightarrow> nat list \<Rightarrow> 'a pt_scheme \<Rightarrow> (nat \<Rightarrow> phase) \<Rightarrow> bool"
  for s :: "'a pt_scheme" and ph :: "nat \<Rightarrow> phase" where
  start: "sched_run s ph [] s ph"
| quiet: "sched_run s ph ps t ph' \<Longrightarrow> sched_step t ph' u ph'' \<Longrightarrow> (\<And>c p. \<not> picks ph' ph'' c p) \<Longrightarrow>
    sched_run s ph ps u ph''"
| chose: "sched_run s ph ps t ph' \<Longrightarrow> sched_step t ph' u ph'' \<Longrightarrow> picks ph' ph'' c p \<Longrightarrow>
    sched_run s ph (ps @ [p]) u ph''"

lemma sched_run_inv: "sched_run s ph ps t ph' \<Longrightarrow> sched_inv_all s ph \<Longrightarrow> sched_inv_all t ph'"
  by (induction rule: sched_run.induct) (auto intro: sched_step_inv)

text \<open>
  The first \<open>length L\<close> choices after a state where \<open>L\<close> is a prefix of the first queue are \<open>L\<close>.
\<close>

definition served :: "nat list \<Rightarrow> nat list \<Rightarrow> 'a pt_scheme \<Rightarrow> bool" where
  "served L ps t \<longleftrightarrow> prefix L ps \<or>
     (\<exists>R M. ready_ok t R \<and> L = ps @ M \<and> prefix M (R 0))"

lemma served_grows: "served L ps t \<Longrightarrow> grows t u \<Longrightarrow> served L ps u"
  unfolding served_def grows_def by (metis prefix_order.trans)

lemma served_takes:
  assumes "served L ps t" and "takes_head t u p"
  shows "served L (ps @ [p]) u"
  using assms(1) unfolding served_def
proof (elim disjE exE conjE)
  assume "prefix L ps"
  then show "prefix L (ps @ [p]) \<or> (\<exists>R M. ready_ok u R \<and> L = (ps @ [p]) @ M \<and> prefix M (R 0))"
    by (simp add: prefix_def) (metis append.assoc)
next
  fix R M assume R: "ready_ok t R" "L = ps @ M" "prefix M (R 0)"
  from assms(2) R(1) obtain S where S: "ready_ok u S" "R 0 = p # S 0 \<or> R 0 = [] \<and> S 0 = []"
    by (auto simp: takes_head_def)
  show "prefix L (ps @ [p]) \<or> (\<exists>R M. ready_ok u R \<and> L = (ps @ [p]) @ M \<and> prefix M (R 0))"
  proof (cases M)
    case Nil
    with R show ?thesis by simp
  next
    case (Cons q M')
    with R(3) S(2) have "q = p" "prefix M' (S 0)" by auto
    with R(2) S(1) Cons show ?thesis by auto
  qed
qed

lemma sched_run_served:
  assumes "sched_run s ph ps t ph'" and inv: "sched_inv_all s ph" and "ready_ok s Q" and "prefix L (Q 0)"
  shows "served L ps t"
  using assms(1)
proof (induction rule: sched_run.induct)
  case start
  with assms(3,4) show ?case by (auto simp: served_def)
next
  case (quiet ps t ph' u ph'')
  from sched_step_grows [OF quiet(2) sched_run_inv [OF quiet(1) inv]] quiet(3) have "grows t u" by blast
  with quiet.IH show ?case by (rule served_grows)
next
  case (chose ps t ph' u ph'' c p)
  from sched_step_grows [OF chose(2) sched_run_inv [OF chose(1) inv]] chose(3) obtain d q where
    d: "takes_head t u q" "ph'' = ph'(d := PResume q)" by blast
  with chose(3) have "q = p" by (auto simp: picks_def split: if_splits)
  with d chose.IH show ?case by (auto intro: served_takes)
qed

lemma served_long: "served L ps t \<Longrightarrow> length L \<le> length ps \<Longrightarrow> prefix L ps"
  by (auto simp: served_def)

lemma boosted_ready:
  assumes "ready_ok s Q"
  shows "p < NPROC \<Longrightarrow> pstate s p = RUNNABLE \<Longrightarrow> p \<in> set (boosted Q 0)"
    and "length (boosted Q 0) = card {q. q < NPROC \<and> pstate s q = RUNNABLE}"
proof -
  have q: "rqueues s Q" using assms by (simp add: ready_ok_def)
  have mem: "p \<in> set (boosted Q 0) \<longleftrightarrow> p < NPROC \<and> pstate s p = RUNNABLE" for p
    using boosted_members [OF assms, of p] rqueuesD(4) [OF q, of 0 p] rqueuesD(4) [OF q, of 1 p]
      rqueuesD(4) [OF q, of 2 p] by (auto simp: boosted_def)
  show "p < NPROC \<Longrightarrow> pstate s p = RUNNABLE \<Longrightarrow> p \<in> set (boosted Q 0)" using mem by blast
  have "distinct (boosted Q 0)" using rqueues_distinct [OF q] by (simp add: boosted_def)
  then have "length (boosted Q 0) = card (set (boosted Q 0))" by (simp add: distinct_card)
  also have "set (boosted Q 0) = {q. q < NPROC \<and> pstate s q = RUNNABLE}" using mem by blast
  finally show "length (boosted Q 0) = card {q. q < NPROC \<and> pstate s q = RUNNABLE}" .
qed

section \<open>Properties\<close>

text \<open>A machine whose process 0 is ready, and the states after a boost and after a choice.\<close>

fun st_of :: "('a, 's) kres \<Rightarrow> 's option" where
  "st_of (Ret a s) = Some s"
| "st_of _ = None"

definition embryo_pt :: pt where
  "embryo_pt = boot_pt\<lparr>procs := (\<lambda>_. idle_proc)(0 := idle_proc\<lparr>p_state := EMBRYO, p_pid := 1,
     p_kstack := 0x80300000, p_pgdir := 0x80301000, p_context := CtxForkret\<rparr>)\<rparr>"

definition ready_pt :: pt where
  "ready_pt = the (st_of (make_ready 0 (embryo_pt\<lparr>cur := 0\<rparr>)))"

definition boosted_pt :: pt where
  "boosted_pt = the (st_of (priority_boost (ready_pt\<lparr>cur := 0\<rparr>)))"

definition chosen_pt :: pt where
  "chosen_pt = the (st_of (scheduler_round 1 (boosted_pt\<lparr>cur := 1\<rparr>)))"

lemma embryo_reach: "sched_reach embryo_pt (\<lambda>_. PSched [])"
proof (rule sched_reach.init)
  have "inj_on (\<lambda>i. of_nat i :: uchar) {..<2}" by (auto simp: inj_on_def less_2_cases_iff)
  then show "sched_init embryo_pt"
    by (auto simp: sched_init_def embryo_pt_def boot_pt_def idle_proc_def pstate_def prio_def)
qed

lemma all_idle_free:
  assumes "sched_inv_all s (\<lambda>_. PSched [])"
  shows "\<not> l_locked (locks s l)"
  using assms by (auto simp: sched_inv_all_def mach_inv_def)

lemma ready_pt_eq:
  "make_ready 0 (embryo_pt\<lparr>cur := 0\<rparr>) = Ret () ready_pt"
  "ready_pt = released PtableLock (enqueue 0 (acquired PtableLock (embryo_pt\<lparr>cur := 0\<rparr>)))"
proof -
  have inv: "sched_inv_all embryo_pt (\<lambda>_. PSched [])" by (rule sched_reach_inv [OF embryo_reach])
  have "ncpu embryo_pt = 2" by (simp add: embryo_pt_def boot_pt_def)
  with make_ready_inv [OF sched_inv_allD(1) [OF inv, of 0], of 0] all_idle_free [OF inv, of PtableLock]
  show "make_ready 0 (embryo_pt\<lparr>cur := 0\<rparr>) = Ret () ready_pt"
    "ready_pt = released PtableLock (enqueue 0 (acquired PtableLock (embryo_pt\<lparr>cur := 0\<rparr>)))"
    by (simp_all add: ready_pt_def)
qed

lemma ready_pt_view: "ncpu ready_pt = 2" "p_state (procs ready_pt 0) = RUNNABLE"
  "{q. q < NPROC \<and> p_state (procs ready_pt q) = RUNNABLE} = {0}"
proof -
  have e: "ncpu embryo_pt = 2" "p_state (procs embryo_pt q) = RUNNABLE \<longleftrightarrow> False" for q
    by (simp_all add: embryo_pt_def boot_pt_def idle_proc_def)
  show "ncpu ready_pt = 2" using e
    by (simp add: ready_pt_eq(2) sched_frameD(2) [OF sched_frame_enqueue])
  have "pstate ready_pt = (pstate embryo_pt)(0 := RUNNABLE)" by (simp add: ready_pt_eq(2))
  then have p: "p_state (procs ready_pt q) = RUNNABLE \<longleftrightarrow> q = 0" for q
    using e(2) [of q] by (simp add: pstate_def fun_eq_iff)
  show "p_state (procs ready_pt 0) = RUNNABLE" by (simp only: p)
  show "{q. q < NPROC \<and> p_state (procs ready_pt q) = RUNNABLE} = {0}" unfolding p by auto
qed

lemma ready_pt_reach: "sched_reach ready_pt (\<lambda>_. PSched [])"
proof (rule sched_reach.step [OF embryo_reach])
  show "sched_step embryo_pt (\<lambda>_. PSched []) ready_pt (\<lambda>_. PSched [])"
    by (rule sched_step.ready [of 0 _ _ 0, OF _ _ _ _ _ _ _ ready_pt_eq(1)])
       (simp_all add: embryo_pt_def boot_pt_def pstate_def)
qed

lemma boosted_pt_eq: "priority_boost (ready_pt\<lparr>cur := 0\<rparr>) = Ret () boosted_pt"
proof -
  have inv: "sched_inv_all ready_pt (\<lambda>_. PSched [])" by (rule sched_reach_inv [OF ready_pt_reach])
  have n: "0 < ncpu ready_pt" by (simp add: ready_pt_view)
  note I = sched_inv_allD [OF inv n]
  obtain Q where "ready_ok (ready_pt\<lparr>cur := 0\<rparr>) Q" using proc_invD(1) [OF I(4)] by blast
  then have "rqueues (ready_pt\<lparr>cur := 0\<rparr>) Q" unfolding ready_ok_def by blast
  from boost_inv [OF I(1,2) _ this] all_idle_free [OF inv, of PtableLock]
  show ?thesis unfolding boosted_pt_def by (auto simp: ready_pt_view)
qed

lemma boosted_pt_reach: "sched_reach boosted_pt (\<lambda>_. PSched [])"
  by (rule sched_reach.step [OF ready_pt_reach], rule sched_step.boost [OF _ _ boosted_pt_eq])
     (simp_all add: ready_pt_view)

lemma boosted_pt_view: "ncpu boosted_pt = 2"
proof -
  have inv: "sched_inv_all ready_pt (\<lambda>_. PSched [])" by (rule sched_reach_inv [OF ready_pt_reach])
  have n: "0 < ncpu ready_pt" by (simp add: ready_pt_view)
  note I = sched_inv_allD [OF inv n]
  obtain Q where "ready_ok (ready_pt\<lparr>cur := 0\<rparr>) Q" using proc_invD(1) [OF I(4)] by blast
  then have "rqueues (ready_pt\<lparr>cur := 0\<rparr>) Q" unfolding ready_ok_def by blast
  from boost_inv [OF I(1,2) _ this] boosted_pt_eq obtain u where
    u: "boosted_pt = released PtableLock u" "sched_frame (acquired PtableLock (ready_pt\<lparr>cur := 0\<rparr>)) u" by auto
  show ?thesis unfolding u(1) using sched_frameD(2) [OF u(2)] by (simp add: ready_pt_view)
qed

lemma chosen_pt_eq: "scheduler_round 1 (boosted_pt\<lparr>cur := 1\<rparr>) = Ret (Some 0) chosen_pt" "ncpu chosen_pt = 2"
proof -
  let ?s = "boosted_pt\<lparr>cur := 1\<rparr>"
  have inv0: "sched_inv_all ready_pt (\<lambda>_. PSched [])" by (rule sched_reach_inv [OF ready_pt_reach])
  have inv: "sched_inv_all boosted_pt (\<lambda>_. PSched [])" by (rule sched_reach_inv [OF boosted_pt_reach])
  have n: "1 < ncpu boosted_pt" by (simp add: boosted_pt_view)
  note I = sched_inv_allD [OF inv n]
  obtain Q where Q: "ready_ok ready_pt Q"
    using proc_invD(1) [OF sched_inv_all_proc [OF inv0]] by blast
  have B: "ready_ok ?s (boosted Q)"
    using boost_ready [OF inv0 _ _ boosted_pt_eq Q] by (simp add: ready_pt_view)
  have "0 \<in> set (boosted Q 0)" "length (boosted Q 0) = 1"
    using boosted_ready [OF Q] ready_pt_view by (simp_all add: pstate_def)
  then have b: "boosted Q 0 = [0]" by (auto simp: length_Suc_conv)
  have rq: "rqueues ?s (boosted Q)" using B unfolding ready_ok_def by blast
  have img: "\<forall>i < NPRIO. \<forall>p \<in> set (boosted Q i). p_kstack (procs ?s p) \<noteq> 0 \<and> p_pgdir (procs ?s p) \<noteq> 0"
    using queued_live(4) [OF I(4) B] by blast
  have "pick (boosted Q) [0..<NPRIO] = Some 0" using b by (simp add: upt_NPRIO)
  with scheduler_round_inv [OF I(1,2) _ _ rq img] all_idle_free [OF inv, of PtableLock]
  show "scheduler_round 1 ?s = Ret (Some 0) chosen_pt" "ncpu chosen_pt = 2"
    unfolding chosen_pt_def by (auto simp: boosted_pt_view proc_upd_def)
qed

lemma chosen_pt_step: "sched_step boosted_pt (\<lambda>_. PSched []) chosen_pt ((\<lambda>_. PSched [])(1 := PResume 0))"
  by (rule sched_step.pick [OF _ _ chosen_pt_eq(1)]) (simp_all add: boosted_pt_view)

lemma chosen_pt_reach: "sched_reach chosen_pt ((\<lambda>_. PSched [])(1 := PResume 0))"
  by (rule sched_reach.step [OF boosted_pt_reach chosen_pt_step])

text \<open>
  C6. No process starves: once \<open>priority_boost\<close> has run, a process that was ready is among the next
  \<open>k\<close> processes the schedulers of all the processors choose, \<open>k\<close> the number of ready processes at
  the boost (at most \<open>NPROC\<close>), whatever the other processors, the timer, sleeping, waking, exiting
  and new processes do in between.
\<close>

theorem no_starvation:
  assumes "sched_reach s ph" and "c < ncpu s" and "PtableLock \<notin> set (locks_of (ph c))"
    and "priority_boost (s\<lparr>cur := c\<rparr>) = Ret () t" and "sched_run t ph ps u ph'"
    and "p < NPROC" and "p_state (procs s p) = RUNNABLE"
    and "card {q. q < NPROC \<and> p_state (procs s q) = RUNNABLE} \<le> length ps"
  shows "p \<in> set (take (card {q. q < NPROC \<and> p_state (procs s q) = RUNNABLE}) ps)"
proof -
  have inv: "sched_inv_all s ph" by (rule sched_reach_inv [OF assms(1)])
  have "sched_step s ph t ph" by (rule sched_step.boost [of c]) (use assms in simp_all)
  then have inv': "sched_inv_all t ph" using inv by (rule sched_step_inv)
  obtain Q where Q: "ready_ok s Q" using proc_invD(1) [OF sched_inv_all_proc [OF inv]] by blast
  let ?L = "boosted Q 0"
  have L: "p \<in> set ?L" "length ?L = card {q. q < NPROC \<and> p_state (procs s q) = RUNNABLE}"
    using boosted_ready [OF Q] assms(6,7) by (simp_all add: pstate_def)
  have "served ?L ps u"
    by (rule sched_run_served [OF assms(5) inv' boost_ready [OF inv assms(2-4) Q]]) simp
  then have "prefix ?L ps" by (rule served_long) (use L assms(8) in simp)
  then have "take (length ?L) ps = ?L" by (auto simp: prefix_def)
  with L show ?thesis by simp
qed

theorem no_starvation_witness: "(0::nat) \<in> set (take (card {q. q < NPROC \<and> p_state (procs ready_pt q) = RUNNABLE}) [0])"
proof -
  let ?ph = "\<lambda>_. PSched []"
  have r: "sched_run boosted_pt ?ph ([] @ [0]) chosen_pt (?ph(1 := PResume 0))"
    by (rule sched_run.chose [OF sched_run.start chosen_pt_step, of 1]) (simp add: picks_def)
  show ?thesis
    by (rule no_starvation [of ready_pt ?ph 0 boosted_pt "[0]" chosen_pt "?ph(1 := PResume 0)" 0])
       (use ready_pt_reach boosted_pt_eq r in \<open>simp_all add: ready_pt_view\<close>)
qed

section \<open>The safety properties on a machine with a process\<close>

text \<open>
  In \<open>chosen_pt\<close> processor 1 has just switched to process 0 and holds \<open>ptable.lock\<close>, processor 0 is in its
  scheduler; in \<open>ready_pt\<close> process 0 waits in a queue.
\<close>

theorem scheduler_never_panics_witness:
  "safe_out (scheduler_round 0 (chosen_pt\<lparr>cur := 0\<rparr>)) \<and>
   (case p_context (procs chosen_pt 0) of
      CtxForkret \<Rightarrow> safe_out (forkret (Ret ()) (chosen_pt\<lparr>cur := 1\<rparr>))
    | CtxYield b \<Rightarrow> safe_out (yield_in b (chosen_pt\<lparr>cur := 1\<rparr>))
    | CtxSleep lk b \<Rightarrow> safe_out (sleep_wake 0 lk b (chosen_pt\<lparr>cur := 1\<rparr>))
    | _ \<Rightarrow> False)"
  using scheduler_never_panics [OF chosen_pt_reach, of 0] scheduler_never_panics [OF chosen_pt_reach, of 1]
  by (simp add: chosen_pt_eq(2))

theorem ready_queues_consistent_witness:
  "\<exists>Q i. i < NPRIO \<and> chain (\<lambda>q. p_next_proc (procs ready_pt q)) (queue_first ready_pt i) (Q i) \<and>
     distinct (Q i) \<and> 0 \<in> set (Q i) \<and> 1 \<notin> set (Q i) \<and> queue_last ready_pt i = Some (last (Q i))"
proof -
  from ready_queues_consistent [OF ready_pt_reach] obtain Q where
    c: "\<And>i. i < NPRIO \<Longrightarrow> chain (\<lambda>q. p_next_proc (procs ready_pt q)) (queue_first ready_pt i) (Q i) \<and> distinct (Q i) \<and>
      queue_last ready_pt i = (if Q i = [] then None else Some (last (Q i)))"
    and m: "\<And>p. p < NPROC \<Longrightarrow> p_priority (procs ready_pt p) < NPRIO \<and>
      (\<forall>i < NPRIO. p \<in> set (Q i) \<longleftrightarrow> p_state (procs ready_pt p) = RUNNABLE \<and> p_priority (procs ready_pt p) = i)" by blast
  let ?i = "p_priority (procs ready_pt 0)"
  have i: "?i < NPRIO" "0 \<in> set (Q ?i)" using m [of 0] ready_pt_view(2) by simp_all
  have "(1 :: nat) \<notin> {q. q < NPROC \<and> p_state (procs ready_pt q) = RUNNABLE}" unfolding ready_pt_view(3) by simp
  then have "1 \<notin> set (Q ?i)" using m [of 1] i(1) by simp
  with i c [OF i(1)] show ?thesis by (metis empty_iff list.set(1))
qed

theorem one_processor_per_process_witness:
  "p_state (procs chosen_pt 0) = RUNNING \<and> c_proc (cpus chosen_pt 1) = Some 0 \<and> c_proc (cpus chosen_pt 0) = None \<and>
   p_state (procs chosen_pt 5) \<noteq> RUNNING"
proof -
  let ?ph = "(\<lambda>_. PSched [])(1 := PResume 0)"
  have "\<exists>!c. c < ncpu chosen_pt \<and> running (?ph c) = Some 0" by (rule ex1I [of _ 1]) (auto simp: chosen_pt_eq(2) split: if_splits)
  moreover have "\<not> (\<exists>!c. c < ncpu chosen_pt \<and> running (?ph c) = Some 5)" by auto
  ultimately show ?thesis
    using one_processor_per_process [OF chosen_pt_reach, of 0] one_processor_per_process [OF chosen_pt_reach, of 5]
    by (simp add: chosen_pt_eq(2))
qed

theorem lock_discipline_witness:
  "c_ncli (cpus chosen_pt 1) = 1 \<and> \<not> c_if (cpus chosen_pt 1) \<and> l_locked (locks chosen_pt PtableLock) \<and>
   l_cpu (locks chosen_pt PtableLock) = Some 1 \<and> c_ncli (cpus chosen_pt 0) = 0"
  using lock_discipline [OF chosen_pt_reach, of 1] lock_discipline [OF chosen_pt_reach, of 0]
  by (auto simp: chosen_pt_eq(2))

end
