(* ===== verification/Lock_Seq.thy ===== *)
theory Lock_Seq
  imports Sched_Inv
begin

text \<open>
  Reasoning about kernel code that one processor runs while no other processor holds a lock.  In
  such a state every \<open>acquire\<close> of a lock that the code does not hold succeeds, so the file-system
  code above the locks can be specified by what it returns.  \<open>lk L s\<close> says that the running
  processor holds exactly the locks \<open>L\<close>; \<open>kcore s t\<close> that \<open>t\<close> differs from \<open>s\<close> only in lock
  state, in process states and in what later components add to the record.
\<close>

definition lk :: "lockid list \<Rightarrow> 'a mach_scheme \<Rightarrow> bool" where
  "lk L s \<longleftrightarrow> mach_inv s ((\<lambda>_. [])(cur s := L)) \<and> cur s < ncpu s"

definition curp :: "'a mach_scheme \<Rightarrow> nat option" where
  "curp s = c_proc (cpus s (cur s))"

definition cpage :: "'a mach_scheme \<Rightarrow> uint" where
  "cpage s = c_cr3 (cpus s (cur s))"

definition kcore :: "'a pt_scheme \<Rightarrow> 'a pt_scheme \<Rightarrow> bool" where
  "kcore s t \<longleftrightarrow> k_mem t = k_mem s \<and> curp t = curp s \<and> cur t = cur s \<and>
     cpage t = cpage s \<and> (\<forall>q. pcore (procs t q) = pcore (procs s q))"

lemma kcore_refl [simp]: "kcore s s"
  by (simp add: kcore_def)

lemma kcore_trans [trans]: "kcore s t \<Longrightarrow> kcore t u \<Longrightarrow> kcore s u"
  by (simp add: kcore_def)

lemma kcoreD:
  assumes "kcore s t"
  shows "k_mem t = k_mem s" "curp t = curp s" "cur t = cur s" "p_pid (procs t q) = p_pid (procs s q)"
    "p_killed (procs t q) = p_killed (procs s q)" "p_cwd (procs t q) = p_cwd (procs s q)"
    "p_ofile (procs t q) = p_ofile (procs s q)" "cpage t = cpage s"
  using assms pcore_eqD [of "procs t q" "procs s q"] by (simp_all add: kcore_def)

lemma lk_free: "lk L s \<Longrightarrow> l \<notin> set L \<Longrightarrow> \<not> l_locked (locks s l)"
  by (auto simp: lk_def mach_inv_def split: if_splits)

lemma lk_acquire:
  assumes "lk L s" and "l \<notin> set L"
  shows "\<exists>t. acquire l s = Ret () t \<and> lk (l # L) t \<and> kcore s t \<and> pt.more t = pt.more s"
proof -
  let ?H = "(\<lambda>_. [])(cur s := L)"
  have i: "mach_inv s ?H" "cur s < ncpu s" using assms(1) by (simp_all add: lk_def)
  note f = lk_free [OF assms]
  have "acquire l s = Ret () (acquired l s)" using acquire_inv [OF i, of l] assms(2) f by simp
  moreover have "lk (l # L) (acquired l s)"
    using mach_inv_acquired [OF i f] i(2) by (simp add: lk_def)
  ultimately show ?thesis by (simp add: kcore_def curp_def cpage_def acquired_def mach_upd_defs push_cpu_def)
qed

lemma lk_release:
  assumes "lk L s" and "l \<in> set L"
  shows "\<exists>t. release l s = Ret () t \<and> lk (remove1 l L) t \<and> kcore s t \<and> pt.more t = pt.more s"
proof -
  let ?H = "(\<lambda>_. [])(cur s := L)"
  have i: "mach_inv s ?H" "cur s < ncpu s" using assms(1) by (simp_all add: lk_def)
  have l: "l \<in> set (?H (cur s))" using assms(2) by simp
  have "release l s = Ret () (released l s)" by (rule release_inv [OF i l])
  moreover have "lk (remove1 l L) (released l s)"
    using mach_inv_released [OF i l] i(2) unfolding lk_def fun_upd_upd fun_upd_same by simp
  ultimately show ?thesis by (simp add: kcore_def curp_def cpage_def released_def mach_upd_defs pop_cpu_def)
qed

lemma lk_myproc:
  assumes "lk L s"
  shows "\<exists>t. myproc s = Ret (curp s) t \<and> lk L t \<and> kcore s t \<and> pt.more t = pt.more s"
proof -
  have i: "mach_inv s ((\<lambda>_. [])(cur s := L))" "cur s < ncpu s" using assms by (simp_all add: lk_def)
  from myproc_inv(1,2) [OF i] i(2) show ?thesis
    by (simp add: lk_def kcore_def curp_def cpage_def cpu_upd_def norm_cpu_def)
qed

lemma lk_wakeup:
  assumes "lk L s" and "PtableLock \<notin> set L"
  shows "\<exists>t. wakeup ch s = Ret () t \<and> lk L t \<and> kcore s t \<and> pt.more t = pt.more s"
proof -
  from lk_acquire [OF assms] obtain u where
    u: "acquire PtableLock s = Ret () u" "lk (PtableLock # L) u" "kcore s u" "pt.more u = pt.more s" by blast
  let ?v = "wakeup1 (Some ch) u"
  note fr = sched_frameD [OF sched_frame_wakeup1 [of u "Some ch"]]
  have "lk (PtableLock # L) ?v"
    using u(2) mach_inv_cong [of u _ ?v] fr(1-4) by (simp add: lk_def)
  from lk_release [OF this, of PtableLock] obtain t where
    "release PtableLock ?v = Ret () t" "lk L t" "kcore ?v t" "pt.more t = pt.more ?v" by auto
  moreover have "kcore u ?v" using fr by (simp add: kcore_def curp_def cpage_def)
  ultimately have "kcore s t" "wakeup ch s = Ret () t" "pt.more t = pt.more s"
    using kcore_trans [OF u(3) kcore_trans [of u ?v t]] u(1,4) fr(15) by (simp_all add: wakeup_def)
  with \<open>lk L t\<close> show ?thesis by blast
qed

end
