(* ===== verification/Sleeplock.thy ===== *)
theory Sleeplock
  imports Lock_Seq
begin

text \<open>
  Sleep locks: \<^verbatim>\<open>kernel/sleeplock.c\<close> and \<^verbatim>\<open>kernel/sleeplock.h\<close>.  The spin lock that protects
  sleep lock \<open>k\<close> is \<open>SlkLock k\<close>, the channel its waiters sleep on \<open>ChanSlk k\<close>.  A call that finds
  the lock taken calls \<open>sleep\<close> with the spin lock held: the outcome is \<open>Sleeps\<close>, and the code
  continues with \<open>acquiresleep_loop\<close> when it is awakened.
\<close>

record sleeplock =
  sl_locked :: bool
  sl_pid :: int

record slk = pt +
  slks :: "slkid \<Rightarrow> sleeplock"

definition slk_upd :: "slkid \<Rightarrow> (sleeplock \<Rightarrow> sleeplock) \<Rightarrow> 'a slk_scheme \<Rightarrow> 'a slk_scheme" where
  "slk_upd k f s = s\<lparr>slks := (slks s)(k := f (slks s k))\<rparr>"

definition initsleeplock :: "slkid \<Rightarrow> 'a slk_scheme \<Rightarrow> 'a slk_scheme" where
  "initsleeplock k s = slk_upd k (\<lambda>x. x\<lparr>sl_locked := False, sl_pid := 0\<rparr>) (initlock (SlkLock k) s)"

text \<open>The process identifier of the running process: \<open>myproc()->pid\<close>.\<close>

definition mypid :: "'a pt_scheme \<Rightarrow> (int, 'a pt_scheme) kres" where
  "mypid s = bindK (myproc s) (\<lambda>po s. case po of None \<Rightarrow> Fault | Some p \<Rightarrow> Ret (p_pid (procs s p)) s)"

definition acquiresleep_loop :: "slkid \<Rightarrow> 'a slk_scheme \<Rightarrow> (unit, 'a slk_scheme) kres" where
  "acquiresleep_loop k s =
     (if sl_locked (slks s k) then Sleeps (ChanSlk k) (SlkLock k) s
      else
        let s = slk_upd k (\<lambda>x. x\<lparr>sl_locked := True\<rparr>) s in
        bindK (mypid s) (\<lambda>pid s.
        release (SlkLock k) (slk_upd k (\<lambda>x. x\<lparr>sl_pid := pid\<rparr>) s)))"

definition acquiresleep :: "slkid \<Rightarrow> 'a slk_scheme \<Rightarrow> (unit, 'a slk_scheme) kres" where
  "acquiresleep k s = bindK (acquire (SlkLock k) s) (\<lambda>_ s. acquiresleep_loop k s)"

definition releasesleep :: "slkid \<Rightarrow> 'a slk_scheme \<Rightarrow> (unit, 'a slk_scheme) kres" where
  "releasesleep k s =
     bindK (acquire (SlkLock k) s) (\<lambda>_ s.
     let s = slk_upd k (\<lambda>x. x\<lparr>sl_locked := False, sl_pid := 0\<rparr>) s in
     bindK (wakeup (ChanSlk k) s) (\<lambda>_ s.
     release (SlkLock k) s))"

definition holdingsleep :: "slkid \<Rightarrow> 'a slk_scheme \<Rightarrow> (bool, 'a slk_scheme) kres" where
  "holdingsleep k s =
     bindK (acquire (SlkLock k) s) (\<lambda>_ s.
     bindK (if sl_locked (slks s k)
            then bindK (mypid s) (\<lambda>pid s. Ret (sl_pid (slks s k) = pid) s)
            else Ret False s) (\<lambda>r s.
     bindK (release (SlkLock k) s) (\<lambda>_ s. Ret r s)))"

section \<open>Specifications\<close>

lemma sel_slk_upd [simp]:
  "lk L (slk_upd k f s) = lk L s" "kcore s (slk_upd k f s)" "curp (slk_upd k f s) = curp s"
  "slks (slk_upd k f s) = (slks s)(k := f (slks s k))" "slk.more (slk_upd k f s) = slk.more s"
  "procs (slk_upd k f s) = procs s" "k_mem (slk_upd k f s) = k_mem s" "cur (slk_upd k f s) = cur s"
  "locks (slk_upd k f s) = locks s" "cpus (slk_upd k f s) = cpus s" "ncpu (slk_upd k f s) = ncpu s"
  "cpage (slk_upd k f s) = cpage s"
  by (simp_all add: slk_upd_def kcore_def lk_def mach_inv_def curp_def cpage_def)

lemma slk_more:
  assumes "pt.more t = pt.more s"
  shows "slks t = slks s" "slk.more t = slk.more s"
  using assms by (cases s, cases t, simp)+

lemma lk_mypid:
  assumes "lk L s" and "curp s = Some p"
  shows "\<exists>t. mypid s = Ret (p_pid (procs s p)) t \<and> lk L t \<and> kcore s t \<and> pt.more t = pt.more s"
proof -
  from lk_myproc [OF assms(1)] obtain t where
    t: "myproc s = Ret (Some p) t" "lk L t" "kcore s t" "pt.more t = pt.more s" using assms(2) by auto
  then show ?thesis by (simp add: mypid_def kcoreD(4))
qed

lemma lk_acquiresleep:
  assumes "lk L s" and "SlkLock k \<notin> set L" and "curp s = Some p" and free: "\<not> sl_locked (slks s k)"
  shows "\<exists>t. acquiresleep k s = Ret () t \<and> lk L t \<and> kcore s t \<and> slk.more t = slk.more s \<and>
    slks t = (slks s)(k := \<lparr>sl_locked = True, sl_pid = p_pid (procs s p)\<rparr>)"
proof -
  from lk_acquire [OF assms(1,2)] obtain u where
    u: "acquire (SlkLock k) s = Ret () u" "lk (SlkLock k # L) u" "kcore s u" "pt.more u = pt.more s" by blast
  let ?u = "slk_upd k (\<lambda>x. x\<lparr>sl_locked := True\<rparr>) u"
  have "lk (SlkLock k # L) ?u" "curp ?u = Some p" using u(2) kcoreD(2) [OF u(3)] assms(3) by simp_all
  from lk_mypid [OF this] obtain v where
    v: "mypid ?u = Ret (p_pid (procs ?u p)) v" "lk (SlkLock k # L) v" "kcore ?u v" "pt.more v = pt.more ?u" by blast
  let ?v = "slk_upd k (\<lambda>x. x\<lparr>sl_pid := p_pid (procs ?u p)\<rparr>) v"
  from lk_release [of "SlkLock k # L" ?v "SlkLock k"] v(2) obtain t where
    t: "release (SlkLock k) ?v = Ret () t" "lk L t" "kcore ?v t" "pt.more t = pt.more ?v" by auto
  have "kcore s t"
    by (rule kcore_trans [OF u(3) kcore_trans [OF sel_slk_upd(2) kcore_trans [OF v(3) kcore_trans [OF sel_slk_upd(2) t(3)]]]])
  moreover have "slks t = (slks s)(k := \<lparr>sl_locked = True, sl_pid = p_pid (procs s p)\<rparr>)"
    using slk_more(1) [OF t(4)] slk_more(1) [OF v(4)] slk_more(1) [OF u(4)] kcoreD(4) [OF u(3)]
    by (cases "slks s k") simp
  moreover have "slk.more t = slk.more s"
    using slk_more(2) [OF t(4)] slk_more(2) [OF v(4)] slk_more(2) [OF u(4)] by simp
  ultimately show ?thesis
    using u(1) v(1) t(1,2) slk_more(1) [OF u(4)] free
    by (simp add: acquiresleep_def acquiresleep_loop_def Let_def)
qed

lemma lk_releasesleep:
  assumes "lk L s" and "SlkLock k \<notin> set L" and "PtableLock \<notin> set L"
  shows "\<exists>t. releasesleep k s = Ret () t \<and> lk L t \<and> kcore s t \<and> slk.more t = slk.more s \<and>
    slks t = (slks s)(k := \<lparr>sl_locked = False, sl_pid = 0\<rparr>)"
proof -
  from lk_acquire [OF assms(1,2)] obtain u where
    u: "acquire (SlkLock k) s = Ret () u" "lk (SlkLock k # L) u" "kcore s u" "pt.more u = pt.more s" by blast
  let ?u = "slk_upd k (\<lambda>x. x\<lparr>sl_locked := False, sl_pid := 0\<rparr>) u"
  from lk_wakeup [of "SlkLock k # L" ?u "ChanSlk k"] u(2) assms(3) obtain v where
    v: "wakeup (ChanSlk k) ?u = Ret () v" "lk (SlkLock k # L) v" "kcore ?u v" "pt.more v = pt.more ?u" by auto
  from lk_release [OF v(2), of "SlkLock k"] obtain t where
    t: "release (SlkLock k) v = Ret () t" "lk L t" "kcore v t" "pt.more t = pt.more v" by auto
  have "kcore s t" by (rule kcore_trans [OF u(3) kcore_trans [OF sel_slk_upd(2) kcore_trans [OF v(3) t(3)]]])
  moreover have "slks t = (slks s)(k := \<lparr>sl_locked = False, sl_pid = 0\<rparr>)"
    using slk_more(1) [OF t(4)] slk_more(1) [OF v(4)] slk_more(1) [OF u(4)] by (cases "slks s k") simp
  moreover have "slk.more t = slk.more s"
    using slk_more(2) [OF t(4)] slk_more(2) [OF v(4)] slk_more(2) [OF u(4)] by simp
  ultimately show ?thesis using u(1) v(1) t(1,2) by (simp add: releasesleep_def Let_def)
qed

lemma lk_holdingsleep:
  assumes "lk L s" and "SlkLock k \<notin> set L" and "curp s = Some p"
  shows "\<exists>t. holdingsleep k s = Ret (sl_locked (slks s k) \<and> sl_pid (slks s k) = p_pid (procs s p)) t \<and>
    lk L t \<and> kcore s t \<and> pt.more t = pt.more s"
proof -
  from lk_acquire [OF assms(1,2)] obtain u where
    u: "acquire (SlkLock k) s = Ret () u" "lk (SlkLock k # L) u" "kcore s u" "pt.more u = pt.more s" by blast
  let ?r = "sl_locked (slks s k) \<and> sl_pid (slks s k) = p_pid (procs s p)"
  have "\<exists>v. (if sl_locked (slks u k) then bindK (mypid u) (\<lambda>pid s. Ret (sl_pid (slks s k) = pid) s)
            else Ret False u) = Ret ?r v \<and> lk (SlkLock k # L) v \<and> kcore u v \<and> pt.more v = pt.more u"
  proof (cases "sl_locked (slks s k)")
    case True
    from lk_mypid [OF u(2), of p] kcoreD(2) [OF u(3)] assms(3) obtain v where
      v: "mypid u = Ret (p_pid (procs u p)) v" "lk (SlkLock k # L) v" "kcore u v" "pt.more v = pt.more u" by auto
    have "slks v = slks s" using slk_more(1) [OF v(4)] slk_more(1) [OF u(4)] by simp
    with v True slk_more(1) [OF u(4)] kcoreD(4) [OF u(3), of p] show ?thesis by simp
  qed (use u slk_more(1) [OF u(4)] in simp)
  then obtain v where v: "(if sl_locked (slks u k) then bindK (mypid u) (\<lambda>pid s. Ret (sl_pid (slks s k) = pid) s)
            else Ret False u) = Ret ?r v" "lk (SlkLock k # L) v" "kcore u v" "pt.more v = pt.more u" by blast
  from lk_release [OF v(2), of "SlkLock k"] obtain t where
    t: "release (SlkLock k) v = Ret () t" "lk L t" "kcore v t" "pt.more t = pt.more v" by auto
  have "kcore s t" by (rule kcore_trans [OF u(3) kcore_trans [OF v(3) t(3)]])
  then show ?thesis using u(1,4) v(1,4) t by (simp add: holdingsleep_def)
qed

end
