(* ===== verification/Ring.thy ===== *)
theory Ring
  imports Main
begin

text \<open>
  Circular doubly linked lists with a sentinel, as the buffer cache keeps them: what the pointer
  functions \<open>nx\<close> and \<open>pv\<close> represent, and what unlinking a node, inserting one after the sentinel
  and searching in either direction do to the represented list.
\<close>

fun linked :: "('n \<Rightarrow> 'n) \<Rightarrow> ('n \<Rightarrow> 'n) \<Rightarrow> 'n list \<Rightarrow> bool" where
  "linked nx pv (a # b # xs) \<longleftrightarrow> nx a = b \<and> pv b = a \<and> linked nx pv (b # xs)"
| "linked nx pv xs \<longleftrightarrow> True"

definition ring :: "('n \<Rightarrow> 'n) \<Rightarrow> ('n \<Rightarrow> 'n) \<Rightarrow> 'n \<Rightarrow> 'n list \<Rightarrow> bool" where
  "ring nx pv h xs \<longleftrightarrow> distinct (h # xs) \<and> linked nx pv (h # xs @ [h])"

lemma linked_append:
  "linked nx pv (xs @ y # ys) \<longleftrightarrow> linked nx pv (xs @ [y]) \<and> linked nx pv (y # ys)"
  by (induction xs rule: induct_list012) auto

lemma linked_cong:
  assumes "\<And>a. a \<in> set (butlast xs) \<Longrightarrow> nx' a = nx a" and "\<And>b. b \<in> set (tl xs) \<Longrightarrow> pv' b = pv b"
  shows "linked nx' pv' xs = linked nx pv xs"
  using assms
proof (induction xs rule: induct_list012)
  case (3 a b xs)
  have "linked nx' pv' (b # xs) = linked nx pv (b # xs)" using 3 by (cases xs) auto
  with 3(3,4) show ?case by simp
qed simp_all

lemma linked_rev: "linked pv nx (rev xs) = linked nx pv xs"
proof (induction xs rule: induct_list012)
  case (3 a b xs)
  have "linked pv nx (rev (a # b # xs)) \<longleftrightarrow> linked pv nx (rev xs @ b # [a])" by simp
  also have "\<dots> \<longleftrightarrow> linked pv nx (rev xs @ [b]) \<and> linked pv nx [b, a]" by (rule linked_append)
  finally show ?case using 3 by auto
qed simp_all

lemma ring_rev: "ring pv nx h (rev xs) = ring nx pv h xs"
  using linked_rev [of pv nx "h # xs @ [h]"] by (simp add: ring_def)

text \<open>The neighbours of a node.\<close>

lemma ring_split:
  assumes "ring nx pv h (ys @ b # zs)"
  shows "nx b = hd (zs @ [h])" "pv b = last (h # ys)" "nx (last (h # ys)) = b" "pv (hd (zs @ [h])) = b"
    "linked nx pv (h # ys)" "linked nx pv (zs @ [h])"
proof -
  obtain as p where p: "h # ys = as @ [p]" by (metis append_butlast_last_id list.distinct(1))
  obtain n bs where n: "zs @ [h] = n # bs" by (cases "zs @ [h]") auto
  have "h # (ys @ b # zs) @ [h] = (as @ [p]) @ b # n # bs" using p n by simp
  with assms have "linked nx pv ((as @ [p]) @ b # n # bs)" by (simp add: ring_def)
  then have l: "linked nx pv ((as @ [p]) @ [b])" "linked nx pv (b # n # bs)"
    using linked_append [of nx pv "as @ [p]" b "n # bs"] by simp_all
  from l(1) have m: "linked nx pv (as @ p # [b])" by simp
  then have "linked nx pv (as @ [p])" "nx p = b \<and> pv b = p"
    using linked_append [of nx pv as p "[b]"] by auto
  with l(2) p n show "nx b = hd (zs @ [h])" "pv b = last (h # ys)" "nx (last (h # ys)) = b"
    "pv (hd (zs @ [h])) = b" "linked nx pv (h # ys)" "linked nx pv (zs @ [h])" by simp_all
qed

lemma ring_remove:
  assumes r: "ring nx pv h (ys @ b # zs)"
  shows "ring (nx(pv b := nx b)) (pv(nx b := pv b)) h (ys @ zs)"
proof -
  note S = ring_split [OF r]
  obtain as p where p: "h # ys = as @ [p]" by (metis append_butlast_last_id list.distinct(1))
  obtain n bs where n: "zs @ [h] = n # bs" by (cases "zs @ [h]") auto
  have d: "distinct (h # ys @ b # zs)" using r by (simp add: ring_def)
  have e: "nx b = n" "pv b = p" using S(1,2) p n by simp_all
  let ?nx = "nx(p := n)" and ?pv = "pv(n := p)"
  have sn: "set (n # bs) = insert h (set zs)" "distinct (n # bs)" unfolding n [symmetric] using d by auto
  have sp: "set (as @ [p]) = insert h (set ys)" "distinct (as @ [p])" unfolding p [symmetric] using d by auto
  have nz: "n \<in> insert h (set zs)" using sn(1) by auto
  have py: "p \<in> insert h (set ys)" using sp(1) by auto
  have "linked ?nx ?pv (as @ [p]) = linked nx pv (as @ [p])"
  proof (intro linked_cong)
    fix x assume "x \<in> set (tl (as @ [p]))"
    then have "x \<in> set ys" using p by (metis list.sel(3))
    with nz d show "?pv x = pv x" by auto
  qed (use sp in auto)
  moreover have "linked ?nx ?pv (n # bs) = linked nx pv (n # bs)"
  proof (rule linked_cong)
    fix x assume "x \<in> set (butlast (n # bs))"
    then have "x \<in> set zs" using n by (metis butlast_snoc)
    with py d show "?nx x = nx x" by auto
  next
    fix x assume "x \<in> set (tl (n # bs))"
    then show "?pv x = pv x" using sn(2) by auto
  qed
  ultimately have "linked ?nx ?pv (as @ [p])" "linked ?nx ?pv (p # n # bs)"
    using S(5,6) p n by simp_all
  then have "linked ?nx ?pv (as @ p # n # bs)" using linked_append [of ?nx ?pv as p "n # bs"] by simp
  moreover have "h # (ys @ zs) @ [h] = as @ p # n # bs" using p n by simp
  ultimately show ?thesis using d e by (auto simp: ring_def)
qed

lemma ring_insert:
  assumes r: "ring nx pv h xs" and b: "b \<notin> set xs" "b \<noteq> h"
  shows "ring (nx(b := nx h, h := b)) (pv(b := h, nx h := b)) h (b # xs)"
proof -
  obtain n bs where n: "xs @ [h] = n # bs" by (cases "xs @ [h]") auto
  have d: "distinct (h # xs)" and l: "linked nx pv (h # n # bs)" using r n by (simp_all add: ring_def)
  have sn: "set (n # bs) = insert h (set xs)" "distinct (n # bs)" unfolding n [symmetric] using d by auto
  then have nb: "n \<noteq> b" using b by auto
  have "linked (nx(b := n, h := b)) (pv(b := h, n := b)) (n # bs) = linked nx pv (n # bs)"
  proof (rule linked_cong)
    fix x assume "x \<in> set (butlast (n # bs))"
    then have "x \<in> set xs" using n by (metis butlast_snoc)
    with b d show "(nx(b := n, h := b)) x = nx x" by auto
  next
    fix x assume "x \<in> set (tl (n # bs))"
    then have "x \<noteq> n" "x \<in> insert h (set xs)" using sn by auto
    with b show "(pv(b := h, n := b)) x = pv x" by auto
  qed
  with l nb b d n show ?thesis by (auto simp: ring_def)
qed

text \<open>
  A search along the list from node \<open>b\<close>, up to the sentinel: \<open>None\<close> when it never ends.
\<close>

partial_function (option) scan :: "('n \<Rightarrow> 'n) \<Rightarrow> 'n \<Rightarrow> ('n \<Rightarrow> bool) \<Rightarrow> 'n \<Rightarrow> 'n option option" where
  "scan nx h P b = (if b = h then Some None else if P b then Some (Some b) else scan nx h P (nx b))"

lemma scan_linked: "linked nx pv (xs @ [h]) \<Longrightarrow> h \<notin> set xs \<Longrightarrow> scan nx h P (hd (xs @ [h])) = Some (find P xs)"
proof (induction xs)
  case Nil
  show ?case by (subst scan.simps) simp
next
  case (Cons x xs)
  have "nx x = hd (xs @ [h])" "linked nx pv (xs @ [h])" using Cons.prems(1) by (cases xs; simp)+
  with Cons show ?case by (subst scan.simps) auto
qed

lemma ring_scan:
  assumes "ring nx pv h xs"
  shows "scan nx h P (nx h) = Some (find P xs)" "scan pv h P (pv h) = Some (find P (rev xs))"
proof -
  have go: "scan f h P (f h) = Some (find P ys)" if "ring f g h ys" for f g ys
  proof -
    have "linked f g (ys @ [h])" "f h = hd (ys @ [h])" "h \<notin> set ys"
      using that by (cases ys; simp add: ring_def)+
    then show ?thesis using scan_linked by metis
  qed
  show "scan nx h P (nx h) = Some (find P xs)" by (rule go [OF assms])
  show "scan pv h P (pv h) = Some (find P (rev xs))" using go [of pv nx "rev xs"] assms by (simp add: ring_rev)
qed

lemma find_SomeD: "find P xs = Some x \<Longrightarrow> x \<in> set xs \<and> P x"
  by (induction xs) (auto split: if_splits)

end
