(* ===== verification/Bio.thy ===== *)
theory Bio
  imports Sleeplock Ring
begin

text \<open>
  The buffer cache, \<^verbatim>\<open>kernel/bio.c\<close> and \<^verbatim>\<open>kernel/buf.h\<close>, over the memory disk driver
  \<^verbatim>\<open>kernel/memide.c\<close>.  Buffers are named by their index in \<open>bcache.buf\<close>; index \<open>NBUF\<close> is
  \<open>bcache.head\<close>.  The two bits of \<open>flags\<close> are two booleans.  The disk image is a map from block
  numbers to blocks; \<open>disk_writes\<close> is an auxiliary variable that no code reads: the sequence of
  blocks written to the disk, in order.
\<close>

section \<open>State\<close>

abbreviation (input) BSIZE :: nat where "BSIZE \<equiv> 512"
abbreviation (input) bhead :: nat where "bhead \<equiv> NBUF"

type_synonym block = "uchar list"

record buf =
  b_valid :: bool
  b_dirty :: bool
  b_dev :: uint
  b_blockno :: uint
  b_refcnt :: uint
  b_prev :: nat
  b_next :: nat
  b_data :: block

record bc = slk +
  bufs :: "nat \<Rightarrow> buf"
  memdisk :: "uint \<Rightarrow> block"
  disksize :: int
  disk_writes :: "(uint \<times> block) list"

definition buf_upd :: "nat \<Rightarrow> (buf \<Rightarrow> buf) \<Rightarrow> 'a bc_scheme \<Rightarrow> 'a bc_scheme" where
  "buf_upd i f s = s\<lparr>bufs := (bufs s)(i := f (bufs s i))\<rparr>"

section \<open>The memory disk\<close>

text \<open>\<open>img\<close> and \<open>sz\<close> are the disk image linked into the kernel and its size in bytes.\<close>

definition ideinit :: "(uint \<Rightarrow> block) \<Rightarrow> uint \<Rightarrow> 'a bc_scheme \<Rightarrow> 'a bc_scheme" where
  "ideinit img sz s = s\<lparr>memdisk := img, disksize := sint (sz div 512)\<rparr>"

definition iderw :: "nat \<Rightarrow> 'a bc_scheme \<Rightarrow> (unit, 'a bc_scheme) kres" where
  "iderw i s =
     bindK (holdingsleep (BufSlk i) s) (\<lambda>h s.
     let b = bufs s i in
     if \<not> h then Panic ''iderw: buf not locked''
     else if b_valid b \<and> \<not> b_dirty b then Panic ''iderw: nothing to do''
     else if b_dev b \<noteq> 1 then Panic ''iderw: request not for disk 1''
     else if of_int (disksize s) \<le> b_blockno b then Panic ''iderw: block out of range''
     else
       let s = (if b_dirty b then
                  let s = buf_upd i (\<lambda>x. x\<lparr>b_dirty := False\<rparr>) s
                  in s\<lparr>memdisk := (memdisk s)(b_blockno b := b_data b),
                       disk_writes := disk_writes s @ [(b_blockno b, b_data b)]\<rparr>
                else buf_upd i (\<lambda>x. x\<lparr>b_data := memdisk s (b_blockno b)\<rparr>) s)
       in Ret () (buf_upd i (\<lambda>x. x\<lparr>b_valid := True\<rparr>) s))"

section \<open>The buffer cache\<close>

text \<open>Linking a buffer at the front of the list, as \<open>binit\<close> and \<open>brelse\<close> do.\<close>

definition link_front :: "nat \<Rightarrow> 'a bc_scheme \<Rightarrow> 'a bc_scheme" where
  "link_front b s =
     (let s = buf_upd b (\<lambda>x. x\<lparr>b_next := b_next (bufs s bhead)\<rparr>) s;
          s = buf_upd b (\<lambda>x. x\<lparr>b_prev := bhead\<rparr>) s;
          s = buf_upd (b_next (bufs s bhead)) (\<lambda>x. x\<lparr>b_prev := b\<rparr>) s
      in buf_upd bhead (\<lambda>x. x\<lparr>b_next := b\<rparr>) s)"

definition binit :: "'a bc_scheme \<Rightarrow> 'a bc_scheme" where
  "binit s =
     (let s = initlock BcacheLock s;
          s = buf_upd bhead (\<lambda>x. x\<lparr>b_prev := bhead\<rparr>) s;
          s = buf_upd bhead (\<lambda>x. x\<lparr>b_next := bhead\<rparr>) s
      in fold (\<lambda>b s. link_front b (initsleeplock (BufSlk b) s)) [0..<NBUF] s)"

definition bget :: "uint \<Rightarrow> uint \<Rightarrow> 'a bc_scheme \<Rightarrow> (nat, 'a bc_scheme) kres" where
  "bget dev blockno s =
     bindK (acquire BcacheLock s) (\<lambda>_ s.
     case scan (\<lambda>b. b_next (bufs s b)) bhead
            (\<lambda>b. b_dev (bufs s b) = dev \<and> b_blockno (bufs s b) = blockno) (b_next (bufs s bhead)) of
       None \<Rightarrow> Spin
     | Some (Some b) \<Rightarrow>
         let s = buf_upd b (\<lambda>x. x\<lparr>b_refcnt := b_refcnt x + 1\<rparr>) s in
         bindK (release BcacheLock s) (\<lambda>_ s.
         bindK (acquiresleep (BufSlk b) s) (\<lambda>_ s. Ret b s))
     | Some None \<Rightarrow>
         (case scan (\<lambda>b. b_prev (bufs s b)) bhead
                 (\<lambda>b. b_refcnt (bufs s b) = 0 \<and> \<not> b_dirty (bufs s b)) (b_prev (bufs s bhead)) of
            None \<Rightarrow> Spin
          | Some None \<Rightarrow> Panic ''bget: no buffers''
          | Some (Some b) \<Rightarrow>
              let s = buf_upd b (\<lambda>x. x\<lparr>b_dev := dev, b_blockno := blockno, b_valid := False,
                        b_dirty := False, b_refcnt := 1\<rparr>) s in
              bindK (release BcacheLock s) (\<lambda>_ s.
              bindK (acquiresleep (BufSlk b) s) (\<lambda>_ s. Ret b s))))"

definition bread :: "uint \<Rightarrow> uint \<Rightarrow> 'a bc_scheme \<Rightarrow> (nat, 'a bc_scheme) kres" where
  "bread dev blockno s =
     bindK (bget dev blockno s) (\<lambda>b s.
     if \<not> b_valid (bufs s b) then bindK (iderw b s) (\<lambda>_ s. Ret b s) else Ret b s)"

definition bwrite :: "nat \<Rightarrow> 'a bc_scheme \<Rightarrow> (unit, 'a bc_scheme) kres" where
  "bwrite b s =
     bindK (holdingsleep (BufSlk b) s) (\<lambda>h s.
     if \<not> h then Panic ''bwrite'' else iderw b (buf_upd b (\<lambda>x. x\<lparr>b_dirty := True\<rparr>) s))"

definition brelse :: "nat \<Rightarrow> 'a bc_scheme \<Rightarrow> (unit, 'a bc_scheme) kres" where
  "brelse b s =
     bindK (holdingsleep (BufSlk b) s) (\<lambda>h s.
     if \<not> h then Panic ''brelse''
     else
       bindK (releasesleep (BufSlk b) s) (\<lambda>_ s.
       bindK (acquire BcacheLock s) (\<lambda>_ s.
       let s = buf_upd b (\<lambda>x. x\<lparr>b_refcnt := b_refcnt x - 1\<rparr>) s;
           s = (if b_refcnt (bufs s b) = 0 then
                  let s = buf_upd (b_next (bufs s b)) (\<lambda>x. x\<lparr>b_prev := b_prev (bufs s b)\<rparr>) s;
                      s = buf_upd (b_prev (bufs s b)) (\<lambda>x. x\<lparr>b_next := b_next (bufs s b)\<rparr>) s
                  in link_front b s
                else s)
       in release BcacheLock s)))"

text \<open>What callers do with a locked buffer: assign its data, and pin it.\<close>

definition set_data :: "nat \<Rightarrow> block \<Rightarrow> 'a bc_scheme \<Rightarrow> 'a bc_scheme" where
  "set_data i d s = buf_upd i (\<lambda>x. x\<lparr>b_data := d\<rparr>) s"

definition set_dirty :: "nat \<Rightarrow> 'a bc_scheme \<Rightarrow> 'a bc_scheme" where
  "set_dirty i s = buf_upd i (\<lambda>x. x\<lparr>b_dirty := True\<rparr>) s"

end
