(* ===== verification/Bio_Inv.thy ===== *)
theory Bio_Inv
  imports Bio
begin

text \<open>
  What the buffer cache promises to the code above it, in a state where one process uses it: the
  invariant \<open>bok\<close>, the contents \<open>bview\<close> of a block as a reader sees it, the blocks \<open>bheld\<close> that are
  locked and the blocks \<open>bdirty\<close> that are pinned.  The promises are the assumptions of the locale
  \<open>block_cache\<close>, which the operations of \<open>Bio\<close> are shown to satisfy.
\<close>

section \<open>Frames\<close>

lemma sel_buf_upd [simp]:
  "lk L (buf_upd i f s) = lk L s" "kcore s (buf_upd i f s)" "curp (buf_upd i f s) = curp s"
  "bufs (buf_upd i f s) = (bufs s)(i := f (bufs s i))" "slks (buf_upd i f s) = slks s"
  "memdisk (buf_upd i f s) = memdisk s" "disksize (buf_upd i f s) = disksize s"
  "disk_writes (buf_upd i f s) = disk_writes s" "bc.more (buf_upd i f s) = bc.more s"
  "procs (buf_upd i f s) = procs s" "k_mem (buf_upd i f s) = k_mem s" "cpage (buf_upd i f s) = cpage s"
  by (simp_all add: buf_upd_def kcore_def lk_def mach_inv_def curp_def cpage_def)

lemma slk_more_bc:
  assumes "slk.more t = slk.more s"
  shows "bufs t = bufs s" "memdisk t = memdisk s" "disksize t = disksize s"
    "disk_writes t = disk_writes s" "bc.more t = bc.more s"
  using assms by (cases s, cases t, simp)+

text \<open>\<open>bsame s t\<close>: only the buffers, the sleep locks and the disk contents may differ.\<close>

definition bsame :: "'a bc_scheme \<Rightarrow> 'a bc_scheme \<Rightarrow> bool" where
  "bsame s t \<longleftrightarrow> kcore s t \<and> disksize t = disksize s \<and> bc.more t = bc.more s"

lemma bsame_refl [simp]: "bsame s s"
  by (simp add: bsame_def)

lemma bsame_trans [trans]: "bsame s t \<Longrightarrow> bsame t u \<Longrightarrow> bsame s u"
  using kcore_trans by (auto simp: bsame_def)

lemma bsame_buf_upd [simp]: "bsame s (buf_upd i f s)"
  by (simp add: bsame_def)

lemma bsame_more: "kcore s t \<Longrightarrow> pt.more t = pt.more s \<Longrightarrow> bsame s t"
  using slk_more(2) [of t s] slk_more_bc [of t s] by (simp add: bsame_def)

text \<open>Locking operations change none of the fields of the cache.\<close>

definition bfields :: "'a bc_scheme \<Rightarrow> 'a bc_scheme \<Rightarrow> bool" where
  "bfields s t \<longleftrightarrow> bsame s t \<and> bufs t = bufs s \<and> memdisk t = memdisk s \<and> disk_writes t = disk_writes s"

lemma bfields_more: "kcore s t \<Longrightarrow> pt.more t = pt.more s \<Longrightarrow> bfields s t \<and> slks t = slks s"
  using slk_more [of t s] slk_more_bc [of t s] bsame_more [of s t] by (simp add: bfields_def)

lemma bfields_slk: "kcore s t \<Longrightarrow> slk.more t = slk.more s \<Longrightarrow> bfields s t"
  using slk_more_bc [of t s] by (simp add: bfields_def bsame_def)

lemma bc_acquire:
  assumes "lk L s" and "l \<notin> set L"
  shows "\<exists>t. acquire l s = Ret () t \<and> lk (l # L) t \<and> bfields s t \<and> slks t = slks s"
  using lk_acquire [OF assms] bfields_more [of s] by blast

lemma bc_release:
  assumes "lk L s" and "l \<in> set L"
  shows "\<exists>t. release l s = Ret () t \<and> lk (remove1 l L) t \<and> bfields s t \<and> slks t = slks s"
  using lk_release [OF assms] bfields_more [of s] by blast

lemma bc_acquiresleep:
  assumes "lk L s" and "SlkLock k \<notin> set L" and "curp s = Some p" and "\<not> sl_locked (slks s k)"
  shows "\<exists>t. acquiresleep k s = Ret () t \<and> lk L t \<and> bfields s t \<and>
    slks t = (slks s)(k := \<lparr>sl_locked = True, sl_pid = p_pid (procs s p)\<rparr>)"
  using lk_acquiresleep [OF assms] bfields_slk [of s] by blast

lemma bc_releasesleep:
  assumes "lk L s" and "SlkLock k \<notin> set L" and "PtableLock \<notin> set L"
  shows "\<exists>t. releasesleep k s = Ret () t \<and> lk L t \<and> bfields s t \<and>
    slks t = (slks s)(k := \<lparr>sl_locked = False, sl_pid = 0\<rparr>)"
  using lk_releasesleep [OF assms] bfields_slk [of s] by blast

lemma bc_holdingsleep:
  assumes "lk L s" and "SlkLock k \<notin> set L" and "curp s = Some p"
  shows "\<exists>t. holdingsleep k s = Ret (sl_locked (slks s k) \<and> sl_pid (slks s k) = p_pid (procs s p)) t \<and>
    lk L t \<and> bfields s t \<and> slks t = slks s"
  using lk_holdingsleep [OF assms] bfields_more [of s] by blast

section \<open>Invariant and views\<close>

definition curpid :: "'a pt_scheme \<Rightarrow> int" where
  "curpid s = p_pid (procs s (the (curp s)))"

definition bring :: "'a bc_scheme \<Rightarrow> nat list \<Rightarrow> bool" where
  "bring s xs \<longleftrightarrow> ring (\<lambda>i. b_next (bufs s i)) (\<lambda>i. b_prev (bufs s i)) bhead xs \<and> set xs = {..<NBUF}"

definition locked :: "'a slk_scheme \<Rightarrow> nat \<Rightarrow> bool" where
  "locked s i \<longleftrightarrow> sl_locked (slks s (BufSlk i))"

definition buf_ok :: "'a bc_scheme \<Rightarrow> nat \<Rightarrow> bool" where
  "buf_ok s i \<longleftrightarrow> (let b = bufs s i in
     length (b_data b) = BSIZE \<and> (b_dirty b \<longrightarrow> b_dev b = 1) \<and>
     (b_dev b = 1 \<longrightarrow> b_valid b \<and> int (unat (b_blockno b)) < disksize s) \<and>
     (if locked s i then b_dev b = 1 \<and> b_refcnt b = 1 \<and> sl_pid (slks s (BufSlk i)) = curpid s
      else b_refcnt b = 0 \<and> (b_dev b = 1 \<and> \<not> b_dirty b \<longrightarrow> b_data b = memdisk s (b_blockno b))))"

definition buf_uniq :: "'a bc_scheme \<Rightarrow> bool" where
  "buf_uniq s \<longleftrightarrow> (\<forall>i < NBUF. \<forall>j < NBUF. b_dev (bufs s i) = 1 \<longrightarrow> b_dev (bufs s j) = 1 \<longrightarrow>
     b_blockno (bufs s i) = b_blockno (bufs s j) \<longrightarrow> i = j)"

definition bok :: "'a bc_scheme \<Rightarrow> bool" where
  "bok s \<longleftrightarrow> lk [] s \<and> curp s \<noteq> None \<and> 0 \<le> disksize s \<and> disksize s < 2 ^ 31 \<and>
     (\<forall>b. length (memdisk s b) = BSIZE) \<and> (\<exists>xs. bring s xs) \<and> (\<forall>i < NBUF. buf_ok s i) \<and> buf_uniq s"

definition buf_of :: "'a bc_scheme \<Rightarrow> uint \<Rightarrow> nat option" where
  "buf_of s b = find (\<lambda>i. b_dev (bufs s i) = 1 \<and> b_blockno (bufs s i) = b) [0..<NBUF]"

definition bview :: "'a bc_scheme \<Rightarrow> uint \<Rightarrow> block" where
  "bview s b = (case buf_of s b of Some i \<Rightarrow> b_data (bufs s i) | None \<Rightarrow> memdisk s b)"

definition bheld :: "'a bc_scheme \<Rightarrow> (nat \<times> uint) set" where
  "bheld s = {(i, b_blockno (bufs s i)) | i. i < NBUF \<and> locked s i}"

definition bdirty :: "'a bc_scheme \<Rightarrow> uint set" where
  "bdirty s = {b_blockno (bufs s i) | i. i < NBUF \<and> b_dirty (bufs s i)}"

lemma bokD:
  assumes "bok s"
  shows "lk [] s" "\<exists>p. curp s = Some p" "0 \<le> disksize s" "disksize s < 2 ^ 31" "length (memdisk s b) = BSIZE"
    "\<exists>xs. bring s xs" "i < NBUF \<Longrightarrow> buf_ok s i" "buf_uniq s"
  using assms by (auto simp: bok_def)

lemma buf_of_eq:
  assumes "buf_uniq s" and "i < NBUF" and "b_dev (bufs s i) = 1" and "b_blockno (bufs s i) = b"
  shows "buf_of s b = Some i"
proof -
  let ?P = "\<lambda>i. b_dev (bufs s i) = 1 \<and> b_blockno (bufs s i) = b"
  obtain j where j: "find ?P [0..<NBUF] = Some j" using assms(2-4) by (fastforce simp: find_None_iff)
  then have "j < NBUF" "?P j" by (auto simp: find_Some_iff)
  with assms have "j = i" by (auto simp: buf_uniq_def)
  with j show ?thesis by (simp add: buf_of_def)
qed

lemma buf_of_None:
  "buf_of s b = None \<longleftrightarrow> (\<forall>i < NBUF. \<not> (b_dev (bufs s i) = 1 \<and> b_blockno (bufs s i) = b))"
  by (auto simp: buf_of_def find_None_iff)

lemma buf_of_SomeD:
  "buf_of s b = Some i \<Longrightarrow> i < NBUF \<and> b_dev (bufs s i) = 1 \<and> b_blockno (bufs s i) = b"
  unfolding buf_of_def by (auto simp: find_Some_iff)

lemma bview_buf:
  "buf_uniq s \<Longrightarrow> i < NBUF \<Longrightarrow> b_dev (bufs s i) = 1 \<Longrightarrow> bview s (b_blockno (bufs s i)) = b_data (bufs s i)"
  by (simp add: bview_def buf_of_eq)

lemma bheld_dev: "bok s \<Longrightarrow> (i, b) \<in> bheld s \<Longrightarrow> i < NBUF \<and> b_dev (bufs s i) = 1 \<and> b_blockno (bufs s i) = b \<and> locked s i"
  using bokD(7) [of s i] by (auto simp: bheld_def buf_ok_def Let_def)

lemma bheld_data: "bok s \<Longrightarrow> (i, b) \<in> bheld s \<Longrightarrow> b_data (bufs s i) = bview s b"
  using bheld_dev [of s i b] bview_buf [OF bokD(8), of s i] by auto

text \<open>The view of a block after a change to one buffer that keeps its block.\<close>

lemma buf_of_cong:
  "(\<And>i. i < NBUF \<Longrightarrow> (b_dev (bufs t i) = 1) = (b_dev (bufs s i) = 1) \<and> (b_dev (bufs s i) = 1 \<longrightarrow> b_blockno (bufs t i) = b_blockno (bufs s i)))
   \<Longrightarrow> buf_of t = buf_of s"
  unfolding buf_of_def by (intro ext find_cong) auto

section \<open>\<open>iderw\<close>\<close>

lemma blockno_range:
  assumes "0 \<le> d" and "d < 2 ^ 31"
  shows "(of_int d \<le> (b :: uint)) = (\<not> int (unat b) < d)"
proof -
  have "uint (of_int d :: uint) = d" using assms by (simp add: uint_word_of_int)
  then show ?thesis by (simp add: word_le_def linorder_not_less)
qed

lemma iderw_spec:
  assumes l: "lk [] s" and p: "curp s = Some p" and d: "0 \<le> disksize s" "disksize s < 2 ^ 31"
    and h: "slks s (BufSlk i) = \<lparr>sl_locked = True, sl_pid = curpid s\<rparr>"
    and b: "b_dev (bufs s i) = 1" "int (unat (b_blockno (bufs s i))) < disksize s"
    and w: "\<not> b_valid (bufs s i) \<or> b_dirty (bufs s i)"
  shows "\<exists>t. iderw i s = Ret () t \<and> lk [] t \<and> bsame s t \<and> slks t = slks s \<and>
    (if b_dirty (bufs s i) then
       bufs t = (bufs s)(i := (bufs s i)\<lparr>b_dirty := False, b_valid := True\<rparr>) \<and>
       memdisk t = (memdisk s)(b_blockno (bufs s i) := b_data (bufs s i)) \<and>
       disk_writes t = disk_writes s @ [(b_blockno (bufs s i), b_data (bufs s i))]
     else bufs t = (bufs s)(i := (bufs s i)\<lparr>b_data := memdisk s (b_blockno (bufs s i)), b_valid := True\<rparr>) \<and>
       memdisk t = memdisk s \<and> disk_writes t = disk_writes s)"
proof -
  from bc_holdingsleep [OF l, of "BufSlk i" p] p h obtain u where
    u: "holdingsleep (BufSlk i) s = Ret True u" "lk [] u" "bfields s u" "slks u = slks s"
    by (auto simp: curpid_def)
  then have e: "bufs u = bufs s" "memdisk u = memdisk s" "disksize u = disksize s" "disk_writes u = disk_writes s"
    and sm: "bsame s u" by (simp_all add: bfields_def bsame_def)
  let ?b = "bufs s i"
  define t where "t = (if b_dirty ?b then buf_upd i (\<lambda>x. x\<lparr>b_valid := True\<rparr>)
      ((buf_upd i (\<lambda>x. x\<lparr>b_dirty := False\<rparr>) u)\<lparr>memdisk := (memdisk s)(b_blockno ?b := b_data ?b),
         disk_writes := disk_writes s @ [(b_blockno ?b, b_data ?b)]\<rparr>)
    else buf_upd i (\<lambda>x. x\<lparr>b_valid := True\<rparr>) (buf_upd i (\<lambda>x. x\<lparr>b_data := memdisk s (b_blockno ?b)\<rparr>) u))"
  have "iderw i s = Ret () t"
    using u(1) w b e d blockno_range [OF d] by (auto simp: iderw_def Let_def t_def)
  moreover have "lk [] t \<and> bsame u t"
    using u(2) by (auto simp: t_def buf_upd_def lk_def mach_inv_def bsame_def kcore_def curp_def cpage_def)
  moreover have "slks t = slks s" using u(4) by (simp add: t_def)
  ultimately show ?thesis using bsame_trans [OF sm] e by (auto simp: t_def buf_upd_def)
qed

section \<open>\<open>bget\<close> and \<open>bread\<close>\<close>

text \<open>The end of \<open>bget\<close>: the list lock is released, then the buffer is locked.\<close>

lemma bget_grab:
  assumes "lk [BcacheLock] u" and "curp u = Some p" and "\<not> locked u i"
  shows "\<exists>t. bindK (release BcacheLock u) (\<lambda>_ s. bindK (acquiresleep (BufSlk i) s) (\<lambda>_ s. Ret i s)) = Ret i t \<and>
    lk [] t \<and> bfields u t \<and> slks t = (slks u)(BufSlk i := \<lparr>sl_locked = True, sl_pid = curpid u\<rparr>)"
proof -
  from bc_release [OF assms(1), of BcacheLock] obtain v where
    v: "release BcacheLock u = Ret () v" "lk [] v" "bfields u v" "slks v = slks u" by auto
  have cp: "curp v = Some p" "p_pid (procs v p) = p_pid (procs u p)"
    using v(3) assms(2) kcoreD [of u v] by (auto simp: bfields_def bsame_def)
  from bc_acquiresleep [OF v(2) _ cp(1), of "BufSlk i"] assms(3) v(4) obtain t where
    t: "acquiresleep (BufSlk i) v = Ret () t" "lk [] t" "bfields v t"
      "slks t = (slks v)(BufSlk i := \<lparr>sl_locked = True, sl_pid = p_pid (procs v p)\<rparr>)"
    by (auto simp: locked_def)
  have "bfields u t" using v(3) t(3) bsame_trans by (fastforce simp: bfields_def)
  with v(1,4) t cp assms(2) show ?thesis by (simp add: curpid_def)
qed

lemma find_uniq:
  assumes "set xs = set ys" and "\<And>i j. i \<in> set xs \<Longrightarrow> j \<in> set xs \<Longrightarrow> P i \<Longrightarrow> P j \<Longrightarrow> i = j"
  shows "find P xs = find P ys"
proof (cases "find P ys")
  case None
  with assms(1) have "find P xs = None" by (simp add: find_None_iff)
  with None show ?thesis by simp
next
  case (Some i)
  then have i: "i \<in> set ys" "P i" by (auto simp: find_Some_iff)
  with assms(1) obtain j where j: "find P xs = Some j" by (cases "find P xs") (auto simp: find_None_iff)
  then have "j \<in> set xs" "P j" by (auto simp: find_Some_iff)
  with i assms have "j = i" by auto
  with Some j show ?thesis by simp
qed

lemma bget_find:
  assumes "bring s xs" and "buf_uniq s"
  shows "find (\<lambda>i. b_dev (bufs s i) = 1 \<and> b_blockno (bufs s i) = b) xs = buf_of s b"
  unfolding buf_of_def
  by (rule find_uniq) (use assms in \<open>auto simp: bring_def buf_uniq_def atLeast0LessThan\<close>)

text \<open>The buffer \<open>bget\<close> recycles: the least recently used one that is neither in use nor pinned.\<close>

definition lru_free :: "'a bc_scheme \<Rightarrow> nat list \<Rightarrow> nat option" where
  "lru_free s xs = find (\<lambda>i. b_refcnt (bufs s i) = 0 \<and> \<not> b_dirty (bufs s i)) (rev xs)"

lemma bget_spec:
  assumes ok: "bok s" and xs: "bring s xs"
  shows "buf_of s b = Some i \<Longrightarrow> \<not> locked s i \<Longrightarrow>
      \<exists>t. bget 1 b s = Ret i t \<and> lk [] t \<and> bsame s t \<and> memdisk t = memdisk s \<and> disk_writes t = disk_writes s \<and>
        bufs t = (bufs s)(i := (bufs s i)\<lparr>b_refcnt := 1\<rparr>) \<and>
        slks t = (slks s)(BufSlk i := \<lparr>sl_locked = True, sl_pid = curpid s\<rparr>)"
    and "buf_of s b = None \<Longrightarrow> lru_free s xs = Some i \<Longrightarrow>
      \<exists>t. bget 1 b s = Ret i t \<and> lk [] t \<and> bsame s t \<and> memdisk t = memdisk s \<and> disk_writes t = disk_writes s \<and>
        bufs t = (bufs s)(i := (bufs s i)\<lparr>b_dev := 1, b_blockno := b, b_valid := False,
                                           b_dirty := False, b_refcnt := 1\<rparr>) \<and>
        slks t = (slks s)(BufSlk i := \<lparr>sl_locked = True, sl_pid = curpid s\<rparr>)"
    and "buf_of s b = None \<Longrightarrow> lru_free s xs = None \<Longrightarrow> bget 1 b s = Panic ''bget: no buffers''"
proof -
  obtain p where p: "curp s = Some p" using bokD(2) [OF ok] by blast
  from bc_acquire [OF bokD(1) [OF ok], of BcacheLock] obtain u where
    u: "acquire BcacheLock s = Ret () u" "lk [BcacheLock] u" "bfields s u" "slks u = slks s" by auto
  have e: "bufs u = bufs s" "memdisk u = memdisk s" "disk_writes u = disk_writes s" "bsame s u"
    using u(3) by (simp_all add: bfields_def)
  have cp: "curp u = Some p" "curpid u = curpid s"
    using e(4) p kcoreD [of s u] by (auto simp: bsame_def curpid_def)
  have r: "ring (\<lambda>i. b_next (bufs s i)) (\<lambda>i. b_prev (bufs s i)) bhead xs" using xs by (simp add: bring_def)
  have tail: "\<exists>t. bindK (release BcacheLock (buf_upd i f u)) (\<lambda>_ s. bindK (acquiresleep (BufSlk i) s) (\<lambda>_ s. Ret i s)) = Ret i t \<and>
      lk [] t \<and> bsame s t \<and> memdisk t = memdisk s \<and> disk_writes t = disk_writes s \<and>
      bufs t = (bufs s)(i := f (bufs s i)) \<and>
      slks t = (slks s)(BufSlk i := \<lparr>sl_locked = True, sl_pid = curpid s\<rparr>)" if "\<not> locked s i" for f
  proof -
    from bget_grab [of "buf_upd i f u" p i] u cp that obtain t where
      t: "bindK (release BcacheLock (buf_upd i f u)) (\<lambda>_ s. bindK (acquiresleep (BufSlk i) s) (\<lambda>_ s. Ret i s)) = Ret i t"
        "lk [] t" "bfields (buf_upd i f u) t"
        "slks t = (slks s)(BufSlk i := \<lparr>sl_locked = True, sl_pid = curpid s\<rparr>)"
      by (auto simp: locked_def curpid_def)
    have "bsame s t" using bsame_trans [OF e(4) bsame_trans [OF bsame_buf_upd, of i f u t]] t(3) by (simp add: bfields_def)
    with t e show ?thesis by (simp add: bfields_def)
  qed
  note sc = ring_scan [OF r]
  show "\<exists>t. bget 1 b s = Ret i t \<and> lk [] t \<and> bsame s t \<and> memdisk t = memdisk s \<and> disk_writes t = disk_writes s \<and>
        bufs t = (bufs s)(i := (bufs s i)\<lparr>b_refcnt := 1\<rparr>) \<and>
        slks t = (slks s)(BufSlk i := \<lparr>sl_locked = True, sl_pid = curpid s\<rparr>)"
    if i: "buf_of s b = Some i" "\<not> locked s i"
  proof -
    have "b_refcnt (bufs s i) = 0"
      using bokD(7) [OF ok, of i] buf_of_SomeD [OF i(1)] i(2) by (simp add: buf_ok_def Let_def)
    with tail [OF i(2), of "\<lambda>x. x\<lparr>b_refcnt := b_refcnt x + 1\<rparr>"] show ?thesis
      using u(1) e(1) sc(1) bget_find [OF xs bokD(8) [OF ok]] i(1) by (simp add: bget_def Let_def)
  qed
  show "\<exists>t. bget 1 b s = Ret i t \<and> lk [] t \<and> bsame s t \<and> memdisk t = memdisk s \<and> disk_writes t = disk_writes s \<and>
        bufs t = (bufs s)(i := (bufs s i)\<lparr>b_dev := 1, b_blockno := b, b_valid := False,
                                           b_dirty := False, b_refcnt := 1\<rparr>) \<and>
        slks t = (slks s)(BufSlk i := \<lparr>sl_locked = True, sl_pid = curpid s\<rparr>)"
    if i: "buf_of s b = None" "lru_free s xs = Some i"
  proof -
    have f: "i < NBUF" "b_refcnt (bufs s i) = 0"
      using find_SomeD [of _ "rev xs" i] i(2) xs by (auto simp: lru_free_def bring_def)
    then have "\<not> locked s i" using bokD(7) [OF ok, of i] by (auto simp: buf_ok_def Let_def split: if_splits)
    from tail [OF this, of "\<lambda>x. x\<lparr>b_dev := 1, b_blockno := b, b_valid := False, b_dirty := False, b_refcnt := 1\<rparr>"]
    show ?thesis
      using u(1) e(1) sc bget_find [OF xs bokD(8) [OF ok]] i by (simp add: bget_def Let_def lru_free_def)
  qed
  show "bget 1 b s = Panic ''bget: no buffers''" if i: "buf_of s b = None" "lru_free s xs = None"
    using u(1) e(1) sc bget_find [OF xs bokD(8) [OF ok]] i by (simp add: bget_def Let_def lru_free_def)
qed

section \<open>Changing one buffer\<close>

lemma bok_change:
  assumes ok: "bok s" and l: "lk [] t" and sm: "bsame s t" and i: "i < NBUF"
    and oth: "\<And>j. j \<noteq> i \<Longrightarrow> bufs t j = bufs s j \<and> slks t (BufSlk j) = slks s (BufSlk j)"
    and lnk: "b_next (bufs t i) = b_next (bufs s i)" "b_prev (bufs t i) = b_prev (bufs s i)"
    and dsk: "\<And>c. c \<noteq> b_blockno (bufs t i) \<Longrightarrow> memdisk t c = memdisk s c" "\<And>c. length (memdisk t c) = BSIZE"
    and bi: "buf_ok t i" "b_dev (bufs t i) = 1"
    and new: "\<And>j. j < NBUF \<Longrightarrow> j \<noteq> i \<Longrightarrow> b_dev (bufs s j) = 1 \<Longrightarrow> b_blockno (bufs s j) \<noteq> b_blockno (bufs t i)"
  shows "bok t"
proof -
  have cp: "curp t = curp s" "curpid t = curpid s" "disksize t = disksize s"
    using sm kcoreD [of s t] by (simp_all add: bsame_def curpid_def)
  have "(\<lambda>j. b_next (bufs t j)) = (\<lambda>j. b_next (bufs s j))" "(\<lambda>j. b_prev (bufs t j)) = (\<lambda>j. b_prev (bufs s j))"
    using oth lnk by (metis)+
  then have "\<exists>xs. bring t xs" using bokD(6) [OF ok] by (simp add: bring_def)
  moreover have "buf_ok t j" if "j < NBUF" for j
  proof (cases "j = i")
    case False
    have "b_dev (bufs s j) = 1 \<Longrightarrow> memdisk t (b_blockno (bufs s j)) = memdisk s (b_blockno (bufs s j))"
      using new [OF that False] dsk(1) by blast
    with bokD(7) [OF ok that] oth [OF False] cp show ?thesis by (simp add: buf_ok_def Let_def locked_def)
  qed (use bi in simp)
  moreover have "buf_uniq t"
    unfolding buf_uniq_def
  proof (intro allI impI)
    fix j k assume a: "j < NBUF" "k < NBUF" "b_dev (bufs t j) = 1" "b_dev (bufs t k) = 1"
      "b_blockno (bufs t j) = b_blockno (bufs t k)"
    consider "j = i" "k = i" | "j = i" "k \<noteq> i" | "j \<noteq> i" "k = i" | "j \<noteq> i" "k \<noteq> i" by blast
    then show "j = k"
    proof cases
      case 2 then show ?thesis using a new [OF a(2)] oth [of k] by simp
    next
      case 3 then show ?thesis using a new [OF a(1)] oth [of j] by simp
    next
      case 4 then show ?thesis using a oth [of j] oth [of k] bokD(8) [OF ok] by (simp add: buf_uniq_def)
    qed simp
  qed
  ultimately show ?thesis using ok l dsk(2) cp by (auto simp: bok_def)
qed

lemma bview_change:
  assumes ok: "bok s" "bok t" and i: "i < NBUF" and di: "b_dev (bufs t i) = 1"
    and oth: "\<And>j. j \<noteq> i \<Longrightarrow> bufs t j = bufs s j"
    and dsk: "\<And>c. c \<noteq> b_blockno (bufs t i) \<Longrightarrow> memdisk t c = memdisk s c"
    and old: "b_dev (bufs s i) = 1 \<Longrightarrow> b_blockno (bufs s i) \<noteq> b_blockno (bufs t i) \<Longrightarrow>
      b_data (bufs s i) = memdisk s (b_blockno (bufs s i))"
  shows "bview t = (bview s)(b_blockno (bufs t i) := b_data (bufs t i))"
proof
  fix c
  show "bview t c = ((bview s)(b_blockno (bufs t i) := b_data (bufs t i))) c"
  proof (cases "c = b_blockno (bufs t i)")
    case True
    then show ?thesis using bview_buf [OF bokD(8) [OF ok(2)] i di] by simp
  next
    case False
    have "bview t c = bview s c"
    proof (cases "buf_of s c")
      case None
      then have "buf_of t c = None" using False oth by (metis buf_of_None)
      with None dsk [OF False] show ?thesis by (simp add: bview_def)
    next
      case (Some j)
      note j = buf_of_SomeD [OF Some]
      show ?thesis
      proof (cases "j = i")
        case True
        have "buf_of t c = None"
          unfolding buf_of_None
        proof (intro allI impI notI)
          fix k assume k: "k < NBUF" "b_dev (bufs t k) = 1 \<and> b_blockno (bufs t k) = c"
          with False have "k \<noteq> i" by auto
          with k oth [of k] j bokD(8) [OF ok(1)] True show False by (auto simp: buf_uniq_def)
        qed
        with Some old j True False dsk [OF False] show ?thesis by (simp add: bview_def)
      next
        case jn: False
        have "buf_of t c = Some j" by (rule buf_of_eq [OF bokD(8) [OF ok(2)]]) (use j oth [OF jn] in simp_all)
        with Some oth [OF jn] show ?thesis by (simp add: bview_def)
      qed
    qed
    with False show ?thesis by simp
  qed
qed

section \<open>The contract\<close>

locale block_cache =
  fixes bread :: "uint \<Rightarrow> 's \<Rightarrow> (nat, 's) kres"
    and bwrite :: "nat \<Rightarrow> 's \<Rightarrow> (unit, 's) kres"
    and brelse :: "nat \<Rightarrow> 's \<Rightarrow> (unit, 's) kres"
    and store :: "nat \<Rightarrow> block \<Rightarrow> 's \<Rightarrow> 's"
    and contents :: "'s \<Rightarrow> nat \<Rightarrow> block"
    and ok :: "'s \<Rightarrow> bool"
    and view :: "'s \<Rightarrow> uint \<Rightarrow> block"
    and disk :: "'s \<Rightarrow> uint \<Rightarrow> block"
    and writes :: "'s \<Rightarrow> (uint \<times> block) list"
    and held :: "'s \<Rightarrow> (nat \<times> uint) set"
    and dirty :: "'s \<Rightarrow> uint set"
    and blocks :: "'s \<Rightarrow> int"
    and same :: "'s \<Rightarrow> 's \<Rightarrow> bool"
  assumes bread: "ok s \<Longrightarrow> int (unat b) < blocks s \<Longrightarrow> b \<notin> snd ` held s \<Longrightarrow>
      b \<in> dirty s \<or> card (dirty s \<union> snd ` held s) < NBUF \<Longrightarrow>
      \<exists>i t. bread b s = Ret i t \<and> ok t \<and> same s t \<and> view t = view s \<and> disk t = disk s \<and>
        writes t = writes s \<and> dirty t = dirty s \<and> held t = insert (i, b) (held s) \<and> i \<notin> fst ` held s"
    and contents: "ok s \<Longrightarrow> (i, b) \<in> held s \<Longrightarrow> contents s i = view s b"
    and store: "ok s \<Longrightarrow> (i, b) \<in> held s \<Longrightarrow> length d = BSIZE \<Longrightarrow>
      ok (store i d s) \<and> same s (store i d s) \<and> view (store i d s) = (view s)(b := d) \<and>
      disk (store i d s) = disk s \<and> writes (store i d s) = writes s \<and> held (store i d s) = held s \<and>
      dirty (store i d s) = dirty s"
    and bwrite: "ok s \<Longrightarrow> (i, b) \<in> held s \<Longrightarrow>
      \<exists>t. bwrite i s = Ret () t \<and> ok t \<and> same s t \<and> view t = view s \<and> disk t = (disk s)(b := view s b) \<and>
        writes t = writes s @ [(b, view s b)] \<and> held t = held s \<and> dirty t = dirty s - {b}"
    and brelse: "ok s \<Longrightarrow> (i, b) \<in> held s \<Longrightarrow> b \<in> dirty s \<or> view s b = disk s b \<Longrightarrow>
      \<exists>t. brelse i s = Ret () t \<and> ok t \<and> same s t \<and> view t = view s \<and> disk t = disk s \<and>
        writes t = writes s \<and> dirty t = dirty s \<and> held t = held s - {(i, b)}"
    and view_length: "ok s \<Longrightarrow> length (view s b) = BSIZE"
    and clean: "ok s \<Longrightarrow> b \<notin> dirty s \<Longrightarrow> b \<notin> snd ` held s \<Longrightarrow> view s b = disk s b"
    and same_trans: "same s t \<Longrightarrow> same t u \<Longrightarrow> same s u"
    and same_blocks: "same s t \<Longrightarrow> blocks t = blocks s"
    and held_block: "ok s \<Longrightarrow> (i, b) \<in> held s \<Longrightarrow> (i, c) \<in> held s \<Longrightarrow> b = c"
begin

text \<open>
  A block that is read, changed and written: the disk and every reader have the new contents.
\<close>

lemma update_block:
  assumes ok: "ok s" and b: "int (unat b) < blocks s" and h: "held s = {}"
    and room: "b \<in> dirty s \<or> card (dirty s) < NBUF" and f: "\<forall>d. length d = BSIZE \<longrightarrow> length (f d) = BSIZE"
  shows "\<exists>t. bindK (bread b s) (\<lambda>i s. bindK (bwrite i (store i (f (contents s i)) s)) (\<lambda>_ s. brelse i s)) = Ret () t \<and>
    ok t \<and> same s t \<and> held t = {} \<and> view t = (view s)(b := f (view s b)) \<and>
    disk t = (disk s)(b := f (view s b)) \<and> writes t = writes s @ [(b, f (view s b))] \<and> dirty t = dirty s - {b}"
proof -
  from bread [OF ok b] h room obtain i u where
    u: "bread b s = Ret i u" "ok u" "same s u" "view u = view s" "disk u = disk s" "writes u = writes s"
      "dirty u = dirty s" "held u = {(i, b)}" by auto
  let ?d = "f (view s b)"
  have l: "length ?d = BSIZE" using f view_length [OF ok] by blast
  have c: "contents u i = view s b" using contents [OF u(2), of i b] u(4,8) by simp
  note v = store [OF u(2), of i b ?d]
  let ?v = "store i ?d u"
  from bwrite [of ?v i b] v l u(8) obtain w where
    w: "bwrite i ?v = Ret () w" "ok w" "same ?v w" "view w = view ?v" "disk w = (disk ?v)(b := ?d)"
      "writes w = writes ?v @ [(b, ?d)]" "held w = held ?v" "dirty w = dirty ?v - {b}" by auto
  from brelse [OF w(2), of i b] w v l u obtain t where
    t: "brelse i w = Ret () t" "ok t" "same w t" "view t = view w" "disk t = disk w" "writes t = writes w"
      "dirty t = dirty w" "held t = held w - {(i, b)}" by auto
  have "same s t" using same_trans [OF u(3) same_trans [OF _ same_trans [OF w(3) t(3)]]] v l u(8) by simp
  then show ?thesis using u w t v l c by simp
qed

text \<open>
  One block copied to another, the destination written through: the two orders in which the
  logging code reads and releases the two buffers.
\<close>

lemma copy_src_first:
  assumes ok: "ok s" and r: "int (unat a) < blocks s" "int (unat b) < blocks s" and ab: "a \<noteq> b" and h: "held s = {}"
    and a: "a \<notin> dirty s" and room: "card (dirty s) < NBUF" "b \<in> dirty s \<or> card (insert a (dirty s)) < NBUF"
  shows "\<exists>t. bindK (bread a s) (\<lambda>i s. bindK (bread b s) (\<lambda>j s.
      bindK (bwrite j (store j (contents s i) s)) (\<lambda>_ s. bindK (brelse i s) (\<lambda>_ s. brelse j s)))) = Ret () t \<and>
    ok t \<and> same s t \<and> held t = {} \<and> view t = (view s)(b := view s a) \<and> disk t = (disk s)(b := view s a) \<and>
    writes t = writes s @ [(b, view s a)] \<and> dirty t = dirty s - {b}"
proof -
  let ?d = "view s a"
  have l: "length ?d = BSIZE" by (rule view_length [OF ok])
  from bread [OF ok r(1)] h room obtain i u where
    u: "bread a s = Ret i u" "ok u" "same s u" "view u = view s" "disk u = disk s" "writes u = writes s"
      "dirty u = dirty s" "held u = {(i, a)}" by auto
  from bread [OF u(2), of b] r u room ab same_blocks [OF u(3)] obtain j v where
    v: "bread b u = Ret j v" "ok v" "same u v" "view v = view s" "disk v = disk s" "writes v = writes s"
      "dirty v = dirty s" "held v = {(j, b), (i, a)}" "j \<noteq> i" by auto
  have c: "contents v i = ?d" using contents [OF v(2), of i a] v by simp
  note w = store [OF v(2), of j b ?d]
  let ?w = "store j ?d v"
  from bwrite [of ?w j b] w l v(8) obtain x where
    x: "bwrite j ?w = Ret () x" "ok x" "same ?w x" "view x = view ?w" "disk x = (disk ?w)(b := ?d)"
      "writes x = writes ?w @ [(b, ?d)]" "held x = held ?w" "dirty x = dirty ?w - {b}" by auto
  from clean [OF ok a] h have ca: "view s a = disk s a" by simp
  from brelse [OF x(2), of i a] x w l v ca ab obtain y where
    y: "brelse i x = Ret () y" "ok y" "same x y" "view y = view x" "disk y = disk x" "writes y = writes x"
      "dirty y = dirty x" "held y = held x - {(i, a)}" by auto
  from brelse [OF y(2), of j b] y x w l v ab obtain t where
    t: "brelse j y = Ret () t" "ok t" "same y t" "view t = view y" "disk t = disk y" "writes t = writes y"
      "dirty t = dirty y" "held t = held y - {(j, b)}" by auto
  have "same s t"
    using same_trans [OF u(3) same_trans [OF v(3) same_trans [OF _ same_trans [OF x(3) same_trans [OF y(3) t(3)]]]]]
      w l v(8) by simp
  then show ?thesis using u v x y t w l c by auto
qed

lemma copy_dst_first:
  assumes ok: "ok s" and r: "int (unat a) < blocks s" "int (unat b) < blocks s" and ab: "a \<noteq> b" and h: "held s = {}"
    and b: "b \<notin> dirty s" and room: "card (dirty s) < NBUF" "a \<in> dirty s \<or> card (insert b (dirty s)) < NBUF"
  shows "\<exists>t. bindK (bread b s) (\<lambda>i s. bindK (bread a s) (\<lambda>j s.
      bindK (bwrite i (store i (contents s j) s)) (\<lambda>_ s. bindK (brelse j s) (\<lambda>_ s. brelse i s)))) = Ret () t \<and>
    ok t \<and> same s t \<and> held t = {} \<and> view t = (view s)(b := view s a) \<and> disk t = (disk s)(b := view s a) \<and>
    writes t = writes s @ [(b, view s a)] \<and> dirty t = dirty s"
proof -
  let ?d = "view s a"
  have l: "length ?d = BSIZE" by (rule view_length [OF ok])
  from bread [OF ok r(2)] h room obtain i u where
    u: "bread b s = Ret i u" "ok u" "same s u" "view u = view s" "disk u = disk s" "writes u = writes s"
      "dirty u = dirty s" "held u = {(i, b)}" by auto
  from bread [OF u(2), of a] r u room ab same_blocks [OF u(3)] obtain j v where
    v: "bread a u = Ret j v" "ok v" "same u v" "view v = view s" "disk v = disk s" "writes v = writes s"
      "dirty v = dirty s" "held v = {(j, a), (i, b)}" "j \<noteq> i" by auto
  have c: "contents v j = ?d" using contents [OF v(2), of j a] v by simp
  note w = store [OF v(2), of i b ?d]
  let ?w = "store i ?d v"
  from bwrite [of ?w i b] w l v(8) obtain x where
    x: "bwrite i ?w = Ret () x" "ok x" "same ?w x" "view x = view ?w" "disk x = (disk ?w)(b := ?d)"
      "writes x = writes ?w @ [(b, ?d)]" "held x = held ?w" "dirty x = dirty ?w - {b}" by auto
  have ca: "a \<in> dirty s \<or> view s a = disk s a" using clean [OF ok, of a] h by auto
  from brelse [OF x(2), of j a] x w l v ca ab obtain y where
    y: "brelse j x = Ret () y" "ok y" "same x y" "view y = view x" "disk y = disk x" "writes y = writes x"
      "dirty y = dirty x" "held y = held x - {(j, a)}" by auto
  from brelse [OF y(2), of i b] y x w l v ab obtain t where
    t: "brelse i y = Ret () t" "ok t" "same y t" "view t = view y" "disk t = disk y" "writes t = writes y"
      "dirty t = dirty y" "held t = held y - {(i, b)}" by auto
  have "same s t"
    using same_trans [OF u(3) same_trans [OF v(3) same_trans [OF _ same_trans [OF x(3) same_trans [OF y(3) t(3)]]]]]
      w l v(8) by simp
  then show ?thesis using u v x y t w l c b by auto
qed

end

section \<open>The cache keeps the contract\<close>

lemma bheld_iff: "bok s \<Longrightarrow> buf_of s b = Some i \<Longrightarrow> b \<in> snd ` bheld s \<longleftrightarrow> locked s i"
proof
  assume ok: "bok s" and i: "buf_of s b = Some i"
  note bi = buf_of_SomeD [OF i]
  show "locked s i" if "b \<in> snd ` bheld s"
  proof -
    from that obtain j where "(j, b) \<in> bheld s" by auto
    with bheld_dev [OF ok this] buf_of_eq [OF bokD(8) [OF ok], of j b] i show ?thesis by simp
  qed
  show "b \<in> snd ` bheld s" if "locked s i" using that bi by (force simp: bheld_def)
qed

lemma bdirty_cached: "bok s \<Longrightarrow> b \<in> bdirty s \<Longrightarrow> \<exists>i. buf_of s b = Some i \<and> b_dirty (bufs s i)"
  unfolding bdirty_def using bokD(7) [of s] buf_of_eq [OF bokD(8), of s]
  by (fastforce simp: buf_ok_def Let_def)

lemma lru_free_exists:
  assumes ok: "bok s" and xs: "bring s xs" and c: "card (bdirty s \<union> snd ` bheld s) < NBUF"
  shows "\<exists>i. lru_free s xs = Some i"
proof (rule ccontr)
  assume "\<nexists>i. lru_free s xs = Some i"
  then have "lru_free s xs = None" by auto
  then have busy: "b_refcnt (bufs s i) \<noteq> 0 \<or> b_dirty (bufs s i)" if "i < NBUF" for i
    using that xs by (auto simp: lru_free_def find_None_iff bring_def)
  have ld: "locked s i \<or> b_dirty (bufs s i)" "b_dev (bufs s i) = 1" if "i < NBUF" for i
    using busy [OF that] bokD(7) [OF ok that] by (auto simp: buf_ok_def Let_def split: if_splits)
  let ?f = "\<lambda>i. b_blockno (bufs s i)"
  have "inj_on ?f {..<NBUF}" using bokD(8) [OF ok] ld(2) by (auto simp: inj_on_def buf_uniq_def)
  then have "card (?f ` {..<NBUF}) = NBUF" by (simp add: card_image)
  moreover have "?f ` {..<NBUF} \<subseteq> bdirty s \<union> snd ` bheld s"
    using ld(1) by (force simp: bdirty_def bheld_def)
  moreover have "finite (bdirty s \<union> snd ` bheld s)" by (simp add: bdirty_def bheld_def)
  ultimately show False using c card_mono by (metis linorder_not_less)
qed

lemma buf_ok_locked:
  assumes "locked t i" and "length (b_data (bufs t i)) = BSIZE" and "b_dev (bufs t i) = 1" and "b_valid (bufs t i)"
    and "int (unat (b_blockno (bufs t i))) < disksize t" and "b_refcnt (bufs t i) = 1"
    and "sl_pid (slks t (BufSlk i)) = curpid t"
  shows "buf_ok t i"
  using assms by (simp add: buf_ok_def Let_def)

lemma bsame_curpid: "bsame s t \<Longrightarrow> curpid t = curpid s \<and> disksize t = disksize s \<and> curp t = curp s"
  using kcoreD [of s t] by (auto simp: bsame_def curpid_def)

lemma bread_hit:
  assumes ok: "bok s" and i: "buf_of s b = Some i" and nl: "\<not> locked s i"
  shows "\<exists>t. bread 1 b s = Ret i t \<and> bok t \<and> bsame s t \<and> bview t = bview s \<and> memdisk t = memdisk s \<and>
    disk_writes t = disk_writes s \<and> bdirty t = bdirty s \<and> bheld t = insert (i, b) (bheld s)"
proof -
  obtain xs where xs: "bring s xs" using bokD(6) [OF ok] by blast
  note bi = buf_of_SomeD [OF i]
  from bget_spec(1) [OF ok xs i nl] obtain t where
    t: "bget 1 b s = Ret i t" "lk [] t" "bsame s t" "memdisk t = memdisk s" "disk_writes t = disk_writes s"
      "bufs t = (bufs s)(i := (bufs s i)\<lparr>b_refcnt := 1\<rparr>)"
      "slks t = (slks s)(BufSlk i := \<lparr>sl_locked = True, sl_pid = curpid s\<rparr>)" by blast
  have b0: "buf_ok s i" using bokD(7) [OF ok] bi by simp
  have bt: "buf_ok t i"
    by (rule buf_ok_locked) (use b0 bi t bsame_curpid [OF t(3)] nl in \<open>auto simp: locked_def buf_ok_def Let_def\<close>)
  have okt: "bok t"
    by (rule bok_change [OF ok t(2,3), of i])
       (use bi t bt bokD(5,8) [OF ok] in \<open>auto simp: buf_uniq_def\<close>)
  have "bview t = bview s"
    using bview_change [OF ok okt, of i] bi t bview_buf [OF bokD(8) [OF ok], of i] by auto
  moreover have "bdirty t = bdirty s" using t(6) by (auto simp: bdirty_def)
  moreover have "bheld t = insert (i, b) (bheld s)" using t(6,7) bi by (auto simp: bheld_def locked_def)
  moreover have "bread 1 b s = Ret i t" using t(1,6) b0 bi by (simp add: bread_def buf_ok_def Let_def)
  ultimately show ?thesis using okt t by blast
qed

lemma bread_miss:
  assumes ok: "bok s" and b: "int (unat b) < disksize s" and n: "buf_of s b = None"
    and c: "card (bdirty s \<union> snd ` bheld s) < NBUF"
  shows "\<exists>i t. bread 1 b s = Ret i t \<and> bok t \<and> bsame s t \<and> bview t = bview s \<and> memdisk t = memdisk s \<and>
    disk_writes t = disk_writes s \<and> bdirty t = bdirty s \<and> bheld t = insert (i, b) (bheld s) \<and> i \<notin> fst ` bheld s"
proof -
  obtain xs where xs: "bring s xs" using bokD(6) [OF ok] by blast
  obtain i where i: "lru_free s xs = Some i" using lru_free_exists [OF ok xs c] by blast
  have f: "i < NBUF" "b_refcnt (bufs s i) = 0" "\<not> b_dirty (bufs s i)"
    using find_SomeD [of _ "rev xs" i] i xs by (auto simp: lru_free_def bring_def)
  have b0: "buf_ok s i" using bokD(7) [OF ok] f by simp
  have nl: "\<not> locked s i" using b0 f by (auto simp: buf_ok_def Let_def split: if_splits)
  from bget_spec(2) [OF ok xs n i] obtain u where
    u: "bget 1 b s = Ret i u" "lk [] u" "bsame s u" "memdisk u = memdisk s" "disk_writes u = disk_writes s"
      "bufs u = (bufs s)(i := (bufs s i)\<lparr>b_dev := 1, b_blockno := b, b_valid := False, b_dirty := False, b_refcnt := 1\<rparr>)"
      "slks u = (slks s)(BufSlk i := \<lparr>sl_locked = True, sl_pid = curpid s\<rparr>)" by blast
  note cu = bsame_curpid [OF u(3)]
  obtain p where p: "curp u = Some p" using bokD(2) [OF ok] cu by auto
  from iderw_spec [OF u(2) p, of i] bokD(3,4) [OF ok] cu u b obtain t where
    t: "iderw i u = Ret () t" "lk [] t" "bsame u t" "slks t = slks u" "memdisk t = memdisk s"
      "disk_writes t = disk_writes s"
      "bufs t = (bufs u)(i := (bufs u i)\<lparr>b_data := memdisk s b, b_valid := True\<rparr>)" by auto
  have st: "bsame s t" by (rule bsame_trans [OF u(3) t(3)])
  note ct = bsame_curpid [OF st]
  have ti: "bufs t i = (bufs s i)\<lparr>b_dev := 1, b_blockno := b, b_valid := True, b_dirty := False, b_refcnt := 1,
      b_data := memdisk s b\<rparr>" using t(7) u(6) by simp
  have oth: "bufs t j = bufs s j \<and> slks t (BufSlk j) = slks s (BufSlk j)" if "j \<noteq> i" for j
    using that t(4,7) u(6,7) by simp
  have bt: "buf_ok t i"
    by (rule buf_ok_locked) (use ti t(4) u(7) b bokD(5) [OF ok] ct in \<open>auto simp: locked_def\<close>)
  have okt: "bok t"
    by (rule bok_change [OF ok t(2) st f(1) oth])
       (use ti t(5) bt bokD(5) [OF ok] n in \<open>auto simp: buf_of_None\<close>)
  have "bview t = (bview s)(b := memdisk s b)"
    using bview_change [OF ok okt f(1), of] ti oth t(5) b0 nl f(3) by (auto simp: buf_ok_def Let_def)
  then have "bview t = bview s" using n by (auto simp: bview_def)
  moreover have "b_dirty (bufs t j) = b_dirty (bufs s j)" "b_dirty (bufs s j) \<Longrightarrow> bufs t j = bufs s j" for j
    using ti oth [of j] f(3) by (cases "j = i"; simp)+
  then have "bdirty t = bdirty s" unfolding bdirty_def by metis
  moreover have "bheld t = insert (i, b) (bheld s)"
  proof -
    have "locked t j \<longleftrightarrow> j = i \<or> locked s j" for j
      using oth [of j] t(4) u(7) by (cases "j = i") (auto simp: locked_def)
    moreover have "b_blockno (bufs t j) = b_blockno (bufs s j)" if "j \<noteq> i" for j using oth [OF that] by simp
    ultimately show ?thesis using ti f(1) nl unfolding bheld_def by fastforce
  qed
  moreover have "i \<notin> fst ` bheld s" using nl by (auto simp: bheld_def)
  moreover have "bread 1 b s = Ret i t" using u(1,6) t(1) by (simp add: bread_def)
  ultimately show ?thesis using okt st t(5,6) by blast
qed

lemma bread_law:
  assumes ok: "bok s" and b: "int (unat b) < disksize s" and h: "b \<notin> snd ` bheld s"
    and room: "b \<in> bdirty s \<or> card (bdirty s \<union> snd ` bheld s) < NBUF"
  shows "\<exists>i t. bread 1 b s = Ret i t \<and> bok t \<and> bsame s t \<and> bview t = bview s \<and> memdisk t = memdisk s \<and>
    disk_writes t = disk_writes s \<and> bdirty t = bdirty s \<and> bheld t = insert (i, b) (bheld s) \<and> i \<notin> fst ` bheld s"
proof (cases "buf_of s b")
  case None
  then have "b \<notin> bdirty s" using bdirty_cached [OF ok, of b] by auto
  with bread_miss [OF ok b None] room show ?thesis by blast
next
  case (Some i)
  then have "\<not> locked s i" using bheld_iff [OF ok Some] h by simp
  with bread_hit [OF ok Some] show ?thesis by (force simp: bheld_def)
qed

text \<open>Assigning the data of a locked buffer, pinning it, and writing it.\<close>

lemma bok_data:
  assumes ok: "bok s" and h: "(i, b) \<in> bheld s" and l: "lk [] t" and sm: "bsame s t" and sl: "slks t = slks s"
    and bt: "bufs t = (bufs s)(i := (bufs s i)\<lparr>b_data := d, b_dirty := q\<rparr>)" and d: "length d = BSIZE"
    and dt: "\<And>c. c \<noteq> b \<Longrightarrow> memdisk t c = memdisk s c" "length (memdisk t b) = BSIZE"
  shows "bok t" and "bview t = (bview s)(b := d)" and "bheld t = bheld s"
    and "bdirty t = (if q then insert b (bdirty s) else bdirty s - {b})"
proof -
  note bi = bheld_dev [OF ok h]
  have b0: "buf_ok s i" using bokD(7) [OF ok] bi by simp
  have dl: "length (memdisk t c) = BSIZE" for c using dt bokD(5) [OF ok, of c] by (cases "c = b") auto
  have "buf_ok t i"
    by (rule buf_ok_locked) (use b0 bi bt sl bsame_curpid [OF sm] d in \<open>auto simp: locked_def buf_ok_def Let_def\<close>)
  then show okt: "bok t"
    by (intro bok_change [OF ok l sm, of i]) (use bi bt sl dt dl bokD(8) [OF ok] in \<open>auto simp: buf_uniq_def\<close>)
  show "bview t = (bview s)(b := d)" using bview_change [OF ok okt, of i] bi bt dt by auto
  show "bheld t = bheld s" using bt sl by (auto simp: bheld_def locked_def)
  have u: "j = i" if "j < NBUF" "b_dirty (bufs s j)" "b_blockno (bufs s j) = b" for j
    using that bokD(7) [OF ok that(1)] bi bokD(8) [OF ok] by (auto simp: buf_ok_def Let_def buf_uniq_def)
  have f: "b_blockno (bufs t j) = b_blockno (bufs s j)" "b_dirty (bufs t j) = (if j = i then q else b_dirty (bufs s j))"
    for j using bt by simp_all
  show "bdirty t = (if q then insert b (bdirty s) else bdirty s - {b})"
  proof (rule set_eqI)
    fix c
    have "c \<in> bdirty t \<longleftrightarrow> (\<exists>j < NBUF. (if j = i then q else b_dirty (bufs s j)) \<and> b_blockno (bufs s j) = c)"
      by (auto simp: bdirty_def f)
    also have "\<dots> \<longleftrightarrow> (q \<and> c = b) \<or> (\<exists>j < NBUF. j \<noteq> i \<and> b_dirty (bufs s j) \<and> b_blockno (bufs s j) = c)"
      using bi by auto
    also have "\<dots> \<longleftrightarrow> c \<in> (if q then insert b (bdirty s) else bdirty s - {b})"
      using bi u by (cases "c = b") (auto simp: bdirty_def)
    finally show "c \<in> bdirty t \<longleftrightarrow> c \<in> (if q then insert b (bdirty s) else bdirty s - {b})" .
  qed
qed

lemma set_data_law:
  assumes ok: "bok s" and h: "(i, b) \<in> bheld s" and d: "length d = BSIZE"
  shows "bok (set_data i d s) \<and> bsame s (set_data i d s) \<and> bview (set_data i d s) = (bview s)(b := d) \<and>
    memdisk (set_data i d s) = memdisk s \<and> disk_writes (set_data i d s) = disk_writes s \<and>
    bheld (set_data i d s) = bheld s \<and> bdirty (set_data i d s) = bdirty s"
proof -
  let ?t = "set_data i d s"
  have "bufs ?t = (bufs s)(i := (bufs s i)\<lparr>b_data := d, b_dirty := b_dirty (bufs s i)\<rparr>)" by (simp add: set_data_def)
  note B = bok_data [OF ok h _ _ _ this d]
  have "bdirty ?t = bdirty s" by (auto simp: bdirty_def set_data_def)
  then show ?thesis using B(1-3) bokD(1,5) [OF ok] by (simp add: set_data_def)
qed

lemma set_dirty_law:
  assumes ok: "bok s" and h: "(i, b) \<in> bheld s"
  shows "bok (set_dirty i s) \<and> bsame s (set_dirty i s) \<and> bview (set_dirty i s) = bview s \<and>
    memdisk (set_dirty i s) = memdisk s \<and> disk_writes (set_dirty i s) = disk_writes s \<and>
    bheld (set_dirty i s) = bheld s \<and> bdirty (set_dirty i s) = insert b (bdirty s)"
proof -
  let ?t = "set_dirty i s"
  have d: "length (b_data (bufs s i)) = BSIZE"
    using bokD(7) [OF ok, of i] bheld_dev [OF ok h] by (simp add: buf_ok_def Let_def)
  have "bufs ?t = (bufs s)(i := (bufs s i)\<lparr>b_data := b_data (bufs s i), b_dirty := True\<rparr>)" by (simp add: set_dirty_def)
  note B = bok_data [OF ok h _ _ _ this d]
  show ?thesis using B bokD(1,5) [OF ok] bheld_data [OF ok h] by (simp add: set_dirty_def)
qed

lemma bwrite_law:
  assumes ok: "bok s" and h: "(i, b) \<in> bheld s"
  shows "\<exists>t. bwrite i s = Ret () t \<and> bok t \<and> bsame s t \<and> bview t = bview s \<and>
    memdisk t = (memdisk s)(b := bview s b) \<and> disk_writes t = disk_writes s @ [(b, bview s b)] \<and>
    bheld t = bheld s \<and> bdirty t = bdirty s - {b}"
proof -
  note bi = bheld_dev [OF ok h]
  have b0: "buf_ok s i" using bokD(7) [OF ok] bi by simp
  obtain p where p: "curp s = Some p" using bokD(2) [OF ok] by blast
  have sl: "slks s (BufSlk i) = \<lparr>sl_locked = True, sl_pid = curpid s\<rparr>"
    using b0 bi by (cases "slks s (BufSlk i)") (simp add: buf_ok_def Let_def locked_def)
  from bc_holdingsleep [OF bokD(1) [OF ok] _ p, of "BufSlk i"] sl p obtain u where
    u: "holdingsleep (BufSlk i) s = Ret True u" "lk [] u" "bfields s u" "slks u = slks s"
    by (auto simp: curpid_def)
  let ?u = "buf_upd i (\<lambda>x. x\<lparr>b_dirty := True\<rparr>) u"
  have e: "bufs u = bufs s" "memdisk u = memdisk s" "disk_writes u = disk_writes s" "bsame s u"
    using u(3) by (simp_all add: bfields_def)
  have su: "bsame s ?u" by (rule bsame_trans [OF e(4) bsame_buf_upd])
  note cu = bsame_curpid [OF su]
  from iderw_spec [of ?u p i] u(2,4) cu p sl e bi bokD(3,4) [OF ok] b0 obtain t where
    t: "iderw i ?u = Ret () t" "lk [] t" "bsame ?u t" "slks t = slks s"
      "bufs t = (bufs s)(i := (bufs s i)\<lparr>b_dirty := False, b_valid := True\<rparr>)"
      "memdisk t = (memdisk s)(b := b_data (bufs s i))" "disk_writes t = disk_writes s @ [(b, b_data (bufs s i))]"
    by (auto simp: buf_ok_def Let_def)
  have v: "b_valid (bufs s i)" "length (b_data (bufs s i)) = BSIZE" using b0 bi by (simp_all add: buf_ok_def Let_def)
  then have "(bufs s i)\<lparr>b_dirty := False, b_valid := True\<rparr> = (bufs s i)\<lparr>b_dirty := False\<rparr>"
    by (cases "bufs s i") simp
  then have "bufs t = (bufs s)(i := (bufs s i)\<lparr>b_data := b_data (bufs s i), b_dirty := False\<rparr>)"
    using t(5) by simp
  note B = bok_data [OF ok h t(2) bsame_trans [OF su t(3)] t(4) this v(2)]
  have d: "b_data (bufs s i) = bview s b" by (rule bheld_data [OF ok h])
  have "bwrite i s = Ret () t" using u(1) t(1) by (simp add: bwrite_def)
  then show ?thesis using B t(6,7) v(2) d bsame_trans [OF su t(3)] by simp
qed

text \<open>Releasing a buffer moves it to the front of the list.\<close>

definition nolinks :: "buf \<Rightarrow> buf" where
  "nolinks x = x\<lparr>b_next := 0, b_prev := 0\<rparr>"

lemma nolinks_upd [simp]: "nolinks (x\<lparr>b_next := i\<rparr>) = nolinks x" "nolinks (x\<lparr>b_prev := i\<rparr>) = nolinks x"
  by (simp_all add: nolinks_def)

lemma nolinks_eqD:
  assumes "nolinks y = nolinks x"
  shows "b_valid y = b_valid x" "b_dirty y = b_dirty x" "b_dev y = b_dev x" "b_blockno y = b_blockno x"
    "b_refcnt y = b_refcnt x" "b_data y = b_data x"
  using assms by (cases x, cases y, simp add: nolinks_def)+

definition unlink :: "nat \<Rightarrow> 'a bc_scheme \<Rightarrow> 'a bc_scheme" where
  "unlink b s = (let s = buf_upd (b_next (bufs s b)) (\<lambda>x. x\<lparr>b_prev := b_prev (bufs s b)\<rparr>) s
     in buf_upd (b_prev (bufs s b)) (\<lambda>x. x\<lparr>b_next := b_next (bufs s b)\<rparr>) s)"

lemma link_front_sel [simp]:
  "lk L (link_front b s) = lk L s" "bsame s (link_front b s)" "slks (link_front b s) = slks s"
  "memdisk (link_front b s) = memdisk s" "disk_writes (link_front b s) = disk_writes s"
  "nolinks (bufs (link_front b s) j) = nolinks (bufs s j)"
  by (simp_all add: link_front_def Let_def bsame_def kcore_def buf_upd_def lk_def mach_inv_def curp_def cpage_def)

lemma unlink_sel [simp]:
  "lk L (unlink b s) = lk L s" "bsame s (unlink b s)" "slks (unlink b s) = slks s"
  "memdisk (unlink b s) = memdisk s" "disk_writes (unlink b s) = disk_writes s"
  "nolinks (bufs (unlink b s) j) = nolinks (bufs s j)"
  by (simp_all add: unlink_def Let_def bsame_def kcore_def buf_upd_def lk_def mach_inv_def curp_def cpage_def)

lemma bring_link_front:
  assumes "ring (\<lambda>i. b_next (bufs s i)) (\<lambda>i. b_prev (bufs s i)) bhead xs" and "b \<notin> set xs" and "b \<noteq> bhead"
  shows "ring (\<lambda>i. b_next (bufs (link_front b s) i)) (\<lambda>i. b_prev (bufs (link_front b s) i)) bhead (b # xs)"
proof -
  let ?nx = "\<lambda>i. b_next (bufs s i)" and ?pv = "\<lambda>i. b_prev (bufs s i)"
  have "(\<lambda>i. b_next (bufs (link_front b s) i)) = ?nx(b := ?nx bhead, bhead := b)"
    "(\<lambda>i. b_prev (bufs (link_front b s) i)) = ?pv(b := bhead, ?nx bhead := b)"
    using assms(3) by (auto simp: link_front_def Let_def fun_eq_iff)
  then show ?thesis using ring_insert [OF assms] by simp
qed

lemma bring_unlink:
  assumes r: "ring (\<lambda>i. b_next (bufs s i)) (\<lambda>i. b_prev (bufs s i)) bhead (ys @ b # zs)"
  shows "ring (\<lambda>i. b_next (bufs (unlink b s) i)) (\<lambda>i. b_prev (bufs (unlink b s) i)) bhead (ys @ zs)"
proof -
  let ?nx = "\<lambda>i. b_next (bufs s i)" and ?pv = "\<lambda>i. b_prev (bufs s i)"
  have "?nx b = hd (zs @ [bhead])" "?pv b = last (bhead # ys)" by (rule ring_split [OF r])+
  moreover have "distinct (bhead # ys @ b # zs)" using r by (simp add: ring_def)
  ultimately have ne: "?nx b \<noteq> b" "?pv b \<noteq> b"
    using last_in_set [of "bhead # ys"] by (cases zs; auto split: if_splits)+
  then have "(\<lambda>i. b_next (bufs (unlink b s) i)) = ?nx(?pv b := ?nx b)"
    "(\<lambda>i. b_prev (bufs (unlink b s) i)) = ?pv(?nx b := ?pv b)"
    by (auto simp: unlink_def Let_def fun_eq_iff)
  then show ?thesis using ring_remove [OF r] by simp
qed

lemma brelse_spec:
  assumes ok: "bok s" and h: "(i, b) \<in> bheld s" and xs: "bring s xs"
  shows "\<exists>t. brelse i s = Ret () t \<and> lk [] t \<and> bsame s t \<and> memdisk t = memdisk s \<and> disk_writes t = disk_writes s \<and>
    slks t = (slks s)(BufSlk i := \<lparr>sl_locked = False, sl_pid = 0\<rparr>) \<and>
    (\<forall>j. nolinks (bufs t j) = nolinks (((bufs s)(i := (bufs s i)\<lparr>b_refcnt := 0\<rparr>)) j)) \<and>
    bring t (i # remove1 i xs)"
proof -
  note bi = bheld_dev [OF ok h]
  have b0: "buf_ok s i" using bokD(7) [OF ok] bi by simp
  obtain p where p: "curp s = Some p" using bokD(2) [OF ok] by blast
  from bc_holdingsleep [OF bokD(1) [OF ok] _ p, of "BufSlk i"] b0 bi p obtain u where
    u: "holdingsleep (BufSlk i) s = Ret True u" "lk [] u" "bfields s u" "slks u = slks s"
    by (auto simp: curpid_def buf_ok_def Let_def locked_def)
  from bc_releasesleep [OF u(2), of "BufSlk i"] obtain v where
    v: "releasesleep (BufSlk i) u = Ret () v" "lk [] v" "bfields u v"
      "slks v = (slks s)(BufSlk i := \<lparr>sl_locked = False, sl_pid = 0\<rparr>)" using u(4) by auto
  from bc_acquire [OF v(2), of BcacheLock] obtain w where
    w: "acquire BcacheLock v = Ret () w" "lk [BcacheLock] w" "bfields v w" "slks w = slks v" by auto
  have e: "bufs w = bufs s" "memdisk w = memdisk s" "disk_writes w = disk_writes s" "bsame s w"
    using u(3) v(3) w(3) bsame_trans [OF bsame_trans, of s u v w] by (simp_all add: bfields_def)
  let ?x = "buf_upd i (\<lambda>x. x\<lparr>b_refcnt := b_refcnt x - 1\<rparr>) w"
  let ?y = "link_front i (unlink i ?x)"
  from bc_release [of "[BcacheLock]" ?y BcacheLock] w(2) obtain t where
    t: "release BcacheLock ?y = Ret () t" "lk [] t" "bfields ?y t" "slks t = slks ?y" by auto
  have r1: "b_refcnt (bufs s i) = 1" using b0 bi by (simp add: buf_ok_def Let_def)
  have "bsame ?y t" using t(3) by (simp add: bfields_def)
  then have "bsame s t"
    by (rule bsame_trans [OF e(4) bsame_trans [OF bsame_buf_upd bsame_trans [OF unlink_sel(2) bsame_trans [OF link_front_sel(2)]]]])
  moreover have "brelse i s = Ret () t"
    using u(1) v(1) w(1) t(1) e(1) r1 by (simp add: brelse_def Let_def unlink_def)
  moreover have "nolinks (bufs t j) = nolinks (((bufs s)(i := (bufs s i)\<lparr>b_refcnt := 0\<rparr>)) j)" for j
    using t(3) e(1) r1 by (simp add: bfields_def)
  moreover have "bring t (i # remove1 i xs)"
  proof -
    have dx: "distinct xs" "set xs = {..<NBUF}" using xs by (simp_all add: bring_def ring_def)
    then obtain ys zs where s: "xs = ys @ i # zs" using bi split_list [of i xs] by auto
    have "ring (\<lambda>j. b_next (bufs ?x j)) (\<lambda>j. b_prev (bufs ?x j)) bhead (ys @ i # zs)"
    proof -
      have "(\<lambda>j. b_next (bufs ?x j)) = (\<lambda>j. b_next (bufs s j))" "(\<lambda>j. b_prev (bufs ?x j)) = (\<lambda>j. b_prev (bufs s j))"
        using e(1) by (auto simp: fun_eq_iff)
      with xs s show ?thesis by (simp add: bring_def)
    qed
    from bring_unlink [OF this] dx s bi
    have "ring (\<lambda>j. b_next (bufs ?y j)) (\<lambda>j. b_prev (bufs ?y j)) bhead (i # ys @ zs)"
      by (intro bring_link_front) auto
    moreover have "remove1 i xs = ys @ zs" using dx s by (simp add: remove1_append)
    moreover have "bufs t = bufs ?y" using t(3) by (simp add: bfields_def)
    moreover have "set (i # ys @ zs) = {..<NBUF}" using dx(2) s by auto
    ultimately show ?thesis by (simp add: bring_def)
  qed
  ultimately show ?thesis using t v(4) w(4) e by (simp add: bfields_def)
qed

lemma brelse_law:
  assumes ok: "bok s" and h: "(i, b) \<in> bheld s" and cl: "b \<in> bdirty s \<or> bview s b = memdisk s b"
  shows "\<exists>t. brelse i s = Ret () t \<and> bok t \<and> bsame s t \<and> bview t = bview s \<and> memdisk t = memdisk s \<and>
    disk_writes t = disk_writes s \<and> bdirty t = bdirty s \<and> bheld t = bheld s - {(i, b)}"
proof -
  note bi = bheld_dev [OF ok h]
  obtain xs where xs: "bring s xs" using bokD(6) [OF ok] by blast
  from brelse_spec [OF ok h xs] obtain t where
    t: "brelse i s = Ret () t" "lk [] t" "bsame s t" "memdisk t = memdisk s" "disk_writes t = disk_writes s"
      "slks t = (slks s)(BufSlk i := \<lparr>sl_locked = False, sl_pid = 0\<rparr>)" "bring t (i # remove1 i xs)"
      and n: "\<And>j. nolinks (bufs t j) = nolinks (((bufs s)(i := (bufs s i)\<lparr>b_refcnt := 0\<rparr>)) j)" by blast
  have f: "b_valid (bufs t j) = b_valid (bufs s j)" "b_dirty (bufs t j) = b_dirty (bufs s j)"
    "b_dev (bufs t j) = b_dev (bufs s j)" "b_blockno (bufs t j) = b_blockno (bufs s j)"
    "b_data (bufs t j) = b_data (bufs s j)" "b_refcnt (bufs t j) = (if j = i then 0 else b_refcnt (bufs s j))" for j
    using nolinks_eqD [OF n [of j]] by (auto split: if_splits)
  note c = bsame_curpid [OF t(3)]
  have lk: "locked t j \<longleftrightarrow> j \<noteq> i \<and> locked s j" for j using t(6) by (simp add: locked_def)
  have d: "b_dirty (bufs s i) \<or> b_data (bufs s i) = memdisk s b"
  proof (cases "b \<in> bdirty s")
    case True
    from bdirty_cached [OF ok this] buf_of_eq [OF bokD(8) [OF ok], of i b] bi show ?thesis by auto
  qed (use cl bheld_data [OF ok h] in auto)
  have "buf_ok t j" if "j < NBUF" for j
    using bokD(7) [OF ok that] d bi f [of j] c t(4,6) lk [of j]
    by (cases "j = i") (auto simp: buf_ok_def Let_def)
  moreover have "buf_uniq t" using bokD(8) [OF ok] f by (simp add: buf_uniq_def)
  ultimately have "bok t" using ok t c by (auto simp: bok_def)
  moreover have "bview t = bview s"
    using buf_of_cong [of t s] f t(4) by (auto simp: bview_def fun_eq_iff split: option.splits)
  moreover have "bdirty t = bdirty s" using f by (simp add: bdirty_def)
  moreover have "bheld t = bheld s - {(i, b)}" using f lk bi by (auto simp: bheld_def)
  ultimately show ?thesis using t by blast
qed

lemma bview_length: "bok s \<Longrightarrow> length (bview s b) = BSIZE"
proof (cases "buf_of s b")
  case (Some i)
  assume ok: "bok s"
  from buf_of_SomeD [OF Some] bokD(7) [OF ok, of i] Some show ?thesis by (simp add: bview_def buf_ok_def Let_def)
qed (simp add: bview_def bokD(5))

lemma bview_clean: "bok s \<Longrightarrow> b \<notin> bdirty s \<Longrightarrow> b \<notin> snd ` bheld s \<Longrightarrow> bview s b = memdisk s b"
proof (cases "buf_of s b")
  case (Some i)
  assume a: "bok s" "b \<notin> bdirty s" "b \<notin> snd ` bheld s"
  note i = buf_of_SomeD [OF Some]
  have "\<not> locked s i" using bheld_iff [OF a(1) Some] a(3) by simp
  moreover have "\<not> b_dirty (bufs s i)" using a(2) i by (auto simp: bdirty_def)
  ultimately show ?thesis using bokD(7) [OF a(1), of i] i Some by (simp add: bview_def buf_ok_def Let_def)
qed (simp add: bview_def)

interpretation bio: block_cache "bread 1" bwrite brelse set_data "\<lambda>s i. b_data (bufs s i)" bok bview memdisk
  disk_writes bheld bdirty disksize bsame
proof (unfold_locales, goal_cases)
  case (1 s b) then show ?case by (rule bread_law)
next
  case (2 s i b) then show ?case by (rule bheld_data)
next
  case (3 s i b d) then show ?case by (rule set_data_law)
next
  case (4 s i b) then show ?case by (rule bwrite_law)
next
  case (5 s i b) then show ?case by (rule brelse_law)
next
  case (6 s b) then show ?case by (rule bview_length)
next
  case (7 s b) then show ?case by (rule bview_clean)
next
  case (8 s t u) then show ?case by (rule bsame_trans)
next
  case (9 s t) then show ?case by (simp add: bsame_def)
next
  case (10 s i b c) then show ?case by (auto simp: bheld_def)
qed

section \<open>\<open>binit\<close>\<close>

lemma lk_initlock: "lk L s \<Longrightarrow> l \<notin> set L \<Longrightarrow> lk L (initlock l s)"
proof -
  assume a: "lk L s" "l \<notin> set L"
  have "locks s l = \<lparr>l_locked = False, l_cpu = None\<rparr>"
    using mach_inv_free [of s "(\<lambda>_. [])(cur s := L)" l] lk_free [OF a] a(1) unfolding lk_def by blast
  then have "locks (initlock l s) = locks s" by (simp add: initlock_def lock_upd_def fun_eq_iff)
  then show ?thesis
    using a(1) mach_inv_cong [of s _ "initlock l s"] by (simp add: lk_def initlock_def lock_upd_def)
qed

lemma initlock_sel [simp]:
  "curp (initlock l s) = curp s" "procs (initlock l s) = procs s" "k_mem (initlock l s) = k_mem s"
  "slks (initlock l s) = slks s" "bufs (initlock l s) = bufs s" "memdisk (initlock l s) = memdisk s"
  "disksize (initlock l s) = disksize s" "disk_writes (initlock l s) = disk_writes s" "bc.more (initlock l s) = bc.more s"
  by (simp_all add: initlock_def lock_upd_def curp_def cpage_def)

lemma bc_slk_upd [simp]:
  "bufs (slk_upd k f s) = bufs s" "memdisk (slk_upd k f s) = memdisk s" "disksize (slk_upd k f s) = disksize s"
  "disk_writes (slk_upd k f s) = disk_writes s" "bc.more (slk_upd k f s) = bc.more s"
  by (simp_all add: slk_upd_def)

lemma initsleeplock_sel [simp]:
  "curp (initsleeplock k s) = curp s" "procs (initsleeplock k s) = procs s"
  "bufs (initsleeplock k s) = bufs s" "memdisk (initsleeplock k s) = memdisk s"
  "disksize (initsleeplock k s) = disksize s" "disk_writes (initsleeplock k s) = disk_writes s"
  "bc.more (initsleeplock k s) = bc.more s"
  by (simp_all add: initsleeplock_def)

lemma slks_initlock [simp]: "slks (initlock l s) = slks s"
  by (simp add: initlock_def lock_upd_def)

lemma slks_initsleeplock [simp]:
  "slks (initsleeplock k s) = (slks s)(k := \<lparr>sl_locked = False, sl_pid = 0\<rparr>)"
  by (cases "slks s k") (simp add: initsleeplock_def)

lemma lk_initsleeplock: "lk [] s \<Longrightarrow> lk [] (initsleeplock k s)"
  using lk_initlock [of "[]" s "SlkLock k"] by (simp add: initsleeplock_def)

text \<open>A cache at boot: no buffer holds a block.\<close>

definition fresh :: "'a bc_scheme \<Rightarrow> bool" where
  "fresh s \<longleftrightarrow> lk [] s \<and> curp s \<noteq> None \<and> 0 \<le> disksize s \<and> disksize s < 2 ^ 31 \<and>
     (\<forall>b. length (memdisk s b) = BSIZE) \<and>
     (\<forall>i < NBUF. b_dev (bufs s i) = 0 \<and> b_refcnt (bufs s i) = 0 \<and> \<not> b_dirty (bufs s i) \<and> length (b_data (bufs s i)) = BSIZE)"

lemma binit_loop:
  assumes l: "lk [] s" and r: "ring (\<lambda>i. b_next (bufs s i)) (\<lambda>i. b_prev (bufs s i)) bhead []" and m: "m \<le> NBUF"
  defines "t \<equiv> fold (\<lambda>b s. link_front b (initsleeplock (BufSlk b) s)) [0..<m] s"
  shows "lk [] t \<and> ring (\<lambda>i. b_next (bufs t i)) (\<lambda>i. b_prev (bufs t i)) bhead (rev [0..<m]) \<and>
    (\<forall>j. nolinks (bufs t j) = nolinks (bufs s j)) \<and> (\<forall>j < m. \<not> locked t j) \<and> curp t = curp s \<and>
    memdisk t = memdisk s \<and> disksize t = disksize s"
  using m unfolding t_def
proof (induction m)
  case 0
  show ?case using l r by simp
next
  case (Suc m)
  let ?u = "fold (\<lambda>b s. link_front b (initsleeplock (BufSlk b) s)) [0..<m] s"
  let ?v = "initsleeplock (BufSlk m) ?u"
  have "fold (\<lambda>b s. link_front b (initsleeplock (BufSlk b) s)) [0..<Suc m] s = link_front m ?v" by simp
  moreover have "ring (\<lambda>i. b_next (bufs (link_front m ?v) i)) (\<lambda>i. b_prev (bufs (link_front m ?v) i)) bhead (m # rev [0..<m])"
    using Suc by (intro bring_link_front) auto
  moreover have "lk [] ?v" using Suc lk_initsleeplock [of ?u "BufSlk m"] by simp
  moreover have "bsame ?v (link_front m ?v)" by simp
  ultimately show ?case using Suc kcoreD [of ?v "link_front m ?v"] by (auto simp: locked_def bsame_def less_Suc_eq)
qed

lemma binit_nolinks:
  assumes "fresh s"
  shows "nolinks (bufs (binit s) j) = nolinks (bufs s j)"
proof -
  let ?s = "buf_upd bhead (\<lambda>x. x\<lparr>b_next := bhead\<rparr>) (buf_upd bhead (\<lambda>x. x\<lparr>b_prev := bhead\<rparr>) (initlock BcacheLock s))"
  have l: "lk [] ?s" using lk_initlock [of "[]" s BcacheLock] assms by (simp add: fresh_def)
  have r: "ring (\<lambda>i. b_next (bufs ?s i)) (\<lambda>i. b_prev (bufs ?s i)) bhead []" by (simp add: ring_def)
  have "binit s = fold (\<lambda>b s. link_front b (initsleeplock (BufSlk b) s)) [0..<NBUF] ?s"
    by (simp add: binit_def Let_def)
  with binit_loop [OF l r order_refl] show ?thesis by simp
qed

lemma binit_ok:
  assumes "fresh s"
  shows "bok (binit s)" and "bheld (binit s) = {}" and "bdirty (binit s) = {}" and "memdisk (binit s) = memdisk s"
    and "bring (binit s) (rev [0..<NBUF])" and "disksize (binit s) = disksize s"
proof -
  let ?s = "buf_upd bhead (\<lambda>x. x\<lparr>b_next := bhead\<rparr>) (buf_upd bhead (\<lambda>x. x\<lparr>b_prev := bhead\<rparr>) (initlock BcacheLock s))"
  have f: "lk [] s" "curp s \<noteq> None" using assms by (simp_all add: fresh_def)
  have l: "lk [] ?s" using lk_initlock [OF f(1), of BcacheLock] by simp
  have r: "ring (\<lambda>i. b_next (bufs ?s i)) (\<lambda>i. b_prev (bufs ?s i)) bhead []" by (simp add: ring_def)
  have bt: "binit s = fold (\<lambda>b s. link_front b (initsleeplock (BufSlk b) s)) [0..<NBUF] ?s"
    by (simp add: binit_def Let_def)
  note B = binit_loop [OF l r order_refl, folded bt]
  have n: "nolinks (bufs (binit s) j) = nolinks (bufs s j)" for j by (rule binit_nolinks [OF assms])
  note N = nolinks_eqD [OF n]
  show br: "bring (binit s) (rev [0..<NBUF])"
    unfolding bring_def using B by (metis atLeast0LessThan set_rev set_upt)
  show md: "memdisk (binit s) = memdisk s" and ds: "disksize (binit s) = disksize s" using B by simp_all
  have nl: "\<not> locked (binit s) j" if "j < NBUF" for j using B that by blast
  have "buf_ok (binit s) j" "b_dev (bufs (binit s) j) = 0" "\<not> b_dirty (bufs (binit s) j)" if "j < NBUF" for j
    using assms that N [of j] nl [OF that] by (simp_all add: fresh_def buf_ok_def Let_def)
  moreover from this have "buf_uniq (binit s)" by (simp add: buf_uniq_def)
  ultimately show "bok (binit s)" "bdirty (binit s) = {}"
    using B assms br by (auto simp: bok_def fresh_def bdirty_def)
  show "bheld (binit s) = {}" using nl by (auto simp: bheld_def)
qed

end
