(* ===== verification/Fs_Layout.thy ===== *)
theory Fs_Layout
  imports Bio_Inv
begin

text \<open>
  The on-disk format of \<^verbatim>\<open>libs/fs.h\<close>: little-endian integers in a block, the super block, the
  inode structure and the directory entry, each with its reader and writer, and the block addresses
  of inodes and of bitmap bits.
\<close>

unbundle bit_operations_syntax

section \<open>Bytes of a block\<close>

text \<open>The effect of a \<open>memmove\<close> of \<open>xs\<close> to offset \<open>o\<close>, and the bytes a \<open>memmove\<close> of \<open>n\<close> bytes reads.\<close>

definition splice :: "uchar list \<Rightarrow> nat \<Rightarrow> uchar list \<Rightarrow> uchar list" where
  "splice d off xs = take off d @ xs @ drop (off + length xs) d"

definition slice :: "uchar list \<Rightarrow> nat \<Rightarrow> nat \<Rightarrow> uchar list" where
  "slice d off n = take n (drop off d)"

definition bytes32 :: "uint \<Rightarrow> uchar list" where
  "bytes32 v = [ucast v, ucast (drop_bit 8 v), ucast (drop_bit 16 v), ucast (drop_bit 24 v)]"

definition word32 :: "uchar list \<Rightarrow> uint" where
  "word32 b = (ucast (b ! 0) :: uint) OR push_bit 8 (ucast (b ! 1)) OR push_bit 16 (ucast (b ! 2))
     OR push_bit 24 (ucast (b ! 3))"

definition bytes16 :: "ushort \<Rightarrow> uchar list" where
  "bytes16 v = [ucast v, ucast (drop_bit 8 v)]"

definition word16 :: "uchar list \<Rightarrow> ushort" where
  "word16 b = (ucast (b ! 0) :: ushort) OR push_bit 8 (ucast (b ! 1))"

definition get32 :: "uchar list \<Rightarrow> nat \<Rightarrow> uint" where
  "get32 d off = word32 (slice d off 4)"

definition put32 :: "nat \<Rightarrow> uint \<Rightarrow> uchar list \<Rightarrow> uchar list" where
  "put32 off v d = splice d off (bytes32 v)"

definition get16 :: "uchar list \<Rightarrow> nat \<Rightarrow> ushort" where
  "get16 d off = word16 (slice d off 2)"

definition put16 :: "nat \<Rightarrow> ushort \<Rightarrow> uchar list \<Rightarrow> uchar list" where
  "put16 off v d = splice d off (bytes16 v)"

lemma length_splice [simp]: "off + length xs \<le> length d \<Longrightarrow> length (splice d off xs) = length d"
  by (simp add: splice_def)

lemma length_slice [simp]: "off + n \<le> length d \<Longrightarrow> length (slice d off n) = n"
  by (simp add: slice_def)

lemma slice_splice_same [simp]: "off \<le> length d \<Longrightarrow> slice (splice d off xs) off (length xs) = xs"
  by (simp add: slice_def splice_def)

lemma nth_slice [simp]: "i < n \<Longrightarrow> off + n \<le> length d \<Longrightarrow> slice d off n ! i = d ! (off + i)"
  by (simp add: slice_def)

lemma nth_splice:
  assumes "off + length xs \<le> length d" and "i < length d"
  shows "splice d off xs ! i = (if off \<le> i \<and> i < off + length xs then xs ! (i - off) else d ! i)"
  using assms by (auto simp: splice_def nth_append min_def)

lemma slice_splice_other:
  assumes "off + length xs \<le> length d" and "o' + n \<le> length d" and "o' + n \<le> off \<or> off + length xs \<le> o'"
  shows "slice (splice d off xs) o' n = slice d o' n"
  by (rule nth_equalityI) (use assms in \<open>auto simp: nth_splice\<close>)

lemma length_bytes [simp]: "length (bytes32 v) = 4" "length (bytes16 w) = 2"
  by (simp_all add: bytes32_def bytes16_def)

lemma word32_bytes32 [simp]: "word32 (bytes32 v) = v"
  using bytes_of_word [of v] by (simp add: word32_def bytes32_def numeral_3_eq_3 numeral_2_eq_2)

lemma word16_bytes16 [simp]: "word16 (bytes16 v) = v"
  unfolding word16_def bytes16_def
  by (rule bit_word_eqI) (auto simp: bit_or_iff bit_push_bit_iff bit_ucast_iff bit_drop_bit_eq bit_imp_le_length)

lemma get32_put32 [simp]: "off \<le> length d \<Longrightarrow> get32 (put32 off v d) off = v"
  using slice_splice_same [of off d "bytes32 v"] by (simp add: get32_def put32_def)

lemma get32_put32_other:
  "off + 4 \<le> length d \<Longrightarrow> o' + 4 \<le> length d \<Longrightarrow> o' + 4 \<le> off \<or> off + 4 \<le> o' \<Longrightarrow>
   get32 (put32 off v d) o' = get32 d o'"
  by (simp add: get32_def put32_def slice_splice_other)

lemma get16_put16 [simp]: "off \<le> length d \<Longrightarrow> get16 (put16 off v d) off = v"
  using slice_splice_same [of off d "bytes16 v"] by (simp add: get16_def put16_def)

lemma length_put [simp]:
  "off + 4 \<le> length d \<Longrightarrow> length (put32 off v d) = length d" "off + 2 \<le> length d \<Longrightarrow> length (put16 off w d) = length d"
  by (simp_all add: put32_def put16_def)

section \<open>Structures\<close>

record superblock =
  sb_size :: uint
  sb_nblocks :: uint
  sb_ninodes :: uint
  sb_nlog :: uint
  sb_logstart :: uint
  sb_inodestart :: uint
  sb_bmapstart :: uint

definition get_superblock :: "uchar list \<Rightarrow> superblock" where
  "get_superblock d = \<lparr>sb_size = get32 d 0, sb_nblocks = get32 d 4, sb_ninodes = get32 d 8, sb_nlog = get32 d 12,
     sb_logstart = get32 d 16, sb_inodestart = get32 d 20, sb_bmapstart = get32 d 24\<rparr>"

abbreviation (input) ROOTINO :: uint where "ROOTINO \<equiv> 1"
abbreviation (input) NDIRECT :: nat where "NDIRECT \<equiv> 12"
abbreviation (input) NINDIRECT :: nat where "NINDIRECT \<equiv> 128"
abbreviation (input) MAXFILE :: nat where "MAXFILE \<equiv> 140"
abbreviation (input) DIRSIZ :: nat where "DIRSIZ \<equiv> 14"

text \<open>\<open>struct dinode\<close>: 64 bytes, eight to a block.\<close>

record dinode =
  d_type :: ushort
  d_major :: ushort
  d_minor :: ushort
  d_nlink :: ushort
  d_size :: uint
  d_addrs :: "uint list"

definition get_dinode :: "uchar list \<Rightarrow> nat \<Rightarrow> dinode" where
  "get_dinode d off = \<lparr>d_type = get16 d off, d_major = get16 d (off + 2), d_minor = get16 d (off + 4),
     d_nlink = get16 d (off + 6), d_size = get32 d (off + 8),
     d_addrs = map (\<lambda>k. get32 d (off + 12 + 4 * k)) [0..<NDIRECT + 1]\<rparr>"

definition dinode_bytes :: "dinode \<Rightarrow> uchar list" where
  "dinode_bytes di = bytes16 (d_type di) @ bytes16 (d_major di) @ bytes16 (d_minor di) @ bytes16 (d_nlink di) @
     bytes32 (d_size di) @ concat (map bytes32 (d_addrs di))"

definition put_dinode :: "nat \<Rightarrow> dinode \<Rightarrow> uchar list \<Rightarrow> uchar list" where
  "put_dinode off di d = splice d off (dinode_bytes di)"

definition IPB :: uint where "IPB = 8"
definition BPB :: uint where "BPB = 4096"

definition IBLOCK :: "uint \<Rightarrow> superblock \<Rightarrow> uint" where
  "IBLOCK i sb = i div IPB + sb_inodestart sb"

definition BBLOCK :: "uint \<Rightarrow> superblock \<Rightarrow> uint" where
  "BBLOCK b sb = b div BPB + sb_bmapstart sb"

text \<open>\<open>struct dirent\<close>: 16 bytes.\<close>

record dirent =
  de_inum :: ushort
  de_name :: "uchar list"

definition get_dirent :: "uchar list \<Rightarrow> dirent" where
  "get_dirent d = \<lparr>de_inum = get16 d 0, de_name = slice d 2 DIRSIZ\<rparr>"

definition dirent_bytes :: "dirent \<Rightarrow> uchar list" where
  "dirent_bytes de = bytes16 (de_inum de) @ de_name de"

end
