(* ===== verification/Log.thy ===== *)
theory Log
  imports Fs_Layout
begin

text \<open>
  The write-ahead log, \<^verbatim>\<open>kernel/log.c\<close>, with \<open>readsb\<close> of \<^verbatim>\<open>kernel/fs.c\<close>.  Block numbers are
  unsigned 32-bit words also where the source keeps them in an \<open>int\<close>; an access outside the array
  \<open>block[LOGSIZE]\<close> is a \<open>Fault\<close>.
\<close>

record logheader =
  lh_n :: int
  lh_block :: "uint list"

record lg = bc +
  lg_start :: int
  lg_size :: int
  lg_outstanding :: int
  lg_committing :: bool
  lg_dev :: uint
  lg_lh :: logheader

definition lh_upd :: "(logheader \<Rightarrow> logheader) \<Rightarrow> 'a lg_scheme \<Rightarrow> 'a lg_scheme" where
  "lh_upd f s = s\<lparr>lg_lh := f (lg_lh s)\<rparr>"

text \<open>The block of the disk that holds entry \<open>tail\<close> of the log.\<close>

definition log_block :: "'a lg_scheme \<Rightarrow> nat \<Rightarrow> uint" where
  "log_block s tail = of_int (lg_start s + int tail + 1)"

definition readsb :: "uint \<Rightarrow> 'a bc_scheme \<Rightarrow> (superblock, 'a bc_scheme) kres" where
  "readsb dev s =
     bindK (bread dev 1 s) (\<lambda>bp s.
     let sb = get_superblock (b_data (bufs s bp)) in
     bindK (brelse bp s) (\<lambda>_ s. Ret sb s))"

definition install_trans :: "'a lg_scheme \<Rightarrow> (unit, 'a lg_scheme) kres" where
  "install_trans s =
     forK [0..<nat (lh_n (lg_lh s))] (\<lambda>tail s.
       bindK (bread (lg_dev s) (log_block s tail) s) (\<lambda>lbuf s.
       if length (lh_block (lg_lh s)) \<le> tail then Fault else
       bindK (bread (lg_dev s) (lh_block (lg_lh s) ! tail) s) (\<lambda>dbuf s.
       let s = set_data dbuf (b_data (bufs s lbuf)) s in
       bindK (bwrite dbuf s) (\<lambda>_ s.
       bindK (brelse lbuf s) (\<lambda>_ s.
       brelse dbuf s))))) s"

text \<open>The header block: \<open>n\<close> at offset 0, the block numbers from offset 4.\<close>

definition read_head :: "'a lg_scheme \<Rightarrow> (unit, 'a lg_scheme) kres" where
  "read_head s =
     bindK (bread (lg_dev s) (of_int (lg_start s)) s) (\<lambda>buf s.
     let d = b_data (bufs s buf);
         s = lh_upd (\<lambda>h. h\<lparr>lh_n := sint (get32 d 0)\<rparr>) s in
     bindK (forK [0..<nat (lh_n (lg_lh s))] (\<lambda>i s.
       if length (lh_block (lg_lh s)) \<le> i then Fault
       else Ret () (lh_upd (\<lambda>h. h\<lparr>lh_block := (lh_block h)[i := get32 d (4 + 4 * i)]\<rparr>) s)) s) (\<lambda>_ s.
     brelse buf s))"

definition header_bytes :: "logheader \<Rightarrow> uchar list \<Rightarrow> uchar list" where
  "header_bytes h d = fold (\<lambda>i. put32 (4 + 4 * i) (lh_block h ! i)) [0..<nat (lh_n h)] (put32 0 (of_int (lh_n h)) d)"

definition write_head :: "'a lg_scheme \<Rightarrow> (unit, 'a lg_scheme) kres" where
  "write_head s =
     bindK (bread (lg_dev s) (of_int (lg_start s)) s) (\<lambda>buf s.
     if int (length (lh_block (lg_lh s))) < lh_n (lg_lh s) then Fault
     else
       let s = set_data buf (header_bytes (lg_lh s) (b_data (bufs s buf))) s in
       bindK (bwrite buf s) (\<lambda>_ s.
       brelse buf s))"

definition recover_from_log :: "'a lg_scheme \<Rightarrow> (unit, 'a lg_scheme) kres" where
  "recover_from_log s =
     bindK (read_head s) (\<lambda>_ s.
     bindK (install_trans s) (\<lambda>_ s.
     write_head (lh_upd (\<lambda>h. h\<lparr>lh_n := 0\<rparr>) s)))"

text \<open>\<open>initlog\<close>; the size of \<open>struct logheader\<close> is 4 + 4 * LOGSIZE, less than a block.\<close>

definition initlog :: "uint \<Rightarrow> 'a lg_scheme \<Rightarrow> (unit, 'a lg_scheme) kres" where
  "initlog dev s =
     (if 4 + 4 * LOGSIZE \<ge> int BSIZE then Panic ''initlog: too big logheader''
      else
        let s = initlock LogLock s in
        bindK (readsb dev s) (\<lambda>sb s.
        recover_from_log (s\<lparr>lg_start := sint (sb_logstart sb), lg_size := sint (sb_nlog sb), lg_dev := dev\<rparr>)))"

text \<open>\<open>begin_op\<close>: the loop continues with \<open>begin_op_loop\<close> after a wakeup, \<open>log.lock\<close> held.\<close>

definition begin_op_loop :: "'a lg_scheme \<Rightarrow> (unit, 'a lg_scheme) kres" where
  "begin_op_loop s =
     (if lg_committing s then Sleeps ChanLog LogLock s
      else if lh_n (lg_lh s) + (lg_outstanding s + 1) * MAXOPBLOCKS > LOGSIZE then Sleeps ChanLog LogLock s
      else release LogLock (s\<lparr>lg_outstanding := lg_outstanding s + 1\<rparr>))"

definition begin_op :: "'a lg_scheme \<Rightarrow> (unit, 'a lg_scheme) kres" where
  "begin_op s = bindK (acquire LogLock s) (\<lambda>_ s. begin_op_loop s)"

definition write_log :: "'a lg_scheme \<Rightarrow> (unit, 'a lg_scheme) kres" where
  "write_log s =
     forK [0..<nat (lh_n (lg_lh s))] (\<lambda>tail s.
       bindK (bread (lg_dev s) (log_block s tail) s) (\<lambda>to s.
       if length (lh_block (lg_lh s)) \<le> tail then Fault else
       bindK (bread (lg_dev s) (lh_block (lg_lh s) ! tail) s) (\<lambda>from s.
       let s = set_data to (b_data (bufs s from)) s in
       bindK (bwrite to s) (\<lambda>_ s.
       bindK (brelse from s) (\<lambda>_ s.
       brelse to s))))) s"

definition commit :: "'a lg_scheme \<Rightarrow> (unit, 'a lg_scheme) kres" where
  "commit s =
     (if lh_n (lg_lh s) > 0 then
        bindK (write_log s) (\<lambda>_ s.
        bindK (write_head s) (\<lambda>_ s.
        bindK (install_trans s) (\<lambda>_ s.
        write_head (lh_upd (\<lambda>h. h\<lparr>lh_n := 0\<rparr>) s))))
      else Ret () s)"

definition end_op :: "'a lg_scheme \<Rightarrow> (unit, 'a lg_scheme) kres" where
  "end_op s =
     bindK (acquire LogLock s) (\<lambda>_ s.
     let s = s\<lparr>lg_outstanding := lg_outstanding s - 1\<rparr> in
     if lg_committing s then Panic ''log.committing''
     else
       bindK (if lg_outstanding s = 0 then Ret True (s\<lparr>lg_committing := True\<rparr>)
              else bindK (wakeup ChanLog s) (\<lambda>_ s. Ret False s)) (\<lambda>do_commit s.
       bindK (release LogLock s) (\<lambda>_ s.
       if do_commit then
         bindK (commit s) (\<lambda>_ s.
         bindK (acquire LogLock s) (\<lambda>_ s.
         bindK (wakeup ChanLog (s\<lparr>lg_committing := False\<rparr>)) (\<lambda>_ s.
         release LogLock s)))
       else Ret () s)))"

text \<open>The search of \<open>log_write\<close> for an entry of the block: the index where the loop stops.\<close>

fun absorb :: "uint list \<Rightarrow> nat \<Rightarrow> uint \<Rightarrow> nat" where
  "absorb (x # xs) (Suc n) b = (if x = b then 0 else Suc (absorb xs n b))"
| "absorb xs n b = 0"

definition log_write :: "nat \<Rightarrow> 'a lg_scheme \<Rightarrow> (unit, 'a lg_scheme) kres" where
  "log_write b s =
     (if lh_n (lg_lh s) \<ge> LOGSIZE \<or> lh_n (lg_lh s) \<ge> lg_size s - 1 then Panic ''too big a transaction''
      else if lg_outstanding s < 1 then Panic ''log_write outside of trans''
      else
        bindK (acquire LogLock s) (\<lambda>_ s.
        let i = absorb (lh_block (lg_lh s)) (nat (lh_n (lg_lh s))) (b_blockno (bufs s b)) in
        if length (lh_block (lg_lh s)) \<le> i then Fault
        else
          let s = lh_upd (\<lambda>h. h\<lparr>lh_block := (lh_block h)[i := b_blockno (bufs s b)]\<rparr>) s;
              s = (if int i = lh_n (lg_lh s) then lh_upd (\<lambda>h. h\<lparr>lh_n := lh_n h + 1\<rparr>) s else s);
              s = set_dirty b s
          in release LogLock s))"

end
