(* ===== verification/Uaccess.thy ===== *)
theory Uaccess
  imports Vm
begin

text \<open>
  Loads and stores at virtual addresses.  Kernel code dereferences user pointers directly, with the
  page table of the running process loaded; the processor translates them.  Addresses from
  \<open>KERNBASE\<close> up are mapped to physical memory one to one.  An access that the page table does not
  allow traps, which in kernel mode ends in a panic of \<open>trap\<close>: the outcome is \<open>Fault\<close>.
\<close>

unbundle bit_operations_syntax

definition vtrans :: "bool \<Rightarrow> uint \<Rightarrow> 'a kmem_scheme \<Rightarrow> uint option" where
  "vtrans wr va s =
     (if KERNBASE \<le> va then Some va
      else
        let pgdir = P2V (c_cr3 (cpus s (cur s)));
            pde = load32 (k_mem s) (pgdir + 4 * PDX va)
        in if pde AND PTE_P = 0 then None
           else
             let pte = load32 (k_mem s) (P2V (PTE_ADDR pde) + 4 * PTX va)
             in if pte AND PTE_P = 0 \<or> wr \<and> pte AND PTE_W = 0 then None
                else Some (P2V (PTE_ADDR pte) + (va AND 0xFFF)))"

definition ld8 :: "uint \<Rightarrow> 'a kmem_scheme \<Rightarrow> (uchar, 'a kmem_scheme) kres" where
  "ld8 va s = (case vtrans False va s of None \<Rightarrow> Fault | Some a \<Rightarrow> Ret (k_mem s a) s)"

definition st8 :: "uint \<Rightarrow> uchar \<Rightarrow> 'a kmem_scheme \<Rightarrow> (unit, 'a kmem_scheme) kres" where
  "st8 va v s = (case vtrans True va s of None \<Rightarrow> Fault | Some a \<Rightarrow> Ret () (s\<lparr>k_mem := (k_mem s)(a := v)\<rparr>))"

text \<open>The bytes that a copy of \<open>n\<close> bytes reads, and the copy of given bytes.\<close>

fun vread :: "uint \<Rightarrow> nat \<Rightarrow> 'a kmem_scheme \<Rightarrow> (uchar list, 'a kmem_scheme) kres" where
  "vread va 0 s = Ret [] s"
| "vread va (Suc n) s =
     bindK (ld8 va s) (\<lambda>b s.
     bindK (vread (va + 1) n s) (\<lambda>bs s.
     Ret (b # bs) s))"

fun vwrite :: "uint \<Rightarrow> uchar list \<Rightarrow> 'a kmem_scheme \<Rightarrow> (unit, 'a kmem_scheme) kres" where
  "vwrite va [] s = Ret () s"
| "vwrite va (b # bs) s = bindK (st8 va b s) (\<lambda>_ s. vwrite (va + 1) bs s)"

text \<open>A 32-bit word at a virtual address.\<close>

definition ld32 :: "uint \<Rightarrow> 'a kmem_scheme \<Rightarrow> (uint, 'a kmem_scheme) kres" where
  "ld32 va s = bindK (vread va 4 s) (\<lambda>bs s.
     Ret ((ucast (bs ! 0) :: uint) OR push_bit 8 (ucast (bs ! 1)) OR push_bit 16 (ucast (bs ! 2))
       OR push_bit 24 (ucast (bs ! 3))) s)"

definition st32 :: "uint \<Rightarrow> uint \<Rightarrow> 'a kmem_scheme \<Rightarrow> (unit, 'a kmem_scheme) kres" where
  "st32 va v s = vwrite va [ucast v, ucast (drop_bit 8 v), ucast (drop_bit 16 v), ucast (drop_bit 24 v)] s"

text \<open>The string at an address: the bytes before the terminator, at most \<open>fuel\<close> of them.\<close>

fun vstring :: "nat \<Rightarrow> uint \<Rightarrow> 'a kmem_scheme \<Rightarrow> (uchar list, 'a kmem_scheme) kres" where
  "vstring 0 va s = Spin"
| "vstring (Suc n) va s =
     bindK (ld8 va s) (\<lambda>b s.
     if b = 0 then Ret [] s else bindK (vstring n (va + 1) s) (\<lambda>bs s. Ret (b # bs) s))"

section \<open>Kernel addresses\<close>

lemma vtrans_kernel [simp]: "KERNBASE \<le> va \<Longrightarrow> vtrans wr va s = Some va"
  by (simp add: vtrans_def)

lemma vread_same: "vread va n s = Ret bs t \<Longrightarrow> t = s \<and> length bs = n"
  by (induction n arbitrary: va bs t) (auto simp: ld8_def split: option.splits)

lemma vwrite_frame:
  "vwrite va bs s = Ret u t \<Longrightarrow> \<exists>m. t = s\<lparr>k_mem := m\<rparr>"
proof (induction bs arbitrary: va s)
  case Nil
  then have "t = s\<lparr>k_mem := k_mem s\<rparr>" by (cases s) simp
  then show ?case by blast
next
  case (Cons b bs)
  from Cons.prems obtain v where v: "st8 va b s = Ret () v" "vwrite (va + 1) bs v = Ret u t" by auto
  from v(1) obtain m where "v = s\<lparr>k_mem := m\<rparr>" by (auto simp: st8_def split: option.splits)
  with Cons.IH [OF v(2)] show ?case by auto
qed

end
