(* ===== verification/Fs.thy ===== *)
theory Fs
  imports Log Uaccess
begin

text \<open>
  The file system, \<^verbatim>\<open>kernel/fs.c\<close>, with the in-memory inode of \<^verbatim>\<open>kernel/file.h\<close>: the block
  allocator, the inode cache, file contents, directories and path names.  Cache entries are named
  by their index; a null inode pointer is \<open>None\<close>.  A path is the list of bytes before its terminator.

  Where a C function copies to or from an address its caller passes, the model has the copy as an
  argument: \<open>put\<close> receives each chunk of bytes with an accumulator, \<open>get\<close> supplies one.
  The table of device functions \<open>devsw\<close> is an argument as well.
\<close>

unbundle bit_operations_syntax

section \<open>State\<close>

abbreviation (input) T_DIR :: ushort where "T_DIR \<equiv> 1"
abbreviation (input) T_FILE :: ushort where "T_FILE \<equiv> 2"
abbreviation (input) T_DEV :: ushort where "T_DEV \<equiv> 3"

record inode =
  i_dev :: uint
  i_inum :: uint
  i_ref :: int
  i_valid :: bool
  i_type :: ushort
  i_major :: ushort
  i_minor :: ushort
  i_nlink :: ushort
  i_size :: uint
  i_addrs :: "uint list"

record fsys = lg +
  fs_sb :: superblock
  inodes :: "nat \<Rightarrow> inode"

definition inode_upd :: "nat \<Rightarrow> (inode \<Rightarrow> inode) \<Rightarrow> 'a fsys_scheme \<Rightarrow> 'a fsys_scheme" where
  "inode_upd i f s = s\<lparr>inodes := (inodes s)(i := f (inodes s i))\<rparr>"

text \<open>Changing the data of a buffer: \<open>bp->data[...] = ...\<close>.\<close>

definition data_upd :: "nat \<Rightarrow> (block \<Rightarrow> block) \<Rightarrow> 'a bc_scheme \<Rightarrow> 'a bc_scheme" where
  "data_upd b f s = set_data b (f (b_data (bufs s b))) s"

section \<open>Blocks\<close>

definition bzero :: "uint \<Rightarrow> uint \<Rightarrow> 'a lg_scheme \<Rightarrow> (unit, 'a lg_scheme) kres" where
  "bzero dev bno s =
     bindK (bread dev bno s) (\<lambda>bp s.
     bindK (log_write bp (set_data bp (replicate BSIZE 0) s)) (\<lambda>_ s.
     brelse bp s))"

text \<open>The bit of the free map for a block number relative to its map block.\<close>

definition bit_clear :: "block \<Rightarrow> nat \<Rightarrow> bool" where
  "bit_clear d bi \<longleftrightarrow> d ! (bi div 8) AND push_bit (bi mod 8) 1 = 0"

definition bit_mark :: "nat \<Rightarrow> block \<Rightarrow> block" where
  "bit_mark bi d = d[bi div 8 := d ! (bi div 8) OR push_bit (bi mod 8) 1]"

definition bit_unmark :: "nat \<Rightarrow> block \<Rightarrow> block" where
  "bit_unmark bi d = d[bi div 8 := d ! (bi div 8) AND NOT (push_bit (bi mod 8) 1)]"

text \<open>\<open>balloc\<close>: the outer loop over the map blocks, given as the list of their first block numbers.\<close>

fun balloc_loop :: "uint \<Rightarrow> nat list \<Rightarrow> 'a fsys_scheme \<Rightarrow> (uint, 'a fsys_scheme) kres" where
  "balloc_loop dev [] s = Panic ''balloc: out of blocks''"
| "balloc_loop dev (b # rest) s =
     bindK (bread dev (BBLOCK (of_nat b) (fs_sb s)) s) (\<lambda>bp s.
     case find (\<lambda>bi. bit_clear (b_data (bufs s bp)) bi)
            (takeWhile (\<lambda>bi. b + bi < unat (sb_size (fs_sb s))) [0..<unat BPB]) of
       Some bi \<Rightarrow>
         bindK (log_write bp (data_upd bp (bit_mark bi) s)) (\<lambda>_ s.
         bindK (brelse bp s) (\<lambda>_ s.
         bindK (bzero dev (of_nat (b + bi)) s) (\<lambda>_ s.
         Ret (of_nat (b + bi)) s)))
     | None \<Rightarrow> bindK (brelse bp s) (\<lambda>_ s. balloc_loop dev rest s))"

definition balloc :: "uint \<Rightarrow> 'a fsys_scheme \<Rightarrow> (uint, 'a fsys_scheme) kres" where
  "balloc dev s =
     balloc_loop dev (map (\<lambda>k. k * unat BPB) [0..<(unat (sb_size (fs_sb s)) + unat BPB - 1) div unat BPB]) s"

definition bfree :: "uint \<Rightarrow> uint \<Rightarrow> 'a fsys_scheme \<Rightarrow> (unit, 'a fsys_scheme) kres" where
  "bfree dev b s =
     bindK (bread dev (BBLOCK b (fs_sb s)) s) (\<lambda>bp s.
     let bi = unat (b mod BPB) in
     if bit_clear (b_data (bufs s bp)) bi then Panic ''freeing free block''
     else
       bindK (log_write bp (data_upd bp (bit_unmark bi) s)) (\<lambda>_ s.
       brelse bp s))"

section \<open>Inodes\<close>

text \<open>\<open>iinit\<close>; the line it prints is left out.\<close>

definition iinit :: "uint \<Rightarrow> 'a fsys_scheme \<Rightarrow> (unit, 'a fsys_scheme) kres" where
  "iinit dev s =
     (let s = initlock IcacheLock s;
          s = fold (\<lambda>i s. initsleeplock (InodeSlk i) s) [0..<NINODE] s
      in bindK (readsb dev s) (\<lambda>sb s. Ret () (s\<lparr>fs_sb := sb\<rparr>)))"

text \<open>The search of \<open>iget\<close>: the cached entry, or the first free one.\<close>

fun iget_scan :: "(nat \<Rightarrow> inode) \<Rightarrow> uint \<Rightarrow> uint \<Rightarrow> nat list \<Rightarrow> nat option \<Rightarrow> nat + nat option" where
  "iget_scan ino dev inum [] free = Inr free"
| "iget_scan ino dev inum (i # rest) free =
     (if i_ref (ino i) > 0 \<and> i_dev (ino i) = dev \<and> i_inum (ino i) = inum then Inl i
      else iget_scan ino dev inum rest (if free = None \<and> i_ref (ino i) = 0 then Some i else free))"

definition iget :: "uint \<Rightarrow> uint \<Rightarrow> 'a fsys_scheme \<Rightarrow> (nat, 'a fsys_scheme) kres" where
  "iget dev inum s =
     bindK (acquire IcacheLock s) (\<lambda>_ s.
     case iget_scan (inodes s) dev inum [0..<NINODE] None of
       Inl i \<Rightarrow>
         bindK (release IcacheLock (inode_upd i (\<lambda>x. x\<lparr>i_ref := i_ref x + 1\<rparr>) s)) (\<lambda>_ s. Ret i s)
     | Inr None \<Rightarrow> Panic ''iget: no inodes''
     | Inr (Some i) \<Rightarrow>
         bindK (release IcacheLock
           (inode_upd i (\<lambda>x. x\<lparr>i_dev := dev, i_inum := inum, i_ref := 1, i_valid := False\<rparr>) s)) (\<lambda>_ s.
         Ret i s))"

fun ialloc_loop :: "uint \<Rightarrow> ushort \<Rightarrow> nat list \<Rightarrow> 'a fsys_scheme \<Rightarrow> (nat, 'a fsys_scheme) kres" where
  "ialloc_loop dev type [] s = Panic ''ialloc: no inodes''"
| "ialloc_loop dev type (inum # rest) s =
     bindK (bread dev (IBLOCK (of_nat inum) (fs_sb s)) s) (\<lambda>bp s.
     let off = 64 * (inum mod unat IPB) in
     if d_type (get_dinode (b_data (bufs s bp)) off) = 0 then
       let s = data_upd bp (\<lambda>d. put16 off type (splice d off (replicate 64 0))) s in
       bindK (log_write bp s) (\<lambda>_ s.
       bindK (brelse bp s) (\<lambda>_ s.
       iget dev (of_nat inum) s))
     else bindK (brelse bp s) (\<lambda>_ s. ialloc_loop dev type rest s))"

definition ialloc :: "uint \<Rightarrow> ushort \<Rightarrow> 'a fsys_scheme \<Rightarrow> (nat, 'a fsys_scheme) kres" where
  "ialloc dev type s = ialloc_loop dev type [1..<unat (sb_ninodes (fs_sb s))] s"

definition inode_dinode :: "inode \<Rightarrow> dinode" where
  "inode_dinode ip = \<lparr>d_type = i_type ip, d_major = i_major ip, d_minor = i_minor ip, d_nlink = i_nlink ip,
     d_size = i_size ip, d_addrs = i_addrs ip\<rparr>"

definition iupdate :: "nat \<Rightarrow> 'a fsys_scheme \<Rightarrow> (unit, 'a fsys_scheme) kres" where
  "iupdate ip s =
     bindK (bread (i_dev (inodes s ip)) (IBLOCK (i_inum (inodes s ip)) (fs_sb s)) s) (\<lambda>bp s.
     let off = 64 * unat (i_inum (inodes s ip) mod IPB);
         s = data_upd bp (put_dinode off (inode_dinode (inodes s ip))) s in
     bindK (log_write bp s) (\<lambda>_ s.
     brelse bp s))"

definition idup :: "nat \<Rightarrow> 'a fsys_scheme \<Rightarrow> (nat, 'a fsys_scheme) kres" where
  "idup ip s =
     bindK (acquire IcacheLock s) (\<lambda>_ s.
     bindK (release IcacheLock (inode_upd ip (\<lambda>x. x\<lparr>i_ref := i_ref x + 1\<rparr>) s)) (\<lambda>_ s.
     Ret ip s))"

definition ilock :: "nat option \<Rightarrow> 'a fsys_scheme \<Rightarrow> (unit, 'a fsys_scheme) kres" where
  "ilock ipo s =
     (case ipo of
        None \<Rightarrow> Panic ''ilock''
      | Some ip \<Rightarrow>
          if i_ref (inodes s ip) < 1 then Panic ''ilock''
          else
            bindK (acquiresleep (InodeSlk ip) s) (\<lambda>_ s.
            if \<not> i_valid (inodes s ip) then
              bindK (bread (i_dev (inodes s ip)) (IBLOCK (i_inum (inodes s ip)) (fs_sb s)) s) (\<lambda>bp s.
              let dip = get_dinode (b_data (bufs s bp)) (64 * unat (i_inum (inodes s ip) mod IPB));
                  s = inode_upd ip (\<lambda>x. x\<lparr>i_type := d_type dip, i_major := d_major dip, i_minor := d_minor dip,
                        i_nlink := d_nlink dip, i_size := d_size dip, i_addrs := d_addrs dip\<rparr>) s in
              bindK (brelse bp s) (\<lambda>_ s.
              let s = inode_upd ip (\<lambda>x. x\<lparr>i_valid := True\<rparr>) s in
              if i_type (inodes s ip) = 0 then Panic ''ilock: no type'' else Ret () s))
            else Ret () s))"

definition iunlock :: "nat option \<Rightarrow> 'a fsys_scheme \<Rightarrow> (unit, 'a fsys_scheme) kres" where
  "iunlock ipo s =
     (case ipo of
        None \<Rightarrow> Panic ''iunlock''
      | Some ip \<Rightarrow>
          bindK (holdingsleep (InodeSlk ip) s) (\<lambda>h s.
          if \<not> h \<or> i_ref (inodes s ip) < 1 then Panic ''iunlock''
          else releasesleep (InodeSlk ip) s))"

text \<open>\<open>itrunc\<close>: the direct blocks, then the indirect ones.\<close>

definition itrunc :: "nat \<Rightarrow> 'a fsys_scheme \<Rightarrow> (unit, 'a fsys_scheme) kres" where
  "itrunc ip s =
     bindK (forK [0..<NDIRECT] (\<lambda>i s.
       if i_addrs (inodes s ip) ! i \<noteq> 0 then
         bindK (bfree (i_dev (inodes s ip)) (i_addrs (inodes s ip) ! i) s) (\<lambda>_ s.
         Ret () (inode_upd ip (\<lambda>x. x\<lparr>i_addrs := (i_addrs x)[i := 0]\<rparr>) s))
       else Ret () s) s) (\<lambda>_ s.
     bindK (if i_addrs (inodes s ip) ! NDIRECT \<noteq> 0 then
         bindK (bread (i_dev (inodes s ip)) (i_addrs (inodes s ip) ! NDIRECT) s) (\<lambda>bp s.
         bindK (forK [0..<NINDIRECT] (\<lambda>j s.
           let a = get32 (b_data (bufs s bp)) (4 * j) in
           if a \<noteq> 0 then bfree (i_dev (inodes s ip)) a s else Ret () s) s) (\<lambda>_ s.
         bindK (brelse bp s) (\<lambda>_ s.
         bindK (bfree (i_dev (inodes s ip)) (i_addrs (inodes s ip) ! NDIRECT) s) (\<lambda>_ s.
         Ret () (inode_upd ip (\<lambda>x. x\<lparr>i_addrs := (i_addrs x)[NDIRECT := 0]\<rparr>) s)))))
       else Ret () s) (\<lambda>_ s.
     iupdate ip (inode_upd ip (\<lambda>x. x\<lparr>i_size := 0\<rparr>) s)))"

definition iput :: "nat \<Rightarrow> 'a fsys_scheme \<Rightarrow> (unit, 'a fsys_scheme) kres" where
  "iput ip s =
     bindK (acquiresleep (InodeSlk ip) s) (\<lambda>_ s.
     bindK (if i_valid (inodes s ip) \<and> i_nlink (inodes s ip) = 0 then
         bindK (acquire IcacheLock s) (\<lambda>_ s.
         let r = i_ref (inodes s ip) in
         bindK (release IcacheLock s) (\<lambda>_ s.
         if r = 1 then
           bindK (itrunc ip s) (\<lambda>_ s.
           bindK (iupdate ip (inode_upd ip (\<lambda>x. x\<lparr>i_type := 0\<rparr>) s)) (\<lambda>_ s.
           Ret () (inode_upd ip (\<lambda>x. x\<lparr>i_valid := False\<rparr>) s)))
         else Ret () s))
       else Ret () s) (\<lambda>_ s.
     bindK (releasesleep (InodeSlk ip) s) (\<lambda>_ s.
     bindK (acquire IcacheLock s) (\<lambda>_ s.
     release IcacheLock (inode_upd ip (\<lambda>x. x\<lparr>i_ref := i_ref x - 1\<rparr>) s)))))"

definition iunlockput :: "nat \<Rightarrow> 'a fsys_scheme \<Rightarrow> (unit, 'a fsys_scheme) kres" where
  "iunlockput ip s = bindK (iunlock (Some ip) s) (\<lambda>_ s. iput ip s)"

section \<open>Inode content\<close>

definition bmap :: "nat \<Rightarrow> uint \<Rightarrow> 'a fsys_scheme \<Rightarrow> (uint, 'a fsys_scheme) kres" where
  "bmap ip bn s =
     (if unat bn < NDIRECT then
        let addr = i_addrs (inodes s ip) ! unat bn in
        if addr = 0 then
          bindK (balloc (i_dev (inodes s ip)) s) (\<lambda>addr s.
          Ret addr (inode_upd ip (\<lambda>x. x\<lparr>i_addrs := (i_addrs x)[unat bn := addr]\<rparr>) s))
        else Ret addr s
      else
        let bn = unat bn - NDIRECT in
        if bn < NINDIRECT then
          let addr = i_addrs (inodes s ip) ! NDIRECT in
          bindK (if addr = 0 then
              bindK (balloc (i_dev (inodes s ip)) s) (\<lambda>addr s.
              Ret addr (inode_upd ip (\<lambda>x. x\<lparr>i_addrs := (i_addrs x)[NDIRECT := addr]\<rparr>) s))
            else Ret addr s) (\<lambda>addr s.
          bindK (bread (i_dev (inodes s ip)) addr s) (\<lambda>bp s.
          let addr = get32 (b_data (bufs s bp)) (4 * bn) in
          bindK (if addr = 0 then
              bindK (balloc (i_dev (inodes s ip)) s) (\<lambda>addr s.
              bindK (log_write bp (data_upd bp (put32 (4 * bn) addr) s)) (\<lambda>_ s.
              Ret addr s))
            else Ret addr s) (\<lambda>addr s.
          bindK (brelse bp s) (\<lambda>_ s.
          Ret addr s))))
        else Panic ''bmap: out of range'')"

record stat =
  st_type :: ushort
  st_dev :: uint
  st_ino :: uint
  st_nlink :: ushort
  st_size :: uint

definition stati :: "nat \<Rightarrow> 'a fsys_scheme \<Rightarrow> stat" where
  "stati ip s = (let x = inodes s ip in
     \<lparr>st_type = i_type x, st_dev = i_dev x, st_ino = i_inum x, st_nlink = i_nlink x, st_size = i_size x\<rparr>)"

text \<open>The functions of a device: what they transfer is a list of bytes.\<close>

type_synonym 's devsw =
  "nat \<Rightarrow> (nat \<Rightarrow> uint \<Rightarrow> 's \<Rightarrow> (int \<times> uchar list, 's) kres) option \<times>
         (nat \<Rightarrow> uchar list \<Rightarrow> 's \<Rightarrow> (int, 's) kres) option"

text \<open>The size of the chunk that the loops transfer when \<open>tot\<close> of \<open>n\<close> bytes are done.\<close>

definition chunk :: "uint \<Rightarrow> nat \<Rightarrow> nat \<Rightarrow> nat" where
  "chunk off n tot = min (n - tot) (BSIZE - unat (off + of_nat tot) mod BSIZE)"

lemma chunk_pos: "tot < n \<Longrightarrow> 0 < chunk off n tot"
  by (simp add: chunk_def)

function readi_loop ::
  "('acc \<Rightarrow> nat \<Rightarrow> uchar list \<Rightarrow> 'a fsys_scheme \<Rightarrow> ('acc, 'a fsys_scheme) kres) \<Rightarrow> nat \<Rightarrow> uint \<Rightarrow> nat \<Rightarrow>
   nat \<Rightarrow> 'acc \<Rightarrow> 'a fsys_scheme \<Rightarrow> ('acc, 'a fsys_scheme) kres" where
  "readi_loop put ip off n tot acc s =
     (if tot < n then
        let o' = off + of_nat tot; m = chunk off n tot in
        bindK (bmap ip (o' div 512) s) (\<lambda>addr s.
        bindK (bread (i_dev (inodes s ip)) addr s) (\<lambda>bp s.
        bindK (put acc tot (slice (b_data (bufs s bp)) (unat o' mod BSIZE) m) s) (\<lambda>acc s.
        bindK (brelse bp s) (\<lambda>_ s.
        readi_loop put ip off n (tot + m) acc s))))
      else Ret acc s)"
  by pat_completeness auto

termination
proof (relation "measure (\<lambda>(put, ip, off, n, tot, acc, s). n - tot)", goal_cases)
  case (2 put ip off n tot acc s x xa xb xc xd xe xf xg xh xi)
  then show ?case using chunk_pos [of tot n off] by simp
qed simp

definition readi ::
  "'a fsys_scheme devsw \<Rightarrow> ('acc \<Rightarrow> nat \<Rightarrow> uchar list \<Rightarrow> 'a fsys_scheme \<Rightarrow> ('acc, 'a fsys_scheme) kres) \<Rightarrow> 'acc \<Rightarrow>
   nat \<Rightarrow> uint \<Rightarrow> uint \<Rightarrow> 'a fsys_scheme \<Rightarrow> (int \<times> 'acc, 'a fsys_scheme) kres" where
  "readi devsw put acc ip off n s =
     (if i_type (inodes s ip) = T_DEV then
        let major = sint (i_major (inodes s ip)) in
        if major < 0 \<or> major \<ge> int NDEV then Ret (- 1, acc) s
        else case fst (devsw (nat major)) of
               None \<Rightarrow> Ret (- 1, acc) s
             | Some rd \<Rightarrow>
                 bindK (rd ip n s) (\<lambda>(r, bs) s.
                 bindK (put acc 0 bs s) (\<lambda>acc s. Ret (r, acc) s))
      else if off > i_size (inodes s ip) \<or> off + n < off then Ret (- 1, acc) s
      else
        let n = (if off + n > i_size (inodes s ip) then i_size (inodes s ip) - off else n) in
        bindK (readi_loop put ip off (unat n) 0 acc s) (\<lambda>acc s. Ret (sint n, acc) s))"

function writei_loop ::
  "(nat \<Rightarrow> nat \<Rightarrow> 'a fsys_scheme \<Rightarrow> (uchar list, 'a fsys_scheme) kres) \<Rightarrow> nat \<Rightarrow> uint \<Rightarrow> nat \<Rightarrow>
   nat \<Rightarrow> 'a fsys_scheme \<Rightarrow> (unit, 'a fsys_scheme) kres" where
  "writei_loop get ip off n tot s =
     (if tot < n then
        let o' = off + of_nat tot; m = chunk off n tot in
        bindK (bmap ip (o' div 512) s) (\<lambda>addr s.
        bindK (bread (i_dev (inodes s ip)) addr s) (\<lambda>bp s.
        bindK (get tot m s) (\<lambda>bs s.
        bindK (log_write bp (data_upd bp (\<lambda>d. splice d (unat o' mod BSIZE) bs) s)) (\<lambda>_ s.
        bindK (brelse bp s) (\<lambda>_ s.
        writei_loop get ip off n (tot + m) s)))))
      else Ret () s)"
  by pat_completeness auto

termination
proof (relation "measure (\<lambda>(get, ip, off, n, tot, s). n - tot)", goal_cases)
  case (2 get ip off n tot s)
  then show ?case using chunk_pos [of tot n off] by simp
qed simp

definition writei ::
  "'a fsys_scheme devsw \<Rightarrow> (nat \<Rightarrow> nat \<Rightarrow> 'a fsys_scheme \<Rightarrow> (uchar list, 'a fsys_scheme) kres) \<Rightarrow>
   nat \<Rightarrow> uint \<Rightarrow> uint \<Rightarrow> 'a fsys_scheme \<Rightarrow> (int, 'a fsys_scheme) kres" where
  "writei devsw get ip off n s =
     (if i_type (inodes s ip) = T_DEV then
        let major = sint (i_major (inodes s ip)) in
        if major < 0 \<or> major \<ge> int NDEV then Ret (- 1) s
        else case snd (devsw (nat major)) of
               None \<Rightarrow> Ret (- 1) s
             | Some wr \<Rightarrow> bindK (get 0 (unat n) s) (\<lambda>bs s. wr ip bs s)
      else if off > i_size (inodes s ip) \<or> off + n < off then Ret (- 1) s
      else if off + n > of_nat (MAXFILE * BSIZE) then Ret (- 1) s
      else
        bindK (writei_loop get ip off (unat n) 0 s) (\<lambda>_ s.
        bindK (if n > 0 \<and> off + n > i_size (inodes s ip)
               then iupdate ip (inode_upd ip (\<lambda>x. x\<lparr>i_size := off + n\<rparr>) s)
               else Ret () s) (\<lambda>_ s.
        Ret (sint n) s)))"

text \<open>Copies to and from a C variable of the caller, and to and from an address.\<close>

definition put_local :: "uchar list \<Rightarrow> nat \<Rightarrow> uchar list \<Rightarrow> 's \<Rightarrow> (uchar list, 's) kres" where
  "put_local acc tot bs s = Ret (acc @ bs) s"

definition get_local :: "uchar list \<Rightarrow> nat \<Rightarrow> nat \<Rightarrow> 's \<Rightarrow> (uchar list, 's) kres" where
  "get_local src tot m s = Ret (slice src tot m) s"

definition put_addr :: "uint \<Rightarrow> unit \<Rightarrow> nat \<Rightarrow> uchar list \<Rightarrow> 'a kmem_scheme \<Rightarrow> (unit, 'a kmem_scheme) kres" where
  "put_addr dst acc tot bs s = vwrite (dst + of_nat tot) bs s"

definition get_addr :: "uint \<Rightarrow> nat \<Rightarrow> nat \<Rightarrow> 'a kmem_scheme \<Rightarrow> (uchar list, 'a kmem_scheme) kres" where
  "get_addr src tot m s = vread (src + of_nat tot) m s"

section \<open>Directories\<close>

text \<open>\<open>strncmp\<close> on strings kept as lists: past the end of a list there is a terminator.\<close>

fun strncmp_l :: "uchar list \<Rightarrow> uchar list \<Rightarrow> nat \<Rightarrow> int" where
  "strncmp_l p q 0 = 0"
| "strncmp_l p q (Suc n) =
     (let a = (case p of [] \<Rightarrow> 0 | x # _ \<Rightarrow> x); b = (case q of [] \<Rightarrow> 0 | x # _ \<Rightarrow> x) in
      if a \<noteq> 0 \<and> a = b then strncmp_l (tl p) (tl q) n else int (unat a) - int (unat b))"

definition namecmp :: "uchar list \<Rightarrow> uchar list \<Rightarrow> int" where
  "namecmp s t = strncmp_l s t DIRSIZ"

text \<open>
  The scan of a directory: each entry is read and passed to a test; the result is the offset of the
  first entry that passes, with the entry, or \<open>None\<close> at the end of the directory.
\<close>

fun dir_scan ::
  "'a fsys_scheme devsw \<Rightarrow> string \<Rightarrow> (dirent \<Rightarrow> bool) \<Rightarrow> nat \<Rightarrow> nat list \<Rightarrow> 'a fsys_scheme \<Rightarrow>
   ((nat \<times> dirent) option, 'a fsys_scheme) kres" where
  "dir_scan devsw msg P dp [] s = Ret None s"
| "dir_scan devsw msg P dp (off # rest) s =
     bindK (readi devsw put_local [] dp (of_nat off) 16 s) (\<lambda>(r, bs) s.
     if r \<noteq> 16 then Panic msg
     else let de = get_dirent bs in
       if P de then Ret (Some (off, de)) s else dir_scan devsw msg P dp rest s)"

definition dir_offsets :: "uint \<Rightarrow> nat list" where
  "dir_offsets sz = map (\<lambda>k. 16 * k) [0..<(unat sz + 15) div 16]"

definition dirlookup ::
  "'a fsys_scheme devsw \<Rightarrow> nat \<Rightarrow> uchar list \<Rightarrow> 'a fsys_scheme \<Rightarrow> ((nat \<times> nat) option, 'a fsys_scheme) kres" where
  "dirlookup devsw dp name s =
     (if i_type (inodes s dp) \<noteq> T_DIR then Panic ''dirlookup not DIR''
      else
        bindK (dir_scan devsw ''dirlookup read'' (\<lambda>de. de_inum de \<noteq> 0 \<and> namecmp name (de_name de) = 0) dp
                 (dir_offsets (i_size (inodes s dp))) s) (\<lambda>r s.
        case r of
          None \<Rightarrow> Ret None s
        | Some (off, de) \<Rightarrow>
            bindK (iget (i_dev (inodes s dp)) (ucast (de_inum de)) s) (\<lambda>ip s. Ret (Some (ip, off)) s)))"

text \<open>\<open>strncpy\<close> into the name field: the name cut to its size, padded with terminators.\<close>

definition strncpy_l :: "uchar list \<Rightarrow> nat \<Rightarrow> uchar list" where
  "strncpy_l t n = take n (t @ replicate n 0)"

definition dirlink ::
  "'a fsys_scheme devsw \<Rightarrow> nat \<Rightarrow> uchar list \<Rightarrow> uint \<Rightarrow> 'a fsys_scheme \<Rightarrow> (int, 'a fsys_scheme) kres" where
  "dirlink devsw dp name inum s =
     bindK (dirlookup devsw dp name s) (\<lambda>r s.
     case r of
       Some (ip, _) \<Rightarrow> bindK (iput ip s) (\<lambda>_ s. Ret (- 1) s)
     | None \<Rightarrow>
         let offs = dir_offsets (i_size (inodes s dp)) in
         bindK (dir_scan devsw ''dirlink read'' (\<lambda>de. de_inum de = 0) dp offs s) (\<lambda>r s.
         let off = (case r of Some (off, _) \<Rightarrow> off | None \<Rightarrow> 16 * length offs);
             de = \<lparr>de_inum = ucast inum, de_name = strncpy_l name DIRSIZ\<rparr> in
         bindK (writei devsw (get_local (dirent_bytes de)) dp (of_nat off) 16 s) (\<lambda>r s.
         if r \<noteq> 16 then Panic ''dirlink'' else Ret 0 s)))"

section \<open>Paths\<close>

definition slash :: uchar where "slash = 47"

definition skipelem :: "uchar list \<Rightarrow> (uchar list \<times> uchar list) option" where
  "skipelem path =
     (let path = dropWhile (\<lambda>c. c = slash) path in
      if path = [] then None
      else
        let name = takeWhile (\<lambda>c. c \<noteq> slash) path;
            rest = dropWhile (\<lambda>c. c \<noteq> slash) path
        in Some (dropWhile (\<lambda>c. c = slash) rest, if length name \<ge> DIRSIZ then take DIRSIZ name else name))"

lemma skipelem_shorter: "skipelem path = Some (rest, name) \<Longrightarrow> length rest < length path"
proof -
  assume a: "skipelem path = Some (rest, name)"
  let ?p = "dropWhile (\<lambda>c. c = slash) path"
  from a have ne: "?p \<noteq> []" and r: "rest = dropWhile (\<lambda>c. c = slash) (dropWhile (\<lambda>c. c \<noteq> slash) ?p)"
    by (auto simp: skipelem_def Let_def split: if_splits)
  have "hd ?p \<noteq> slash" using hd_dropWhile [OF ne] by blast
  with ne have "length (dropWhile (\<lambda>c. c \<noteq> slash) ?p) < length ?p"
    by (cases ?p) (auto simp: le_imp_less_Suc length_dropWhile_le)
  also have "length ?p \<le> length path" by (rule length_dropWhile_le)
  finally show ?thesis using r length_dropWhile_le [of "\<lambda>c. c = slash" "dropWhile (\<lambda>c. c \<noteq> slash) ?p"] by simp
qed

text \<open>The loop of \<open>namex\<close>; the result pairs the inode with the last element copied to \<open>name\<close>.\<close>

function namex_loop ::
  "'a fsys_scheme devsw \<Rightarrow> bool \<Rightarrow> nat \<Rightarrow> uchar list \<Rightarrow> uchar list \<Rightarrow> 'a fsys_scheme \<Rightarrow>
   ((nat \<times> uchar list) option, 'a fsys_scheme) kres" where
  "namex_loop devsw parent ip path name s =
     (case skipelem path of
        None \<Rightarrow>
          if parent then bindK (iput ip s) (\<lambda>_ s. Ret None s) else Ret (Some (ip, name)) s
      | Some (path, name) \<Rightarrow>
          bindK (ilock (Some ip) s) (\<lambda>_ s.
          if i_type (inodes s ip) \<noteq> T_DIR then bindK (iunlockput ip s) (\<lambda>_ s. Ret None s)
          else if parent \<and> path = [] then bindK (iunlock (Some ip) s) (\<lambda>_ s. Ret (Some (ip, name)) s)
          else
            bindK (dirlookup devsw ip name s) (\<lambda>r s.
            case r of
              None \<Rightarrow> bindK (iunlockput ip s) (\<lambda>_ s. Ret None s)
            | Some (next_ip, _) \<Rightarrow>
                bindK (iunlockput ip s) (\<lambda>_ s. namex_loop devsw parent next_ip path name s))))"
  by pat_completeness auto

termination
proof (relation "measure (\<lambda>(devsw, parent, ip, path, name, s). length path)", goal_cases)
  case 1
  show ?case by simp
next
  case (2 devsw parent ip path)
  then show ?case using skipelem_shorter [of path] by auto
qed

definition namex ::
  "'a fsys_scheme devsw \<Rightarrow> uchar list \<Rightarrow> bool \<Rightarrow> 'a fsys_scheme \<Rightarrow> ((nat \<times> uchar list) option, 'a fsys_scheme) kres" where
  "namex devsw path parent s =
     bindK (if path \<noteq> [] \<and> hd path = slash then iget ROOTDEV ROOTINO s
            else bindK (myproc s) (\<lambda>po s.
              case po of None \<Rightarrow> Fault | Some p \<Rightarrow>
                (case p_cwd (procs s p) of None \<Rightarrow> Fault | Some cwd \<Rightarrow> idup cwd s))) (\<lambda>ip s.
     namex_loop devsw parent ip path [] s)"

definition namei :: "'a fsys_scheme devsw \<Rightarrow> uchar list \<Rightarrow> 'a fsys_scheme \<Rightarrow> (nat option, 'a fsys_scheme) kres" where
  "namei devsw path s = bindK (namex devsw path False s) (\<lambda>r s. Ret (map_option fst r) s)"

definition nameiparent ::
  "'a fsys_scheme devsw \<Rightarrow> uchar list \<Rightarrow> 'a fsys_scheme \<Rightarrow> ((nat \<times> uchar list) option, 'a fsys_scheme) kres" where
  "nameiparent devsw path s = namex devsw path True s"

end
