(* ===== verification/Pipe.thy ===== *)
theory Pipe
  imports Fs
begin

text \<open>
  Pipes: \<^verbatim>\<open>kernel/pipe.c\<close> but for \<open>pipealloc\<close>, which is in theory \<open>File\<close>.  A pipe is named by the
  address of its page; \<open>pipes\<close> gives the structure at that address.  Reading and writing may have to
  wait: \<open>pipewrite_from\<close> and \<open>piperead_from\<close> run with the lock of the pipe held from a given point of
  the loop, and return \<open>Inl\<close> with the result, the lock released, or \<open>Inr\<close> with the point at which
  the code calls \<open>sleep\<close>.  After a wakeup the code continues from there.
\<close>

abbreviation (input) PIPESIZE :: uint where "PIPESIZE \<equiv> 512"

record pipe =
  pp_data :: "uchar list"
  pp_nread :: uint
  pp_nwrite :: uint
  pp_readopen :: bool
  pp_writeopen :: bool

record ps = fsys +
  pipes :: "uint \<Rightarrow> pipe"

definition pipe_upd :: "uint \<Rightarrow> (pipe \<Rightarrow> pipe) \<Rightarrow> 'a ps_scheme \<Rightarrow> 'a ps_scheme" where
  "pipe_upd p f s = s\<lparr>pipes := (pipes s)(p := f (pipes s p))\<rparr>"

text \<open>\<open>myproc()->killed\<close>.\<close>

definition mykilled :: "'a pt_scheme \<Rightarrow> (bool, 'a pt_scheme) kres" where
  "mykilled s = bindK (myproc s) (\<lambda>po s. case po of None \<Rightarrow> Fault | Some p \<Rightarrow> Ret (p_killed (procs s p)) s)"

definition pipeclose :: "uint \<Rightarrow> bool \<Rightarrow> 'a ps_scheme \<Rightarrow> (unit, 'a ps_scheme) kres" where
  "pipeclose p writable s =
     bindK (acquire (PipeLock p) s) (\<lambda>_ s.
     bindK (if writable then wakeup (ChanPipeRead p) (pipe_upd p (\<lambda>x. x\<lparr>pp_writeopen := False\<rparr>) s)
            else wakeup (ChanPipeWrite p) (pipe_upd p (\<lambda>x. x\<lparr>pp_readopen := False\<rparr>) s)) (\<lambda>_ s.
     if \<not> pp_readopen (pipes s p) \<and> \<not> pp_writeopen (pipes s p)
     then bindK (release (PipeLock p) s) (\<lambda>_ s. kfree p s)
     else release (PipeLock p) s))"

text \<open>The two assignments that move a byte.\<close>

definition pipe_push :: "uchar \<Rightarrow> pipe \<Rightarrow> pipe" where
  "pipe_push c x = x\<lparr>pp_data := (pp_data x)[unat (pp_nwrite x mod PIPESIZE) := c], pp_nwrite := pp_nwrite x + 1\<rparr>"

definition pipe_pop :: "pipe \<Rightarrow> uchar \<times> pipe" where
  "pipe_pop x = (pp_data x ! unat (pp_nread x mod PIPESIZE), x\<lparr>pp_nread := pp_nread x + 1\<rparr>)"

text \<open>\<open>k\<close> bytes are left to write, from index \<open>i\<close> on.\<close>

fun pipewrite_from ::
  "uint \<Rightarrow> uint \<Rightarrow> int \<Rightarrow> nat \<Rightarrow> nat \<Rightarrow> 'a ps_scheme \<Rightarrow> (int + nat, 'a ps_scheme) kres" where
  "pipewrite_from p addr n 0 i s =
     bindK (wakeup (ChanPipeRead p) s) (\<lambda>_ s.
     bindK (release (PipeLock p) s) (\<lambda>_ s. Ret (Inl n) s))"
| "pipewrite_from p addr n (Suc k) i s =
     (if pp_nwrite (pipes s p) = pp_nread (pipes s p) + PIPESIZE then
        bindK (if \<not> pp_readopen (pipes s p) then Ret True s else mykilled s) (\<lambda>stop s.
        if stop then bindK (release (PipeLock p) s) (\<lambda>_ s. Ret (Inl (- 1)) s)
        else bindK (wakeup (ChanPipeRead p) s) (\<lambda>_ s. Ret (Inr i) s))
      else
        bindK (ld8 (addr + of_nat i) s) (\<lambda>c s.
        pipewrite_from p addr n k (Suc i) (pipe_upd p (pipe_push c) s)))"

definition pipewrite :: "uint \<Rightarrow> uint \<Rightarrow> int \<Rightarrow> 'a ps_scheme \<Rightarrow> (int, 'a ps_scheme) kres" where
  "pipewrite p addr n s =
     bindK (acquire (PipeLock p) s) (\<lambda>_ s.
     bindK (pipewrite_from p addr n (nat n) 0 s) (\<lambda>r s.
     case r of Inl r \<Rightarrow> Ret r s | Inr i \<Rightarrow> Sleeps (ChanPipeWrite p) (PipeLock p) s))"

text \<open>The copy loop of \<open>piperead\<close>: the number of bytes copied.\<close>

fun piperead_copy :: "uint \<Rightarrow> uint \<Rightarrow> nat \<Rightarrow> nat \<Rightarrow> 'a ps_scheme \<Rightarrow> (nat, 'a ps_scheme) kres" where
  "piperead_copy p addr 0 i s = Ret i s"
| "piperead_copy p addr (Suc k) i s =
     (if pp_nread (pipes s p) = pp_nwrite (pipes s p) then Ret i s
      else
        let (c, x) = pipe_pop (pipes s p) in
        bindK (st8 (addr + of_nat i) c (pipe_upd p (\<lambda>_. x) s)) (\<lambda>_ s.
        piperead_copy p addr k (Suc i) s))"

definition piperead_from :: "uint \<Rightarrow> uint \<Rightarrow> int \<Rightarrow> 'a ps_scheme \<Rightarrow> (int + unit, 'a ps_scheme) kres" where
  "piperead_from p addr n s =
     (if pp_nread (pipes s p) = pp_nwrite (pipes s p) \<and> pp_writeopen (pipes s p) then
        bindK (mykilled s) (\<lambda>killed s.
        if killed then bindK (release (PipeLock p) s) (\<lambda>_ s. Ret (Inl (- 1)) s)
        else Ret (Inr ()) s)
      else
        bindK (piperead_copy p addr (nat n) 0 s) (\<lambda>i s.
        bindK (wakeup (ChanPipeWrite p) s) (\<lambda>_ s.
        bindK (release (PipeLock p) s) (\<lambda>_ s.
        Ret (Inl (int i)) s))))"

definition piperead :: "uint \<Rightarrow> uint \<Rightarrow> int \<Rightarrow> 'a ps_scheme \<Rightarrow> (int, 'a ps_scheme) kres" where
  "piperead p addr n s =
     bindK (acquire (PipeLock p) s) (\<lambda>_ s.
     bindK (piperead_from p addr n s) (\<lambda>r s.
     case r of Inl r \<Rightarrow> Ret r s | Inr _ \<Rightarrow> Sleeps (ChanPipeRead p) (PipeLock p) s))"

end
