(* ===== verification/File.thy ===== *)
theory File
  imports Pipe
begin

text \<open>
  Open files: \<^verbatim>\<open>kernel/file.c\<close>, the structure of \<^verbatim>\<open>kernel/file.h\<close>, and \<open>pipealloc\<close> of
  \<^verbatim>\<open>kernel/pipe.c\<close>.  Entries of \<open>ftable\<close> are named by their index.
\<close>

datatype fdtype = FD_NONE | FD_PIPE | FD_INODE

record kfile =
  f_type :: fdtype
  f_ref :: int
  f_readable :: bool
  f_writable :: bool
  f_pipe :: uint
  f_ip :: "nat option"
  f_off :: uint

record fil = ps +
  files :: "nat \<Rightarrow> kfile"

definition file_upd :: "nat \<Rightarrow> (kfile \<Rightarrow> kfile) \<Rightarrow> 'a fil_scheme \<Rightarrow> 'a fil_scheme" where
  "file_upd f g s = s\<lparr>files := (files s)(f := g (files s f))\<rparr>"

definition fileinit :: "'a fil_scheme \<Rightarrow> 'a fil_scheme" where
  "fileinit s = initlock FtableLock s"

definition filealloc :: "'a fil_scheme \<Rightarrow> (nat option, 'a fil_scheme) kres" where
  "filealloc s =
     bindK (acquire FtableLock s) (\<lambda>_ s.
     case find (\<lambda>f. f_ref (files s f) = 0) [0..<NFILE] of
       Some f \<Rightarrow> bindK (release FtableLock (file_upd f (\<lambda>x. x\<lparr>f_ref := 1\<rparr>) s)) (\<lambda>_ s. Ret (Some f) s)
     | None \<Rightarrow> bindK (release FtableLock s) (\<lambda>_ s. Ret None s))"

definition filedup :: "nat \<Rightarrow> 'a fil_scheme \<Rightarrow> (nat, 'a fil_scheme) kres" where
  "filedup f s =
     bindK (acquire FtableLock s) (\<lambda>_ s.
     if f_ref (files s f) < 1 then Panic ''filedup''
     else bindK (release FtableLock (file_upd f (\<lambda>x. x\<lparr>f_ref := f_ref x + 1\<rparr>) s)) (\<lambda>_ s. Ret f s))"

definition fileclose :: "nat \<Rightarrow> 'a fil_scheme \<Rightarrow> (unit, 'a fil_scheme) kres" where
  "fileclose f s =
     bindK (acquire FtableLock s) (\<lambda>_ s.
     if f_ref (files s f) < 1 then Panic ''fileclose''
     else
       let s = file_upd f (\<lambda>x. x\<lparr>f_ref := f_ref x - 1\<rparr>) s in
       if f_ref (files s f) > 0 then release FtableLock s
       else
         let ff = files s f in
         bindK (release FtableLock (file_upd f (\<lambda>x. x\<lparr>f_ref := 0, f_type := FD_NONE\<rparr>) s)) (\<lambda>_ s.
         case f_type ff of
           FD_PIPE \<Rightarrow> pipeclose (f_pipe ff) (f_writable ff) s
         | FD_INODE \<Rightarrow>
             bindK (begin_op s) (\<lambda>_ s.
             case f_ip ff of
               None \<Rightarrow> Fault
             | Some ip \<Rightarrow> bindK (iput ip s) (\<lambda>_ s. end_op s))
         | FD_NONE \<Rightarrow> Ret () s))"

definition pipealloc :: "'a fil_scheme \<Rightarrow> ((nat \<times> nat) option, 'a fil_scheme) kres" where
  "pipealloc s =
     (let bad = (\<lambda>f0 f1 s.
        bindK (case f0 of None \<Rightarrow> Ret () s | Some f \<Rightarrow> fileclose f s) (\<lambda>_ s.
        bindK (case f1 of None \<Rightarrow> Ret () s | Some f \<Rightarrow> fileclose f s) (\<lambda>_ s.
        Ret None s)))
      in
      bindK (filealloc s) (\<lambda>f0 s.
      case f0 of
        None \<Rightarrow> bad None None s
      | Some a \<Rightarrow>
          bindK (filealloc s) (\<lambda>f1 s.
          case f1 of
            None \<Rightarrow> bad (Some a) None s
          | Some b \<Rightarrow>
              bindK (kalloc s) (\<lambda>p s.
              if p = 0 then bad (Some a) (Some b) s
              else
                let s = pipe_upd p (\<lambda>x. x\<lparr>pp_data := map (\<lambda>k. k_mem s (p + 52 + of_nat k)) [0..<unat PIPESIZE],
                          pp_readopen := True, pp_writeopen := True, pp_nwrite := 0, pp_nread := 0\<rparr>) s;
                    s = initlock (PipeLock p) s;
                    s = file_upd a (\<lambda>x. x\<lparr>f_type := FD_PIPE, f_readable := True, f_writable := False, f_pipe := p\<rparr>) s;
                    s = file_upd b (\<lambda>x. x\<lparr>f_type := FD_PIPE, f_readable := False, f_writable := True, f_pipe := p\<rparr>) s
                in Ret (Some (a, b)) s))))"

text \<open>\<open>filestat\<close>: the structure it fills in is the result.\<close>

definition filestat :: "nat \<Rightarrow> 'a fil_scheme \<Rightarrow> (stat option, 'a fil_scheme) kres" where
  "filestat f s =
     (if f_type (files s f) = FD_INODE then
        bindK (ilock (f_ip (files s f)) s) (\<lambda>_ s.
        case f_ip (files s f) of
          None \<Rightarrow> Fault
        | Some ip \<Rightarrow>
            let st = stati ip s in
            bindK (iunlock (Some ip) s) (\<lambda>_ s.
            Ret (Some st) s))
      else Ret None s)"

definition fileread :: "'a fil_scheme devsw \<Rightarrow> nat \<Rightarrow> uint \<Rightarrow> int \<Rightarrow> 'a fil_scheme \<Rightarrow> (int, 'a fil_scheme) kres" where
  "fileread devsw f addr n s =
     (if \<not> f_readable (files s f) then Ret (- 1) s
      else case f_type (files s f) of
        FD_PIPE \<Rightarrow> piperead (f_pipe (files s f)) addr n s
      | FD_INODE \<Rightarrow>
          bindK (ilock (f_ip (files s f)) s) (\<lambda>_ s.
          case f_ip (files s f) of
            None \<Rightarrow> Fault
          | Some ip \<Rightarrow>
              bindK (readi devsw (put_addr addr) () ip (f_off (files s f)) (of_int n) s) (\<lambda>(r, _) s.
              let s = (if r > 0 then file_upd f (\<lambda>x. x\<lparr>f_off := f_off x + of_int r\<rparr>) s else s) in
              bindK (iunlock (Some ip) s) (\<lambda>_ s.
              Ret r s)))
      | FD_NONE \<Rightarrow> Panic ''fileread'')"

text \<open>The number of bytes that \<open>filewrite\<close> writes in one transaction.\<close>

definition filewrite_max :: int where
  "filewrite_max = (MAXOPBLOCKS - 1 - 1 - 2) div 2 * 512"

function filewrite_loop ::
  "'a fil_scheme devsw \<Rightarrow> nat \<Rightarrow> uint \<Rightarrow> int \<Rightarrow> int \<Rightarrow> 'a fil_scheme \<Rightarrow> (int, 'a fil_scheme) kres" where
  "filewrite_loop devsw f addr n i s =
     (if i < n then
        let n1 = min (n - i) filewrite_max in
        bindK (begin_op s) (\<lambda>_ s.
        bindK (ilock (f_ip (files s f)) s) (\<lambda>_ s.
        case f_ip (files s f) of
          None \<Rightarrow> Fault
        | Some ip \<Rightarrow>
            bindK (writei devsw (get_addr (addr + of_int i)) ip (f_off (files s f)) (of_int n1) s) (\<lambda>r s.
            let s = (if r > 0 then file_upd f (\<lambda>x. x\<lparr>f_off := f_off x + of_int r\<rparr>) s else s) in
            bindK (iunlock (Some ip) s) (\<lambda>_ s.
            bindK (end_op s) (\<lambda>_ s.
            if r < 0 then Ret i s
            else if r \<noteq> n1 then Panic ''short filewrite''
            else filewrite_loop devsw f addr n (i + n1) s)))))
      else Ret i s)"
  by pat_completeness auto

termination
proof (relation "measure (\<lambda>(devsw, f, addr, n, i, s). nat (n - i))", goal_cases)
  case (2 devsw f addr n i s)
  then show ?case by (simp add: filewrite_max_def)
qed simp

definition filewrite :: "'a fil_scheme devsw \<Rightarrow> nat \<Rightarrow> uint \<Rightarrow> int \<Rightarrow> 'a fil_scheme \<Rightarrow> (int, 'a fil_scheme) kres" where
  "filewrite devsw f addr n s =
     (if \<not> f_writable (files s f) then Ret (- 1) s
      else case f_type (files s f) of
        FD_PIPE \<Rightarrow> pipewrite (f_pipe (files s f)) addr n s
      | FD_INODE \<Rightarrow>
          bindK (filewrite_loop devsw f addr n 0 s) (\<lambda>i s. Ret (if i = n then n else - 1) s)
      | FD_NONE \<Rightarrow> Panic ''filewrite'')"

end
