(* ===== verification/Console.thy ===== *)
theory Console
  imports File
begin

text \<open>
  Console input and output, \<^verbatim>\<open>kernel/console.c\<close>, with the serial port of \<^verbatim>\<open>kernel/uart.c\<close>, the
  keyboard driver \<^verbatim>\<open>kernel/kbd.c\<close> with the tables of \<^verbatim>\<open>kernel/kbd.h\<close>, and \<open>procdump\<close> of
  \<^verbatim>\<open>kernel/proc.c\<close>.

  The devices are parts of the state: the text screen with its cursor register, the bytes sent to
  the serial port, and the bytes waiting at the keyboard controller and at the serial port.  The
  arguments of \<open>cprintf\<close> are tagged; a format that asks for an argument of the other kind, or for one
  too many, reads an arbitrary word and is a \<open>Fault\<close>.  \<open>panic\<close> is the outcome \<open>Panic\<close>.
\<close>

unbundle bit_operations_syntax

section \<open>State\<close>

abbreviation (input) BACKSPACE :: uint where "BACKSPACE \<equiv> 0x100"
abbreviation (input) INPUT_BUF :: uint where "INPUT_BUF \<equiv> 128"
abbreviation (input) CONSOLE :: nat where "CONSOLE \<equiv> 1"

record input =
  in_buf :: "uchar list"
  in_r :: uint
  in_w :: uint
  in_e :: uint

record con = fil +
  con_locking :: bool
  con_panicked :: bool
  crt :: "nat \<Rightarrow> ushort"
  crt_pos :: ushort
  uart :: bool
  uart_out :: "uchar list"
  uart_in :: "uchar list"
  kbd_in :: "uchar list"
  kbd_shift :: uchar
  con_input :: input

definition bytes_of :: "string \<Rightarrow> uchar list" where
  "bytes_of cs = map of_char cs"

section \<open>Output\<close>

text \<open>\<open>printint\<close>: the characters it prints, in the order of printing.\<close>

definition digit_char :: "uint \<Rightarrow> uchar" where
  "digit_char d = bytes_of ''0123456789abcdef'' ! unat d"

function print_digits :: "uint \<Rightarrow> uint \<Rightarrow> uchar list" where
  "print_digits base x =
     (if base < 2 then []
      else digit_char (x mod base) # (if x div base = 0 then [] else print_digits base (x div base)))"
  by pat_completeness auto

termination
proof (relation "measure (\<lambda>(base, x). unat x)", goal_cases)
  case (2 base x)
  then have b: "1 < unat base" by (simp add: word_less_nat_alt)
  from 2 have "0 < unat x" by (cases "x = 0") (auto simp: unat_gt_0)
  with b show ?case by (simp add: unat_div)
qed simp

definition printint :: "uint \<Rightarrow> uint \<Rightarrow> bool \<Rightarrow> uchar list" where
  "printint xx base sign =
     (let neg = sign \<and> xx <s 0;
          x = (if neg then - xx else xx);
          buf = print_digits base x @ (if neg then bytes_of ''-'' else [])
      in rev buf)"

text \<open>\<open>cprintf\<close>: the characters that a format produces.\<close>

datatype carg = CNum uint | CStr "uchar list option"

fun cfmt :: "uchar list \<Rightarrow> carg list \<Rightarrow> uchar list option" where
  "cfmt [] args = Some []"
| "cfmt (c # fmt) args =
     (if c \<noteq> of_char CHR ''%'' then map_option ((#) c) (cfmt fmt args)
      else case fmt of
        [] \<Rightarrow> Some []
      | d # fmt \<Rightarrow>
          if d = of_char CHR ''d'' then
            (case args of CNum x # args \<Rightarrow> map_option ((@) (printint x 10 True)) (cfmt fmt args) | _ \<Rightarrow> None)
          else if d = of_char CHR ''x'' \<or> d = of_char CHR ''p'' then
            (case args of CNum x # args \<Rightarrow> map_option ((@) (printint x 16 False)) (cfmt fmt args) | _ \<Rightarrow> None)
          else if d = of_char CHR ''s'' then
            (case args of
               CStr so # args \<Rightarrow>
                 map_option ((@) (case so of None \<Rightarrow> bytes_of ''(null)'' | Some str \<Rightarrow> str)) (cfmt fmt args)
             | _ \<Rightarrow> None)
          else if d = of_char CHR ''%'' then map_option ((#) d) (cfmt fmt args)
          else map_option (\<lambda>r. of_char CHR ''%'' # d # r) (cfmt fmt args))"

text \<open>
  \<open>uartputc\<close>: the wait for the transmitter is bounded and ends with the byte being sent in any case.
\<close>

definition uartputc :: "uint \<Rightarrow> 'a con_scheme \<Rightarrow> 'a con_scheme" where
  "uartputc c s = (if \<not> uart s then s else s\<lparr>uart_out := uart_out s @ [ucast c]\<rparr>)"

definition cga_scroll :: "int \<Rightarrow> (nat \<Rightarrow> ushort) \<Rightarrow> int \<times> (nat \<Rightarrow> ushort)" where
  "cga_scroll pos m =
     (let m = (\<lambda>i. if i < 23 * 80 then m (i + 80) else m i);
          pos = pos - 80;
          m = (\<lambda>i. if pos \<le> int i \<and> i < 24 * 80 then 0 else m i)
      in (pos, m))"

definition cgaputc :: "uint \<Rightarrow> 'a con_scheme \<Rightarrow> (unit, 'a con_scheme) kres" where
  "cgaputc c s =
     (let pos = uint (crt_pos s);
          (pos, m) =
            (if c = of_char CHR ''\<newline>'' then (pos + (80 - pos mod 80), crt s)
             else if c = BACKSPACE then ((if pos > 0 then pos - 1 else pos), crt s)
             else (pos + 1, (crt s)(nat pos := (ucast c AND 0xFF) OR 0x0700)))
      in if pos < 0 \<or> pos > 25 * 80 then Panic ''pos under/overflow''
         else
           let (pos, m) = (if pos div 80 \<ge> 24 then cga_scroll pos m else (pos, m))
           in Ret () (s\<lparr>crt_pos := word_of_int pos, crt := m(nat pos := of_char CHR '' '' OR 0x0700)\<rparr>))"

definition consputc :: "uint \<Rightarrow> 'a con_scheme \<Rightarrow> (unit, 'a con_scheme) kres" where
  "consputc c s =
     (if con_panicked s then Spin
      else
        let s = (if c = BACKSPACE then uartputc 8 (uartputc 32 (uartputc 8 s)) else uartputc c s)
        in cgaputc c s)"

definition cprintf :: "string \<Rightarrow> carg list \<Rightarrow> 'a con_scheme \<Rightarrow> (unit, 'a con_scheme) kres" where
  "cprintf fmt args s =
     (let locking = con_locking s in
      bindK (if locking then acquire ConsLock s else Ret () s) (\<lambda>_ s.
      case cfmt (bytes_of fmt) args of
        None \<Rightarrow> Fault
      | Some out \<Rightarrow>
          bindK (forK out (\<lambda>c. consputc (ucast c)) s) (\<lambda>_ s.
          if locking then release ConsLock s else Ret () s)))"

section \<open>Process listing\<close>

text \<open>\<open>getcallerpcs\<close> of \<^verbatim>\<open>spinlock.c\<close>, from the frame pointer on.\<close>

fun getcallerpcs_loop :: "bytemem \<Rightarrow> uint \<Rightarrow> nat \<Rightarrow> uint list" where
  "getcallerpcs_loop m ebp 0 = []"
| "getcallerpcs_loop m ebp (Suc n) =
     (if ebp = 0 \<or> ebp < KERNBASE \<or> ebp = 0xFFFFFFFF then replicate (Suc n) 0
      else load32 m (ebp + 4) # getcallerpcs_loop m (load32 m ebp) n)"

definition getcallerpcs :: "bytemem \<Rightarrow> uint \<Rightarrow> uint list" where
  "getcallerpcs m v = getcallerpcs_loop m (v - 8) 10"

fun state_name :: "procstate \<Rightarrow> uchar list" where
  "state_name UNUSED = bytes_of ''unused''"
| "state_name EMBRYO = bytes_of ''embryo''"
| "state_name SLEEPING = bytes_of ''sleep ''"
| "state_name RUNNABLE = bytes_of ''runble''"
| "state_name RUNNING = bytes_of ''run   ''"
| "state_name ZOMBIE = bytes_of ''zombie''"

text \<open>\<open>ebp p\<close> is the frame pointer in the saved context of process \<open>p\<close>, which is abstracted elsewhere.\<close>

definition procdump :: "(nat \<Rightarrow> uint) \<Rightarrow> 'a con_scheme \<Rightarrow> (unit, 'a con_scheme) kres" where
  "procdump ebp s =
     bindK (cprintf ''\<newline>PID | STATE | NAME | PRIORITY\<newline>'' [] s) (\<lambda>_ s.
     forK [0..<NPROC] (\<lambda>p s.
       if p_state (procs s p) = UNUSED then Ret () s
       else
         bindK (cprintf ''%d %s %s %d''
                  [CNum (of_int (p_pid (procs s p))), CStr (Some (state_name (p_state (procs s p)))),
                   CStr (Some (p_name (procs s p))), CNum (of_nat (p_priority (procs s p)))] s) (\<lambda>_ s.
         bindK (if p_state (procs s p) = SLEEPING
                then forK (takeWhile (\<lambda>pc. pc \<noteq> 0) (getcallerpcs (k_mem s) (ebp p + 8)))
                       (\<lambda>pc. cprintf '' %p'' [CNum pc]) s
                else Ret () s) (\<lambda>_ s.
         cprintf ''\<newline>'' [] s))) s)"

section \<open>Keyboard and serial input\<close>

abbreviation (input) SHIFT :: uchar where "SHIFT \<equiv> 1"
abbreviation (input) CTL :: uchar where "CTL \<equiv> 2"
abbreviation (input) ALT :: uchar where "ALT \<equiv> 4"
abbreviation (input) CAPSLOCK :: uchar where "CAPSLOCK \<equiv> 8"
abbreviation (input) NUMLOCK :: uchar where "NUMLOCK \<equiv> 16"
abbreviation (input) SCROLLLOCK :: uchar where "SCROLLLOCK \<equiv> 32"
abbreviation (input) E0ESC :: uchar where "E0ESC \<equiv> 64"

text \<open>A table: the initialisers in order, then those with a designated index; other entries are 0.\<close>

definition table :: "uchar list \<Rightarrow> (nat \<times> uchar) list \<Rightarrow> uchar \<Rightarrow> uchar" where
  "table xs ys i =
     (case map_of ys (unat i) of Some v \<Rightarrow> v | None \<Rightarrow> if unat i < length xs then xs ! unat i else 0)"

definition shiftcode :: "uchar \<Rightarrow> uchar" where
  "shiftcode = table [] [(0x1D, CTL), (0x2A, SHIFT), (0x36, SHIFT), (0x38, ALT), (0x9D, CTL), (0xB8, ALT)]"

definition togglecode :: "uchar \<Rightarrow> uchar" where
  "togglecode = table [] [(0x3A, CAPSLOCK), (0x45, NUMLOCK), (0x46, SCROLLLOCK)]"

text \<open>The entries for the keys with an escape prefix that all three maps share.\<close>

definition key_entries :: "(nat \<times> uchar) list" where
  "key_entries = [(0xC8, 0xE2), (0xD0, 0xE3), (0xC9, 0xE6), (0xD1, 0xE7), (0xCB, 0xE4), (0xCD, 0xE5),
     (0x97, 0xE0), (0xCF, 0xE1), (0xD2, 0xE8), (0xD3, 0xE9)]"

definition normalmap :: "uchar \<Rightarrow> uchar" where
  "normalmap = table
    ([0, 0x1B] @ bytes_of ''1234567890-='' @ [8, 9] @
     bytes_of ''qwertyuiop[]'' @ [10, 0] @ bytes_of ''asdfghjkl;'' @
     [39, 96, 0, 92] @ bytes_of ''zxcvbnm,./'' @ [0] @ bytes_of ''*'' @
     [0] @ bytes_of '' '' @ replicate 13 0 @ bytes_of ''789-456+1230.'' @ replicate 4 0)
    ((0x9C, 10) # (0xB5, of_char CHR ''/'') # key_entries)"

definition shiftmap :: "uchar \<Rightarrow> uchar" where
  "shiftmap = table
    ([0, 27] @ bytes_of ''!@#$%^&*()_+'' @ [8, 9] @
     bytes_of ''QWERTYUIOP{}'' @ [10, 0] @ bytes_of ''ASDFGHJKL:'' @
     [34, 126, 0, 124] @ bytes_of ''ZXCVBNM<>?'' @ [0] @ bytes_of ''*'' @
     [0] @ bytes_of '' '' @ replicate 13 0 @ bytes_of ''789-456+1230.'' @ replicate 4 0)
    ((0x9C, 10) # (0xB5, of_char CHR ''/'') # key_entries)"

text \<open>\<open>C(x)\<close>: the control character of a key.\<close>

definition ctl_char :: "char \<Rightarrow> uchar" where
  "ctl_char c = of_char c - of_char CHR ''@''"

definition ctlmap :: "uchar \<Rightarrow> uchar" where
  "ctlmap = table
    (replicate 16 0 @ map ctl_char ''QWERTYUIOP'' @ [0, 0, 13, 0] @ map ctl_char ''ASDFGHJKL'' @
     [0, 0, 0, 0, 92 - 64] @ map ctl_char ''ZXCVBNM'' @ [0, 0] @ map ctl_char ''/'' @ [0, 0])
    ((0x9C, 13) # (0xB5, ctl_char CHR ''/'') # key_entries)"

text \<open>
  \<open>kbdgetc\<close> after the read of the data port: the new value of the static variable \<open>shift\<close> and the
  result.  The variable never has a bit above \<open>E0ESC\<close>, so a byte holds it.
\<close>

definition charcode :: "uchar \<Rightarrow> uchar \<Rightarrow> uchar" where
  "charcode i = (if i = 0 then normalmap else if i = 1 then shiftmap else ctlmap)"

definition kbd_decode :: "uchar \<Rightarrow> uchar \<Rightarrow> uchar \<times> uchar" where
  "kbd_decode shift data =
     (if data = 0xE0 then (shift OR E0ESC, 0)
      else if data AND 0x80 \<noteq> 0 then
        let data = (if shift AND E0ESC \<noteq> 0 then data else data AND 0x7F)
        in (shift AND NOT (shiftcode data OR E0ESC), 0)
      else
        let (data, shift) = (if shift AND E0ESC \<noteq> 0 then (data OR 0x80, shift AND NOT E0ESC) else (data, shift));
            shift = (shift OR shiftcode data) XOR togglecode data;
            c = charcode (shift AND (CTL OR SHIFT)) data;
            c = (if shift AND CAPSLOCK \<noteq> 0 then
                   if of_char CHR ''a'' \<le> c \<and> c \<le> of_char CHR ''z'' then c - 32
                   else if of_char CHR ''A'' \<le> c \<and> c \<le> of_char CHR ''Z'' then c + 32
                   else c
                 else c)
        in (shift, c))"

definition kbdgetc :: "'a con_scheme \<Rightarrow> uchar option \<times> 'a con_scheme" where
  "kbdgetc s =
     (case kbd_in s of
        [] \<Rightarrow> (None, s)
      | data # rest \<Rightarrow>
          let (shift, c) = kbd_decode (kbd_shift s) data
          in (Some c, s\<lparr>kbd_in := rest, kbd_shift := shift\<rparr>))"

definition uartgetc :: "'a con_scheme \<Rightarrow> uchar option \<times> 'a con_scheme" where
  "uartgetc s =
     (if \<not> uart s then (None, s)
      else case uart_in s of [] \<Rightarrow> (None, s) | c # rest \<Rightarrow> (Some c, s\<lparr>uart_in := rest\<rparr>))"

section \<open>The input buffer\<close>

definition input_upd :: "(input \<Rightarrow> input) \<Rightarrow> 'a con_scheme \<Rightarrow> 'a con_scheme" where
  "input_upd f s = s\<lparr>con_input := f (con_input s)\<rparr>"

text \<open>The loop of \<open>C('U')\<close>, which runs at most \<open>e - w\<close> rounds.\<close>

fun kill_line :: "nat \<Rightarrow> 'a con_scheme \<Rightarrow> (unit, 'a con_scheme) kres" where
  "kill_line 0 s = Ret () s"
| "kill_line (Suc n) s =
     (let inp = con_input s in
      if in_e inp \<noteq> in_w inp \<and> in_buf inp ! unat ((in_e inp - 1) mod INPUT_BUF) \<noteq> 10
      then bindK (consputc BACKSPACE (input_upd (\<lambda>x. x\<lparr>in_e := in_e x - 1\<rparr>) s)) (\<lambda>_ s. kill_line n s)
      else Ret () s)"

definition input_append :: "uchar \<Rightarrow> input \<Rightarrow> input" where
  "input_append c x = x\<lparr>in_buf := (in_buf x)[unat (in_e x mod INPUT_BUF) := c], in_e := in_e x + 1\<rparr>"

text \<open>One character of \<open>consoleintr\<close>; the result tells whether \<open>doprocdump\<close> is set.\<close>

definition console_char :: "uchar \<Rightarrow> 'a con_scheme \<Rightarrow> (bool, 'a con_scheme) kres" where
  "console_char c s =
     (let inp = con_input s in
      if c = ctl_char CHR ''P'' then Ret True s
      else if c = ctl_char CHR ''U'' then
        bindK (kill_line (unat (in_e inp - in_w inp)) s) (\<lambda>_ s. Ret False s)
      else if c = ctl_char CHR ''H'' \<or> c = 0x7F then
        if in_e inp \<noteq> in_w inp
        then bindK (consputc BACKSPACE (input_upd (\<lambda>x. x\<lparr>in_e := in_e x - 1\<rparr>) s)) (\<lambda>_ s. Ret False s)
        else Ret False s
      else if c \<noteq> 0 \<and> in_e inp - in_r inp < INPUT_BUF then
        let c = (if c = 13 then 10 else c) in
        bindK (consputc (ucast c) (input_upd (input_append c) s)) (\<lambda>_ s.
        if c = 10 \<or> c = ctl_char CHR ''D'' \<or> in_e (con_input s) = in_r (con_input s) + INPUT_BUF then
          bindK (wakeup ChanInput (input_upd (\<lambda>x. x\<lparr>in_w := in_e x\<rparr>) s)) (\<lambda>_ s. Ret False s)
        else Ret False s)
      else Ret False s)"

text \<open>\<open>n\<close> bounds the number of characters that \<open>getc\<close> delivers.\<close>

fun consoleintr_loop ::
  "('a con_scheme \<Rightarrow> uchar option \<times> 'a con_scheme) \<Rightarrow> nat \<Rightarrow> bool \<Rightarrow> 'a con_scheme \<Rightarrow> (bool, 'a con_scheme) kres" where
  "consoleintr_loop getc 0 d s = Spin"
| "consoleintr_loop getc (Suc n) d s =
     (case getc s of
        (None, s) \<Rightarrow> Ret d s
      | (Some c, s) \<Rightarrow> bindK (console_char c s) (\<lambda>d' s. consoleintr_loop getc n (d \<or> d') s))"

definition consoleintr ::
  "(nat \<Rightarrow> uint) \<Rightarrow> ('a con_scheme \<Rightarrow> uchar option \<times> 'a con_scheme) \<Rightarrow> nat \<Rightarrow> 'a con_scheme \<Rightarrow> (unit, 'a con_scheme) kres" where
  "consoleintr ebp getc n s =
     bindK (acquire ConsLock s) (\<lambda>_ s.
     bindK (consoleintr_loop getc n False s) (\<lambda>doprocdump s.
     bindK (release ConsLock s) (\<lambda>_ s.
     if doprocdump then procdump ebp s else Ret () s)))"

definition kbdintr :: "(nat \<Rightarrow> uint) \<Rightarrow> 'a con_scheme \<Rightarrow> (unit, 'a con_scheme) kres" where
  "kbdintr ebp s = consoleintr ebp kbdgetc (Suc (length (kbd_in s))) s"

definition uartintr :: "(nat \<Rightarrow> uint) \<Rightarrow> 'a con_scheme \<Rightarrow> (unit, 'a con_scheme) kres" where
  "uartintr ebp s = consoleintr ebp uartgetc (Suc (length (uart_in s))) s"

text \<open>
  The loop of \<open>consoleread\<close> with the lock held: \<open>k\<close> bytes are still wanted and \<open>out\<close> has been copied.
  \<open>Inl\<close> is the end of the loop, with a flag that the process has been killed, \<open>Inr\<close> the call of
  \<open>sleep\<close>.
\<close>

fun consoleread_from ::
  "nat \<Rightarrow> uchar list \<Rightarrow> 'a con_scheme \<Rightarrow> ((bool \<times> uchar list) + uchar list, 'a con_scheme) kres" where
  "consoleread_from 0 out s = Ret (Inl (False, out)) s"
| "consoleread_from (Suc k) out s =
     (let inp = con_input s in
      if in_r inp = in_w inp then
        bindK (mykilled s) (\<lambda>killed s. Ret (if killed then Inl (True, out) else Inr out) s)
      else
        let c = in_buf inp ! unat (in_r inp mod INPUT_BUF);
            s' = input_upd (\<lambda>x. x\<lparr>in_r := in_r x + 1\<rparr>) s
        in if c = ctl_char CHR ''D'' then Ret (Inl (False, out)) (if out \<noteq> [] then s else s')
           else if c = 10 then Ret (Inl (False, out @ [c])) s'
           else consoleread_from k (out @ [c]) s')"

definition consoleread :: "nat \<Rightarrow> uint \<Rightarrow> 'a con_scheme \<Rightarrow> (int \<times> uchar list, 'a con_scheme) kres" where
  "consoleread ip n s =
     bindK (iunlock (Some ip) s) (\<lambda>_ s.
     bindK (acquire ConsLock s) (\<lambda>_ s.
     bindK (consoleread_from (nat (sint n)) [] s) (\<lambda>r s.
     case r of
       Inr out \<Rightarrow> Sleeps ChanInput ConsLock s
     | Inl (killed, out) \<Rightarrow>
         bindK (release ConsLock s) (\<lambda>_ s.
         bindK (ilock (Some ip) s) (\<lambda>_ s.
         Ret (if killed then - 1 else int (length out), out) s)))))"

definition consolewrite :: "nat \<Rightarrow> uchar list \<Rightarrow> 'a con_scheme \<Rightarrow> (int, 'a con_scheme) kres" where
  "consolewrite ip buf s =
     bindK (iunlock (Some ip) s) (\<lambda>_ s.
     bindK (acquire ConsLock s) (\<lambda>_ s.
     bindK (forK buf (\<lambda>c. consputc (ucast c)) s) (\<lambda>_ s.
     bindK (release ConsLock s) (\<lambda>_ s.
     bindK (ilock (Some ip) s) (\<lambda>_ s.
     Ret (int (length buf)) s)))))"

text \<open>\<open>consoleinit\<close>; the table of devices that it fills in is \<open>con_devsw\<close>.\<close>

definition consoleinit :: "'a con_scheme \<Rightarrow> 'a con_scheme" where
  "consoleinit s = (initlock ConsLock s)\<lparr>con_locking := True\<rparr>"

definition con_devsw :: "'a con_scheme devsw" where
  "con_devsw i = (if i = CONSOLE then (Some consoleread, Some consolewrite) else (None, None))"

end
