(* ===== verification/Log_Crash.thy ===== *)
theory Log_Crash
  imports Log
begin

text \<open>
  The log makes a transaction atomic with respect to crashes.  A crash may stop \<open>commit\<close> or
  \<open>recover_from_log\<close> between any two disk writes and loses everything but the disk.  \<open>logdisk\<close> is
  what a disk image stands for: its contents with the committed entries of its log applied.
\<close>

section \<open>Sequences of disk writes\<close>

definition apply_writes :: "(uint \<times> block) list \<Rightarrow> (uint \<Rightarrow> block) \<Rightarrow> uint \<Rightarrow> block" where
  "apply_writes W D = fold (\<lambda>(b, d) D. D(b := d)) W D"

lemma apply_writes_simps [simp]:
  "apply_writes [] D = D" "apply_writes ((b, d) # W) D = apply_writes W (D(b := d))"
  "apply_writes (V @ W) D = apply_writes W (apply_writes V D)"
  by (simp_all add: apply_writes_def)

lemma apply_writes_other: "b \<notin> fst ` set W \<Longrightarrow> apply_writes W D b = D b"
  by (induction W arbitrary: D) auto

lemma apply_writes_map:
  assumes "i < n" and "inj_on f {..<n}"
  shows "apply_writes (map (\<lambda>i. (f i, g i)) [0..<n]) D (f i) = g i"
  using assms
proof (induction n)
  case (Suc n)
  show ?case
  proof (cases "i = n")
    case False
    with Suc.prems have "i < n" "f i \<noteq> f n" by (auto simp: inj_on_def)
    moreover have "inj_on f {..<n}" using Suc.prems(2) by (auto simp: inj_on_def)
    ultimately show ?thesis using Suc.IH by simp
  qed simp
qed simp

lemma apply_writes_map_other:
  assumes "\<And>i. i < n \<Longrightarrow> b \<noteq> f i"
  shows "apply_writes (map (\<lambda>i. (f i, g i)) [0..<n]) D b = D b"
  using assms by (induction n) auto

section \<open>The header block\<close>

definition disk_header :: "block \<Rightarrow> uint list" where
  "disk_header d = map (\<lambda>i. get32 d (4 + 4 * i)) [0..<nat (sint (get32 d 0))]"

definition put_entries :: "(nat \<Rightarrow> uint) \<Rightarrow> nat \<Rightarrow> block \<Rightarrow> block" where
  "put_entries f m d = fold (\<lambda>i. put32 (4 + 4 * i) (f i)) [0..<m] d"

lemma put_entries_Suc: "put_entries f (Suc m) d = put32 (4 + 4 * m) (f m) (put_entries f m d)"
  by (simp add: put_entries_def)

lemma put_entries_spec:
  assumes "length d = BSIZE" and "m \<le> 30"
  shows "length (put_entries f m d) = BSIZE \<and> get32 (put_entries f m d) 0 = get32 d 0 \<and>
    (\<forall>i < 30. get32 (put_entries f m d) (4 + 4 * i) = (if i < m then f i else get32 d (4 + 4 * i)))"
  using assms(2)
proof (induction m)
  case 0
  show ?case using assms(1) by (simp add: put_entries_def)
next
  case (Suc m)
  then have l: "length (put_entries f m d) = BSIZE" by simp
  have "get32 (put_entries f (Suc m) d) (4 + 4 * i) = (if i < Suc m then f i else get32 d (4 + 4 * i))" if "i < 30" for i
  proof (cases "i = m")
    case False
    then have "4 + 4 * i + 4 \<le> 4 + 4 * m \<or> 4 + 4 * m + 4 \<le> 4 + 4 * i" by arith
    then show ?thesis using Suc that l False by (simp add: put_entries_Suc get32_put32_other)
  qed (use l Suc.prems in \<open>simp add: put_entries_Suc\<close>)
  then show ?case using Suc l by (simp add: put_entries_Suc get32_put32_other)
qed

lemma header_bytes_decode:
  assumes "length d = BSIZE" and "0 \<le> lh_n h" and "lh_n h \<le> 30" and "length (lh_block h) = 30"
  shows "disk_header (header_bytes h d) = take (nat (lh_n h)) (lh_block h)"
    and "length (header_bytes h d) = BSIZE"
proof -
  let ?d = "put32 0 (of_int (lh_n h)) d"
  have l: "length ?d = BSIZE" "nat (lh_n h) \<le> 30" using assms by simp_all
  note H = put_entries_spec [OF l, of "\<lambda>i. lh_block h ! i"]
  have hb: "header_bytes h d = put_entries (\<lambda>i. lh_block h ! i) (nat (lh_n h)) ?d"
    by (simp add: header_bytes_def put_entries_def)
  show "length (header_bytes h d) = BSIZE" using H hb by simp
  have "get32 (header_bytes h d) 0 = of_int (lh_n h)" using H hb assms(1) by simp
  moreover have "sint (of_int (lh_n h) :: uint) = lh_n h"
    using assms(2,3) by (simp add: signed_of_int signed_take_bit_int_eq_self)
  moreover have "get32 (header_bytes h d) (4 + 4 * i) = lh_block h ! i" if "i < nat (lh_n h)" for i
    using H that l(2) hb by simp
  ultimately show "disk_header (header_bytes h d) = take (nat (lh_n h)) (lh_block h)"
    using assms(4) l(2) by (intro nth_equalityI) (auto simp: disk_header_def)
qed

section \<open>Where the log is\<close>

text \<open>Block \<open>i\<close> of the log area; block 0 is the header.\<close>

definition lblk :: "int \<Rightarrow> nat \<Rightarrow> uint" where
  "lblk st i = of_int (st + int i)"

definition log_area :: "int \<Rightarrow> int \<Rightarrow> uint set" where
  "log_area st sz = lblk st ` {..<nat sz}"

definition log_geom :: "'a lg_scheme \<Rightarrow> bool" where
  "log_geom s \<longleftrightarrow> lg_dev s = 1 \<and> 0 \<le> lg_start s \<and> 2 \<le> lg_size s \<and> lg_start s + lg_size s \<le> disksize s \<and>
     length (lh_block (lg_lh s)) = 30"

text \<open>A list of home blocks that a transaction may write.\<close>

definition homes :: "'a lg_scheme \<Rightarrow> uint list \<Rightarrow> bool" where
  "homes s bs \<longleftrightarrow> int (length bs) < lg_size s \<and> length bs < NBUF \<and> distinct bs \<and>
     (\<forall>b \<in> set bs. b \<notin> log_area (lg_start s) (lg_size s) \<and> int (unat b) < disksize s)"

lemma unat_lblk: "0 \<le> st \<Longrightarrow> st + int i < 2 ^ 31 \<Longrightarrow> uint (lblk st i) = st + int i"
  unfolding lblk_def uint_word_of_int by simp

lemma lblk_inj: "0 \<le> st \<Longrightarrow> st + int n \<le> 2 ^ 31 \<Longrightarrow> inj_on (lblk st) {..<n}"
proof (rule inj_onI)
  fix i j assume a: "0 \<le> st" "st + int n \<le> 2 ^ 31" "i \<in> {..<n}" "j \<in> {..<n}" "lblk st i = lblk st j"
  have "st + int i = uint (lblk st i)" by (rule unat_lblk [symmetric]) (use a(1-3) in auto)
  also have "\<dots> = uint (lblk st j)" using a(5) by simp
  also have "\<dots> = st + int j" by (rule unat_lblk) (use a(1,2,4) in auto)
  finally show "i = j" by simp
qed

lemma log_block_lblk: "log_block s i = lblk (lg_start s) (Suc i)"
  by (simp add: log_block_def lblk_def add.commute add.left_commute)

lemma bc_more_lg:
  assumes "bc.more t = bc.more s"
  shows "lg_start t = lg_start s" "lg_size t = lg_size s" "lg_outstanding t = lg_outstanding s"
    "lg_committing t = lg_committing s" "lg_dev t = lg_dev s" "lg_lh t = lg_lh s" "lg.more t = lg.more s"
  using assms by (cases s, cases t, simp)+

lemma bsame_lg:
  assumes "bsame s t"
  shows "log_geom t = log_geom s" "homes t = homes s" "lg_lh t = lg_lh s" "lg_start t = lg_start s"
    "lg_size t = lg_size s" "lg_dev t = lg_dev s" "log_block t = log_block s" "disksize t = disksize s"
  using assms bc_more_lg [of t s] by (auto simp: bsame_def log_geom_def homes_def log_block_def fun_eq_iff)

text \<open>The state after a sequence of block writes.\<close>

definition wrote :: "(uint \<times> block) list \<Rightarrow> 'a lg_scheme \<Rightarrow> 'a lg_scheme \<Rightarrow> bool" where
  "wrote W s t \<longleftrightarrow> bok t \<and> bsame s t \<and> bheld t = {} \<and> bview t = apply_writes W (bview s) \<and>
     memdisk t = apply_writes W (memdisk s) \<and> disk_writes t = disk_writes s @ W"

lemma wrote_trans: "wrote V s t \<Longrightarrow> wrote W t u \<Longrightarrow> wrote (V @ W) s u"
  using bsame_trans by (fastforce simp: wrote_def)

section \<open>The loops\<close>

lemma bindK_unit: "bindK m Ret = m"
  by (cases m) auto

lemma forK_Nil: "forK [] f = Ret ()"
  by (rule ext) simp

lemma forK_upt_Suc: "forK [0..<Suc n] f s = bindK (forK [0..<n] f s) (\<lambda>_ s. f n s)"
  by (simp add: forK_append forK_Nil bindK_unit)

lemma write_log_spec:
  assumes ok: "bok s" "bheld s = {}" and g: "log_geom s" and h: "homes s bs"
    and bs: "nat (lh_n (lg_lh s)) = length bs" "take (length bs) (lh_block (lg_lh s)) = bs" and d: "bdirty s = set bs"
  shows "\<exists>t. write_log s = Ret () t \<and> bdirty t = set bs \<and>
    wrote (map (\<lambda>i. (lblk (lg_start s) (Suc i), bview s (bs ! i))) [0..<length bs]) s t"
proof -
  let ?body = "\<lambda>tail s. bindK (bread (lg_dev s) (log_block s tail) s) (\<lambda>to s.
       if length (lh_block (lg_lh s)) \<le> tail then Fault else
       bindK (bread (lg_dev s) (lh_block (lg_lh s) ! tail) s) (\<lambda>from s.
       let s = set_data to (b_data (bufs s from)) s in
       bindK (bwrite to s) (\<lambda>_ s. bindK (brelse from s) (\<lambda>_ s. brelse to s))))"
  let ?W = "\<lambda>m. map (\<lambda>i. (lblk (lg_start s) (Suc i), bview s (bs ! i))) [0..<m]"
  have "\<exists>t. forK [0..<m] ?body s = Ret () t \<and> bdirty t = set bs \<and> wrote (?W m) s t" if "m \<le> length bs" for m
    using that
  proof (induction m)
    case 0
    show ?case using ok d by (simp add: wrote_def)
  next
    case (Suc m)
    then obtain u where u: "forK [0..<m] ?body s = Ret () u" "bdirty u = set bs" "wrote (?W m) s u" by auto
    then have su: "bsame s u" "bok u" "bheld u = {}" "bview u = apply_writes (?W m) (bview s)" by (simp_all add: wrote_def)
    note L = bsame_lg [OF su(1)]
    let ?a = "bs ! m" and ?b = "lblk (lg_start s) (Suc m)"
    have m: "m < length bs" using Suc by simp
    have a: "?a \<in> set bs" using m by simp
    have area: "lblk (lg_start s) (Suc i) \<in> log_area (lg_start s) (lg_size s)" if "i < length bs" for i
      using that h by (auto simp: log_area_def homes_def)
    have na: "?a \<notin> log_area (lg_start s) (lg_size s)" using h a unfolding homes_def by blast
    have nb: "?b \<notin> set bs" "?a \<noteq> ?b" using area [OF m] h a by (auto simp: homes_def)
    have ra: "int (unat ?a) < disksize u" using h a L(8) by (auto simp: homes_def)
    have rb: "int (unat ?b) < disksize u"
      using unat_lblk [of "lg_start s" "Suc m"] g h m bokD(4) [OF ok(1)] L(8) by (simp add: log_geom_def homes_def)
    have cd: "card (bdirty u) < NBUF" using u(2) h by (simp add: homes_def distinct_card)
    from bio.copy_dst_first [OF su(2) ra rb nb(2) su(3)] nb(1) u(2) cd a obtain t where
      t: "bindK (bread 1 ?b u) (\<lambda>i s. bindK (bread 1 ?a s) (\<lambda>j s.
        bindK (bwrite i (set_data i (b_data (bufs s j)) s)) (\<lambda>_ s. bindK (brelse j s) (\<lambda>_ s. brelse i s)))) = Ret () t"
      "bok t" "bsame u t" "bheld t = {}" "bview t = (bview u)(?b := bview u ?a)"
      "memdisk t = (memdisk u)(?b := bview u ?a)" "disk_writes t = disk_writes u @ [(?b, bview u ?a)]" "bdirty t = bdirty u"
      by auto
    have "?a \<noteq> lblk (lg_start s) (Suc x)" if "x < m" for x
      using area [of x] that m na by auto
    then have va: "bview u ?a = bview s ?a"
      unfolding su(4) by (rule apply_writes_map_other)
    have "?body m u = Ret () t"
    proof -
      have "lh_block (lg_lh v) = lh_block (lg_lh s)" "lg_dev v = 1" if "bsame u v" for v
        using bsame_lg [OF that] L g by (simp_all add: log_geom_def)
      moreover have "bs ! m = lh_block (lg_lh s) ! m" using bs(2) m by (metis nth_take)
      moreover have "m < length (lh_block (lg_lh s))" using g m h by (simp add: log_geom_def homes_def)
      moreover have "\<exists>i v. bread 1 ?b u = Ret i v \<and> bsame u v"
        using bio.bread [OF su(2) rb] su(3) cd by auto
      ultimately show ?thesis using t(1) L g by (auto simp: log_block_lblk log_geom_def)
    qed
    moreover have "wrote (?W (Suc m)) s t"
      using wrote_trans [OF u(3), of "[(?b, bview s ?a)]" t] t va by (simp add: wrote_def)
    ultimately show ?case using u(1,2) t(8) unfolding forK_upt_Suc by simp
  qed
  from this [of "length bs"] show ?thesis using bs(1) by (simp add: write_log_def)
qed

lemma install_trans_spec:
  assumes ok: "bok s" "bheld s = {}" and g: "log_geom s" and h: "homes s bs"
    and bs: "nat (lh_n (lg_lh s)) = length bs" "take (length bs) (lh_block (lg_lh s)) = bs"
    and d: "bdirty s = set bs \<or> bdirty s = {}"
  shows "\<exists>t. install_trans s = Ret () t \<and> bdirty t = {} \<and>
    wrote (map (\<lambda>i. (bs ! i, bview s (lblk (lg_start s) (Suc i)))) [0..<length bs]) s t"
proof -
  let ?body = "\<lambda>tail s. bindK (bread (lg_dev s) (log_block s tail) s) (\<lambda>lbuf s.
       if length (lh_block (lg_lh s)) \<le> tail then Fault else
       bindK (bread (lg_dev s) (lh_block (lg_lh s) ! tail) s) (\<lambda>dbuf s.
       let s = set_data dbuf (b_data (bufs s lbuf)) s in
       bindK (bwrite dbuf s) (\<lambda>_ s. bindK (brelse lbuf s) (\<lambda>_ s. brelse dbuf s))))"
  let ?W = "\<lambda>m. map (\<lambda>i. (bs ! i, bview s (lblk (lg_start s) (Suc i)))) [0..<m]"
  have "\<exists>t. forK [0..<m] ?body s = Ret () t \<and> bdirty t = bdirty s - set (take m bs) \<and> wrote (?W m) s t"
    if "m \<le> length bs" for m
    using that
  proof (induction m)
    case 0
    show ?case using ok by (simp add: wrote_def)
  next
    case (Suc m)
    then obtain u where u: "forK [0..<m] ?body s = Ret () u" "bdirty u = bdirty s - set (take m bs)" "wrote (?W m) s u" by auto
    then have su: "bsame s u" "bok u" "bheld u = {}" "bview u = apply_writes (?W m) (bview s)" by (simp_all add: wrote_def)
    note L = bsame_lg [OF su(1)]
    let ?b = "bs ! m" and ?a = "lblk (lg_start s) (Suc m)"
    have m: "m < length bs" using Suc by simp
    have b: "?b \<in> set bs" using m by simp
    have area: "?a \<in> log_area (lg_start s) (lg_size s)" using m h by (auto simp: log_area_def homes_def)
    have na: "?a \<notin> set bs" using area h unfolding homes_def by blast
    then have ab: "?a \<noteq> ?b" using b by auto
    have rb: "int (unat ?b) < disksize u" using h b L(8) by (auto simp: homes_def)
    have ra: "int (unat ?a) < disksize u"
      using unat_lblk [of "lg_start s" "Suc m"] g h m bokD(4) [OF ok(1)] L(8) by (simp add: log_geom_def homes_def)
    have nd: "?a \<notin> bdirty u" using na d u(2) by auto
    have dm: "set bs - set (take m bs) \<subseteq> set bs" "?b \<in> set bs - set (take m bs)"
      using h m b by (auto simp: homes_def in_set_conv_nth nth_eq_iff_index_eq)
    have cd: "card (bdirty u) < NBUF"
      using d u(2) h card_mono [OF _ dm(1)] by (auto simp: homes_def distinct_card)
    have room: "?b \<in> bdirty u \<or> card (insert ?a (bdirty u)) < NBUF" using d u(2) dm(2) by auto
    from bio.copy_src_first [OF su(2) ra rb ab su(3) nd cd room] obtain t where
      t: "bindK (bread 1 ?a u) (\<lambda>i s. bindK (bread 1 ?b s) (\<lambda>j s.
        bindK (bwrite j (set_data j (b_data (bufs s i)) s)) (\<lambda>_ s. bindK (brelse i s) (\<lambda>_ s. brelse j s)))) = Ret () t"
      "bok t" "bsame u t" "bheld t = {}" "bview t = (bview u)(?b := bview u ?a)"
      "memdisk t = (memdisk u)(?b := bview u ?a)" "disk_writes t = disk_writes u @ [(?b, bview u ?a)]"
      "bdirty t = bdirty u - {?b}" by auto
    have "?a \<noteq> bs ! x" if "x < m" for x using na that m by (metis less_trans nth_mem)
    then have va: "bview u ?a = bview s ?a" unfolding su(4) by (rule apply_writes_map_other)
    have "?body m u = Ret () t"
    proof -
      have "lh_block (lg_lh v) = lh_block (lg_lh s)" "lg_dev v = 1" if "bsame u v" for v
        using bsame_lg [OF that] L g by (simp_all add: log_geom_def)
      moreover have "bs ! m = lh_block (lg_lh s) ! m" using bs(2) m by (metis nth_take)
      moreover have "m < length (lh_block (lg_lh s))" using g m h by (simp add: log_geom_def homes_def)
      moreover have "\<exists>i v. bread 1 ?a u = Ret i v \<and> bsame u v"
        using bio.bread [OF su(2) ra] su(3) cd by auto
      ultimately show ?thesis using t(1) L g by (auto simp: log_block_lblk log_geom_def)
    qed
    moreover have "wrote (?W (Suc m)) s t"
      using wrote_trans [OF u(3), of "[(?b, bview s ?a)]" t] t va by (simp add: wrote_def)
    moreover have "bdirty t = bdirty s - set (take (Suc m) bs)"
      using t(8) u(2) m by (auto simp: take_Suc_conv_app_nth)
    ultimately show ?case using u(1) unfolding forK_upt_Suc by simp
  qed
  from this [of "length bs"] show ?thesis using bs(1) d by (auto simp: install_trans_def)
qed

lemma write_head_spec:
  assumes ok: "bok s" "bheld s = {}" and g: "log_geom s" and n: "0 \<le> lh_n (lg_lh s)" "lh_n (lg_lh s) \<le> 30"
    and room: "card (bdirty s) < NBUF"
  shows "\<exists>t. write_head s = Ret () t \<and> bdirty t = bdirty s - {lblk (lg_start s) 0} \<and>
    wrote [(lblk (lg_start s) 0, header_bytes (lg_lh s) (bview s (lblk (lg_start s) 0)))] s t"
proof -
  let ?b = "lblk (lg_start s) 0" and ?h = "header_bytes (lg_lh s)"
  have r: "int (unat ?b) < disksize s"
    using unat_lblk [of "lg_start s" 0] g bokD(4) [OF ok(1)] by (simp add: log_geom_def)
  have l: "\<forall>d. length d = BSIZE \<longrightarrow> length (?h d) = BSIZE"
    using header_bytes_decode(2) [of _ "lg_lh s"] n g by (simp add: log_geom_def)
  from bio.update_block [OF ok(1) r ok(2) disjI2 [OF room] l] obtain t where
    t: "bindK (bread 1 ?b s) (\<lambda>i s. bindK (bwrite i (set_data i (?h (b_data (bufs s i))) s)) (\<lambda>_ s. brelse i s)) = Ret () t"
      "bok t" "bsame s t" "bheld t = {}" "bview t = (bview s)(?b := ?h (bview s ?b))"
      "memdisk t = (memdisk s)(?b := ?h (bview s ?b))" "disk_writes t = disk_writes s @ [(?b, ?h (bview s ?b))]"
      "bdirty t = bdirty s - {?b}" by auto
  obtain i u where u: "bread 1 ?b s = Ret i u" "bsame s u" using bio.bread [OF ok(1) r] ok(2) room by auto
  have "write_head s = Ret () t"
    using t(1) u bsame_lg [OF u(2)] g n by (simp add: write_head_def log_geom_def lblk_def)
  then show ?thesis using t by (simp add: wrote_def)
qed

lemma sel_lh_upd [simp]:
  "lk L (lh_upd f s) = lk L s" "kcore s (lh_upd f s)" "curp (lh_upd f s) = curp s" "procs (lh_upd f s) = procs s"
  "bufs (lh_upd f s) = bufs s" "slks (lh_upd f s) = slks s" "memdisk (lh_upd f s) = memdisk s"
  "disksize (lh_upd f s) = disksize s" "disk_writes (lh_upd f s) = disk_writes s"
  "lg_start (lh_upd f s) = lg_start s" "lg_size (lh_upd f s) = lg_size s" "lg_dev (lh_upd f s) = lg_dev s"
  "lg_outstanding (lh_upd f s) = lg_outstanding s" "lg_committing (lh_upd f s) = lg_committing s"
  "lg_lh (lh_upd f s) = f (lg_lh s)" "lg.more (lh_upd f s) = lg.more s" "cpage (lh_upd f s) = cpage s"
  by (simp_all add: lh_upd_def kcore_def lk_def mach_inv_def curp_def cpage_def)

lemma views_lh_upd [simp]:
  "bok (lh_upd f s) = bok s" "bview (lh_upd f s) = bview s" "bheld (lh_upd f s) = bheld s" "bdirty (lh_upd f s) = bdirty s"
  by (simp_all add: bok_def bring_def buf_ok_def buf_uniq_def curpid_def locked_def bview_def buf_of_def bheld_def
      bdirty_def fun_eq_iff split: option.split)

text \<open>What a step leaves of the state outside the disk, the cache and the log header.\<close>

definition lsame :: "'a lg_scheme \<Rightarrow> 'a lg_scheme \<Rightarrow> bool" where
  "lsame s t \<longleftrightarrow> kcore s t \<and> disksize t = disksize s \<and> lg_start t = lg_start s \<and> lg_size t = lg_size s \<and>
     lg_dev t = lg_dev s \<and> lg_outstanding t = lg_outstanding s \<and> lg_committing t = lg_committing s \<and> lg.more t = lg.more s"

lemma lsame_trans [trans]: "lsame s t \<Longrightarrow> lsame t u \<Longrightarrow> lsame s u"
  using kcore_trans by (auto simp: lsame_def)

lemma bsame_lsame: "bsame s t \<Longrightarrow> lsame s t"
  using bc_more_lg [of t s] by (simp add: bsame_def lsame_def)

lemma lsame_lh_upd [simp]: "lsame s (lh_upd f s)"
  by (simp add: lsame_def)

lemma lsame_homes: "lsame s t \<Longrightarrow> homes t = homes s"
  by (simp add: lsame_def homes_def fun_eq_iff)

lemma read_entries:
  assumes "length (lh_block (lg_lh s)) = 30" and "m \<le> 30"
  shows "forK [0..<m] (\<lambda>i s. if length (lh_block (lg_lh s)) \<le> i then Fault
      else Ret () (lh_upd (\<lambda>h. h\<lparr>lh_block := (lh_block h)[i := f i]\<rparr>) s)) s =
    Ret () (lh_upd (\<lambda>h. h\<lparr>lh_block := map f [0..<m] @ drop m (lh_block h)\<rparr>) s)"
  using assms(2)
proof (induction m)
  case 0
  show ?case by (simp add: lh_upd_def)
next
  case (Suc m)
  then have "(map f [0..<m] @ drop m b)[m := f m] = map f [0..<Suc m] @ drop (Suc m) b" if "length b = 30" for b
    using that by (simp add: list_update_append Cons_nth_drop_Suc [symmetric])
  then show ?case using Suc assms(1) unfolding forK_upt_Suc by (simp add: lh_upd_def)
qed

lemma read_head_spec:
  assumes ok: "bok s" "bheld s = {}" and g: "log_geom s" and room: "card (bdirty s) < NBUF"
    and nd: "lblk (lg_start s) 0 \<notin> bdirty s"
    and hdr: "hdr = disk_header (bview s (lblk (lg_start s) 0))" "length hdr \<le> 30"
  shows "\<exists>t. read_head s = Ret () t \<and> bok t \<and> bheld t = {} \<and> bdirty t = bdirty s \<and> bview t = bview s \<and>
    memdisk t = memdisk s \<and> disk_writes t = disk_writes s \<and> lsame s t \<and> log_geom t \<and>
    nat (lh_n (lg_lh t)) = length hdr \<and> take (length hdr) (lh_block (lg_lh t)) = hdr"
proof -
  let ?b = "lblk (lg_start s) 0"
  have b0: "of_int (lg_start s) = ?b" by (simp add: lblk_def)
  have r: "int (unat ?b) < disksize s"
    using unat_lblk [of "lg_start s" 0] g bokD(4) [OF ok(1)] by (simp add: log_geom_def)
  from bio.bread [OF ok(1) r] ok(2) room obtain i u where
    u: "bread 1 ?b s = Ret i u" "bok u" "bsame s u" "bview u = bview s" "memdisk u = memdisk s"
      "disk_writes u = disk_writes s" "bdirty u = bdirty s" "bheld u = {(i, ?b)}" by auto
  note L = bsame_lg [OF u(3)]
  let ?d = "bview s ?b"
  have d: "b_data (bufs u i) = ?d" using bheld_data [OF u(2), of i ?b] u(4,8) by simp
  let ?n = "sint (get32 ?d 0)" and ?f = "\<lambda>i. get32 ?d (4 + 4 * i)"
  have n: "nat ?n = length hdr" using hdr(1) by (simp add: disk_header_def)
  let ?v = "lh_upd (\<lambda>h. h\<lparr>lh_n := ?n\<rparr>) u"
  let ?w = "lh_upd (\<lambda>h. h\<lparr>lh_block := map ?f [0..<nat ?n] @ drop (nat ?n) (lh_block h)\<rparr>) ?v"
  have lb: "length (lh_block (lg_lh ?v)) = 30" using L g by (simp add: log_geom_def)
  have "?b \<in> bdirty ?w \<or> bview ?w ?b = memdisk ?w ?b" using bview_clean [OF ok(1) nd] ok(2) u(4,5) by simp
  from bio.brelse [of ?w i ?b] this u(2,8) obtain t where
    t: "brelse i ?w = Ret () t" "bok t" "bsame ?w t" "bview t = bview ?w" "memdisk t = memdisk ?w"
      "disk_writes t = disk_writes ?w" "bdirty t = bdirty ?w" "bheld t = {}" by auto
  have "read_head s = Ret () t"
    using u(1) d t(1) read_entries [OF lb, of "nat ?n" ?f] n hdr(2) g L(6) b0
    by (simp add: read_head_def Let_def log_geom_def cong: if_cong)
  moreover have "lsame s t"
    by (rule lsame_trans [OF bsame_lsame [OF u(3)] lsame_trans [OF lsame_lh_upd lsame_trans [OF lsame_lh_upd bsame_lsame [OF t(3)]]]])
  moreover have "lg_lh t = lg_lh ?w" by (rule bsame_lg(3) [OF t(3)])
  moreover have "map ?f [0..<nat ?n] = hdr" using hdr(1) by (simp add: disk_header_def)
  ultimately show ?thesis using t u n lb g L hdr(2) by (simp add: lsame_def log_geom_def)
qed

end
