(* ===== verification/Log_Atomic.thy ===== *)
theory Log_Atomic
  imports Log_Crash
begin

text \<open>
  The disk images that a crash can leave during \<open>commit\<close> and during \<open>recover_from_log\<close>, what they
  stand for, and the theorems: a committed transaction reaches the disk as a whole or not at all,
  and recovery may itself be interrupted and repeated.
\<close>

section \<open>What a disk image stands for\<close>

definition logdisk :: "int \<Rightarrow> (uint \<Rightarrow> block) \<Rightarrow> uint \<Rightarrow> block" where
  "logdisk st D b = (let hdr = disk_header (D (lblk st 0)) in
     case map_of (zip hdr (map (\<lambda>i. D (lblk st (Suc i))) [0..<length hdr])) b of Some d \<Rightarrow> d | None \<Rightarrow> D b)"

lemma logdisk_nth:
  assumes "disk_header (D (lblk st 0)) = bs" and "distinct bs" and "i < length bs"
  shows "logdisk st D (bs ! i) = D (lblk st (Suc i))"
  using assms map_of_zip_nth [of bs "map (\<lambda>i. D (lblk st (Suc i))) [0..<length bs]" i]
  by (simp add: logdisk_def Let_def)

lemma logdisk_other:
  assumes "disk_header (D (lblk st 0)) = bs" and "b \<notin> set bs"
  shows "logdisk st D b = D b"
proof -
  have "map_of (zip bs (map (\<lambda>i. D (lblk st (Suc i))) [0..<length bs])) b = None"
    using assms(2) by (auto simp: map_of_eq_None_iff dest: set_zip_leftD)
  then show ?thesis unfolding logdisk_def Let_def assms(1) by (simp only: option.case)
qed

text \<open>The two writing phases: entries to the log, and entries to their home blocks.\<close>

abbreviation (input) log_writes :: "int \<Rightarrow> nat \<Rightarrow> (nat \<Rightarrow> block) \<Rightarrow> (uint \<times> block) list" where
  "log_writes st n v \<equiv> map (\<lambda>i. (lblk st (Suc i), v i)) [0..<n]"

abbreviation (input) home_writes :: "uint list \<Rightarrow> nat \<Rightarrow> (nat \<Rightarrow> block) \<Rightarrow> (uint \<times> block) list" where
  "home_writes bs n v \<equiv> map (\<lambda>i. (bs ! i, v i)) [0..<n]"

text \<open>A log at \<open>st\<close> with \<open>sz\<close> blocks, and home blocks outside it.\<close>

definition geom :: "int \<Rightarrow> int \<Rightarrow> uint list \<Rightarrow> bool" where
  "geom st sz bs \<longleftrightarrow> 0 \<le> st \<and> st + sz \<le> 2 ^ 31 \<and> int (length bs) < sz \<and> distinct bs \<and>
     (\<forall>b \<in> set bs. b \<notin> log_area st sz)"

lemma geom_lblk:
  assumes "geom st sz bs" and "i \<le> length bs"
  shows "lblk st i \<in> log_area st sz" "lblk st i \<notin> set bs"
proof -
  show a: "lblk st i \<in> log_area st sz" using assms by (auto simp: log_area_def geom_def)
  show "lblk st i \<notin> set bs" using a assms(1) by (auto simp: geom_def)
qed

lemma geom_inj: "geom st sz bs \<Longrightarrow> i \<le> length bs \<Longrightarrow> j \<le> length bs \<Longrightarrow> lblk st i = lblk st j \<Longrightarrow> i = j"
  using lblk_inj [of st "Suc (length bs)"] by (auto simp: geom_def inj_on_def)

lemma log_writes_apply:
  assumes g: "geom st sz bs" and k: "k \<le> length bs"
  shows "apply_writes (log_writes st k v) D (lblk st 0) = D (lblk st 0)"
    and "i < k \<Longrightarrow> apply_writes (log_writes st k v) D (lblk st (Suc i)) = v i"
    and "b \<notin> log_area st sz \<Longrightarrow> apply_writes (log_writes st k v) D b = D b"
proof -
  show "apply_writes (log_writes st k v) D (lblk st 0) = D (lblk st 0)"
  proof (rule apply_writes_map_other)
    show "lblk st 0 \<noteq> lblk st (Suc i)" if "i < k" for i using geom_inj [OF g, of 0 "Suc i"] that k by auto
  qed
  have "inj_on (\<lambda>i. lblk st (Suc i)) {..<k}"
  proof (rule inj_onI)
    show "i = j" if "i \<in> {..<k}" "j \<in> {..<k}" "lblk st (Suc i) = lblk st (Suc j)" for i j
      using geom_inj [OF g, of "Suc i" "Suc j"] that k by auto
  qed
  then show "apply_writes (log_writes st k v) D (lblk st (Suc i)) = v i" if "i < k"
    by (rule apply_writes_map [OF that])
  have ne: "b \<noteq> lblk st (Suc i)" if "b \<notin> log_area st sz" "i < k" for i
    using geom_lblk(1) [OF g, of "Suc i"] that k by auto
  show "apply_writes (log_writes st k v) D b = D b" if "b \<notin> log_area st sz"
    by (rule apply_writes_map_other) (rule ne [OF that])
qed

lemma home_writes_apply:
  assumes g: "geom st sz bs" and k: "k \<le> length bs"
  shows "i \<le> length bs \<Longrightarrow> apply_writes (home_writes bs k v) D (lblk st i) = D (lblk st i)"
    and "i < k \<Longrightarrow> apply_writes (home_writes bs k v) D (bs ! i) = v i"
    and "b \<notin> set (take k bs) \<Longrightarrow> apply_writes (home_writes bs k v) D b = D b"
proof -
  have ne: "lblk st i \<noteq> bs ! j" if "i \<le> length bs" "j < k" for j
    using geom_lblk(2) [OF g that(1)] that(2) k by auto
  show "apply_writes (home_writes bs k v) D (lblk st i) = D (lblk st i)" if "i \<le> length bs"
    by (rule apply_writes_map_other) (rule ne [OF that])
  have "inj_on (\<lambda>i. bs ! i) {..<k}" using g k by (auto simp: inj_on_def geom_def nth_eq_iff_index_eq)
  then show "apply_writes (home_writes bs k v) D (bs ! i) = v i" if "i < k" by (rule apply_writes_map [OF that])
  have nb: "b \<noteq> bs ! j" if "b \<notin> set (take k bs)" "j < k" for j
    using that k by (auto simp: in_set_conv_nth)
  show "apply_writes (home_writes bs k v) D b = D b" if "b \<notin> set (take k bs)"
    by (rule apply_writes_map_other) (rule nb [OF that])
qed

text \<open>
  During \<open>commit\<close>: up to and including the last log entry the image stands for the old contents,
  from the header write on for the new ones.
\<close>

definition commit_writes :: "int \<Rightarrow> uint list \<Rightarrow> (uint \<Rightarrow> block) \<Rightarrow> block \<Rightarrow> block \<Rightarrow> (uint \<times> block) list" where
  "commit_writes st bs V H H0 = log_writes st (length bs) (\<lambda>i. V (bs ! i)) @ (lblk st 0, H) #
     home_writes bs (length bs) (\<lambda>i. V (bs ! i)) @ [(lblk st 0, H0)]"

lemma commit_crash:
  fixes k :: nat
  assumes g: "geom st sz bs" and D: "disk_header (D (lblk st 0)) = []"
    and H: "disk_header H = bs" "disk_header H0 = []"
    and V: "\<forall>b. b \<notin> set bs \<longrightarrow> b \<notin> log_area st sz \<longrightarrow> V b = D b"
    and b: "b \<notin> log_area st sz"
  defines "E \<equiv> apply_writes (take k (commit_writes st bs V H H0)) D"
  shows "logdisk st E b = (if k \<le> length bs then D b else V b)"
    and "disk_header (E (lblk st 0)) \<in> {[], bs}"
proof -
  let ?n = "length bs" and ?v = "\<lambda>i. V (bs ! i)"
  let ?L = "apply_writes (log_writes st ?n ?v) D"
  note LW = log_writes_apply [OF g order_refl, where v = ?v and D = D]
  consider "k \<le> ?n" | m where "m \<le> ?n" "k = ?n + 1 + m" | "2 * ?n + 1 < k"
  proof (cases "k \<le> ?n \<or> 2 * ?n + 1 < k")
    case False
    then have "k - ?n - 1 \<le> ?n" "k = ?n + 1 + (k - ?n - 1)" by auto
    then show ?thesis using that by blast
  qed (use that in blast)
  then have "logdisk st E b = (if k \<le> ?n then D b else V b) \<and> disk_header (E (lblk st 0)) \<in> {[], bs}"
  proof cases
    case 1
    then have "take k (commit_writes st bs V H H0) = log_writes st k ?v"
      by (simp add: commit_writes_def take_map)
    then have E: "E = apply_writes (log_writes st k ?v) D" by (simp add: E_def)
    note A = log_writes_apply [OF g 1, where v = ?v and D = D]
    have "disk_header (E (lblk st 0)) = []" using A(1) D unfolding E by simp
    moreover from this have "logdisk st E b = E b" by (rule logdisk_other) simp
    moreover have "E b = D b" unfolding E by (rule A(3) [OF b])
    ultimately show ?thesis using 1 by simp
  next
    case 2
    have "take k (commit_writes st bs V H H0) = log_writes st ?n ?v @ (lblk st 0, H) # home_writes bs m ?v"
      using 2 by (simp add: commit_writes_def take_map)
    then have E: "E = apply_writes (home_writes bs m ?v) (?L(lblk st 0 := H))" by (simp add: E_def)
    note A = home_writes_apply [OF g 2(1), where v = ?v and D = "?L(lblk st 0 := H)"]
    have "E (lblk st 0) = H" unfolding E using A(1) [of 0] by simp
    then have hd: "disk_header (E (lblk st 0)) = bs" using H(1) by simp
    have "logdisk st E b = V b"
    proof (cases "b \<in> set bs")
      case True
      then obtain i where i: "i < ?n" "b = bs ! i" by (auto simp: in_set_conv_nth)
      have d: "distinct bs" using g by (simp add: geom_def)
      have "lblk st (Suc i) \<noteq> lblk st 0" using geom_inj [OF g, of "Suc i" 0] i by auto
      then have "E (lblk st (Suc i)) = ?v i" unfolding E using A(1) [of "Suc i"] LW(2) [OF i(1)] i by simp
      then show ?thesis using logdisk_nth [of E, OF hd d i(1)] i(2) by simp
    next
      case False
      then have "b \<notin> set (take m bs)" by (auto dest: in_set_takeD)
      moreover have "b \<noteq> lblk st 0" using geom_lblk(1) [OF g, of 0] b by auto
      ultimately have "E b = D b" unfolding E using A(3) [of b] LW(3) [OF b] by simp
      with logdisk_other [of E, OF hd False] V False b show ?thesis by simp
    qed
    with hd 2 show ?thesis by simp
  next
    case 3
    then have "take k (commit_writes st bs V H H0) = commit_writes st bs V H H0"
      by (simp add: commit_writes_def)
    then have E: "E = (apply_writes (home_writes bs ?n ?v) (?L(lblk st 0 := H)))(lblk st 0 := H0)"
      by (simp add: E_def commit_writes_def)
    note A = home_writes_apply [OF g order_refl, where v = ?v and D = "?L(lblk st 0 := H)"]
    have hd: "disk_header (E (lblk st 0)) = []" unfolding E using H(2) by simp
    have ne: "b \<noteq> lblk st 0" using geom_lblk(1) [OF g, of 0] b by auto
    have "E b = V b"
    proof (cases "b \<in> set bs")
      case True
      then obtain i where "i < ?n" "b = bs ! i" by (auto simp: in_set_conv_nth)
      then show ?thesis unfolding E using A(2) [of i] ne by simp
    next
      case False
      then show ?thesis unfolding E using A(3) [of b] LW(3) [OF b] ne V False b by simp
    qed
    with hd logdisk_other [of E, OF hd] 3 show ?thesis by simp
  qed
  then show "logdisk st E b = (if k \<le> length bs then D b else V b)" "disk_header (E (lblk st 0)) \<in> {[], bs}"
    by blast+
qed

text \<open>During recovery every image stands for the same contents.\<close>

definition recovery_writes :: "int \<Rightarrow> (uint \<Rightarrow> block) \<Rightarrow> block \<Rightarrow> (uint \<times> block) list" where
  "recovery_writes st D H0 = (let bs = disk_header (D (lblk st 0)) in
     home_writes bs (length bs) (\<lambda>i. D (lblk st (Suc i))) @ [(lblk st 0, H0)])"

lemma recovery_crash:
  fixes k :: nat
  assumes g: "geom st sz bs" and D: "disk_header (D (lblk st 0)) = bs" and H: "disk_header H0 = []"
    and b: "b \<notin> log_area st sz"
  defines "E \<equiv> apply_writes (take k (recovery_writes st D H0)) D"
  shows "logdisk st E b = logdisk st D b" and "disk_header (E (lblk st 0)) \<in> {[], bs}"
    and "length bs < k \<Longrightarrow> E b = logdisk st D b \<and> disk_header (E (lblk st 0)) = []"
proof -
  let ?n = "length bs" and ?v = "\<lambda>i. D (lblk st (Suc i))"
  have d: "distinct bs" using g by (simp add: geom_def)
  have "logdisk st E b = logdisk st D b \<and> disk_header (E (lblk st 0)) \<in> {[], bs} \<and>
    (?n < k \<longrightarrow> E b = logdisk st D b \<and> disk_header (E (lblk st 0)) = [])"
  proof (cases "k \<le> ?n")
    case True
    then have E: "E = apply_writes (home_writes bs k ?v) D"
      by (simp add: E_def recovery_writes_def D take_map Let_def)
    note A = home_writes_apply [OF g True, where v = ?v and D = D]
    have hd: "disk_header (E (lblk st 0)) = bs" unfolding E using A(1) [of 0] D by simp
    have "logdisk st E b = logdisk st D b"
    proof (cases "b \<in> set bs")
      case bb: True
      then obtain i where i: "i < ?n" "b = bs ! i" by (auto simp: in_set_conv_nth)
      have "E (lblk st (Suc i)) = D (lblk st (Suc i))" unfolding E using A(1) [of "Suc i"] i by simp
      with i logdisk_nth [of E, OF hd d i(1)] logdisk_nth [of D, OF D d i(1)] show ?thesis by simp
    next
      case False
      then have "b \<notin> set (take k bs)" by (auto dest: in_set_takeD)
      then have "E b = D b" unfolding E by (rule A(3))
      with logdisk_other [of E, OF hd False] logdisk_other [of D, OF D False] show ?thesis by simp
    qed
    with hd True show ?thesis by simp
  next
    case False
    then have E: "E = (apply_writes (home_writes bs ?n ?v) D)(lblk st 0 := H0)"
      by (simp add: E_def recovery_writes_def D Let_def)
    note A = home_writes_apply [OF g order_refl, where v = ?v and D = D]
    have hd: "disk_header (E (lblk st 0)) = []" unfolding E using H by simp
    have ne: "b \<noteq> lblk st 0" using geom_lblk(1) [OF g, of 0] b by auto
    have "E b = logdisk st D b"
    proof (cases "b \<in> set bs")
      case True
      then obtain i where i: "i < ?n" "b = bs ! i" by (auto simp: in_set_conv_nth)
      then show ?thesis unfolding E using A(2) [of i] ne logdisk_nth [of D, OF D d i(1)] by simp
    next
      case False
      then show ?thesis unfolding E using A(3) [of b] ne logdisk_other [of D, OF D False] by simp
    qed
    with hd logdisk_other [of E, OF hd] show ?thesis by simp
  qed
  then show "logdisk st E b = logdisk st D b" "disk_header (E (lblk st 0)) \<in> {[], bs}"
    "?n < k \<Longrightarrow> E b = logdisk st D b \<and> disk_header (E (lblk st 0)) = []" by blast+
qed

section \<open>\<open>commit\<close> and \<open>recover_from_log\<close>\<close>

text \<open>A transaction that is ready to commit: its blocks are pinned in the cache, the disk log is empty.\<close>

definition trans_ready :: "'a lg_scheme \<Rightarrow> uint list \<Rightarrow> bool" where
  "trans_ready s bs \<longleftrightarrow> bok s \<and> bheld s = {} \<and> log_geom s \<and> homes s bs \<and> bs \<noteq> [] \<and>
     lh_n (lg_lh s) = int (length bs) \<and> take (length bs) (lh_block (lg_lh s)) = bs \<and> bdirty s = set bs \<and>
     disk_header (memdisk s (lblk (lg_start s) 0)) = []"

lemma homes_geom: "bok s \<Longrightarrow> log_geom s \<Longrightarrow> homes s bs \<Longrightarrow> geom (lg_start s) (lg_size s) bs"
  using bokD(4) [of s] by (auto simp: geom_def homes_def log_geom_def)

text \<open>Clearing the header: \<open>log.lh.n = 0; write_head()\<close>.\<close>

lemma clear_head_spec:
  assumes ok: "bok s" "bheld s = {}" and g: "log_geom s" and d: "bdirty s = {}"
  shows "\<exists>t H0. write_head (lh_upd (\<lambda>h. h\<lparr>lh_n := 0\<rparr>) s) = Ret () t \<and> bok t \<and> bheld t = {} \<and> bdirty t = {} \<and>
    lsame s t \<and> log_geom t \<and> lh_n (lg_lh t) = 0 \<and> disk_header H0 = [] \<and>
    bview t = (bview s)(lblk (lg_start s) 0 := H0) \<and> memdisk t = (memdisk s)(lblk (lg_start s) 0 := H0) \<and>
    disk_writes t = disk_writes s @ [(lblk (lg_start s) 0, H0)]"
proof -
  let ?s = "lh_upd (\<lambda>h. h\<lparr>lh_n := 0\<rparr>) s" and ?b = "lblk (lg_start s) 0"
  let ?H = "header_bytes (lg_lh ?s) (bview ?s ?b)"
  have gs: "log_geom ?s" using g by (simp add: log_geom_def)
  from write_head_spec [of ?s] ok gs d obtain t where
    t: "write_head ?s = Ret () t" "bdirty t = {}" "wrote [(?b, ?H)] ?s t" by auto
  have st: "bsame ?s t" using t(3) by (simp add: wrote_def)
  have "disk_header ?H = []"
    using header_bytes_decode(1) [of "bview s ?b" "lg_lh ?s"] g bview_length [OF ok(1)] by (simp add: log_geom_def)
  moreover have "lsame s t" by (rule lsame_trans [OF lsame_lh_upd bsame_lsame [OF st]])
  ultimately show ?thesis
    using t bsame_lg [OF st] gs by (auto simp: wrote_def)
qed

lemma commit_spec:
  assumes r: "trans_ready s bs"
  shows "\<exists>t H H0. commit s = Ret () t \<and> bok t \<and> bheld t = {} \<and> bdirty t = {} \<and> lsame s t \<and> log_geom t \<and>
    lh_n (lg_lh t) = 0 \<and> disk_header H = bs \<and> disk_header H0 = [] \<and>
    memdisk t = apply_writes (commit_writes (lg_start s) bs (bview s) H H0) (memdisk s) \<and>
    disk_writes t = disk_writes s @ commit_writes (lg_start s) bs (bview s) H H0"
proof -
  let ?st = "lg_start s" and ?n = "length bs"
  have ok: "bok s" "bheld s = {}" and g: "log_geom s" and h: "homes s bs" and ne: "bs \<noteq> []"
    and bs: "lh_n (lg_lh s) = int ?n" "take ?n (lh_block (lg_lh s)) = bs" and d: "bdirty s = set bs"
    using r by (simp_all add: trans_ready_def)
  have gm: "geom ?st (lg_size s) bs" by (rule homes_geom [OF ok(1) g h])
  have n30: "?n < 30" using h by (simp add: homes_def)
  from write_log_spec [OF ok g h _ bs(2) d] bs(1) obtain u where
    u: "write_log s = Ret () u" "bdirty u = set bs" "wrote (log_writes ?st ?n (\<lambda>i. bview s (bs ! i))) s u" by auto
  then have u': "bok u" "bheld u = {}" "bsame s u" by (simp_all add: wrote_def)
  note Lu = bsame_lg [OF u'(3)]
  let ?b = "lblk ?st 0"
  let ?H = "header_bytes (lg_lh s) (bview u ?b)"
  have cd: "card (bdirty u) < NBUF" using u(2) h by (simp add: homes_def distinct_card)
  from write_head_spec [OF u'(1,2), unfolded Lu, OF g] bs(1) n30 cd obtain v where
    v: "write_head u = Ret () v" "bdirty v = bdirty u - {?b}" "wrote [(?b, ?H)] u v" by auto
  then have v': "bok v" "bheld v = {}" "bsame u v" by (simp_all add: wrote_def)
  note Lv = bsame_lg [OF v'(3)]
  have hd: "disk_header ?H = bs"
    using header_bytes_decode(1) [of "bview u ?b" "lg_lh s"] bview_length [OF u'(1)] g bs n30 by (simp add: log_geom_def)
  have dv: "bdirty v = set bs" using v(2) u(2) geom_lblk(2) [OF gm, of 0] by auto
  have gv: "log_geom v" "homes v bs" using g h Lu Lv by simp_all
  have vb: "bview v (lblk ?st (Suc i)) = bview s (bs ! i)" if "i < ?n" for i
  proof -
    have "lblk ?st (Suc i) \<noteq> ?b" using geom_inj [OF gm, of "Suc i" 0] that by auto
    then show ?thesis
      using v(3) u(3) log_writes_apply(2) [OF gm order_refl that] by (simp add: wrote_def)
  qed
  from install_trans_spec [OF v'(1,2) gv, unfolded Lv Lu] bs dv obtain w where
    w: "install_trans v = Ret () w" "bdirty w = {}"
      "wrote (map (\<lambda>i. (bs ! i, bview v (lblk ?st (Suc i)))) [0..<?n]) v w" by auto
  have hw: "map (\<lambda>i. (bs ! i, bview v (lblk ?st (Suc i)))) [0..<?n] = home_writes bs ?n (\<lambda>i. bview s (bs ! i))"
    using vb by simp
  have w': "bok w" "bheld w = {}" "bsame v w" using w(3) by (simp_all add: wrote_def)
  note Lw = bsame_lg [OF w'(3)]
  have gw: "log_geom w" using gv(1) Lw by simp
  from clear_head_spec [OF w'(1,2) gw w(2)] obtain t H0 where
    t: "write_head (lh_upd (\<lambda>h. h\<lparr>lh_n := 0\<rparr>) w) = Ret () t" "bok t" "bheld t = {}" "bdirty t = {}" "lsame w t"
      "log_geom t" "lh_n (lg_lh t) = 0" "disk_header H0 = []" "memdisk t = (memdisk w)(lblk (lg_start w) 0 := H0)"
      "disk_writes t = disk_writes w @ [(lblk (lg_start w) 0, H0)]" by auto
  have "commit s = Ret () t" using u(1) v(1) w(1) t(1) bs(1) ne by (simp add: commit_def)
  moreover have "lsame s t"
    by (rule lsame_trans [OF bsame_lsame [OF u'(3)] lsame_trans [OF bsame_lsame [OF v'(3)] lsame_trans [OF bsame_lsame [OF w'(3)] t(5)]]])
  moreover have sw: "lg_start w = ?st" using Lu(4) Lv(4) Lw(4) by simp
  moreover have "memdisk t = apply_writes (commit_writes ?st bs (bview s) ?H H0) (memdisk s)"
    using t(9) w(3) v(3) u(3) sw unfolding hw by (simp add: wrote_def commit_writes_def)
  moreover have "disk_writes t = disk_writes s @ commit_writes ?st bs (bview s) ?H H0"
    using t(10) w(3) v(3) u(3) sw unfolding hw by (simp add: wrote_def commit_writes_def)
  ultimately show ?thesis using t hd by blast
qed

text \<open>A machine that boots from an image: nothing cached is newer than the disk.\<close>

definition rebooted :: "'a lg_scheme \<Rightarrow> bool" where
  "rebooted r \<longleftrightarrow> bok r \<and> bheld r = {} \<and> bdirty r = {} \<and> log_geom r"

lemma recover_spec:
  assumes r: "rebooted r" and h: "homes r (disk_header (memdisk r (lblk (lg_start r) 0)))"
  shows "\<exists>t H0. recover_from_log r = Ret () t \<and> rebooted t \<and> lsame r t \<and> lh_n (lg_lh t) = 0 \<and> disk_header H0 = [] \<and>
    memdisk t = apply_writes (recovery_writes (lg_start r) (memdisk r) H0) (memdisk r) \<and>
    disk_writes t = disk_writes r @ recovery_writes (lg_start r) (memdisk r) H0"
proof -
  let ?st = "lg_start r" and ?D = "memdisk r"
  let ?bs = "disk_header (?D (lblk ?st 0))"
  have ok: "bok r" "bheld r = {}" "bdirty r = {}" and g: "log_geom r" using r by (simp_all add: rebooted_def)
  have vw: "bview r = ?D" using bview_clean [OF ok(1)] ok(2,3) by (auto simp: fun_eq_iff)
  have n30: "length ?bs < 30" using h by (simp add: homes_def)
  from read_head_spec [OF ok(1,2) g, of ?bs] ok(3) vw n30 obtain u where
    u: "read_head r = Ret () u" "bok u" "bheld u = {}" "bdirty u = {}" "bview u = ?D" "memdisk u = ?D"
      "disk_writes u = disk_writes r" "lsame r u" "log_geom u" "nat (lh_n (lg_lh u)) = length ?bs"
      "take (length ?bs) (lh_block (lg_lh u)) = ?bs" by auto
  have su: "lg_start u = ?st" using u(8) by (simp add: lsame_def)
  have hu: "homes u ?bs" using h lsame_homes [OF u(8)] by simp
  from install_trans_spec [OF u(2,3,9) hu u(10,11)] u(4) obtain w where
    w: "install_trans u = Ret () w" "bdirty w = {}"
      "wrote (map (\<lambda>i. (?bs ! i, bview u (lblk (lg_start u) (Suc i)))) [0..<length ?bs]) u w" by auto
  have w': "bok w" "bheld w = {}" "bsame u w" using w(3) by (simp_all add: wrote_def)
  note Lw = bsame_lg [OF w'(3)]
  have gw: "log_geom w" using u(9) Lw by simp
  from clear_head_spec [OF w'(1,2) gw w(2)] obtain t H0 where
    t: "write_head (lh_upd (\<lambda>h. h\<lparr>lh_n := 0\<rparr>) w) = Ret () t" "bok t" "bheld t = {}" "bdirty t = {}" "lsame w t"
      "log_geom t" "lh_n (lg_lh t) = 0" "disk_header H0 = []" "memdisk t = (memdisk w)(lblk (lg_start w) 0 := H0)"
      "disk_writes t = disk_writes w @ [(lblk (lg_start w) 0, H0)]" by auto
  have "recover_from_log r = Ret () t" using u(1) w(1) t(1) by (simp add: recover_from_log_def)
  moreover have "lsame r t" by (rule lsame_trans [OF u(8) lsame_trans [OF bsame_lsame [OF w'(3)] t(5)]])
  moreover have "memdisk t = apply_writes (recovery_writes ?st ?D H0) ?D"
    using t(9) w(3) su Lw(4) u(5,6) by (simp add: wrote_def recovery_writes_def Let_def)
  moreover have "disk_writes t = disk_writes r @ recovery_writes ?st ?D H0"
    using t(10) w(3) su Lw(4) u(5,7) by (simp add: wrote_def recovery_writes_def Let_def)
  ultimately show ?thesis using t by (auto simp: rebooted_def)
qed

section \<open>Properties\<close>

text \<open>
  The image a crash leaves after the first \<open>k\<close> of the disk writes that lead from \<open>s\<close> to \<open>t\<close>.
\<close>

definition crash_image :: "'a bc_scheme \<Rightarrow> 'a bc_scheme \<Rightarrow> nat \<Rightarrow> uint \<Rightarrow> block" where
  "crash_image s t k = apply_writes (take k (drop (length (disk_writes s)) (disk_writes t))) (memdisk s)"

text \<open>A reboot of the same disk geometry from a given image.\<close>

definition reboot_of :: "'a lg_scheme \<Rightarrow> (uint \<Rightarrow> block) \<Rightarrow> 'a lg_scheme \<Rightarrow> bool" where
  "reboot_of s D r \<longleftrightarrow> rebooted r \<and> memdisk r = D \<and> lg_start r = lg_start s \<and> lg_size r = lg_size s \<and> disksize r = disksize s"

lemma homes_reboot: "reboot_of s D r \<Longrightarrow> homes r = homes s"
  by (auto simp: reboot_of_def homes_def fun_eq_iff)

lemma homes_Nil: "log_geom s \<Longrightarrow> homes s []"
  by (simp add: homes_def log_geom_def)

lemma recover_value:
  assumes rb: "reboot_of s D r" and h: "homes s (disk_header (D (lblk (lg_start s) 0)))"
  shows "\<exists>u. recover_from_log r = Ret () u \<and> rebooted u \<and> lh_n (lg_lh u) = 0 \<and>
    disk_header (memdisk u (lblk (lg_start s) 0)) = [] \<and>
    (\<forall>b. b \<notin> log_area (lg_start s) (lg_size s) \<longrightarrow> memdisk u b = logdisk (lg_start s) D b) \<and>
    (\<forall>k b. b \<notin> log_area (lg_start s) (lg_size s) \<longrightarrow>
       logdisk (lg_start s) (crash_image r u k) b = logdisk (lg_start s) D b \<and>
       homes s (disk_header (crash_image r u k (lblk (lg_start s) 0))))"
proof -
  let ?st = "lg_start s"
  have e: "memdisk r = D" "lg_start r = ?st" "lg_size r = lg_size s" "rebooted r" using rb by (simp_all add: reboot_of_def)
  have hr: "homes r (disk_header (memdisk r (lblk (lg_start r) 0)))" using h homes_reboot [OF rb] e by simp
  from recover_spec [OF e(4) hr] obtain u H0 where
    u: "recover_from_log r = Ret () u" "rebooted u" "lsame r u" "lh_n (lg_lh u) = 0" "disk_header H0 = []"
      "memdisk u = apply_writes (recovery_writes ?st D H0) D" "disk_writes u = disk_writes r @ recovery_writes ?st D H0"
    using e by auto
  let ?bs = "disk_header (D (lblk ?st 0))"
  have ok: "bok r" "log_geom r" using e(4) by (simp_all add: rebooted_def)
  have gm: "geom ?st (lg_size s) ?bs" using homes_geom [OF ok hr] e by simp
  have im: "crash_image r u k = apply_writes (take k (recovery_writes ?st D H0)) D" for k
    using u(7) e(1) by (simp add: crash_image_def)
  have full: "memdisk u = apply_writes (take (Suc (length ?bs)) (recovery_writes ?st D H0)) D"
    using u(6) by (simp add: recovery_writes_def Let_def)
  note R = recovery_crash [where D = D, OF gm refl u(5)]
  have hd: "disk_header (memdisk u (lblk ?st 0)) = []" using u(5,6) by (simp add: recovery_writes_def Let_def)
  have "memdisk u b = logdisk ?st D b" if "b \<notin> log_area ?st (lg_size s)" for b
    using R(3) [OF that, of "Suc (length ?bs)"] full by simp
  moreover have "logdisk ?st (crash_image r u k) b = logdisk ?st D b \<and>
      homes s (disk_header (crash_image r u k (lblk ?st 0)))" if "b \<notin> log_area ?st (lg_size s)" for k b
    using R(1,2) [OF that, of k] h im homes_Nil [of r] ok(2) homes_reboot [OF rb] by auto
  ultimately show ?thesis using u(1,2,4) hd by blast
qed

text \<open>
  C22. Crash atomicity of a transaction.  \<open>commit\<close> returns and leaves the new contents of every
  block on the disk.  A crash after any number of its disk writes, followed by a reboot from the
  disk image left, recovers to a disk that outside the log area has either all the old contents or
  all the new ones.
\<close>

theorem commit_atomic:
  assumes "trans_ready s bs"
  shows "\<exists>t. commit s = Ret () t \<and> rebooted t \<and>
    (\<forall>b. b \<notin> log_area (lg_start s) (lg_size s) \<longrightarrow> memdisk t b = bview s b) \<and>
    (\<forall>k r. reboot_of s (crash_image s t k) r \<longrightarrow>
      (\<exists>u. recover_from_log r = Ret () u \<and> rebooted u \<and>
        ((\<forall>b. b \<notin> log_area (lg_start s) (lg_size s) \<longrightarrow> memdisk u b = memdisk s b) \<or>
         (\<forall>b. b \<notin> log_area (lg_start s) (lg_size s) \<longrightarrow> memdisk u b = bview s b))))"
proof -
  let ?st = "lg_start s" and ?A = "log_area (lg_start s) (lg_size s)"
  have ok: "bok s" "bheld s = {}" and g: "log_geom s" and h: "homes s bs" and d: "bdirty s = set bs"
    and D: "disk_header (memdisk s (lblk ?st 0)) = []" using assms by (simp_all add: trans_ready_def)
  have gm: "geom ?st (lg_size s) bs" by (rule homes_geom [OF ok(1) g h])
  from commit_spec [OF assms] obtain t H H0 where
    t: "commit s = Ret () t" "bok t" "bheld t = {}" "bdirty t = {}" "log_geom t" "disk_header H = bs" "disk_header H0 = []"
      "memdisk t = apply_writes (commit_writes ?st bs (bview s) H H0) (memdisk s)"
      "disk_writes t = disk_writes s @ commit_writes ?st bs (bview s) H H0" by blast
  have V: "\<forall>b. b \<notin> set bs \<longrightarrow> b \<notin> ?A \<longrightarrow> bview s b = memdisk s b" using bview_clean [OF ok(1)] d ok(2) by simp
  note C = commit_crash [where D = "memdisk s", OF gm D t(6,7) V]
  have im: "crash_image s t k = apply_writes (take k (commit_writes ?st bs (bview s) H H0)) (memdisk s)" for k
    using t(9) by (simp add: crash_image_def)
  have "memdisk t b = bview s b" if "b \<notin> ?A" for b
  proof -
    have hd: "disk_header (memdisk t (lblk ?st 0)) = []" using t(7,8) by (simp add: commit_writes_def)
    have "memdisk t b = logdisk ?st (memdisk t) b" using logdisk_other [of "memdisk t", OF hd] by simp
    also have "\<dots> = bview s b"
      using C(1) [OF that, of "length (commit_writes ?st bs (bview s) H H0)"] t(8) by (simp add: commit_writes_def)
    finally show ?thesis .
  qed
  moreover have "\<exists>u. recover_from_log r = Ret () u \<and> rebooted u \<and>
        ((\<forall>b. b \<notin> ?A \<longrightarrow> memdisk u b = memdisk s b) \<or> (\<forall>b. b \<notin> ?A \<longrightarrow> memdisk u b = bview s b))"
    if rb: "reboot_of s (crash_image s t k) r" for k r
  proof -
    have "hd bs \<in> set bs" using assms by (simp add: trans_ready_def)
    then have b0: "hd bs \<notin> ?A" using h unfolding homes_def by blast
    have "homes s (disk_header (crash_image s t k (lblk ?st 0)))"
      using C(2) [OF b0, of k] im h homes_Nil [OF g] by auto
    from recover_value [OF rb this] obtain u where
      "recover_from_log r = Ret () u" "rebooted u"
      "\<forall>b. b \<notin> ?A \<longrightarrow> memdisk u b = logdisk ?st (crash_image s t k) b" by blast
    moreover have "logdisk ?st (crash_image s t k) b = (if k \<le> length bs then memdisk s b else bview s b)"
      if "b \<notin> ?A" for b using C(1) [OF that, of k] im by simp
    ultimately show ?thesis by (cases "k \<le> length bs") auto
  qed
  ultimately show ?thesis using t by (auto simp: rebooted_def)
qed

text \<open>
  C23. Recovery can be interrupted.  \<open>recover_from_log\<close> returns with the log empty; after a crash
  at any of its disk writes a second recovery from the image left gives every block outside the
  log area the same contents as the uninterrupted recovery.
\<close>

theorem recovery_idempotent:
  assumes "reboot_of s D r" and "homes s (disk_header (D (lblk (lg_start s) 0)))"
  shows "\<exists>u. recover_from_log r = Ret () u \<and> lh_n (lg_lh u) = 0 \<and> disk_header (memdisk u (lblk (lg_start s) 0)) = [] \<and>
    (\<forall>k r'. reboot_of s (crash_image r u k) r' \<longrightarrow>
      (\<exists>u'. recover_from_log r' = Ret () u' \<and>
        (\<forall>b. b \<notin> log_area (lg_start s) (lg_size s) \<longrightarrow> memdisk u' b = memdisk u b)))"
proof -
  let ?st = "lg_start s" and ?A = "log_area (lg_start s) (lg_size s)"
  from recover_value [OF assms] obtain u where
    u: "recover_from_log r = Ret () u" "rebooted u" "lh_n (lg_lh u) = 0" "disk_header (memdisk u (lblk ?st 0)) = []"
      "\<And>b. b \<notin> ?A \<Longrightarrow> memdisk u b = logdisk ?st D b"
      and cr: "\<And>k b. b \<notin> ?A \<Longrightarrow> logdisk ?st (crash_image r u k) b = logdisk ?st D b \<and>
         homes s (disk_header (crash_image r u k (lblk ?st 0)))" by blast
  have "\<exists>u'. recover_from_log r' = Ret () u' \<and> (\<forall>b. b \<notin> ?A \<longrightarrow> memdisk u' b = memdisk u b)"
    if rb: "reboot_of s (crash_image r u k) r'" for k r'
  proof (cases "\<exists>b. b \<notin> ?A")
    case True
    then have "homes s (disk_header (crash_image r u k (lblk ?st 0)))" using cr by blast
    from recover_value [OF rb this] cr u(5) show ?thesis by fastforce
  next
    case False
    then have "card (UNIV :: uint set) \<le> card ?A" by (intro card_mono) (auto simp: log_area_def)
    also have "\<dots> \<le> nat (lg_size s)" unfolding log_area_def using card_image_le [of "{..<nat (lg_size s)}"] by simp
    also have "\<dots> < 2 ^ 32" using assms(1) bokD(4) [of r]
      by (auto simp: reboot_of_def rebooted_def log_geom_def)
    finally show ?thesis by (simp add: card_word)
  qed
  with u show ?thesis by blast
qed

end
