(* ===== verification/Log_Trans.thy ===== *)
theory Log_Trans
  imports Log_Atomic
begin

text \<open>
  Whole transactions: \<open>log_write\<close> with its absorption of repeated writes, and the sequence
  \<open>begin_op\<close>, updates, \<open>end_op\<close> of a file-system call, whose updates are on the disk when it returns.
\<close>

section \<open>Locking around the log\<close>

definition bequiv :: "'a bc_scheme \<Rightarrow> 'a bc_scheme \<Rightarrow> bool" where
  "bequiv s t \<longleftrightarrow> bfields s t \<and> slks t = slks s"

lemma bviews_cong:
  assumes "bufs t = bufs s" and "slks t = slks s" and "memdisk t = memdisk s"
  shows "bview t = bview s" "bheld t = bheld s" "bdirty t = bdirty s"
  using assms by (simp_all add: bview_def buf_of_def bheld_def bdirty_def locked_def fun_eq_iff split: option.split)

lemma bok_cong:
  assumes "bok s" and "bufs t = bufs s" and "slks t = slks s" and "memdisk t = memdisk s" and "lk [] t"
    and "curp t = curp s" and "curpid t = curpid s" and "disksize t = disksize s"
  shows "bok t"
proof -
  have "buf_ok t = buf_ok s" "bring t = bring s" "buf_uniq t = buf_uniq s"
    using assms(2-8) by (simp_all add: buf_ok_def bring_def buf_uniq_def locked_def fun_eq_iff Let_def)
  with assms show ?thesis by (simp add: bok_def)
qed

lemma bok_kcore:
  assumes "bok s" and "bufs t = bufs s" and "slks t = slks s" and "memdisk t = memdisk s" and "disksize t = disksize s"
    and "lk [] t" and "kcore s t"
  shows "bok t"
  by (rule bok_cong [OF assms(1-4,6)]) (use assms(5) kcoreD [OF assms(7)] in \<open>simp_all add: curpid_def\<close>)

lemma bequiv_views:
  assumes "bequiv s t"
  shows "bview t = bview s" "bheld t = bheld s" "bdirty t = bdirty s" "memdisk t = memdisk s"
    "disk_writes t = disk_writes s" "bsame s t" "bufs t = bufs s" "slks t = slks s"
  using assms bviews_cong [of t s] by (simp_all add: bequiv_def bfields_def)

lemma bok_bequiv: "bok s \<Longrightarrow> bequiv s t \<Longrightarrow> lk [] t \<Longrightarrow> bok t"
  using bequiv_views [of s t] bsame_curpid [of s t] by (intro bok_cong [of s t]) auto

lemma views_lg [simp]:
  "lk L (s\<lparr>lg_outstanding := n\<rparr>) = lk L s" "lk L (s\<lparr>lg_committing := c\<rparr>) = lk L s"
  "kcore s (s\<lparr>lg_outstanding := n\<rparr>)" "kcore s (s\<lparr>lg_committing := c\<rparr>)"
  "curp (s\<lparr>lg_outstanding := n\<rparr>) = curp s" "curp (s\<lparr>lg_committing := c\<rparr>) = curp s"
  "cpage (s\<lparr>lg_outstanding := n\<rparr>) = cpage s" "cpage (s\<lparr>lg_committing := c\<rparr>) = cpage s"
  "bview (s\<lparr>lg_outstanding := n\<rparr>) = bview s" "bview (s\<lparr>lg_committing := c\<rparr>) = bview s"
  "bheld (s\<lparr>lg_outstanding := n\<rparr>) = bheld s" "bheld (s\<lparr>lg_committing := c\<rparr>) = bheld s"
  "bdirty (s\<lparr>lg_outstanding := n\<rparr>) = bdirty s" "bdirty (s\<lparr>lg_committing := c\<rparr>) = bdirty s"
  "bok (s\<lparr>lg_outstanding := n\<rparr>) = bok s" "bok (s\<lparr>lg_committing := c\<rparr>) = bok s"
  by (simp_all add: lk_def mach_inv_def kcore_def curp_def cpage_def bview_def buf_of_def bheld_def bdirty_def locked_def bok_def
      bring_def buf_ok_def buf_uniq_def curpid_def fun_eq_iff split: option.split)

section \<open>\<open>log_write\<close>\<close>

lemma absorb_eq: "n \<le> length xs \<Longrightarrow> absorb xs n b = length (takeWhile (\<lambda>x. x \<noteq> b) (take n xs))"
  by (induction xs n b rule: absorb.induct) auto

text \<open>The entries after \<open>log_write\<close> of block \<open>b\<close>.\<close>

definition log_add :: "uint \<Rightarrow> uint list \<Rightarrow> uint list" where
  "log_add b bs = (if b \<in> set bs then bs else bs @ [b])"

definition entries :: "'a lg_scheme \<Rightarrow> uint list \<Rightarrow> bool" where
  "entries s bs \<longleftrightarrow> lh_n (lg_lh s) = int (length bs) \<and> take (length bs) (lh_block (lg_lh s)) = bs \<and>
     length (lh_block (lg_lh s)) = 30"

lemma takeWhile_neq:
  "length (takeWhile (\<lambda>x. x \<noteq> b) bs) = length bs \<longleftrightarrow> b \<notin> set bs"
  "b \<in> set bs \<Longrightarrow> bs ! length (takeWhile (\<lambda>x. x \<noteq> b) bs) = b"
  "b \<in> set bs \<Longrightarrow> length (takeWhile (\<lambda>x. x \<noteq> b) bs) < length bs"
  by (induction bs) auto

lemma log_write_spec:
  assumes ok: "bok s" and h: "(i, b) \<in> bheld s" and e: "entries s bs"
    and n: "length bs < 30" "int (length bs) < lg_size s - 1" and o: "1 \<le> lg_outstanding s"
  shows "\<exists>t. log_write i s = Ret () t \<and> bok t \<and> entries t (log_add b bs) \<and> bheld t = bheld s \<and> bview t = bview s \<and>
    memdisk t = memdisk s \<and> disk_writes t = disk_writes s \<and> bdirty t = insert b (bdirty s) \<and> lsame s t"
proof -
  note bi = bheld_dev [OF ok h]
  from bc_acquire [OF bokD(1) [OF ok], of LogLock] obtain u where
    u: "acquire LogLock s = Ret () u" "lk [LogLock] u" "bfields s u" "slks u = slks s" by auto
  have eu: "bequiv s u" using u by (simp add: bequiv_def)
  have lu: "lg_lh u = lg_lh s" "bufs u = bufs s" using bsame_lg(3) bequiv_views(6,7) [OF eu] by auto
  let ?blk = "lh_block (lg_lh s)"
  let ?i = "length (takeWhile (\<lambda>x. x \<noteq> b) bs)"
  have len: "length ?blk = 30" "take (length bs) ?blk = bs" "lh_n (lg_lh s) = int (length bs)" using e by (simp_all add: entries_def)
  have ab: "absorb ?blk (nat (lh_n (lg_lh s))) b = ?i" using absorb_eq [of "length bs" ?blk b] len n by simp
  have il: "?i \<le> length bs" by (rule length_takeWhile_le)
  define v where "v = (let s = lh_upd (\<lambda>h. h\<lparr>lh_block := (lh_block h)[?i := b]\<rparr>) u in
     if int ?i = lh_n (lg_lh s) then lh_upd (\<lambda>h. h\<lparr>lh_n := lh_n h + 1\<rparr>) s else s)"
  have v: "lk L v = lk L u" "lsame u v" "bufs v = bufs u" "slks v = slks u" "memdisk v = memdisk u"
      "disk_writes v = disk_writes u" "disksize v = disksize u" "bc.more v = bc.more v" "bview v = bview u"
      "bdirty v = bdirty u" "bheld v = bheld u" for L
    using lsame_trans [OF lsame_lh_upd lsame_lh_upd] by (auto simp: v_def Let_def)
  have ev: "entries v (log_add b bs)"
  proof (cases "b \<in> set bs")
    case True
    note T = takeWhile_neq(2,3) [OF True]
    have "?blk ! ?i = b" using T len(2) by (metis nth_take)
    then have "?blk[?i := b] = ?blk" by (metis list_update_id)
    then show ?thesis using T lu e True by (simp add: v_def Let_def entries_def log_add_def len)
  next
    case False
    then have "?i = length bs" using takeWhile_neq(1) [of b bs] by simp
    moreover have "take (Suc (length bs)) (?blk[length bs := b]) = bs @ [b]"
      using len n(1) by (simp add: take_Suc_conv_app_nth)
    ultimately show ?thesis using lu False len by (simp add: v_def Let_def entries_def log_add_def)
  qed
  let ?w = "set_dirty i v"
  from bc_release [of "[LogLock]" ?w LogLock] u(2) v(1) obtain t where
    t: "release LogLock ?w = Ret () t" "lk [] t" "bfields ?w t" "slks t = slks ?w" by (auto simp: set_dirty_def)
  have et: "bequiv ?w t" using t by (simp add: bequiv_def)
  note V = bequiv_views [OF et]
  have lw: "log_write i s = Ret () t"
  proof -
    have "b_blockno (bufs s i) = b" using bi by simp
    then show ?thesis
      using u(1) t(1) lu ab len n o il by (simp add: log_write_def Let_def v_def)
  qed
  let ?s' = "set_dirty i s"
  note D = set_dirty_law [OF ok h]
  have sm: "bufs ?w = bufs ?s'" "slks ?w = slks ?s'" "memdisk ?w = memdisk ?s'" "disk_writes ?w = disk_writes ?s'"
    using v lu(2) u(4) bequiv_views(4,5) [OF eu] by (simp_all add: set_dirty_def)
  have et: "bufs t = bufs ?s'" "slks t = slks ?s'" "memdisk t = memdisk ?s'"
    using V(4,7,8) sm by simp_all
  have vw: "bview t = bview s" "bdirty t = insert b (bdirty s)" "bheld t = bheld s" "memdisk t = memdisk s"
    using bviews_cong [OF et] et(3) D by simp_all
  have ls: "lsame s t"
  proof -
    have "lsame v ?w" by (rule bsame_lsame) (simp add: set_dirty_def)
    moreover have "lsame ?w t" by (rule bsame_lsame [OF V(6)])
    ultimately show ?thesis using lsame_trans [OF bsame_lsame [OF bequiv_views(6) [OF eu]] lsame_trans [OF v(2) lsame_trans]] by blast
  qed
  have "bok t"
  proof -
    have k: "curp t = curp s" "curpid t = curpid s" "disksize t = disksize s"
      using ls kcoreD [of s t] by (simp_all add: lsame_def curpid_def)
    have k': "curp ?s' = curp s" "curpid ?s' = curpid s" "disksize ?s' = disksize s"
      using D bsame_curpid [of s ?s'] by simp_all
    show ?thesis by (rule bok_cong [OF _ et t(2)]) (use D k k' in simp_all)
  qed
  moreover have "entries t (log_add b bs)"
  proof -
    have "bc.more t = bc.more v" using V(6) by (simp add: bsame_def set_dirty_def)
    then show ?thesis using ev bc_more_lg(6) [of t v] by (simp add: entries_def)
  qed
  moreover have "disk_writes t = disk_writes s" using V(5) sm by (simp add: set_dirty_def)
  ultimately show ?thesis using lw vw ls by blast
qed

section \<open>\<open>begin_op\<close> and \<open>end_op\<close>\<close>

lemma views_bequiv_lg:
  assumes "bequiv s t"
  shows "lg_lh t = lg_lh s" "lsame s t" "log_geom t = log_geom s" "homes t = homes s" "entries t bs = entries s bs"
  using bsame_lg [OF bequiv_views(6) [OF assms]] bsame_lsame [OF bequiv_views(6) [OF assms]]
  by (simp_all add: entries_def)

lemma begin_op_spec:
  assumes ok: "bok s" and c: "\<not> lg_committing s" and n: "lh_n (lg_lh s) + (lg_outstanding s + 1) * MAXOPBLOCKS \<le> LOGSIZE"
  shows "\<exists>t. begin_op s = Ret () t \<and> bok t \<and> bview t = bview s \<and> bheld t = bheld s \<and> bdirty t = bdirty s \<and>
    memdisk t = memdisk s \<and> disk_writes t = disk_writes s \<and> lg_lh t = lg_lh s \<and>
    lsame (s\<lparr>lg_outstanding := lg_outstanding s + 1\<rparr>) t"
proof -
  from bc_acquire [OF bokD(1) [OF ok], of LogLock] obtain u where
    u: "acquire LogLock s = Ret () u" "lk [LogLock] u" "bfields s u" "slks u = slks s" by auto
  have eu: "bequiv s u" using u by (simp add: bequiv_def)
  note U = bequiv_views [OF eu] views_bequiv_lg [OF eu]
  let ?v = "u\<lparr>lg_outstanding := lg_outstanding u + 1\<rparr>"
  from bc_release [of "[LogLock]" ?v LogLock] u(2) obtain t where
    t: "release LogLock ?v = Ret () t" "lk [] t" "bfields ?v t" "slks t = slks ?v" by auto
  have et: "bequiv ?v t" using t by (simp add: bequiv_def)
  note T = bequiv_views [OF et] views_bequiv_lg [OF et]
  have "begin_op s = Ret () t"
    using u(1) t(1) c n U(9,10) by (simp add: begin_op_def begin_op_loop_def lsame_def)
  moreover have ls: "lsame (s\<lparr>lg_outstanding := lg_outstanding s + 1\<rparr>) t"
    using U(10) T(10) kcore_trans [of s u t] by (auto simp: lsame_def kcore_def)
  moreover have "kcore s t" using U(10) T(10) by (auto simp: lsame_def kcore_def)
  then have "bok t" by (intro bok_kcore [OF ok]) (use U(4,7,8) T(4,7,8) t(2) ls in \<open>simp_all add: lsame_def\<close>)
  ultimately show ?thesis using U T by simp
qed

lemma commit_done:
  assumes "trans_ready s bs"
  shows "\<exists>t. commit s = Ret () t \<and> rebooted t \<and> lsame s t \<and> lh_n (lg_lh t) = 0 \<and>
    disk_header (memdisk t (lblk (lg_start s) 0)) = [] \<and>
    (\<forall>b. b \<notin> log_area (lg_start s) (lg_size s) \<longrightarrow> memdisk t b = bview s b)"
proof -
  let ?st = "lg_start s" and ?A = "log_area (lg_start s) (lg_size s)"
  have ok: "bok s" "bheld s = {}" and g: "log_geom s" and h: "homes s bs" and d: "bdirty s = set bs"
    and D: "disk_header (memdisk s (lblk ?st 0)) = []" using assms by (simp_all add: trans_ready_def)
  have gm: "geom ?st (lg_size s) bs" by (rule homes_geom [OF ok(1) g h])
  from commit_spec [OF assms] obtain t H H0 where
    t: "commit s = Ret () t" "bok t" "bheld t = {}" "bdirty t = {}" "log_geom t" "lsame s t" "lh_n (lg_lh t) = 0"
      "disk_header H = bs" "disk_header H0 = []"
      "memdisk t = apply_writes (commit_writes ?st bs (bview s) H H0) (memdisk s)" by blast
  have V: "\<forall>b. b \<notin> set bs \<longrightarrow> b \<notin> ?A \<longrightarrow> bview s b = memdisk s b" using bview_clean [OF ok(1)] d ok(2) by simp
  have hd: "disk_header (memdisk t (lblk ?st 0)) = []" using t(9,10) by (simp add: commit_writes_def)
  have "memdisk t b = bview s b" if "b \<notin> ?A" for b
    using commit_crash(1) [where D = "memdisk s", OF gm D t(8,9) V that, of "length (commit_writes ?st bs (bview s) H H0)"]
      logdisk_other [of "memdisk t", OF hd] t(10) by (simp add: commit_writes_def)
  then show ?thesis using t hd by (auto simp: rebooted_def)
qed

lemma end_op_spec:
  assumes r: "trans_ready s bs" and c: "\<not> lg_committing s" and o: "lg_outstanding s = 1"
  shows "\<exists>t. end_op s = Ret () t \<and> rebooted t \<and> lh_n (lg_lh t) = 0 \<and> lsame (s\<lparr>lg_outstanding := 0\<rparr>) t \<and>
    disk_header (memdisk t (lblk (lg_start s) 0)) = [] \<and>
    (\<forall>b. b \<notin> log_area (lg_start s) (lg_size s) \<longrightarrow> memdisk t b = bview s b)"
proof -
  have ok: "bok s" using r by (simp add: trans_ready_def)
  from bc_acquire [OF bokD(1) [OF ok], of LogLock] obtain u where
    u: "acquire LogLock s = Ret () u" "lk [LogLock] u" "bfields s u" "slks u = slks s" by auto
  have eu: "bequiv s u" using u by (simp add: bequiv_def)
  note U = bequiv_views [OF eu] views_bequiv_lg [OF eu]
  let ?v = "u\<lparr>lg_outstanding := 0, lg_committing := True\<rparr>"
  from bc_release [of "[LogLock]" ?v LogLock] u(2) obtain w where
    w: "release LogLock ?v = Ret () w" "lk [] w" "bfields ?v w" "slks w = slks ?v" by auto
  have ew: "bequiv ?v w" using w by (simp add: bequiv_def)
  note W = bequiv_views [OF ew] views_bequiv_lg [OF ew]
  have lw: "lsame (s\<lparr>lg_outstanding := 0, lg_committing := True\<rparr>) w"
    using U(10) W(10) by (auto simp: lsame_def kcore_def)
  have kw: "kcore s w" using U(10) W(10) by (auto simp: lsame_def kcore_def)
  have okw: "bok w"
    by (rule bok_kcore [OF ok _ _ _ _ w(2) kw]) (use U(4,7,8) W(4,7,8) lw in \<open>simp_all add: lsame_def\<close>)
  have lg: "lg_lh w = lg_lh s" "lg_start w = lg_start s" "lg_size w = lg_size s" using lw U W by (simp_all add: lsame_def)
  have rw: "trans_ready w bs"
    using r okw U W lw lg by (auto simp: trans_ready_def log_geom_def homes_def lsame_def)
  from commit_done [OF rw] obtain x where
    x: "commit w = Ret () x" "rebooted x" "lsame w x" "lh_n (lg_lh x) = 0" "disk_header (memdisk x (lblk (lg_start w) 0)) = []"
      "\<forall>b. b \<notin> log_area (lg_start w) (lg_size w) \<longrightarrow> memdisk x b = bview w b" by blast
  have okx: "bok x" using x(2) by (simp add: rebooted_def)
  from bc_acquire [OF bokD(1) [OF okx], of LogLock] obtain y where
    y: "acquire LogLock x = Ret () y" "lk [LogLock] y" "bfields x y" "slks y = slks x" by auto
  have ey: "bequiv x y" using y by (simp add: bequiv_def)
  note Y = bequiv_views [OF ey] views_bequiv_lg [OF ey]
  let ?y = "y\<lparr>lg_committing := False\<rparr>"
  from lk_wakeup [of "[LogLock]" ?y ChanLog] y(2) obtain z where
    z: "wakeup ChanLog ?y = Ret () z" "lk [LogLock] z" "kcore ?y z" "pt.more z = pt.more ?y" by auto
  have ez: "bequiv ?y z" using bfields_more [OF z(3,4)] by (simp add: bequiv_def)
  note Z = bequiv_views [OF ez] views_bequiv_lg [OF ez]
  from bc_release [OF z(2), of LogLock] obtain t where
    t: "release LogLock z = Ret () t" "lk [] t" "bfields z t" "slks t = slks z" by auto
  have et: "bequiv z t" using t by (simp add: bequiv_def)
  note T = bequiv_views [OF et] views_bequiv_lg [OF et]
  have lt: "lsame (x\<lparr>lg_committing := False\<rparr>) t"
    using Y(10) Z(10) T(10) by (auto simp: lsame_def kcore_def)
  have kt: "kcore x t" using Y(10) Z(10) T(10) by (auto simp: lsame_def kcore_def)
  have okt: "bok t"
    by (rule bok_kcore [OF okx _ _ _ _ t(2) kt])
       (use Y(4,7,8) Z(4,7,8) T(4,7,8) lt in \<open>simp_all add: lsame_def\<close>)
  have "end_op s = Ret () t"
    using u(1) w(1) x(1) y(1) z(1) t(1) c o U(10) by (simp add: end_op_def Let_def lsame_def)
  moreover have "rebooted t"
    using okt x(2) Y Z T lt by (auto simp: rebooted_def log_geom_def lsame_def)
  moreover have "lsame (s\<lparr>lg_outstanding := 0\<rparr>) t"
    using lw x(3) lt c kcore_trans [OF kw, of x] kcore_trans [of s x t] by (auto simp: lsame_def kcore_def)
  ultimately show ?thesis using x(4-6) Y Z T lg U W by simp
qed

section \<open>A transaction\<close>

text \<open>
  The use of the log that the comment above \<open>log_write\<close> describes: each block is read, changed,
  passed to \<open>log_write\<close> and released.
\<close>

definition log_update :: "uint \<Rightarrow> block \<Rightarrow> 'a lg_scheme \<Rightarrow> (unit, 'a lg_scheme) kres" where
  "log_update b d s =
     bindK (bread 1 b s) (\<lambda>i s.
     bindK (log_write i (set_data i d s)) (\<lambda>_ s.
     brelse i s))"

definition log_updates :: "(uint \<times> block) list \<Rightarrow> 'a lg_scheme \<Rightarrow> (unit, 'a lg_scheme) kres" where
  "log_updates us s = forK us (\<lambda>(b, d). log_update b d) s"

definition in_trans :: "'a lg_scheme \<Rightarrow> uint list \<Rightarrow> bool" where
  "in_trans s bs \<longleftrightarrow> bok s \<and> bheld s = {} \<and> entries s bs \<and> bdirty s = set bs \<and> distinct bs \<and> 1 \<le> lg_outstanding s"

lemma log_update_spec:
  assumes t: "in_trans s bs" and b: "int (unat b) < disksize s" and d: "length d = BSIZE"
    and n: "length bs < 29" "int (length bs) < lg_size s - 1"
  shows "\<exists>t. log_update b d s = Ret () t \<and> in_trans t (log_add b bs) \<and> bview t = (bview s)(b := d) \<and>
    memdisk t = memdisk s \<and> lsame s t"
proof -
  have ok: "bok s" "bheld s = {}" and e: "entries s bs" and dr: "bdirty s = set bs" "distinct bs"
    and o: "1 \<le> lg_outstanding s" using t by (simp_all add: in_trans_def)
  have c: "card (bdirty s) < NBUF" using dr n by (simp add: distinct_card)
  from bio.bread [OF ok(1) b] ok(2) c obtain i u where
    u: "bread 1 b s = Ret i u" "bok u" "bsame s u" "bview u = bview s" "memdisk u = memdisk s"
      "bdirty u = bdirty s" "bheld u = {(i, b)}" by auto
  let ?v = "set_data i d u"
  note S = set_data_law [OF u(2), of i b d]
  have v: "bok ?v" "bsame u ?v" "bview ?v = (bview s)(b := d)" "memdisk ?v = memdisk s" "bdirty ?v = set bs" "(i, b) \<in> bheld ?v"
    "bheld ?v = {(i, b)}" using S u d dr by simp_all
  have sv: "bsame s ?v" by (rule bsame_trans [OF u(3) v(2)])
  note L = bsame_lg [OF sv] bsame_lsame [OF sv]
  have ev: "entries ?v bs" "int (length bs) < lg_size ?v - 1" "1 \<le> lg_outstanding ?v" "length bs < 30"
    using e L n o by (simp_all add: entries_def lsame_def)
  from log_write_spec [OF v(1,6) ev(1,4,2,3)] obtain w where
    w: "log_write i ?v = Ret () w" "bok w" "entries w (log_add b bs)" "bheld w = {(i, b)}" "bview w = (bview s)(b := d)"
      "memdisk w = memdisk s" "bdirty w = insert b (set bs)" "lsame ?v w" using v by auto
  from bio.brelse [OF w(2), of i b] w obtain x where
    x: "brelse i w = Ret () x" "bok x" "bsame w x" "bview x = bview w" "memdisk x = memdisk w" "bdirty x = bdirty w" "bheld x = {}"
    by auto
  have lx: "lsame s x" by (rule lsame_trans [OF L(9) lsame_trans [OF w(8) bsame_lsame [OF x(3)]]])
  have "in_trans x (log_add b bs)"
    using x w(3,7) dr o lx bsame_lg(3) [OF x(3)] by (auto simp: in_trans_def entries_def log_add_def lsame_def)
  then show ?thesis using u(1) w(1,5,6) x(1,4,5) lx by (auto simp: log_update_def)
qed

lemma log_updates_spec:
  assumes "in_trans s bs" and "\<forall>(b, d) \<in> set us. int (unat b) < disksize s \<and> length d = BSIZE"
    and "length bs + length us \<le> 29" and "int (length bs + length us) < lg_size s"
  shows "\<exists>t. log_updates us s = Ret () t \<and> in_trans t (fold log_add (map fst us) bs) \<and>
    bview t = apply_writes us (bview s) \<and> memdisk t = memdisk s \<and> lsame s t"
  using assms
proof (induction us arbitrary: s bs)
  case Nil
  then show ?case by (simp add: log_updates_def lsame_def)
next
  case (Cons u us)
  obtain b d where u: "u = (b, d)" by force
  from log_update_spec [OF Cons.prems(1), of b d] Cons.prems(2-4) u obtain t where
    t: "log_update b d s = Ret () t" "in_trans t (log_add b bs)" "bview t = (bview s)(b := d)" "memdisk t = memdisk s" "lsame s t"
    by auto
  have l: "length (log_add b bs) \<le> Suc (length bs)" by (simp add: log_add_def)
  have "\<exists>x. log_updates us t = Ret () x \<and> in_trans x (fold log_add (map fst us) (log_add b bs)) \<and>
    bview x = apply_writes us (bview t) \<and> memdisk x = memdisk t \<and> lsame t x"
    by (rule Cons.IH [OF t(2)]) (use Cons.prems t(5) l in \<open>auto simp: lsame_def\<close>)
  then obtain x where x: "log_updates us t = Ret () x" "in_trans x (fold log_add (map fst us) (log_add b bs))"
    "bview x = apply_writes us (bview t)" "memdisk x = memdisk t" "lsame t x" by blast
  show ?case
    using t x u lsame_trans [OF t(5) x(5)] by (auto simp: log_updates_def)
qed

lemma fold_log_add: "set (fold log_add xs bs) = set bs \<union> set xs" "length (fold log_add xs bs) \<le> length bs + length xs"
proof (induction xs arbitrary: bs)
  case (Cons x xs)
  {
    case 1
    show ?case using Cons(1) [of "log_add x bs"] by (auto simp: log_add_def)
  next
    case 2
    show ?case using Cons(2) [of "log_add x bs"] by (auto simp: log_add_def split: if_splits)
  }
qed auto

text \<open>The log between two system calls.\<close>

definition log_idle :: "'a lg_scheme \<Rightarrow> bool" where
  "log_idle s \<longleftrightarrow> rebooted s \<and> lh_n (lg_lh s) = 0 \<and> lg_outstanding s = 0 \<and> \<not> lg_committing s \<and>
     disk_header (memdisk s (lblk (lg_start s) 0)) = []"

text \<open>A machine with a zeroed disk of 1000 blocks, the log at blocks 2 to 31, and its cache initialised.\<close>

definition zero_buf :: buf where
  "zero_buf = \<lparr>b_valid = False, b_dirty = False, b_dev = 0, b_blockno = 0, b_refcnt = 0, b_prev = 0, b_next = 0,
     b_data = replicate BSIZE 0\<rparr>"

definition disk0 :: lg where
  "disk0 = \<lparr>cpus = (\<lambda>i. \<lparr>c_apicid = of_nat i, c_started = 1, c_ncli = 0, c_intena = False,
              c_proc = Some 0, c_if = True, c_cr3 = 0, c_esp0 = 0\<rparr>),
     ncpu = 1, cur = 0, locks = (\<lambda>_. \<lparr>l_locked = False, l_cpu = None\<rparr>),
     k_mem = (\<lambda>_. 0), k_use_lock = True, k_freelist = 0, k_end = 0x80112000, kpgdir = 0x80200000,
     vm_data = 0x80108000, procs = (\<lambda>_. idle_proc), queue_first = (\<lambda>_. None), queue_last = (\<lambda>_. None),
     initproc = None, nextpid = 1, forkret_first = True, ticks = 0,
     slks = (\<lambda>_. \<lparr>sl_locked = False, sl_pid = 0\<rparr>), bufs = (\<lambda>_. zero_buf), memdisk = (\<lambda>_. replicate BSIZE 0),
     disksize = 1000, disk_writes = [], lg_start = 2, lg_size = 30, lg_outstanding = 0, lg_committing = False,
     lg_dev = 1, lg_lh = \<lparr>lh_n = 0, lh_block = replicate 30 0\<rparr>\<rparr>"

lemma fresh_disk0: "fresh disk0"
  by (simp add: fresh_def disk0_def lk_def mach_inv_def curp_def cpage_def zero_buf_def inj_on_def)

lemma binit_more: "bc.more (binit s) = bc.more s"
proof -
  have "bc.more (fold (\<lambda>b s. link_front b (initsleeplock (BufSlk b) s)) xs u) = bc.more u" for xs and u :: "'a bc_scheme"
    by (induction xs arbitrary: u) (simp_all add: link_front_def Let_def)
  then show "bc.more (binit s) = bc.more s" for s :: "'a bc_scheme" by (simp add: binit_def Let_def)
qed

lemma binit_lg [simp]:
  "lg_start (binit s) = lg_start s" "lg_size (binit s) = lg_size s" "lg_outstanding (binit s) = lg_outstanding s"
  "lg_committing (binit s) = lg_committing s" "lg_dev (binit s) = lg_dev s" "lg_lh (binit s) = lg_lh s"
  using bc_more_lg [OF binit_more [of s]] by simp_all

lemma get32_zero: "off + 4 \<le> n \<Longrightarrow> get32 (replicate n 0) off = 0"
  by (simp add: get32_def slice_def word32_def)

lemma log_idle_disk0: "log_idle (binit disk0)"
proof -
  note B = binit_ok [OF fresh_disk0]
  have "log_geom (binit disk0)" using B(6) by (simp add: log_geom_def) (simp add: disk0_def)
  moreover have "disk_header (memdisk (binit disk0) (lblk (lg_start (binit disk0)) 0)) = []"
    using B(4) get32_zero [of 0 BSIZE] by (simp add: disk_header_def) (simp add: disk0_def)
  ultimately show ?thesis using B(1-3) by (simp add: log_idle_def rebooted_def) (simp add: disk0_def)
qed

text \<open>
  C24. Transactions are durable.  From an idle log, a system call that brackets at most
  \<open>MAXOPBLOCKS\<close> block updates with \<open>begin_op\<close> and \<open>end_op\<close> returns without waiting or panicking;
  when it has returned the disk holds all its updates, in order, outside the log area nothing else
  changed, and the log is idle again.
\<close>

theorem transaction_durable:
  assumes "log_idle s" and "us \<noteq> []" and "int (length us) \<le> MAXOPBLOCKS" and "MAXOPBLOCKS < lg_size s"
    and "\<forall>(b, d) \<in> set us. b \<notin> log_area (lg_start s) (lg_size s) \<and> int (unat b) < disksize s \<and> length d = BSIZE"
  shows "\<exists>t. bindK (begin_op s) (\<lambda>_ s. bindK (log_updates us s) (\<lambda>_ s. end_op s)) = Ret () t \<and> log_idle t \<and>
    (\<forall>b. b \<notin> log_area (lg_start s) (lg_size s) \<longrightarrow> memdisk t b = apply_writes us (memdisk s) b)"
proof -
  have ok: "bok s" "bheld s = {}" "bdirty s = {}" and g: "log_geom s" and i: "lh_n (lg_lh s) = 0" "lg_outstanding s = 0"
    "\<not> lg_committing s" and D: "disk_header (memdisk s (lblk (lg_start s) 0)) = []"
    using assms(1) by (simp_all add: log_idle_def rebooted_def)
  have vs: "bview s = memdisk s" using bview_clean [OF ok(1)] ok(2,3) by (auto simp: fun_eq_iff)
  from begin_op_spec [OF ok(1) i(3)] i obtain u where
    u: "begin_op s = Ret () u" "bok u" "bview u = bview s" "bheld u = bheld s" "bdirty u = bdirty s" "memdisk u = memdisk s"
      "lg_lh u = lg_lh s" "lsame (s\<lparr>lg_outstanding := 1\<rparr>) u" by auto
  have lu: "lg_start u = lg_start s" "lg_size u = lg_size s" "disksize u = disksize s" "lg_outstanding u = 1" "\<not> lg_committing u" "lg_dev u = lg_dev s"
    using u(8) i by (simp_all add: lsame_def)
  have tr: "in_trans u []" using u ok i g lu by (simp add: in_trans_def entries_def log_geom_def)
  from log_updates_spec [OF tr, of us] assms(3-5) lu obtain v where
    v: "log_updates us u = Ret () v" "in_trans v (fold log_add (map fst us) [])" "bview v = apply_writes us (bview u)"
      "memdisk v = memdisk u" "lsame u v" by fastforce
  let ?bs = "fold log_add (map fst us) []"
  have bs: "set ?bs = fst ` set us" "length ?bs \<le> length us" using fold_log_add [of "map fst us" "[]"] by simp_all
  have ne: "?bs \<noteq> []" using bs(1) assms(2) by auto
  have lv: "lg_start v = lg_start s" "lg_size v = lg_size s" "disksize v = disksize s" "lg_outstanding v = 1" "\<not> lg_committing v" "lg_dev v = lg_dev s"
    using v(5) lu by (simp_all add: lsame_def)
  have "trans_ready v ?bs"
    using v(2,4) u(6) D ne lv g bs assms(3-5)
    by (auto simp: trans_ready_def in_trans_def entries_def homes_def log_geom_def)
  from end_op_spec [OF this lv(5,4)] obtain t where
    t: "end_op v = Ret () t" "rebooted t" "lh_n (lg_lh t) = 0" "lsame (v\<lparr>lg_outstanding := 0\<rparr>) t"
      "disk_header (memdisk t (lblk (lg_start s) 0)) = []"
      "\<forall>b. b \<notin> log_area (lg_start s) (lg_size s) \<longrightarrow> memdisk t b = bview v b" using lv by auto
  have "log_idle t" using t lv by (simp add: log_idle_def lsame_def)
  then show ?thesis using u(1,3) v(1,3) t(1,6) vs by simp
qed

theorem transaction_durable_witness:
  "\<exists>t. bindK (begin_op (binit disk0)) (\<lambda>_ s. bindK (log_updates [(59, replicate BSIZE 7), (60, replicate BSIZE 9)] s) (\<lambda>_ s. end_op s)) =
     Ret () t \<and> log_idle t \<and> memdisk t 60 = replicate BSIZE 9"
proof -
  let ?s = "binit disk0"
  have f: "lg_start ?s = 2" "lg_size ?s = 30" "disksize ?s = 1000" using binit_ok(6) [OF fresh_disk0] by (simp_all) (simp_all add: disk0_def)
  have a: "b \<notin> log_area 2 30" if "60 \<le> b + 1" "b < 1000" for b :: uint
  proof
    assume "b \<in> log_area 2 30"
    then obtain i where i: "i < 30" "b = lblk 2 i" by (auto simp: log_area_def)
    then have "uint b = 2 + int i" using unat_lblk [of 2 i] by simp
    moreover have "uint (60 :: uint) \<le> uint (b + 1)" using that(1) by (simp only: word_le_def)
    moreover have "uint (b + 1) = uint b + 1" using that(2) by (simp add: uint_plus_if' word_less_def)
    ultimately show False using i(1) by simp
  qed
  have "\<forall>(b, d) \<in> set [(59 :: uint, replicate BSIZE (7 :: uchar)), (60, replicate BSIZE 9)].
      b \<notin> log_area (lg_start ?s) (lg_size ?s) \<and> int (unat b) < disksize ?s \<and> length d = BSIZE"
    using a [of 59] a [of 60] f by simp
  from transaction_durable [OF log_idle_disk0 _ _ _ this] f a [of 60] show ?thesis by fastforce
qed

end
