(* ===== verification/User_Mem.thy ===== *)
theory User_Mem
  imports Uaccess Lock_Seq
begin

text \<open>
  Reading and writing user memory between operations that only touch other parts of the state: the
  translation of an address depends on the byte memory and on the page table that is loaded.
\<close>

lemma lk_k_mem [simp]: "lk L (s\<lparr>k_mem := m\<rparr>) = lk L s"
  by (simp add: lk_def mach_inv_def)

definition same_map :: "'a kmem_scheme \<Rightarrow> 'b kmem_scheme \<Rightarrow> bool" where
  "same_map s t \<longleftrightarrow> k_mem t = k_mem s \<and> cpage t = cpage s"

lemma same_map_kcore: "kcore s t \<Longrightarrow> same_map s t"
  by (simp add: same_map_def kcore_def)

lemma same_map_trans: "same_map s t \<Longrightarrow> same_map t u \<Longrightarrow> same_map s u"
  by (simp add: same_map_def)

lemma vtrans_same: "same_map s t \<Longrightarrow> vtrans wr va t = vtrans wr va s"
  by (simp add: same_map_def vtrans_def cpage_def Let_def)

lemma vread_same_map: "same_map s t \<Longrightarrow> vread va n s = Ret bs s \<Longrightarrow> vread va n t = Ret bs t"
proof (induction n arbitrary: va bs)
  case (Suc n)
  note sm = Suc.prems(1)
  from Suc.prems(2) obtain b bs' s1 s2 where
    "ld8 va s = Ret b s1" "vread (va + 1) n s1 = Ret bs' s2" "s2 = s" "bs = b # bs'" by auto
  moreover have "s1 = s" using calculation(1) by (auto simp: ld8_def split: option.splits)
  ultimately have r: "ld8 va s = Ret b s" "vread (va + 1) n s = Ret bs' s" "bs = b # bs'" by simp_all
  have "ld8 va t = Ret b t" using r(1) sm by (auto simp: ld8_def vtrans_same [OF sm] same_map_def split: option.splits)
  with Suc.IH [OF sm r(2)] r(3) show ?case by simp
qed simp

lemma vread_SucE:
  assumes "vread va (Suc n) s = Ret bs s"
  obtains b bs' where "ld8 va s = Ret b s" and "vread (va + 1) n s = Ret bs' s" and "bs = b # bs'"
proof -
  from assms obtain b bs' s1 s2 where
    *: "ld8 va s = Ret b s1" "vread (va + 1) n s1 = Ret bs' s2" "s2 = s" "bs = b # bs'" by auto
  moreover have "s1 = s" using *(1) by (auto simp: ld8_def split: option.splits)
  ultimately show ?thesis using that by simp
qed

lemma vwrite_same_map:
  "same_map s t \<Longrightarrow> vwrite va bs s = Ret () s1 \<Longrightarrow> vwrite va bs t = Ret () (t\<lparr>k_mem := k_mem s1\<rparr>)"
proof (induction bs arbitrary: va s t)
  case Nil
  then show ?case by (cases t) (simp add: same_map_def)
next
  case (Cons b bs)
  note sm = Cons.prems(1)
  from Cons.prems(2) obtain u where u: "st8 va b s = Ret () u" "vwrite (va + 1) bs u = Ret () s1" by auto
  from u(1) obtain a where a: "vtrans True va s = Some a" "u = s\<lparr>k_mem := (k_mem s)(a := b)\<rparr>"
    by (auto simp: st8_def split: option.splits)
  let ?t = "t\<lparr>k_mem := (k_mem t)(a := b)\<rparr>"
  have "st8 va b t = Ret () ?t" using a(1) by (simp add: st8_def vtrans_same [OF sm])
  moreover have "same_map u ?t" using sm a(2) by (simp add: same_map_def cpage_def)
  ultimately show ?case using Cons.IH [OF _ u(2), of ?t] by simp
qed

end
