(* ===== verification/Machine0.thy ===== *)
theory Machine0
  imports Console Log_Trans User_Mem
begin

text \<open>
  A concrete machine, on which the properties of the components above the file system are exercised:
  one processor that runs process 1 (identifier 7), free locks, an empty disk and cleared memory.
\<close>

definition proc1 :: proc where
  "proc1 = idle_proc\<lparr>p_state := RUNNING, p_pid := 7, p_sz := 0x4000, p_kstack := 0x80300000, p_pgdir := 0x80301000,
     p_tf := 0x80300FB4, p_cwd := Some 0, p_parent := Some 0\<rparr>"

definition free_inode :: inode where
  "free_inode = \<lparr>i_dev = 0, i_inum = 0, i_ref = 0, i_valid = False, i_type = 0, i_major = 0, i_minor = 0,
     i_nlink = 0, i_size = 0, i_addrs = replicate 13 0\<rparr>"

definition no_pipe :: pipe where
  "no_pipe = \<lparr>pp_data = replicate 512 0, pp_nread = 0, pp_nwrite = 0, pp_readopen = True, pp_writeopen = True\<rparr>"

definition no_file :: kfile where
  "no_file = \<lparr>f_type = FD_NONE, f_ref = 0, f_readable = False, f_writable = False, f_pipe = 0, f_ip = None, f_off = 0\<rparr>"

definition con0 :: con where
  "con0 = \<lparr>cpus = (\<lambda>i. \<lparr>c_apicid = of_nat i, c_started = 1, c_ncli = 0, c_intena = False,
              c_proc = Some 1, c_if = True, c_cr3 = V2P 0x80301000, c_esp0 = 0\<rparr>),
     ncpu = 1, cur = 0, locks = (\<lambda>_. \<lparr>l_locked = False, l_cpu = None\<rparr>),
     k_mem = (\<lambda>_. 0), k_use_lock = True, k_freelist = 0, k_end = 0x80112000, kpgdir = 0x80200000,
     vm_data = 0x80108000, procs = (\<lambda>p. if p = 1 then proc1 else idle_proc),
     queue_first = (\<lambda>_. None), queue_last = (\<lambda>_. None),
     initproc = Some 0, nextpid = 8, forkret_first = False, ticks = 0,
     slks = (\<lambda>_. \<lparr>sl_locked = False, sl_pid = 0\<rparr>), bufs = (\<lambda>_. zero_buf), memdisk = (\<lambda>_. replicate BSIZE 0),
     disksize = 1000, disk_writes = [], lg_start = 2, lg_size = 30, lg_outstanding = 0, lg_committing = False,
     lg_dev = 1, lg_lh = \<lparr>lh_n = 0, lh_block = replicate 30 0\<rparr>,
     fs_sb = \<lparr>sb_size = 1000, sb_nblocks = 941, sb_ninodes = 200, sb_nlog = 30, sb_logstart = 2, sb_inodestart = 32,
              sb_bmapstart = 58\<rparr>,
     inodes = (\<lambda>_. free_inode), pipes = (\<lambda>_. no_pipe), files = (\<lambda>_. no_file),
     con_locking = True, con_panicked = False, crt = (\<lambda>_. 0), crt_pos = 0, uart = True, uart_out = [], uart_in = [],
     kbd_in = [], kbd_shift = 0,
     con_input = \<lparr>in_buf = replicate 128 0, in_r = 0, in_w = 0, in_e = 0\<rparr>\<rparr>"

lemma lk_con0 [simp]: "lk [] con0" "curp con0 = Some 1"
  by (simp_all add: con0_def lk_def mach_inv_def curp_def inj_on_def)

end
