(* ===== verification/Sysargs.thy ===== *)
theory Sysargs
  imports Proc Uaccess
begin

text \<open>
  System call arguments: the first half of \<^verbatim>\<open>kernel/syscall.c\<close>.  A function that returns \<open>-1\<close> or
  stores a value through a pointer is a function to an option.  The trap frame of a process is at the
  address \<open>p_tf\<close> of the byte memory.
\<close>

abbreviation (input) TF_EAX :: uint where "TF_EAX \<equiv> 28"
abbreviation (input) TF_ES :: uint where "TF_ES \<equiv> 40"
abbreviation (input) TF_DS :: uint where "TF_DS \<equiv> 44"
abbreviation (input) TF_TRAPNO :: uint where "TF_TRAPNO \<equiv> 48"
abbreviation (input) TF_EIP :: uint where "TF_EIP \<equiv> 56"
abbreviation (input) TF_CS :: uint where "TF_CS \<equiv> 60"
abbreviation (input) TF_EFLAGS :: uint where "TF_EFLAGS \<equiv> 64"
abbreviation (input) TF_ESP :: uint where "TF_ESP \<equiv> 68"
abbreviation (input) TF_SS :: uint where "TF_SS \<equiv> 72"
abbreviation (input) TF_SIZE :: uint where "TF_SIZE \<equiv> 76"

definition tf_get :: "nat \<Rightarrow> uint \<Rightarrow> 'a pt_scheme \<Rightarrow> uint" where
  "tf_get p f s = load32 (k_mem s) (p_tf (procs s p) + f)"

definition tf_put :: "nat \<Rightarrow> uint \<Rightarrow> uint \<Rightarrow> 'a pt_scheme \<Rightarrow> 'a pt_scheme" where
  "tf_put p f v s = s\<lparr>k_mem := store32 (k_mem s) (p_tf (procs s p) + f) v\<rparr>"

text \<open>The running process, which the callers dereference.\<close>

definition with_proc :: "(nat \<Rightarrow> 'a pt_scheme \<Rightarrow> ('b, 'a pt_scheme) kres) \<Rightarrow> 'a pt_scheme \<Rightarrow> ('b, 'a pt_scheme) kres" where
  "with_proc f s = bindK (myproc s) (\<lambda>po s. case po of None \<Rightarrow> Fault | Some p \<Rightarrow> f p s)"

definition fetchint :: "uint \<Rightarrow> 'a pt_scheme \<Rightarrow> (uint option, 'a pt_scheme) kres" where
  "fetchint addr = with_proc (\<lambda>p s.
     if addr \<ge> p_sz (procs s p) \<or> addr + 4 > p_sz (procs s p) then Ret None s
     else bindK (ld32 addr s) (\<lambda>v s. Ret (Some v) s))"

text \<open>The loop looks at the bytes from \<open>s\<close> up to \<open>ep\<close>; there are \<open>k\<close> of them.\<close>

fun fetchstr_loop :: "nat \<Rightarrow> uint \<Rightarrow> nat \<Rightarrow> 'a pt_scheme \<Rightarrow> (nat option, 'a pt_scheme) kres" where
  "fetchstr_loop 0 a n s = Ret None s"
| "fetchstr_loop (Suc k) a n s =
     bindK (ld8 a s) (\<lambda>c s. if c = 0 then Ret (Some n) s else fetchstr_loop k (a + 1) (Suc n) s)"

text \<open>The pointer and the length of the string.\<close>

definition fetchstr :: "uint \<Rightarrow> 'a pt_scheme \<Rightarrow> ((uint \<times> nat) option, 'a pt_scheme) kres" where
  "fetchstr addr = with_proc (\<lambda>p s.
     if addr \<ge> p_sz (procs s p) then Ret None s
     else bindK (fetchstr_loop (unat (p_sz (procs s p) - addr)) addr 0 s) (\<lambda>r s.
       Ret (map_option (Pair addr) r) s))"

definition argint :: "nat \<Rightarrow> 'a pt_scheme \<Rightarrow> (uint option, 'a pt_scheme) kres" where
  "argint n = with_proc (\<lambda>p s. fetchint (tf_get p TF_ESP s + 4 + 4 * of_nat n) s)"

definition argptr :: "nat \<Rightarrow> uint \<Rightarrow> 'a pt_scheme \<Rightarrow> (uint option, 'a pt_scheme) kres" where
  "argptr n sz = with_proc (\<lambda>p s.
     bindK (argint n s) (\<lambda>io s.
     case io of
       None \<Rightarrow> Ret None s
     | Some i \<Rightarrow>
         if sz <s 0 \<or> i \<ge> p_sz (procs s p) \<or> i + sz > p_sz (procs s p) then Ret None s
         else Ret (Some i) s))"

definition argstr :: "nat \<Rightarrow> 'a pt_scheme \<Rightarrow> ((uint \<times> nat) option, 'a pt_scheme) kres" where
  "argstr n s =
     bindK (argint n s) (\<lambda>io s. case io of None \<Rightarrow> Ret None s | Some addr \<Rightarrow> fetchstr addr s)"

text \<open>
  The bytes of a string argument.  Its user reads them later, but nothing writes to the memory of
  the process in between.
\<close>

definition argpath :: "nat \<Rightarrow> 'a pt_scheme \<Rightarrow> (uchar list option, 'a pt_scheme) kres" where
  "argpath n s =
     bindK (argstr n s) (\<lambda>r s.
     case r of None \<Rightarrow> Ret None s | Some (a, len) \<Rightarrow> bindK (vread a len s) (\<lambda>bs s. Ret (Some bs) s))"

end
