(* ===== verification/Proc_Sys.thy ===== *)
theory Proc_Sys
  imports Console Sysargs
begin

text \<open>
  The functions of \<^verbatim>\<open>kernel/proc.c\<close> that use files: \<open>userinit\<close>, \<open>fork\<close> and \<open>exit\<close>, and the system
  calls of \<^verbatim>\<open>kernel/sysproc.c\<close>.  A system call returns \<open>None\<close> if the thread has been switched away
  inside of it.
\<close>

unbundle bit_operations_syntax

text \<open>The copy of a name: \<open>safestrcpy\<close> into the 16 bytes of the field.\<close>

definition proc_name :: "uchar list \<Rightarrow> uchar list" where
  "proc_name bs = take 15 bs"

text \<open>\<open>init\<close> and \<open>sz\<close> are the place and the size of the linked image of \<open>initcode\<close>.\<close>

definition userinit :: "'a con_scheme devsw \<Rightarrow> uint \<Rightarrow> uint \<Rightarrow> 'a con_scheme \<Rightarrow> (unit, 'a con_scheme) kres" where
  "userinit devsw init sz s =
     bindK (allocproc s) (\<lambda>po s.
     let s = s\<lparr>initproc := po\<rparr> in
     bindK (setupkvm s) (\<lambda>d s.
     case po of
       None \<Rightarrow> Fault
     | Some p \<Rightarrow>
         let s = proc_upd p (\<lambda>x. x\<lparr>p_pgdir := d\<rparr>) s in
         if d = 0 then Panic ''userinit: out of memory?''
         else
           bindK (inituvm d init sz s) (\<lambda>_ s.
           let s = proc_upd p (\<lambda>x. x\<lparr>p_sz := PGSIZE\<rparr>) s;
               s = s\<lparr>k_mem := memset (k_mem s) (p_tf (procs s p)) 0 TF_SIZE\<rparr>;
               s = tf_put p TF_CS (3 * 8 OR 3) s;
               s = tf_put p TF_DS (4 * 8 OR 3) s;
               s = tf_put p TF_ES (tf_get p TF_DS s) s;
               s = tf_put p TF_SS (tf_get p TF_DS s) s;
               s = tf_put p TF_EFLAGS 0x200 s;
               s = tf_put p TF_ESP PGSIZE s;
               s = tf_put p TF_EIP 0 s;
               s = proc_upd p (\<lambda>x. x\<lparr>p_name := proc_name (bytes_of ''initcode'')\<rparr>) s
           in bindK (namei devsw (bytes_of ''/'') s) (\<lambda>cwd s.
              make_ready p (proc_upd p (\<lambda>x. x\<lparr>p_cwd := cwd\<rparr>) s)))))"

text \<open>The loop over the descriptors in \<open>fork\<close>.\<close>

fun fork_files :: "nat \<Rightarrow> nat \<Rightarrow> nat list \<Rightarrow> 'a con_scheme \<Rightarrow> (unit, 'a con_scheme) kres" where
  "fork_files cp np [] s = Ret () s"
| "fork_files cp np (i # is) s =
     bindK (case p_ofile (procs s cp) i of
              None \<Rightarrow> Ret () s
            | Some f \<Rightarrow>
                bindK (filedup f s) (\<lambda>f s.
                Ret () (proc_upd np (\<lambda>x. x\<lparr>p_ofile := (p_ofile x)(i := Some f)\<rparr>) s))) (\<lambda>_ s.
     fork_files cp np is s)"

definition fork :: "'a con_scheme \<Rightarrow> (int, 'a con_scheme) kres" where
  "fork = with_proc (\<lambda>cp s.
     bindK (allocproc s) (\<lambda>npo s.
     case npo of
       None \<Rightarrow> Ret (- 1) s
     | Some np \<Rightarrow>
         bindK (copyuvm (p_pgdir (procs s cp)) (p_sz (procs s cp)) s) (\<lambda>d s.
         let s = proc_upd np (\<lambda>x. x\<lparr>p_pgdir := d\<rparr>) s in
         if d = 0 then
           bindK (kfree (p_kstack (procs s np)) s) (\<lambda>_ s.
           let s = proc_upd np (\<lambda>x. x\<lparr>p_kstack := 0\<rparr>) s
           in Ret (- 1) (proc_upd np (\<lambda>x. x\<lparr>p_state := UNUSED\<rparr>) s))
         else
           let s = proc_upd np (\<lambda>x. x\<lparr>p_sz := p_sz (procs s cp)\<rparr>) s;
               s = proc_upd np (\<lambda>x. x\<lparr>p_parent := Some cp\<rparr>) s;
               s = s\<lparr>k_mem := memmove (k_mem s) (p_tf (procs s np)) (p_tf (procs s cp)) TF_SIZE\<rparr>;
               s = tf_put np TF_EAX 0 s
           in bindK (fork_files cp np [0..<NOFILE] s) (\<lambda>_ s.
              case p_cwd (procs s cp) of
                None \<Rightarrow> Fault
              | Some cwd \<Rightarrow>
                  bindK (idup cwd s) (\<lambda>cwd s.
                  let s = proc_upd np (\<lambda>x. x\<lparr>p_cwd := Some cwd\<rparr>) s;
                      s = proc_upd np (\<lambda>x. x\<lparr>p_name := proc_name (p_name (procs s cp))\<rparr>) s;
                      pid = p_pid (procs s np)
                  in bindK (make_ready np s) (\<lambda>_ s. Ret pid s))))))"

text \<open>The loop over the descriptors in \<open>exit\<close>, and \<open>exit\<close> up to the switch to the scheduler.\<close>

fun exit_files :: "nat \<Rightarrow> nat list \<Rightarrow> 'a con_scheme \<Rightarrow> (unit, 'a con_scheme) kres" where
  "exit_files cp [] s = Ret () s"
| "exit_files cp (fd # fds) s =
     bindK (case p_ofile (procs s cp) fd of
              None \<Rightarrow> Ret () s
            | Some f \<Rightarrow>
                bindK (fileclose f s) (\<lambda>_ s.
                Ret () (proc_upd cp (\<lambda>x. x\<lparr>p_ofile := (p_ofile x)(fd := None)\<rparr>) s))) (\<lambda>_ s.
     exit_files cp fds s)"

definition exit :: "'a con_scheme \<Rightarrow> (unit, 'a con_scheme) kres" where
  "exit s =
     bindK (myproc s) (\<lambda>po s.
     if po = initproc s then Panic ''init exiting''
     else case po of
       None \<Rightarrow> Fault
     | Some cp \<Rightarrow>
         bindK (exit_files cp [0..<NOFILE] s) (\<lambda>_ s.
         bindK (begin_op s) (\<lambda>_ s.
         case p_cwd (procs s cp) of
           None \<Rightarrow> Fault
         | Some cwd \<Rightarrow>
             bindK (iput cwd s) (\<lambda>_ s.
             bindK (end_op s) (\<lambda>_ s.
             exit_final cp (proc_upd cp (\<lambda>x. x\<lparr>p_cwd := None\<rparr>) s))))))"

section \<open>System calls\<close>

definition sys_fork :: "'a con_scheme \<Rightarrow> (int option, 'a con_scheme) kres" where
  "sys_fork s = bindK (fork s) (\<lambda>r s. Ret (Some r) s)"

definition sys_exit :: "'a con_scheme \<Rightarrow> (int option, 'a con_scheme) kres" where
  "sys_exit s = bindK (exit s) (\<lambda>_ s. Ret None s)"

definition sys_wait :: "'a con_scheme \<Rightarrow> (int option, 'a con_scheme) kres" where
  "sys_wait s = wait s"

definition sys_kill :: "'a con_scheme \<Rightarrow> (int option, 'a con_scheme) kres" where
  "sys_kill s =
     bindK (argint 0 s) (\<lambda>po s.
     case po of None \<Rightarrow> Ret (Some (- 1)) s | Some pid \<Rightarrow> bindK (kill (sint pid) s) (\<lambda>r s. Ret (Some r) s))"

definition sys_getpid :: "'a con_scheme \<Rightarrow> (int option, 'a con_scheme) kres" where
  "sys_getpid = with_proc (\<lambda>p s. Ret (Some (p_pid (procs s p))) s)"

definition sys_sbrk :: "'a con_scheme \<Rightarrow> (int option, 'a con_scheme) kres" where
  "sys_sbrk s =
     bindK (argint 0 s) (\<lambda>no s.
     case no of
       None \<Rightarrow> Ret (Some (- 1)) s
     | Some n \<Rightarrow> with_proc (\<lambda>p s.
         let addr = sint (p_sz (procs s p)) in
         bindK (growproc (sint n) s) (\<lambda>r s.
         Ret (Some (if r < 0 then - 1 else addr)) s)) s)"

text \<open>
  \<open>sys_sleep\<close>: a round of the loop with the lock held.  The comparison is unsigned, so a negative
  argument is a large one.
\<close>

definition sys_sleep_loop :: "uint \<Rightarrow> uint \<Rightarrow> 'a con_scheme \<Rightarrow> (int option, 'a con_scheme) kres" where
  "sys_sleep_loop ticks0 n s =
     (if ticks s - ticks0 < n then
        bindK (mykilled s) (\<lambda>killed s.
        if killed then bindK (release TicksLock s) (\<lambda>_ s. Ret (Some (- 1)) s)
        else Sleeps ChanTicks TicksLock s)
      else bindK (release TicksLock s) (\<lambda>_ s. Ret (Some 0) s))"

definition sys_sleep :: "'a con_scheme \<Rightarrow> (int option, 'a con_scheme) kres" where
  "sys_sleep s =
     bindK (argint 0 s) (\<lambda>no s.
     case no of
       None \<Rightarrow> Ret (Some (- 1)) s
     | Some n \<Rightarrow>
         bindK (acquire TicksLock s) (\<lambda>_ s.
         let ticks0 = ticks s in sys_sleep_loop ticks0 n s))"

definition sys_uptime :: "'a con_scheme \<Rightarrow> (int option, 'a con_scheme) kres" where
  "sys_uptime s =
     bindK (acquire TicksLock s) (\<lambda>_ s.
     let xticks = ticks s in
     bindK (release TicksLock s) (\<lambda>_ s. Ret (Some (sint xticks)) s))"

end
