(* ===== verification/Exec.thy ===== *)
theory Exec
  imports Proc_Sys
begin

text \<open>
  Running a program: \<^verbatim>\<open>kernel/exec.c\<close>, with the headers of \<^verbatim>\<open>kernel/elf.h\<close> and \<open>loaduvm\<close> of
  \<^verbatim>\<open>kernel/vm.c\<close>.  The \<open>goto bad\<close> of the code is the error value of a sum type that carries the
  page directory allocated so far.
\<close>

unbundle bit_operations_syntax

section \<open>Headers\<close>

abbreviation (input) ELF_MAGIC :: uint where "ELF_MAGIC \<equiv> 0x464C457F"
abbreviation (input) ELF_PROG_LOAD :: uint where "ELF_PROG_LOAD \<equiv> 1"

record elfhdr =
  e_magic :: uint
  e_entry :: uint
  e_phoff :: uint
  e_phnum :: ushort

definition get_elfhdr :: "uchar list \<Rightarrow> elfhdr" where
  "get_elfhdr bs = \<lparr>e_magic = get32 bs 0, e_entry = get32 bs 24, e_phoff = get32 bs 28, e_phnum = get16 bs 44\<rparr>"

record proghdr =
  ph_type :: uint
  ph_off :: uint
  ph_vaddr :: uint
  ph_filesz :: uint
  ph_memsz :: uint

definition get_proghdr :: "uchar list \<Rightarrow> proghdr" where
  "get_proghdr bs = \<lparr>ph_type = get32 bs 0, ph_off = get32 bs 4, ph_vaddr = get32 bs 8, ph_filesz = get32 bs 16,
     ph_memsz = get32 bs 20\<rparr>"

section \<open>Loading\<close>

text \<open>\<open>loaduvm\<close>: a page at a time, for the offsets \<open>0, PGSIZE, ...\<close> below \<open>sz\<close>.\<close>

definition loaduvm ::
  "'a con_scheme devsw \<Rightarrow> uint \<Rightarrow> uint \<Rightarrow> nat \<Rightarrow> uint \<Rightarrow> uint \<Rightarrow> 'a con_scheme \<Rightarrow> (int, 'a con_scheme) kres" where
  "loaduvm devsw pgdir addr ip offset sz s =
     (if addr mod PGSIZE \<noteq> 0 then Panic ''loaduvm: addr must be page aligned''
      else loopK (2 ^ 20 + 1) (\<lambda>i s.
        if i < sz then
          bindK (walkpgdir pgdir (addr + i) False s) (\<lambda>pte s.
          if pte = 0 then Panic ''loaduvm: address should exist''
          else
            let pa = PTE_ADDR (load32 (k_mem s) pte);
                n = (if sz - i < PGSIZE then sz - i else PGSIZE)
            in bindK (readi devsw (put_addr (P2V pa)) () ip (offset + i) n s) (\<lambda>(r, _) s.
               if of_int r \<noteq> n then Ret (Inr (- 1)) s else Ret (Inl (i + PGSIZE)) s))
        else Ret (Inr 0) s) 0 s)"

lemma and_split: "(a :: uint) = (a AND m) + (a AND NOT m)"
  by (subst disjunctive_add) (auto simp: bit_and_iff bit_not_iff bit_or_iff intro!: bit_word_eqI)

lemma page_rest_pos: "0 < unat (PGSIZE - (va - PGROUNDDOWN va))"
proof -
  have "va - PGROUNDDOWN va = va AND 0xFFF"
    using and_split [of va "0xFFF"] by (simp add: PGROUNDDOWN_def algebra_simps)
  moreover have "va AND 0xFFF \<le> 0xFFF" by (rule word_and_le1)
  ultimately have "va - PGROUNDDOWN va < PGSIZE" by (simp add: word_le_nat_alt word_less_nat_alt)
  then have "PGSIZE - (va - PGROUNDDOWN va) \<noteq> 0" by auto
  then show ?thesis by (simp add: unat_gt_0)
qed

text \<open>\<open>copyout\<close> of given bytes: \<open>exec\<close> copies from its own stack and from the old address space.\<close>

function copyout_bytes :: "uint \<Rightarrow> uint \<Rightarrow> uchar list \<Rightarrow> 'a kmem_scheme \<Rightarrow> (int, 'a kmem_scheme) kres" where
  "copyout_bytes pgdir va bs s =
     (if bs \<noteq> [] then
        let va0 = PGROUNDDOWN va in
        bindK (uva2ka pgdir va0 s) (\<lambda>pa0 s.
        if pa0 = 0 then Ret (- 1) s
        else
          let n = unat (PGSIZE - (va - va0))
          in bindK (vwrite (pa0 + (va - va0)) (take n bs) s) (\<lambda>_ s.
             copyout_bytes pgdir (va0 + PGSIZE) (drop n bs) s))
      else Ret 0 s)"
  by pat_completeness auto

termination
proof (relation "measure (\<lambda>(pgdir, va, bs, s). length bs)", goal_cases)
  case (2 pgdir va bs s)
  then show ?case using page_rest_pos [of va] by simp
qed simp

text \<open>The loop over the program headers; the result is the size of the image.\<close>

fun exec_load ::
  "'a con_scheme devsw \<Rightarrow> uint \<Rightarrow> nat \<Rightarrow> nat \<Rightarrow> uint \<Rightarrow> uint \<Rightarrow> 'a con_scheme \<Rightarrow> (uint option, 'a con_scheme) kres" where
  "exec_load devsw pgdir ip 0 off sz s = Ret (Some sz) s"
| "exec_load devsw pgdir ip (Suc k) off sz s =
     bindK (readi devsw put_local [] ip off 32 s) (\<lambda>(r, bs) s.
     if r \<noteq> 32 then Ret None s
     else
       let ph = get_proghdr bs in
       if ph_type ph \<noteq> ELF_PROG_LOAD then exec_load devsw pgdir ip k (off + 32) sz s
       else if ph_memsz ph < ph_filesz ph then Ret None s
       else if ph_vaddr ph + ph_memsz ph < ph_vaddr ph then Ret None s
       else
         bindK (allocuvm pgdir sz (ph_vaddr ph + ph_memsz ph) s) (\<lambda>sz s.
         if sz = 0 then Ret None s
         else if ph_vaddr ph mod PGSIZE \<noteq> 0 then Ret None s
         else
           bindK (loaduvm devsw pgdir (ph_vaddr ph) ip (ph_off ph) (ph_filesz ph) s) (\<lambda>r s.
           if r < 0 then Ret None s
           else exec_load devsw pgdir ip k (off + 32) sz s)))"

text \<open>
  The loop over the arguments, given as strings: the stack pointer and the addresses of the copies,
  in order.
\<close>

fun exec_args ::
  "uint \<Rightarrow> uchar list list \<Rightarrow> uint \<Rightarrow> uint list \<Rightarrow> 'a kmem_scheme \<Rightarrow> ((uint \<times> uint list) option, 'a kmem_scheme) kres" where
  "exec_args pgdir [] sp addrs s = Ret (Some (sp, addrs)) s"
| "exec_args pgdir (str # argv) sp addrs s =
     (if length addrs \<ge> MAXARG then Ret None s
      else
        let sp = (sp - (of_nat (length str) + 1)) AND NOT 3 in
        bindK (copyout_bytes pgdir sp (str @ [0]) s) (\<lambda>r s.
        if r < 0 then Ret None s else exec_args pgdir argv sp (addrs @ [sp]) s))"

text \<open>The array \<open>ustack\<close>, when the strings are at \<open>addrs\<close> and the stack pointer is \<open>sp\<close>.\<close>

definition exec_ustack :: "uint \<Rightarrow> uint list \<Rightarrow> uint list" where
  "exec_ustack sp addrs =
     [0xFFFFFFFF, of_nat (length addrs), sp - (of_nat (length addrs) + 1) * 4] @ addrs @ [0]"

text \<open>The part of the path after the last slash.\<close>

definition last_elem :: "uchar list \<Rightarrow> uchar list" where
  "last_elem path = rev (takeWhile (\<lambda>c. c \<noteq> slash) (rev path))"

text \<open>From the check of the header to the end of the transaction.\<close>

definition exec_image ::
  "'a con_scheme devsw \<Rightarrow> nat \<Rightarrow> 'a con_scheme \<Rightarrow> (uint option + elfhdr \<times> uint \<times> uint, 'a con_scheme) kres" where
  "exec_image devsw ip s =
     bindK (readi devsw put_local [] ip 0 52 s) (\<lambda>(r, bs) s.
     let elf = get_elfhdr bs in
     if r \<noteq> 52 then Ret (Inl None) s
     else if e_magic elf \<noteq> ELF_MAGIC then Ret (Inl None) s
     else
       bindK (setupkvm s) (\<lambda>pgdir s.
       if pgdir = 0 then Ret (Inl None) s
       else
         bindK (exec_load devsw pgdir ip (unat (e_phnum elf)) (e_phoff elf) 0 s) (\<lambda>r s.
         case r of
           None \<Rightarrow> Ret (Inl (Some pgdir)) s
         | Some sz \<Rightarrow> Ret (Inr (elf, pgdir, sz)) s)))"

text \<open>The user stack: its top, and the stack pointer after everything has been pushed.\<close>

definition exec_stack ::
  "uint \<Rightarrow> uint \<Rightarrow> uchar list list \<Rightarrow> 'a kmem_scheme \<Rightarrow> ((uint \<times> uint) option, 'a kmem_scheme) kres" where
  "exec_stack pgdir sz argv s =
     (let sz = PGROUNDUP sz in
      bindK (allocuvm pgdir sz (sz + 2 * PGSIZE) s) (\<lambda>sz s.
      if sz = 0 then Ret None s
      else
        bindK (clearpteu pgdir (sz - 2 * PGSIZE) s) (\<lambda>_ s.
        bindK (exec_args pgdir argv sz [] s) (\<lambda>r s.
        case r of
          None \<Rightarrow> Ret None s
        | Some (sp, addrs) \<Rightarrow>
            let ustack = exec_ustack sp addrs;
                sp = sp - (3 + of_nat (length addrs) + 1) * 4
            in bindK (copyout_bytes pgdir sp (concat (map bytes32 ustack)) s) (\<lambda>r s.
               Ret (if r < 0 then None else Some (sz, sp)) s)))))"

definition exec :: "'a con_scheme devsw \<Rightarrow> uchar list \<Rightarrow> uchar list list \<Rightarrow> 'a con_scheme \<Rightarrow> (int, 'a con_scheme) kres" where
  "exec devsw path argv = with_proc (\<lambda>cp s.
     bindK (begin_op s) (\<lambda>_ s.
     bindK (namei devsw path s) (\<lambda>ipo s.
     case ipo of
       None \<Rightarrow>
         bindK (end_op s) (\<lambda>_ s.
         bindK (cprintf ''exec: fail\<newline>'' [] s) (\<lambda>_ s.
         Ret (- 1) s))
     | Some ip \<Rightarrow>
         bindK (ilock (Some ip) s) (\<lambda>_ s.
         bindK (exec_image devsw ip s) (\<lambda>r s.
         case r of
           Inl pgdiro \<Rightarrow>
             bindK (case pgdiro of None \<Rightarrow> Ret () s | Some pgdir \<Rightarrow> freevm pgdir s) (\<lambda>_ s.
             bindK (iunlockput ip s) (\<lambda>_ s.
             bindK (end_op s) (\<lambda>_ s.
             Ret (- 1) s)))
         | Inr (elf, pgdir, sz) \<Rightarrow>
             bindK (iunlockput ip s) (\<lambda>_ s.
             bindK (end_op s) (\<lambda>_ s.
             bindK (exec_stack pgdir sz argv s) (\<lambda>r s.
             case r of
               None \<Rightarrow> bindK (freevm pgdir s) (\<lambda>_ s. Ret (- 1) s)
             | Some (sz, sp) \<Rightarrow>
                 let s = proc_upd cp (\<lambda>x. x\<lparr>p_name := proc_name (last_elem path)\<rparr>) s;
                     oldpgdir = p_pgdir (procs s cp);
                     s = proc_upd cp (\<lambda>x. x\<lparr>p_pgdir := pgdir, p_sz := sz\<rparr>) s;
                     s = tf_put cp TF_EIP (e_entry elf) s;
                     s = tf_put cp TF_ESP sp s
                 in bindK (switchuvm (Some cp) s) (\<lambda>_ s.
                    bindK (freevm oldpgdir s) (\<lambda>_ s.
                    Ret 0 s))))))))))"

end
