(* ===== verification/Sysfile.thy ===== *)
theory Sysfile
  imports Exec
begin

text \<open>
  The system calls on files, \<^verbatim>\<open>kernel/sysfile.c\<close>.  Like those of theory \<open>Proc_Sys\<close> they return the
  value for the user; the table of devices is an argument.
\<close>

unbundle bit_operations_syntax

abbreviation (input) O_RDONLY :: uint where "O_RDONLY \<equiv> 0"
abbreviation (input) O_WRONLY :: uint where "O_WRONLY \<equiv> 1"
abbreviation (input) O_RDWR :: uint where "O_RDWR \<equiv> 2"
abbreviation (input) O_CREATE :: uint where "O_CREATE \<equiv> 0x200"

section \<open>Descriptors\<close>

definition argfd :: "nat \<Rightarrow> 'a con_scheme \<Rightarrow> ((nat \<times> nat) option, 'a con_scheme) kres" where
  "argfd n s =
     bindK (argint n s) (\<lambda>fdo s.
     case fdo of
       None \<Rightarrow> Ret None s
     | Some fd \<Rightarrow>
         if fd <s 0 \<or> \<not> fd <s of_nat NOFILE then Ret None s
         else with_proc (\<lambda>p s.
           case p_ofile (procs s p) (unat fd) of None \<Rightarrow> Ret None s | Some f \<Rightarrow> Ret (Some (unat fd, f)) s) s)"

definition fdalloc :: "nat \<Rightarrow> 'a con_scheme \<Rightarrow> (nat option, 'a con_scheme) kres" where
  "fdalloc f = with_proc (\<lambda>p s.
     case find (\<lambda>fd. p_ofile (procs s p) fd = None) [0..<NOFILE] of
       None \<Rightarrow> Ret None s
     | Some fd \<Rightarrow> Ret (Some fd) (proc_upd p (\<lambda>x. x\<lparr>p_ofile := (p_ofile x)(fd := Some f)\<rparr>) s))"

definition fdclear :: "nat \<Rightarrow> 'a con_scheme \<Rightarrow> (unit, 'a con_scheme) kres" where
  "fdclear fd = with_proc (\<lambda>p s. Ret () (proc_upd p (\<lambda>x. x\<lparr>p_ofile := (p_ofile x)(fd := None)\<rparr>) s))"

definition sys_dup :: "'a con_scheme \<Rightarrow> (int, 'a con_scheme) kres" where
  "sys_dup s =
     bindK (argfd 0 s) (\<lambda>r s.
     case r of
       None \<Rightarrow> Ret (- 1) s
     | Some (_, f) \<Rightarrow>
         bindK (fdalloc f s) (\<lambda>fdo s.
         case fdo of
           None \<Rightarrow> Ret (- 1) s
         | Some fd \<Rightarrow> bindK (filedup f s) (\<lambda>_ s. Ret (int fd) s)))"

text \<open>The arguments of \<open>read\<close> and \<open>write\<close>: file, address and count.\<close>

definition rw_args :: "'a con_scheme \<Rightarrow> ((nat \<times> uint \<times> uint) option, 'a con_scheme) kres" where
  "rw_args s =
     bindK (argfd 0 s) (\<lambda>r s.
     case r of
       None \<Rightarrow> Ret None s
     | Some (_, f) \<Rightarrow>
         bindK (argint 2 s) (\<lambda>no s.
         case no of
           None \<Rightarrow> Ret None s
         | Some n \<Rightarrow> bindK (argptr 1 n s) (\<lambda>po s. Ret (map_option (\<lambda>p. (f, p, n)) po) s)))"

definition sys_read :: "'a con_scheme devsw \<Rightarrow> 'a con_scheme \<Rightarrow> (int, 'a con_scheme) kres" where
  "sys_read devsw s =
     bindK (rw_args s) (\<lambda>r s.
     case r of None \<Rightarrow> Ret (- 1) s | Some (f, p, n) \<Rightarrow> fileread devsw f p (sint n) s)"

definition sys_write :: "'a con_scheme devsw \<Rightarrow> 'a con_scheme \<Rightarrow> (int, 'a con_scheme) kres" where
  "sys_write devsw s =
     bindK (rw_args s) (\<lambda>r s.
     case r of None \<Rightarrow> Ret (- 1) s | Some (f, p, n) \<Rightarrow> filewrite devsw f p (sint n) s)"

definition sys_close :: "'a con_scheme \<Rightarrow> (int, 'a con_scheme) kres" where
  "sys_close s =
     bindK (argfd 0 s) (\<lambda>r s.
     case r of
       None \<Rightarrow> Ret (- 1) s
     | Some (fd, f) \<Rightarrow>
         bindK (fdclear fd s) (\<lambda>_ s.
         bindK (fileclose f s) (\<lambda>_ s.
         Ret 0 s)))"

text \<open>\<open>struct stat\<close> in memory: 20 bytes, with two bytes of padding after each of the short fields.\<close>

definition st_write :: "uint \<Rightarrow> stat \<Rightarrow> 'a kmem_scheme \<Rightarrow> (unit, 'a kmem_scheme) kres" where
  "st_write a st s =
     bindK (vwrite (a + 4) (bytes32 (st_dev st)) s) (\<lambda>_ s.
     bindK (vwrite (a + 8) (bytes32 (st_ino st)) s) (\<lambda>_ s.
     bindK (vwrite a (bytes16 (st_type st)) s) (\<lambda>_ s.
     bindK (vwrite (a + 12) (bytes16 (st_nlink st)) s) (\<lambda>_ s.
     vwrite (a + 16) (bytes32 (st_size st)) s))))"

definition sys_fstat :: "'a con_scheme \<Rightarrow> (int, 'a con_scheme) kres" where
  "sys_fstat s =
     bindK (argfd 0 s) (\<lambda>r s.
     case r of
       None \<Rightarrow> Ret (- 1) s
     | Some (_, f) \<Rightarrow>
         bindK (argptr 1 20 s) (\<lambda>po s.
         case po of
           None \<Rightarrow> Ret (- 1) s
         | Some st \<Rightarrow>
             bindK (filestat f s) (\<lambda>r s.
             case r of
               None \<Rightarrow> Ret (- 1) s
             | Some x \<Rightarrow> bindK (st_write st x s) (\<lambda>_ s. Ret 0 s))))"

section \<open>Links\<close>

definition sys_link :: "'a con_scheme devsw \<Rightarrow> 'a con_scheme \<Rightarrow> (int, 'a con_scheme) kres" where
  "sys_link devsw s =
     (let bad = (\<lambda>ip s.
        bindK (ilock (Some ip) s) (\<lambda>_ s.
        bindK (iupdate ip (inode_upd ip (\<lambda>x. x\<lparr>i_nlink := i_nlink x - 1\<rparr>) s)) (\<lambda>_ s.
        bindK (iunlockput ip s) (\<lambda>_ s.
        bindK (end_op s) (\<lambda>_ s.
        Ret (- 1) s)))))
      in
      bindK (argpath 0 s) (\<lambda>oldo s.
      case oldo of
        None \<Rightarrow> Ret (- 1) s
      | Some old \<Rightarrow>
      bindK (argpath 1 s) (\<lambda>newo s.
      case newo of
        None \<Rightarrow> Ret (- 1) s
      | Some new \<Rightarrow>
      bindK (begin_op s) (\<lambda>_ s.
      bindK (namei devsw old s) (\<lambda>ipo s.
      case ipo of
        None \<Rightarrow> bindK (end_op s) (\<lambda>_ s. Ret (- 1) s)
      | Some ip \<Rightarrow>
      bindK (ilock (Some ip) s) (\<lambda>_ s.
      if i_type (inodes s ip) = T_DIR then
        bindK (iunlockput ip s) (\<lambda>_ s. bindK (end_op s) (\<lambda>_ s. Ret (- 1) s))
      else
      bindK (iupdate ip (inode_upd ip (\<lambda>x. x\<lparr>i_nlink := i_nlink x + 1\<rparr>) s)) (\<lambda>_ s.
      bindK (iunlock (Some ip) s) (\<lambda>_ s.
      bindK (nameiparent devsw new s) (\<lambda>r s.
      case r of
        None \<Rightarrow> bad ip s
      | Some (dp, name) \<Rightarrow>
      bindK (ilock (Some dp) s) (\<lambda>_ s.
      bindK (if i_dev (inodes s dp) \<noteq> i_dev (inodes s ip) then Ret (- 1) s
             else dirlink devsw dp name (i_inum (inodes s ip)) s) (\<lambda>r s.
      bindK (iunlockput dp s) (\<lambda>_ s.
      if r < 0 then bad ip s
      else
      bindK (iput ip s) (\<lambda>_ s.
      bindK (end_op s) (\<lambda>_ s.
      Ret 0 s))))))))))))))"

text \<open>\<open>isdirempty\<close>: the entries after the first two.\<close>

definition isdirempty :: "'a con_scheme devsw \<Rightarrow> nat \<Rightarrow> 'a con_scheme \<Rightarrow> (bool, 'a con_scheme) kres" where
  "isdirempty devsw dp s =
     bindK (dir_scan devsw ''isdirempty: readi'' (\<lambda>de. de_inum de \<noteq> 0) dp
              (drop 2 (dir_offsets (i_size (inodes s dp)))) s) (\<lambda>r s.
     Ret (r = None) s)"

definition sys_unlink :: "'a con_scheme devsw \<Rightarrow> 'a con_scheme \<Rightarrow> (int, 'a con_scheme) kres" where
  "sys_unlink devsw s =
     (let bad = (\<lambda>dp s. bindK (iunlockput dp s) (\<lambda>_ s. bindK (end_op s) (\<lambda>_ s. Ret (- 1) s))) in
      bindK (argpath 0 s) (\<lambda>patho s.
      case patho of
        None \<Rightarrow> Ret (- 1) s
      | Some path \<Rightarrow>
      bindK (begin_op s) (\<lambda>_ s.
      bindK (nameiparent devsw path s) (\<lambda>r s.
      case r of
        None \<Rightarrow> bindK (end_op s) (\<lambda>_ s. Ret (- 1) s)
      | Some (dp, name) \<Rightarrow>
      bindK (ilock (Some dp) s) (\<lambda>_ s.
      if namecmp name (bytes_of ''.'') = 0 \<or> namecmp name (bytes_of ''..'') = 0 then bad dp s
      else
      bindK (dirlookup devsw dp name s) (\<lambda>r s.
      case r of
        None \<Rightarrow> bad dp s
      | Some (ip, off) \<Rightarrow>
      bindK (ilock (Some ip) s) (\<lambda>_ s.
      if i_nlink (inodes s ip) <s 1 then Panic ''unlink: nlink < 1''
      else
      bindK (if i_type (inodes s ip) = T_DIR then isdirempty devsw ip s else Ret True s) (\<lambda>ok s.
      if \<not> ok then bindK (iunlockput ip s) (\<lambda>_ s. bad dp s)
      else
      bindK (writei devsw (get_local (replicate 16 0)) dp (of_nat off) 16 s) (\<lambda>r s.
      if r \<noteq> 16 then Panic ''unlink: writei''
      else
      bindK (if i_type (inodes s ip) = T_DIR
             then iupdate dp (inode_upd dp (\<lambda>x. x\<lparr>i_nlink := i_nlink x - 1\<rparr>) s)
             else Ret () s) (\<lambda>_ s.
      bindK (iunlockput dp s) (\<lambda>_ s.
      bindK (iupdate ip (inode_upd ip (\<lambda>x. x\<lparr>i_nlink := i_nlink x - 1\<rparr>) s)) (\<lambda>_ s.
      bindK (iunlockput ip s) (\<lambda>_ s.
      bindK (end_op s) (\<lambda>_ s.
      Ret 0 s))))))))))))))"

section \<open>Opening and creating\<close>

definition create ::
  "'a con_scheme devsw \<Rightarrow> uchar list \<Rightarrow> ushort \<Rightarrow> ushort \<Rightarrow> ushort \<Rightarrow> 'a con_scheme \<Rightarrow> (nat option, 'a con_scheme) kres" where
  "create devsw path type major minor s =
     bindK (nameiparent devsw path s) (\<lambda>r s.
     case r of
       None \<Rightarrow> Ret None s
     | Some (dp, name) \<Rightarrow>
     bindK (ilock (Some dp) s) (\<lambda>_ s.
     bindK (dirlookup devsw dp name s) (\<lambda>r s.
     case r of
       Some (ip, _) \<Rightarrow>
         bindK (iunlockput dp s) (\<lambda>_ s.
         bindK (ilock (Some ip) s) (\<lambda>_ s.
         if type = T_FILE \<and> i_type (inodes s ip) = T_FILE then Ret (Some ip) s
         else bindK (iunlockput ip s) (\<lambda>_ s. Ret None s)))
     | None \<Rightarrow>
     bindK (ialloc (i_dev (inodes s dp)) type s) (\<lambda>ip s.
     bindK (ilock (Some ip) s) (\<lambda>_ s.
     bindK (iupdate ip (inode_upd ip (\<lambda>x. x\<lparr>i_major := major, i_minor := minor, i_nlink := 1\<rparr>) s)) (\<lambda>_ s.
     bindK (if type = T_DIR then
         bindK (iupdate dp (inode_upd dp (\<lambda>x. x\<lparr>i_nlink := i_nlink x + 1\<rparr>) s)) (\<lambda>_ s.
         bindK (dirlink devsw ip (bytes_of ''.'') (i_inum (inodes s ip)) s) (\<lambda>r s.
         if r < 0 then Panic ''create dots''
         else
           bindK (dirlink devsw ip (bytes_of ''..'') (i_inum (inodes s dp)) s) (\<lambda>r s.
           if r < 0 then Panic ''create dots'' else Ret () s)))
       else Ret () s) (\<lambda>_ s.
     bindK (dirlink devsw dp name (i_inum (inodes s ip)) s) (\<lambda>r s.
     if r < 0 then Panic ''create: dirlink''
     else bindK (iunlockput dp s) (\<lambda>_ s. Ret (Some ip) s)))))))))"

definition sys_open :: "'a con_scheme devsw \<Rightarrow> 'a con_scheme \<Rightarrow> (int, 'a con_scheme) kres" where
  "sys_open devsw s =
     bindK (argpath 0 s) (\<lambda>patho s.
     case patho of
       None \<Rightarrow> Ret (- 1) s
     | Some path \<Rightarrow>
     bindK (argint 1 s) (\<lambda>omodeo s.
     case omodeo of
       None \<Rightarrow> Ret (- 1) s
     | Some omode \<Rightarrow>
     bindK (begin_op s) (\<lambda>_ s.
     bindK (if omode AND O_CREATE \<noteq> 0 then create devsw path T_FILE 0 0 s
            else
              bindK (namei devsw path s) (\<lambda>ipo s.
              case ipo of
                None \<Rightarrow> Ret None s
              | Some ip \<Rightarrow>
                  bindK (ilock (Some ip) s) (\<lambda>_ s.
                  if i_type (inodes s ip) = T_DIR \<and> omode \<noteq> O_RDONLY
                  then bindK (iunlockput ip s) (\<lambda>_ s. Ret None s)
                  else Ret (Some ip) s))) (\<lambda>ipo s.
     case ipo of
       None \<Rightarrow> bindK (end_op s) (\<lambda>_ s. Ret (- 1) s)
     | Some ip \<Rightarrow>
     bindK (filealloc s) (\<lambda>fo s.
     bindK (case fo of None \<Rightarrow> Ret None s | Some f \<Rightarrow> fdalloc f s) (\<lambda>fdo s.
     case (fo, fdo) of
       (Some f, Some fd) \<Rightarrow>
         bindK (iunlock (Some ip) s) (\<lambda>_ s.
         bindK (end_op s) (\<lambda>_ s.
         Ret (int fd) (file_upd f (\<lambda>x. x\<lparr>f_type := FD_INODE, f_ip := Some ip, f_off := 0,
           f_readable := (omode AND O_WRONLY = 0),
           f_writable := (omode AND O_WRONLY \<noteq> 0 \<or> omode AND O_RDWR \<noteq> 0)\<rparr>) s)))
     | _ \<Rightarrow>
         bindK (case fo of None \<Rightarrow> Ret () s | Some f \<Rightarrow> fileclose f s) (\<lambda>_ s.
         bindK (iunlockput ip s) (\<lambda>_ s.
         bindK (end_op s) (\<lambda>_ s.
         Ret (- 1) s)))))))))"

text \<open>The common end of \<open>mkdir\<close> and \<open>mknod\<close>.\<close>

definition create_end :: "nat option \<Rightarrow> 'a con_scheme \<Rightarrow> (int, 'a con_scheme) kres" where
  "create_end ipo s =
     (case ipo of
        None \<Rightarrow> bindK (end_op s) (\<lambda>_ s. Ret (- 1) s)
      | Some ip \<Rightarrow> bindK (iunlockput ip s) (\<lambda>_ s. bindK (end_op s) (\<lambda>_ s. Ret 0 s)))"

definition sys_mkdir :: "'a con_scheme devsw \<Rightarrow> 'a con_scheme \<Rightarrow> (int, 'a con_scheme) kres" where
  "sys_mkdir devsw s =
     bindK (begin_op s) (\<lambda>_ s.
     bindK (argpath 0 s) (\<lambda>patho s.
     bindK (case patho of None \<Rightarrow> Ret None s | Some path \<Rightarrow> create devsw path T_DIR 0 0 s) (\<lambda>ipo s.
     create_end ipo s)))"

definition sys_mknod :: "'a con_scheme devsw \<Rightarrow> 'a con_scheme \<Rightarrow> (int, 'a con_scheme) kres" where
  "sys_mknod devsw s =
     bindK (begin_op s) (\<lambda>_ s.
     bindK (argpath 0 s) (\<lambda>patho s.
     case patho of
       None \<Rightarrow> create_end None s
     | Some path \<Rightarrow>
     bindK (argint 1 s) (\<lambda>majoro s.
     case majoro of
       None \<Rightarrow> create_end None s
     | Some major \<Rightarrow>
     bindK (argint 2 s) (\<lambda>minoro s.
     case minoro of
       None \<Rightarrow> create_end None s
     | Some minor \<Rightarrow>
     bindK (create devsw path T_DEV (ucast major) (ucast minor) s) (\<lambda>ipo s.
     create_end ipo s)))))"

definition sys_chdir :: "'a con_scheme devsw \<Rightarrow> 'a con_scheme \<Rightarrow> (int, 'a con_scheme) kres" where
  "sys_chdir devsw = with_proc (\<lambda>cp s.
     bindK (begin_op s) (\<lambda>_ s.
     bindK (argpath 0 s) (\<lambda>patho s.
     bindK (case patho of None \<Rightarrow> Ret None s | Some path \<Rightarrow> namei devsw path s) (\<lambda>ipo s.
     case ipo of
       None \<Rightarrow> bindK (end_op s) (\<lambda>_ s. Ret (- 1) s)
     | Some ip \<Rightarrow>
     bindK (ilock (Some ip) s) (\<lambda>_ s.
     if i_type (inodes s ip) \<noteq> T_DIR then
       bindK (iunlockput ip s) (\<lambda>_ s. bindK (end_op s) (\<lambda>_ s. Ret (- 1) s))
     else
     bindK (iunlock (Some ip) s) (\<lambda>_ s.
     case p_cwd (procs s cp) of
       None \<Rightarrow> Fault
     | Some cwd \<Rightarrow>
     bindK (iput cwd s) (\<lambda>_ s.
     bindK (end_op s) (\<lambda>_ s.
     Ret 0 (proc_upd cp (\<lambda>x. x\<lparr>p_cwd := Some ip\<rparr>) s)))))))))"

section \<open>Programs and pipes\<close>

text \<open>The loop that collects the argument pointers; \<open>k\<close> entries of \<open>argv\<close> are left.\<close>

fun exec_argv :: "nat \<Rightarrow> uint \<Rightarrow> 'a con_scheme \<Rightarrow> (uchar list list option, 'a con_scheme) kres" where
  "exec_argv 0 uargv s = Ret None s"
| "exec_argv (Suc k) uargv s =
     bindK (fetchint uargv s) (\<lambda>uargo s.
     case uargo of
       None \<Rightarrow> Ret None s
     | Some uarg \<Rightarrow>
         if uarg = 0 then Ret (Some []) s
         else
           bindK (fetchstr uarg s) (\<lambda>r s.
           case r of
             None \<Rightarrow> Ret None s
           | Some (a, len) \<Rightarrow>
               bindK (vread a len s) (\<lambda>str s.
               bindK (exec_argv k (uargv + 4) s) (\<lambda>rest s.
               Ret (map_option ((#) str) rest) s))))"

definition sys_exec :: "'a con_scheme devsw \<Rightarrow> 'a con_scheme \<Rightarrow> (int, 'a con_scheme) kres" where
  "sys_exec devsw s =
     bindK (argpath 0 s) (\<lambda>patho s.
     case patho of
       None \<Rightarrow> Ret (- 1) s
     | Some path \<Rightarrow>
     bindK (argint 1 s) (\<lambda>uargvo s.
     case uargvo of
       None \<Rightarrow> Ret (- 1) s
     | Some uargv \<Rightarrow>
     bindK (exec_argv MAXARG uargv s) (\<lambda>argvo s.
     case argvo of
       None \<Rightarrow> Ret (- 1) s
     | Some argv \<Rightarrow> exec devsw path argv s)))"

definition sys_pipe :: "'a con_scheme \<Rightarrow> (int, 'a con_scheme) kres" where
  "sys_pipe s =
     bindK (argptr 0 8 s) (\<lambda>fdp s.
     case fdp of
       None \<Rightarrow> Ret (- 1) s
     | Some fd \<Rightarrow>
     bindK (pipealloc s) (\<lambda>r s.
     case r of
       None \<Rightarrow> Ret (- 1) s
     | Some (rdf, wrf) \<Rightarrow>
     bindK (fdalloc rdf s) (\<lambda>fd0 s.
     bindK (case fd0 of None \<Rightarrow> Ret None s | Some _ \<Rightarrow> fdalloc wrf s) (\<lambda>fd1 s.
     case (fd0, fd1) of
       (Some a, Some b) \<Rightarrow>
         bindK (st32 fd (of_nat a) s) (\<lambda>_ s.
         bindK (st32 (fd + 4) (of_nat b) s) (\<lambda>_ s.
         Ret 0 s))
     | _ \<Rightarrow>
         bindK (case fd0 of None \<Rightarrow> Ret () s | Some a \<Rightarrow> fdclear a s) (\<lambda>_ s.
         bindK (fileclose rdf s) (\<lambda>_ s.
         bindK (fileclose wrf s) (\<lambda>_ s.
         Ret (- 1) s)))))))"

end
