(* ===== verification/Trap.thy ===== *)
theory Trap
  imports Sysfile
begin

text \<open>
  Entry into the kernel: the dispatcher of \<^verbatim>\<open>kernel/syscall.c\<close> and \<^verbatim>\<open>kernel/trap.c\<close>, where the quantum
  of a process is counted and the priorities are raised from time to time.

  A trap may end in a switch to another thread: at a call of \<open>exit\<close>, in a system call that waits, or
  in \<open>yield\<close>.  The functions here run up to that point and tell where it was.
\<close>

unbundle bit_operations_syntax

section \<open>The dispatcher\<close>

definition some_ret :: "(int, 's) kres \<Rightarrow> (int option, 's) kres" where
  "some_ret m = bindK m (\<lambda>r s. Ret (Some r) s)"

text \<open>The table \<open>syscalls\<close>, indexed with the numbers of \<^verbatim>\<open>libs/syscall.h\<close>.\<close>

definition syscalls :: "'a con_scheme devsw \<Rightarrow> ('a con_scheme \<Rightarrow> (int option, 'a con_scheme) kres) option list" where
  "syscalls devsw =
    [None,
     Some sys_fork,
     Some sys_exit,
     Some sys_wait,
     Some (\<lambda>s. some_ret (sys_pipe s)),
     Some (\<lambda>s. some_ret (sys_read devsw s)),
     Some sys_kill,
     Some (\<lambda>s. some_ret (sys_exec devsw s)),
     Some (\<lambda>s. some_ret (sys_fstat s)),
     Some (\<lambda>s. some_ret (sys_chdir devsw s)),
     Some (\<lambda>s. some_ret (sys_dup s)),
     Some sys_getpid,
     Some sys_sbrk,
     Some sys_sleep,
     Some sys_uptime,
     Some (\<lambda>s. some_ret (sys_open devsw s)),
     Some (\<lambda>s. some_ret (sys_write devsw s)),
     Some (\<lambda>s. some_ret (sys_mknod devsw s)),
     Some (\<lambda>s. some_ret (sys_unlink devsw s)),
     Some (\<lambda>s. some_ret (sys_link devsw s)),
     Some (\<lambda>s. some_ret (sys_mkdir devsw s)),
     Some (\<lambda>s. some_ret (sys_close s))]"

text \<open>The result is \<open>False\<close> if the thread has been switched away in the system call.\<close>

definition syscall :: "'a con_scheme devsw \<Rightarrow> 'a con_scheme \<Rightarrow> (bool, 'a con_scheme) kres" where
  "syscall devsw = with_proc (\<lambda>cp s.
     let num = sint (tf_get cp TF_EAX s) in
     case (if num > 0 \<and> num < int (length (syscalls devsw)) then syscalls devsw ! nat num else None) of
       Some f \<Rightarrow>
         bindK (f s) (\<lambda>ro s.
         case ro of
           None \<Rightarrow> Ret False s
         | Some r \<Rightarrow> Ret True (tf_put cp TF_EAX (of_int r) s))
     | None \<Rightarrow>
         bindK (cprintf ''%d %s: unknown sys call %d\<newline>''
                  [CNum (of_int (p_pid (procs s cp))), CStr (Some (p_name (procs s cp))), CNum (of_int num)] s) (\<lambda>_ s.
         Ret True (tf_put cp TF_EAX (- 1) s)))"

section \<open>Traps\<close>

abbreviation (input) T_SYSCALL :: uint where "T_SYSCALL \<equiv> 64"
abbreviation (input) T_IRQ0 :: uint where "T_IRQ0 \<equiv> 32"
abbreviation (input) IRQ_TIMER :: uint where "IRQ_TIMER \<equiv> 0"
abbreviation (input) IRQ_KBD :: uint where "IRQ_KBD \<equiv> 1"
abbreviation (input) IRQ_COM1 :: uint where "IRQ_COM1 \<equiv> 4"
abbreviation (input) IRQ_IDE :: uint where "IRQ_IDE \<equiv> 14"
abbreviation (input) IRQ_SPURIOUS :: uint where "IRQ_SPURIOUS \<equiv> 31"

definition tvinit :: "'a con_scheme \<Rightarrow> 'a con_scheme" where
  "tvinit s = initlock TicksLock s"

text \<open>The case of a clock interrupt; acknowledging the interrupt has no effect on the state.\<close>

definition timer_tick :: "'a con_scheme \<Rightarrow> (unit, 'a con_scheme) kres" where
  "timer_tick s =
     bindK (cpuid s) (\<lambda>i s.
     if i = 0 then
       bindK (acquire TicksLock s) (\<lambda>_ s.
       bindK (wakeup ChanTicks (s\<lparr>ticks := ticks s + 1\<rparr>)) (\<lambda>_ s.
       bindK (if ticks s mod BOOSTTIMER = 0 then priority_boost s else Ret () s) (\<lambda>_ s.
       release TicksLock s)))
     else Ret () s)"

text \<open>
  What \<open>trap\<close> does after the handling of the device: \<open>Exits\<close> and \<open>Yields\<close> are the calls of \<open>exit\<close> and
  \<open>yield\<close>, made up to the switch of threads.
\<close>

datatype trap_end = Returns | Exits | Yields | Blocks

definition trap_exit :: "'a con_scheme \<Rightarrow> (trap_end, 'a con_scheme) kres" where
  "trap_exit s = bindK (exit s) (\<lambda>_ s. Ret Exits s)"

text \<open>\<open>myproc() && myproc()->killed && (tf->cs&3) == DPL_USER\<close>.\<close>

definition must_exit :: "uint \<Rightarrow> 'a con_scheme \<Rightarrow> (bool, 'a con_scheme) kres" where
  "must_exit cs s =
     bindK (myproc s) (\<lambda>po s.
     case po of
       None \<Rightarrow> Ret False s
     | Some _ \<Rightarrow>
         bindK (myproc s) (\<lambda>po s.
         case po of None \<Rightarrow> Fault | Some p \<Rightarrow> Ret (p_killed (procs s p) \<and> cs AND 3 = 3) s))"

definition trap_after :: "uint \<Rightarrow> 'a con_scheme \<Rightarrow> (trap_end, 'a con_scheme) kres" where
  "trap_after cs s = bindK (must_exit cs s) (\<lambda>x s. if x then trap_exit s else Ret Returns s)"

text \<open>
  The quantum: \<open>1 << priority\<close> clock ticks.  The five calls of \<open>myproc\<close> in this part of \<open>trap\<close> are one
  call here: they run with interrupts off and give the same process.
\<close>

definition quantum_over :: "proc \<Rightarrow> bool" where
  "quantum_over p = (push_bit (p_priority p) 1 \<le> p_ticks_running p)"

definition trap_quantum :: "uint \<Rightarrow> uint \<Rightarrow> 'a con_scheme \<Rightarrow> (trap_end, 'a con_scheme) kres" where
  "trap_quantum trapno cs s =
     bindK (must_exit cs s) (\<lambda>x s.
     if x then trap_exit s
     else
       bindK (myproc s) (\<lambda>po s.
       case po of
         None \<Rightarrow> trap_after cs s
       | Some p \<Rightarrow>
           if p_state (procs s p) = RUNNING \<and> trapno = T_IRQ0 + IRQ_TIMER then
             let s = proc_upd p (\<lambda>x. x\<lparr>p_ticks_running := p_ticks_running x + 1\<rparr>) s in
             if quantum_over (procs s p) then bindK (yield s) (\<lambda>_ s. Ret Yields s)
             else trap_after cs s
           else trap_after cs s))"

definition trap_syscall :: "'a con_scheme devsw \<Rightarrow> uint \<Rightarrow> 'a con_scheme \<Rightarrow> (trap_end, 'a con_scheme) kres" where
  "trap_syscall devsw tf = with_proc (\<lambda>p s.
     if p_killed (procs s p) then trap_exit s
     else
       bindK (syscall devsw (proc_upd p (\<lambda>x. x\<lparr>p_tf := tf\<rparr>) s)) (\<lambda>here s.
       if \<not> here then Ret Blocks s
       else with_proc (\<lambda>p s. if p_killed (procs s p) then trap_exit s else Ret Returns s) s))"

text \<open>
  \<open>trap\<close>.  \<open>tf\<close> is the address of the trap frame, \<open>ebp\<close> an argument of the process listing,
  \<open>ideintr\<close> the handler of the disk and \<open>cr2\<close> the register with the faulting address.
\<close>

definition trap ::
  "'a con_scheme devsw \<Rightarrow> (nat \<Rightarrow> uint) \<Rightarrow> ('a con_scheme \<Rightarrow> (unit, 'a con_scheme) kres) \<Rightarrow> uint \<Rightarrow> uint \<Rightarrow>
   'a con_scheme \<Rightarrow> (trap_end, 'a con_scheme) kres" where
  "trap devsw ebp ideintr cr2 tf s =
     (let trapno = load32 (k_mem s) (tf + TF_TRAPNO);
          cs = load32 (k_mem s) (tf + TF_CS) AND 0xFFFF;
          eip = load32 (k_mem s) (tf + TF_EIP);
          err = load32 (k_mem s) (tf + 52)
      in
      if trapno = T_SYSCALL then trap_syscall devsw tf s
      else
        bindK
          (if trapno = T_IRQ0 + IRQ_TIMER then timer_tick s
           else if trapno = T_IRQ0 + IRQ_IDE then ideintr s
           else if trapno = T_IRQ0 + IRQ_IDE + 1 then Ret () s
           else if trapno = T_IRQ0 + IRQ_KBD then kbdintr ebp s
           else if trapno = T_IRQ0 + IRQ_COM1 then uartintr ebp s
           else if trapno = T_IRQ0 + 7 \<or> trapno = T_IRQ0 + IRQ_SPURIOUS then
             bindK (cpuid s) (\<lambda>i s. cprintf ''cpu%d: spurious interrupt at %x:%x\<newline>'' [CNum (of_nat i), CNum cs, CNum eip] s)
           else
             bindK (myproc s) (\<lambda>po s.
             bindK (cpuid s) (\<lambda>i s.
             case (po, cs AND 3 = 0) of
               (Some p, False) \<Rightarrow>
                 bindK (cprintf ''pid %d %s: trap %d err %d on cpu %d eip 0x%x addr 0x%x--kill proc\<newline>''
                   [CNum (of_int (p_pid (procs s p))), CStr (Some (p_name (procs s p))), CNum trapno, CNum err,
                    CNum (of_nat i), CNum eip, CNum cr2] s) (\<lambda>_ s.
                 Ret () (proc_upd p (\<lambda>x. x\<lparr>p_killed := True\<rparr>) s))
             | _ \<Rightarrow>
                 bindK (cprintf ''unexpected trap %d from cpu %d eip %x (cr2=0x%x)\<newline>''
                   [CNum trapno, CNum (of_nat i), CNum eip, CNum cr2] s) (\<lambda>_ s.
                 Panic ''trap''))))
          (\<lambda>_ s. trap_quantum trapno cs s))"

end
