(* ===== verification/Mlfq_Policy.thy ===== *)
theory Mlfq_Policy
  imports Sched_Live Machine0 Trap
begin

text \<open>
  The policy of the multilevel feedback queue.  An abstract scheduler keeps one list of processes per
  priority; the pointer manipulations of the kernel implement it, for any sequence of operations.
  Then the rules that the clock applies: when a quantum ends and what happens to the process, and
  when all priorities are raised.
\<close>

section \<open>The abstract scheduler\<close>

datatype mlfq_op = Enq nat | Deq nat | Demote nat | Boost

type_synonym mlfq = "(nat \<Rightarrow> nat list) \<times> (nat \<Rightarrow> nat)"

fun mlfq_legal :: "mlfq_op \<Rightarrow> mlfq \<Rightarrow> bool" where
  "mlfq_legal (Enq p) (Q, pr) \<longleftrightarrow> p < NPROC \<and> pr p < NPRIO \<and> p \<notin> set (Q (pr p))"
| "mlfq_legal (Deq p) (Q, pr) \<longleftrightarrow> pr p < NPRIO \<and> p \<in> set (Q (pr p))"
| "mlfq_legal (Demote p) (Q, pr) \<longleftrightarrow> (\<forall>i < NPRIO. p \<notin> set (Q i))"
| "mlfq_legal Boost (Q, pr) \<longleftrightarrow> True"

fun mlfq_spec :: "mlfq_op \<Rightarrow> mlfq \<Rightarrow> mlfq" where
  "mlfq_spec (Enq p) (Q, pr) = (Q(pr p := Q (pr p) @ [p]), pr)"
| "mlfq_spec (Deq p) (Q, pr) = (Q(pr p := remove1 p (Q (pr p))), pr)"
| "mlfq_spec (Demote p) (Q, pr) = (Q, pr(p := if pr p = NPRIO - 1 then pr p else pr p + 1))"
| "mlfq_spec Boost (Q, pr) = ((\<lambda>i. if i = 0 then Q 0 @ Q 1 @ Q 2 else []), (\<lambda>p. if p < NPROC then 0 else pr p))"

fun mlfq_run :: "mlfq_op list \<Rightarrow> mlfq \<Rightarrow> mlfq option" where
  "mlfq_run [] m = Some m"
| "mlfq_run (q # qs) m = (if mlfq_legal q m then mlfq_run qs (mlfq_spec q m) else None)"

text \<open>The same operations of the kernel; \<open>demote\<close> is what \<open>yield\<close> does before it enqueues the process.\<close>

fun mlfq_impl :: "mlfq_op \<Rightarrow> 'a pt_scheme \<Rightarrow> (unit, 'a pt_scheme) kres" where
  "mlfq_impl (Enq p) s = Ret () (enqueue p s)"
| "mlfq_impl (Deq p) s = dequeue p s"
| "mlfq_impl (Demote p) s = Ret () (proc_upd p demote s)"
| "mlfq_impl Boost s = boost_queues s"

lemma mlfq_impl_spec:
  assumes "rqueues s Q" and "mlfq_legal q (Q, prio s)"
  shows "\<exists>t. mlfq_impl q s = Ret () t \<and> rqueues t (fst (mlfq_spec q (Q, prio s))) \<and>
    prio t = snd (mlfq_spec q (Q, prio s))"
proof (cases q)
  case (Enq p)
  with assms rqueues_enqueue [of s Q p] show ?thesis by simp
next
  case (Deq p)
  with assms rqueues_dequeue [of s Q p] show ?thesis by auto
next
  case (Demote p)
  let ?t = "proc_upd p demote s"
  have p: "p \<notin> set (Q i)" if "i < NPRIO" for i using assms(2) Demote that by simp
  have pr: "prio ?t = (prio s)(p := if prio s p = NPRIO - 1 then prio s p else prio s p + 1)"
    by (auto simp: prio_def demote_def fun_eq_iff)
  have "nxt ?t = nxt s" by (auto simp: nxt_def demote_def fun_eq_iff)
  then have "rqueues ?t Q"
    using assms(1) p unfolding rqueues_def rqueue_def pr by auto
  with pr Demote show ?thesis by simp
next
  case Boost
  with rqueues_boost [OF assms(1)] show ?thesis by (simp add: boosted_def [abs_def]) blast
qed

section \<open>Clock interrupts\<close>

text \<open>Reading the current process and its state, as the checks of \<open>trap\<close> do.\<close>

lemma lk_myproc_procs:
  fixes s :: "'a pt_scheme"
  assumes "lk L s"
  shows "\<exists>t. myproc s = Ret (curp s) t \<and> lk L t \<and> curp t = curp s \<and> cur t = cur s \<and> mach.more t = mach.more s"
proof -
  from lk_myproc [OF assms] obtain t where t: "myproc s = Ret (curp s) t" "lk L t" "kcore s t" by blast
  have "mach.more t = mach.more s"
    using t(1) by (auto simp: myproc_def Let_def dest!: more_ops)
  with t kcoreD(2,3) [OF t(3)] show ?thesis by auto
qed

lemma more_procs:
  "mach.more t = mach.more s \<Longrightarrow> procs t = procs s \<and> queue_first t = queue_first s \<and> queue_last t = queue_last s \<and>
     ticks t = ticks s \<and> pt.more t = pt.more s"
  by (cases t, cases s) simp

lemma lk_must_exit:
  assumes "lk L s"
  shows "\<exists>t. must_exit cs s = Ret (case curp s of None \<Rightarrow> False
      | Some p \<Rightarrow> p_killed (procs s p) \<and> cs AND 3 = 3) t \<and>
    lk L t \<and> curp t = curp s \<and> cur t = cur s \<and> mach.more t = mach.more s"
proof -
  from lk_myproc_procs [OF assms] obtain u where
    u: "myproc s = Ret (curp s) u" "lk L u" "curp u = curp s" "cur u = cur s" "mach.more u = mach.more s" by blast
  from lk_myproc_procs [OF u(2)] obtain t where
    t: "myproc u = Ret (curp u) t" "lk L t" "curp t = curp u" "cur t = cur u" "mach.more t = mach.more u" by blast
  have "procs t = procs s" using more_procs [of t s] t(5) u(5) by simp
  with t u show ?thesis by (auto simp: must_exit_def split: option.split)
qed

lemma ready_ok_more: "mach.more t = mach.more s \<Longrightarrow> ready_ok t = ready_ok s"
  by (rule ready_ok_cong) (auto dest: more_procs)

lemma lk_mach: "lk [] s \<Longrightarrow> mach_inv s (\<lambda>_. []) \<and> cur s < ncpu s"
proof -
  have "(\<lambda>_. [] :: lockid list)(c := []) = (\<lambda>_. [])" for c :: nat by auto
  then show "lk [] s \<Longrightarrow> ?thesis" by (simp add: lk_def)
qed

lemma lk_proc_upd [simp]: "lk L (proc_upd p f s) = lk L s" "curp (proc_upd p f s) = curp s"
  by (simp_all add: lk_def curp_def)

lemma quantum_over_iff:
  assumes "p_priority x < NPRIO"
  shows "quantum_over x \<longleftrightarrow> 2 ^ p_priority x \<le> unat (p_ticks_running x)"
proof -
  have "p_priority x = 0 \<or> p_priority x = 1 \<or> p_priority x = 2" using assms by linarith
  then show ?thesis unfolding quantum_over_def word_le_nat_alt by (elim disjE) (simp_all add: push_bit_eq_mult)
qed

lemma lk_yield:
  assumes l: "lk [] s" and c: "curp s = Some p" and p: "p < NPROC" "pstate s p = RUNNING" and Q: "ready_ok s Q"
  shows "\<exists>t. yield s = Ret () t \<and> p_priority (procs t p) = min (p_priority (procs s p) + 1) (NPRIO - 1) \<and>
    p_ticks_running (procs t p) = 0 \<and> p_state (procs t p) = RUNNABLE \<and>
    ready_ok t (let k = min (p_priority (procs s p) + 1) (NPRIO - 1) in Q(k := Q k @ [p]))"
proof -
  let ?a = "acquired PtableLock s"
  let ?d = "proc_upd p demote ?a"
  let ?k = "min (p_priority (procs s p) + 1) (NPRIO - 1)"
  have m: "mach_inv s (\<lambda>_. [])" "cur s < ncpu s" using lk_mach [OF l] by auto
  have free: "\<not> l_locked (locks s PtableLock)" by (rule lk_free [OF l]) simp
  have y: "yield s = Ret () (proc_upd p (\<lambda>x. x\<lparr>p_context := CtxYield (c_if (cpus s (cur s)))\<rparr>) (enqueue p ?d))"
    using yield_inv [OF m] c free by (simp add: curp_def)
  have "p_priority (procs s p) < NPRIO" using ready_prio [OF Q p(1)] .
  then have k: "p_priority (demote (procs s p)) = ?k" "?k < NPRIO" by (auto simp: demote_def)
  have "ready_ok ?d Q"
    using ready_ok_unqueued [of ?a Q p demote] Q p k by (simp add: pstate_def demote_def)
  moreover have "pstate ?d = pstate s" "prio ?d p = ?k"
    using k by (auto simp: pstate_def demote_def fun_eq_iff prio_def)
  ultimately have r: "ready_ok (enqueue p ?d) (Q(?k := Q ?k @ [p]))"
    using ready_ok_enqueue [of ?d Q p] p by simp
  have "pcore (procs (enqueue p ?d) p) = pcore (procs ?d p)" by (rule sched_frameD(16) [OF sched_frame_enqueue])
  then have "p_ticks_running (procs (enqueue p ?d) p) = p_ticks_running (procs ?d p)" by (rule pcore_eqD(13))
  then have "p_ticks_running (procs (enqueue p ?d) p) = 0" by (simp add: demote_def)
  moreover have "p_priority (procs (enqueue p ?d) p) = ?k"
    unfolding prio_def [symmetric] using k by (simp add: prio_def)
  moreover have "p_state (procs (enqueue p ?d) p) = RUNNABLE"
    unfolding pstate_def [symmetric] by simp
  ultimately show ?thesis unfolding y Let_def using r by simp
qed

text \<open>\<open>wakeup\<close> and \<open>priority_boost\<close> on a processor that holds other locks.\<close>

lemma lk_sect:
  assumes l: "lk L s" and n: "PtableLock \<notin> set L"
  shows "mach_inv s ((\<lambda>_. [])(cur s := L))" "cur s < ncpu s" "\<not> l_locked (locks s PtableLock)"
    "PtableLock \<notin> set (((\<lambda>_. [])(cur s := L)) (cur s))"
  using l n lk_free [OF l n] by (simp_all add: lk_def)

lemma lk_released_frame:
  assumes l: "lk L s" and n: "PtableLock \<notin> set L" and fr: "sched_frame (acquired PtableLock s) u"
  shows "lk L (released PtableLock u)" "cur (released PtableLock u) = cur s" "ticks (released PtableLock u) = ticks s"
proof -
  note S = lk_sect [OF l n]
  have u: "cur u = cur s" "ncpu u = ncpu s" "ticks u = ticks s"
    using sched_frameD(2,3,14) [OF fr] by simp_all
  then show "cur (released PtableLock u) = cur s" "ticks (released PtableLock u) = ticks s" by simp_all
  show "lk L (released PtableLock u)"
    unfolding lk_def using section_frame(2) [OF S(1,2,4,3) fr] u S(2) by (simp add: fun_upd_def)
qed

lemma lk_wakeup_ready:
  assumes l: "lk L s" and n: "PtableLock \<notin> set L" and Q: "ready_ok s Q"
  shows "\<exists>t. wakeup ch s = Ret () t \<and> lk L t \<and> cur t = cur s \<and> ticks t = ticks s \<and> prio t = prio s \<and>
    ready_ok t (\<lambda>i. Q i @ filter (\<lambda>p. prio s p = i) (sleepers (Some ch) s))"
proof -
  let ?a = "acquired PtableLock s"
  note S = lk_sect [OF l n]
  have sl: "sleepers (Some ch) ?a = sleepers (Some ch) s" by (simp add: sleepers_def)
  have "ready_ok (wakeup1 (Some ch) ?a) (\<lambda>i. Q i @ filter (\<lambda>p. prio s p = i) (sleepers (Some ch) s))"
    "prio (wakeup1 (Some ch) ?a) = prio s"
    using ready_ok_wakeup1 [of ?a Q "Some ch"] Q sl by simp_all
  moreover have "wakeup ch s = Ret () (released PtableLock (wakeup1 (Some ch) ?a))"
    using wakeup_inv [OF S(1,2,4)] S(3) by simp
  ultimately show ?thesis using lk_released_frame [OF l n sched_frame_wakeup1 [of ?a "Some ch"]] by auto
qed

lemma lk_boost_ready:
  assumes l: "lk L s" and n: "PtableLock \<notin> set L" and Q: "ready_ok s Q"
  shows "\<exists>t. priority_boost s = Ret () t \<and> lk L t \<and> cur t = cur s \<and> ticks t = ticks s \<and>
    ready_ok t (boosted Q) \<and> (\<forall>p < NPROC. prio t p = 0)"
proof -
  note S = lk_sect [OF l n]
  have "rqueues s Q" using Q by (simp add: ready_ok_def)
  from boost_inv [OF S(1,2,4) this] S(3) obtain u where
    u: "priority_boost s = Ret () (released PtableLock u)" "rqueues u (boosted Q)"
      "sched_frame (acquired PtableLock s) u" "pstate u = pstate s"
      "prio u = (\<lambda>p. if p < NPROC then 0 else prio s p)" by blast
  have "ready_ok u (boosted Q)" by (rule ready_ok_boosted [OF Q u(2,4,5)])
  moreover have "prio (released PtableLock u) p = 0" if "p < NPROC" for p using u(5) that by simp
  ultimately show ?thesis using u(1) lk_released_frame [OF l n u(3)] by auto
qed

lemma lk_mach_only:
  assumes "lk L (s :: 'a pt_scheme)"
  shows "l \<notin> set L \<Longrightarrow> \<exists>t. acquire l s = Ret () t \<and> lk (l # L) t \<and> cur t = cur s \<and> mach.more t = mach.more s"
    and "l \<in> set L \<Longrightarrow> \<exists>t. release l s = Ret () t \<and> lk (remove1 l L) t \<and> cur t = cur s \<and> mach.more t = mach.more s"
    and "\<exists>t. t = s \<and> (L \<noteq> [] \<longrightarrow> cpuid s = Ret (cur s) s)"
  using lk_acquire [OF assms, of l] lk_release [OF assms, of l] more_acquire [of l s] more_release [of l s] kcoreD(3)
    mycpu_inv [of s "(\<lambda>_. [])(cur s := L)"] assms
  by (auto simp: lk_def cpuid_def)

section \<open>Properties\<close>

text \<open>
  C7. The linked queues implement the abstract multilevel feedback queue: any sequence of
  enqueueing, dequeueing, demoting and boosting that the abstract scheduler allows runs on the
  kernel's pointers without a null dereference and without an endless search, and ends in pointers
  that represent exactly the lists of the abstract scheduler, with its priorities.
\<close>

theorem mlfq_refines:
  assumes "rqueues s Q" and "mlfq_run qs (Q, prio s) = Some (R, pr)"
  shows "\<exists>t. forK qs mlfq_impl s = Ret () t \<and> rqueues t R \<and> prio t = pr"
  using assms
proof (induction qs arbitrary: s Q)
  case (Cons q qs)
  then have l: "mlfq_legal q (Q, prio s)" and r: "mlfq_run qs (mlfq_spec q (Q, prio s)) = Some (R, pr)"
    by (auto split: if_splits)
  from mlfq_impl_spec [OF Cons.prems(1) l] obtain u where
    u: "mlfq_impl q s = Ret () u" "rqueues u (fst (mlfq_spec q (Q, prio s)))"
      "prio u = snd (mlfq_spec q (Q, prio s))" by blast
  from Cons.IH [OF u(2)] r u(3) obtain t where "forK qs mlfq_impl u = Ret () t" "rqueues t R" "prio t = pr" by auto
  with u(1) show ?case by auto
qed simp

theorem mlfq_refines_witness:
  "\<exists>t. forK [Enq 4, Enq 9, Deq 4, Demote 4, Enq 4, Boost, Deq 9] mlfq_impl boot_pt = Ret () t \<and>
     rqueues t ((\<lambda>_. [])(0 := [4]))"
proof -
  let ?qs = "[Enq 4, Enq 9, Deq 4, Demote 4, Enq 4, Boost, Deq 9]"
  have pr: "prio boot_pt = (\<lambda>_. 0)" by (simp add: prio_def boot_pt_def idle_proc_def fun_eq_iff)
  have "rqueues boot_pt (\<lambda>_. [])"
    by (simp add: rqueues_def rqueue_def boot_pt_def)
  moreover have "mlfq_run ?qs ((\<lambda>_. []), prio boot_pt) =
      Some ((\<lambda>_. [])(0 := [4]), (\<lambda>p. if p < NPROC then 0 else 0))"
    unfolding pr by (auto simp: fun_eq_iff less_Suc_eq_0_disj numeral_3_eq_3)
  ultimately show ?thesis using mlfq_refines [of boot_pt "\<lambda>_. []" ?qs] by blast
qed

text \<open>
  C8. The rule of the quantum: at a clock interrupt a running process of priority \<open>i\<close> keeps the
  processor while it has used fewer than \<open>2 ^ i\<close> ticks, its count one higher; at the tick that
  reaches \<open>2 ^ i\<close> it loses the processor, moves to the end of the queue one level below (the lowest
  level stays), and its count starts again from 0.  No other queue changes.
\<close>

theorem quantum_rule:
  assumes "lk [] s" and "curp s = Some p" and "p < NPROC" and "p_state (procs s p) = RUNNING"
    and "ready_ok s Q" and "\<not> (p_killed (procs s p) \<and> cs AND 3 = 3)"
  shows "if unat (p_ticks_running (procs s p) + 1) < 2 ^ p_priority (procs s p)
    then \<exists>t. trap_quantum (T_IRQ0 + IRQ_TIMER) cs s = Ret Returns t \<and> ready_ok t Q \<and>
      procs t = (procs s)(p := (procs s p)\<lparr>p_ticks_running := p_ticks_running (procs s p) + 1\<rparr>)
    else \<exists>t. trap_quantum (T_IRQ0 + IRQ_TIMER) cs s = Ret Yields t \<and> p_state (procs t p) = RUNNABLE \<and>
      p_priority (procs t p) = min (p_priority (procs s p) + 1) (NPRIO - 1) \<and> p_ticks_running (procs t p) = 0 \<and>
      ready_ok t (let k = min (p_priority (procs s p) + 1) (NPRIO - 1) in Q(k := Q k @ [p]))"
proof -
  from lk_must_exit [OF assms(1), of cs] assms(2,6) obtain s1 where
    s1: "must_exit cs s = Ret False s1" "lk [] s1" "curp s1 = Some p" "mach.more s1 = mach.more s" by auto
  from lk_myproc_procs [OF s1(2)] s1(3) obtain s2 where
    s2: "myproc s1 = Ret (Some p) s2" "lk [] s2" "curp s2 = Some p" "mach.more s2 = mach.more s1" by auto
  let ?f = "\<lambda>x. x\<lparr>p_ticks_running := p_ticks_running x + 1\<rparr>"
  let ?s = "proc_upd p ?f s2"
  have m: "mach.more s2 = mach.more s" using s1(4) s2(4) by simp
  then have pr: "procs s2 = procs s" using more_procs by blast
  have Qs: "ready_ok ?s Q"
    using assms(3,4,5) pr ready_ok_more [OF m] ready_prio [of s Q p]
      ready_ok_unqueued [of s2 Q p ?f] by (simp add: pstate_def)
  have q: "quantum_over (procs ?s p) \<longleftrightarrow> 2 ^ p_priority (procs s p) \<le> unat (p_ticks_running (procs s p) + 1)"
    using quantum_over_iff [of "procs ?s p"] ready_prio [OF Qs assms(3)] pr by simp
  have tq: "trap_quantum (T_IRQ0 + IRQ_TIMER) cs s =
      (if quantum_over (procs ?s p) then bindK (yield ?s) (\<lambda>_ s. Ret Yields s) else trap_after cs ?s)"
    using s1(1) s2(1) assms(4) pr by (simp add: trap_quantum_def Let_def)
  show ?thesis
  proof (cases "quantum_over (procs ?s p)")
    case True
    have "\<exists>t. yield ?s = Ret () t \<and> p_priority (procs t p) = min (p_priority (procs ?s p) + 1) (NPRIO - 1) \<and>
      p_ticks_running (procs t p) = 0 \<and> p_state (procs t p) = RUNNABLE \<and>
      ready_ok t (let k = min (p_priority (procs ?s p) + 1) (NPRIO - 1) in Q(k := Q k @ [p]))"
      by (rule lk_yield) (use s2 assms(3,4) pr Qs in \<open>simp_all add: pstate_def\<close>)
    moreover have "p_priority (procs ?s p) = p_priority (procs s p)" using pr by simp
    ultimately show ?thesis unfolding tq using True q by auto
  next
    case False
    from lk_must_exit [of "[]" ?s cs] s2(2,3) assms(6) pr obtain t where
      t: "must_exit cs ?s = Ret False t" "mach.more t = mach.more ?s" by auto
    have "procs t = (procs s)(p := ?f (procs s p))" using more_procs [OF t(2)] pr by (simp add: proc_upd_def)
    moreover have "ready_ok t Q" using Qs ready_ok_more [OF t(2)] by simp
    ultimately show ?thesis unfolding tq trap_after_def using False q t(1) by auto
  qed
qed

lemma ready_con0: "ready_ok con0 (\<lambda>_. [])"
  by (simp add: ready_ok_def rqueues_def rqueue_def con0_def prio_def pstate_def proc1_def idle_proc_def)

theorem quantum_rule_witness:
  "\<exists>t. trap_quantum (T_IRQ0 + IRQ_TIMER) 0x1B con0 = Ret Yields t \<and> p_state (procs t 1) = RUNNABLE \<and>
     p_priority (procs t 1) = 1 \<and> ready_ok t ((\<lambda>_. [])(1 := [1]))"
proof -
  have p: "procs con0 1 = proc1" by (simp add: con0_def)
  show ?thesis using quantum_rule [of con0 1 "\<lambda>_. []" "0x1B"] ready_con0
    unfolding p by (auto simp: proc1_def idle_proc_def min_def fun_upd_def cong: if_cong)
qed

text \<open>
  C9. The rule of the boost: the clock handler of processor 0 counts a tick, makes the sleepers on
  the clock ready, and exactly at the multiples of \<open>BOOSTTIMER\<close> puts every ready process into the
  first queue, higher queues first, with every priority reset; the other processors change nothing.
\<close>

theorem boost_rule:
  assumes "lk [] s" and "\<not> c_if (cpus s (cur s))" and "ready_ok s Q"
  shows "\<exists>t. timer_tick s = Ret () t \<and> lk [] t \<and>
    (if cur s = 0 then ticks t = ticks s + 1 \<and>
       (let R = (\<lambda>i. Q i @ filter (\<lambda>p. prio s p = i) (sleepers (Some ChanTicks) s))
        in if (ticks s + 1) mod BOOSTTIMER = 0 then ready_ok t (boosted R) \<and> (\<forall>p < NPROC. prio t p = 0)
           else ready_ok t R \<and> prio t = prio s)
     else t = s)"
proof -
  have "cpuid s = Ret (cur s) s"
    using mycpu_wf [of s] assms(1,2) by (auto simp: cpuid_def lk_def readeflags_def dest: mach_inv_wf)
  moreover have "\<exists>t. timer_tick s = Ret () t \<and> lk [] t \<and> ticks t = ticks s + 1 \<and>
       (let R = (\<lambda>i. Q i @ filter (\<lambda>p. prio s p = i) (sleepers (Some ChanTicks) s))
        in if (ticks s + 1) mod BOOSTTIMER = 0 then ready_ok t (boosted R) \<and> (\<forall>p < NPROC. prio t p = 0)
           else ready_ok t R \<and> prio t = prio s)" if "cpuid s = Ret 0 s"
  proof -
    let ?R = "\<lambda>i. Q i @ filter (\<lambda>p. prio s p = i) (sleepers (Some ChanTicks) s)"
    from lk_mach_only(1) [OF assms(1), of TicksLock] obtain u where
      u: "acquire TicksLock s = Ret () u" "lk [TicksLock] u" "mach.more u = mach.more s" by auto
    let ?u = "u\<lparr>ticks := ticks u + 1\<rparr>"
    have pu: "procs ?u = procs s" "ticks u = ticks s" using more_procs [OF u(3)] by simp_all
    then have v: "prio ?u = prio s" "sleepers (Some ChanTicks) ?u = sleepers (Some ChanTicks) s"
      by (simp_all add: prio_def [abs_def] sleepers_def pstate_def)
    have lu: "lk [TicksLock] ?u" using u(2) mach_inv_cong [of u _ ?u] by (simp add: lk_def)
    have "ready_ok ?u = ready_ok u" by (rule ready_ok_cong) simp_all
    then have "ready_ok ?u Q" using assms(3) ready_ok_more [OF u(3)] by simp
    from lk_wakeup_ready [OF lu _ this, of ChanTicks] v pu(2) obtain w where
      w: "wakeup ChanTicks ?u = Ret () w" "lk [TicksLock] w" "ticks w = ticks s + 1" "prio w = prio s"
        "ready_ok w ?R" by auto
    obtain x where x: "(if ticks w mod BOOSTTIMER = 0 then priority_boost w else Ret () w) = Ret () x"
      "lk [TicksLock] x" "ticks x = ticks w"
      "if ticks w mod BOOSTTIMER = 0 then ready_ok x (boosted ?R) \<and> (\<forall>p < NPROC. prio x p = 0)
       else ready_ok x ?R \<and> prio x = prio s"
      using lk_boost_ready [OF w(2) _ w(5)] w(2,4,5) by (cases "ticks w mod BOOSTTIMER = 0") auto
    from lk_mach_only(2) [OF x(2), of TicksLock] obtain t where
      t: "release TicksLock x = Ret () t" "lk [] t" "mach.more t = mach.more x" by auto
    have "timer_tick s = Ret () t" using that u(1) w(1) x(1) t(1) by (simp add: timer_tick_def)
    moreover have "ticks t = ticks x" "prio t = prio x" "ready_ok t = ready_ok x"
      using more_procs [OF t(3)] ready_ok_more [OF t(3)] by (simp_all add: prio_def [abs_def])
    ultimately show ?thesis using t(2) x(3,4) w(3) by (auto simp: Let_def)
  qed
  ultimately show ?thesis using assms(1) by (cases "cur s = 0") (auto simp: timer_tick_def)
qed

theorem boost_rule_witness:
  "\<exists>t. timer_tick (cli (con0\<lparr>ticks := 99\<rparr>)) = Ret () t \<and> ticks t = 100 \<and> ready_ok t (\<lambda>_. []) \<and>
     (\<forall>p < NPROC. prio t p = 0)"
proof -
  let ?s = "cli (con0\<lparr>ticks := 99\<rparr>)"
  have l: "lk [] ?s"
    using lk_con0(1) mach_inv_cong [of con0 _ ?s] by (simp add: lk_def cli_def)
  have r: "ready_ok ?s (\<lambda>_. [])"
    using ready_con0 ready_ok_cong [of con0 ?s] by (simp add: cli_def)
  have "sleepers (Some ChanTicks) ?s = []"
    by (simp add: sleepers_def cli_def con0_def pstate_def proc1_def idle_proc_def filter_empty_conv)
  then have b: "boosted (\<lambda>i. [] @ filter (\<lambda>p. prio ?s p = i) (sleepers (Some ChanTicks) ?s)) = (\<lambda>_. [])"
    by (simp add: boosted_def fun_eq_iff)
  have "cur ?s = 0" "ticks ?s = 99" "\<not> c_if (cpus ?s (cur ?s))" by (simp_all add: cli_def con0_def)
  with boost_rule [OF l _ r] b show ?thesis by (auto simp: Let_def)
qed

end
