(* ===== verification/Disk_Props.thy ===== *)
theory Disk_Props
  imports Log_Trans
begin

text \<open>
  Properties of the buffer cache and of the log, with the concrete machine \<open>binit disk0\<close> as witness.
\<close>

section \<open>The buffer cache\<close>

text \<open>
  C28. Coherence of the buffer cache: reading a block that is not locked returns a buffer, locked by
  the reader, whose data is the current contents of that block, provided some buffer can be
  recycled.  No block changes for any other reader, no write goes to the disk, and no other buffer
  gets locked or loses its pin.
\<close>

theorem bread_coherent:
  assumes "bok s" and "int (unat b) < disksize s" and "b \<notin> snd ` bheld s"
    and "card (bdirty s \<union> snd ` bheld s) < NBUF"
  shows "\<exists>i t. bread 1 b s = Ret i t \<and> bok t \<and> b_data (bufs t i) = bview s b \<and> b_blockno (bufs t i) = b \<and>
    bheld t = insert (i, b) (bheld s) \<and> bview t = bview s \<and> memdisk t = memdisk s \<and>
    disk_writes t = disk_writes s \<and> bdirty t = bdirty s"
proof -
  from bread_law [OF assms(1-3)] assms(4) obtain i t where
    t: "bread 1 b s = Ret i t" "bok t" "bview t = bview s" "memdisk t = memdisk s" "disk_writes t = disk_writes s"
      "bdirty t = bdirty s" "bheld t = insert (i, b) (bheld s)" by blast
  have "(i, b) \<in> bheld t" using t(7) by simp
  from bheld_data [OF t(2) this] bheld_dev [OF t(2) this] t show ?thesis by auto
qed

theorem bread_coherent_witness:
  "\<exists>i t. bread 1 5 (binit disk0) = Ret i t \<and> b_data (bufs t i) = bview (binit disk0) 5"
proof -
  note B = binit_ok [OF fresh_disk0]
  have "int (unat (5 :: uint)) < disksize (binit disk0)" using B(6) by (simp add: disk0_def)
  from bread_coherent [OF B(1) this] B(2,3) show ?thesis by auto
qed

text \<open>
  C29. Recycling takes the least recently used buffer: on a miss \<open>bget\<close> returns, for the new block,
  the last buffer of the list (kept in order of use) that is neither locked nor pinned; it panics
  exactly when every buffer is locked or pinned.
\<close>

theorem bget_recycles_lru:
  assumes "bok s" and "bring s xs" and "\<forall>i < NBUF. \<not> (b_dev (bufs s i) = 1 \<and> b_blockno (bufs s i) = b)"
  shows "case find (\<lambda>i. \<not> locked s i \<and> \<not> b_dirty (bufs s i)) (rev xs) of
      None \<Rightarrow> bget 1 b s = Panic ''bget: no buffers''
    | Some i \<Rightarrow> \<exists>t. bget 1 b s = Ret i t \<and> b_blockno (bufs t i) = b \<and> locked t i \<and> (\<forall>j. j \<noteq> i \<longrightarrow> bufs t j = bufs s j)"
proof -
  have n: "buf_of s b = None" using assms(3) by (simp add: buf_of_None)
  have "b_refcnt (bufs s i) = 0 \<longleftrightarrow> \<not> locked s i" if "i \<in> set (rev xs)" for i
    using bokD(7) [OF assms(1), of i] assms(2) that by (auto simp: bring_def buf_ok_def Let_def split: if_splits)
  then have f: "find (\<lambda>i. \<not> locked s i \<and> \<not> b_dirty (bufs s i)) (rev xs) = lru_free s xs"
    unfolding lru_free_def by (intro find_cong) auto
  show ?thesis
  proof (cases "lru_free s xs")
    case None
    with bget_spec(3) [OF assms(1,2) n] f show ?thesis by simp
  next
    case (Some i)
    from bget_spec(2) [OF assms(1,2) n Some] obtain t where
      "bget 1 b s = Ret i t"
      "bufs t = (bufs s)(i := (bufs s i)\<lparr>b_dev := 1, b_blockno := b, b_valid := False, b_dirty := False, b_refcnt := 1\<rparr>)"
      "slks t = (slks s)(BufSlk i := \<lparr>sl_locked = True, sl_pid = curpid s\<rparr>)" by blast
    with Some f show ?thesis by (simp add: locked_def)
  qed
qed

theorem bget_recycles_lru_witness:
  "\<exists>t. bget 1 5 (binit disk0) = Ret 0 t \<and> b_blockno (bufs t 0) = 5"
proof -
  note B = binit_ok [OF fresh_disk0]
  have d: "b_dev (bufs (binit disk0) i) = 0" for i
    using nolinks_eqD(3) [OF binit_nolinks [OF fresh_disk0, of i]] by (simp add: disk0_def zero_buf_def)
  have f: "\<not> locked (binit disk0) 0" "\<not> b_dirty (bufs (binit disk0) 0)"
    using B(2,3) by (auto simp: bheld_def bdirty_def)
  have "find (\<lambda>i. \<not> locked (binit disk0) i \<and> \<not> b_dirty (bufs (binit disk0) i)) (rev (rev [0..<NBUF])) = Some 0"
    using f by (simp add: upt_rec)
  with bget_recycles_lru [OF B(1,5), of 5] d show ?thesis by auto
qed

text \<open>
  C30. Absorption in the log: a \<open>log_write\<close> of a locked buffer inside a transaction with room left
  adds the block to the in-memory log header unless it is there already, pins the buffer, and
  changes no contents; outside a transaction, or with the log full, it panics.
\<close>

theorem log_write_absorbs:
  assumes "bok s" and "(i, b) \<in> bheld s" and "entries s bs"
  shows "if length bs \<ge> 30 \<or> int (length bs) \<ge> lg_size s - 1 then log_write i s = Panic ''too big a transaction''
    else if lg_outstanding s < 1 then log_write i s = Panic ''log_write outside of trans''
    else \<exists>t. log_write i s = Ret () t \<and> bok t \<and> entries t (if b \<in> set bs then bs else bs @ [b]) \<and>
      bview t = bview s \<and> bdirty t = insert b (bdirty s) \<and> memdisk t = memdisk s"
proof -
  have "lh_n (lg_lh s) = int (length bs)" using assms(3) by (simp add: entries_def)
  then show ?thesis using log_write_spec [OF assms] by (auto simp: log_write_def log_add_def)
qed

text \<open>The same machine inside a transaction, and one that was switched off after a commit of block 59.\<close>

definition trans_disk0 :: lg where
  "trans_disk0 = disk0\<lparr>lg_outstanding := 1\<rparr>"

definition committed_disk0 :: lg where
  "committed_disk0 = disk0\<lparr>memdisk := (memdisk disk0)(2 := put32 4 59 (put32 0 1 (replicate BSIZE 0)), 3 := replicate BSIZE 7)\<rparr>"

lemma fresh_disks: "fresh trans_disk0" "fresh committed_disk0"
  by (simp_all add: fresh_def trans_disk0_def committed_disk0_def disk0_def lk_def mach_inv_def curp_def cpage_def zero_buf_def inj_on_def)

theorem log_write_absorbs_witness:
  "\<exists>i u t v. bread 1 59 (binit trans_disk0) = Ret i u \<and> log_write i u = Ret () t \<and> entries t [59] \<and>
     log_write i t = Ret () v \<and> entries v [59]"
proof -
  let ?s = "binit trans_disk0"
  note B = binit_ok [OF fresh_disks(1)]
  have r: "int (unat (59 :: uint)) < disksize ?s" using B(6) by (simp add: trans_disk0_def disk0_def)
  from bread_law [OF B(1) r] B(2,3) obtain i u where
    u: "bread 1 59 ?s = Ret i u" "bok u" "bsame ?s u" "bheld u = {(i, 59)}" by auto
  have e: "entries u []" "lg_size u = 30" "lg_outstanding u = 1"
    using bsame_lg [OF u(3)] bsame_lsame [OF u(3)] by (simp_all add: entries_def lsame_def) (simp_all add: trans_disk0_def disk0_def)
  from log_write_spec [OF u(2) _ e(1), of i 59] u(4) e obtain t where
    t: "log_write i u = Ret () t" "bok t" "bheld t = {(i, 59)}" "lsame u t" by auto
  from log_write_absorbs [OF u(2) _ e(1), of i 59] u(4) e t(1) have et: "entries t [59]" by auto
  have "lg_size t = 30" "lg_outstanding t = 1" using t(4) e by (simp_all add: lsame_def)
  with log_write_absorbs [OF t(2) _ et, of i 59] t(3) u(1) t(1) et show ?thesis by auto
qed

section \<open>Witnesses for the crash properties\<close>

text \<open>A transaction on the concrete machine that has one block to commit.\<close>

lemma area59: "(59 :: uint) \<notin> log_area 2 30"
proof
  assume "(59 :: uint) \<in> log_area 2 30"
  then obtain i where i: "i < 30" "59 = lblk 2 i" by (auto simp: log_area_def)
  then have "uint (59 :: uint) = 2 + int i" using unat_lblk [of 2 i] by simp
  with i(1) show False by simp
qed

lemma ready_example:
  "\<exists>s :: lg. trans_ready s [59] \<and> bview s 59 = replicate BSIZE 7 \<and> memdisk s = memdisk (binit disk0) \<and>
     lg_start s = 2 \<and> lg_size s = 30 \<and> disksize s = 1000"
proof -
  let ?s = "binit disk0"
  have i: "log_idle ?s" by (rule log_idle_disk0)
  have ok: "bok ?s" "bheld ?s = {}" "bdirty ?s = {}" and g: "log_geom ?s" "lh_n (lg_lh ?s) = 0" "lg_outstanding ?s = 0" "\<not> lg_committing ?s"
    and D: "disk_header (memdisk ?s (lblk (lg_start ?s) 0)) = []" using i by (simp_all add: log_idle_def rebooted_def)
  have f: "lg_start ?s = 2" "lg_size ?s = 30" "disksize ?s = 1000"
    using binit_ok(6) [OF fresh_disk0] by (simp_all) (simp_all add: disk0_def)
  from begin_op_spec [OF ok(1) g(4)] g obtain u where
    u: "bok u" "bheld u = {}" "bdirty u = {}" "memdisk u = memdisk ?s" "lg_lh u = lg_lh ?s"
      "lsame (?s\<lparr>lg_outstanding := 1\<rparr>) u" using ok by auto
  have lu: "lg_start u = 2" "lg_size u = 30" "disksize u = 1000" "lg_outstanding u = 1" "lg_dev u = lg_dev ?s"
    using u(6) f by (simp_all add: lsame_def)
  have "in_trans u []" using u lu g by (simp add: in_trans_def entries_def log_geom_def)
  from log_update_spec [OF this, of 59 "replicate BSIZE 7"] lu obtain v where
    v: "in_trans v (log_add 59 [])" "bview v = (bview u)(59 := replicate BSIZE 7)" "memdisk v = memdisk u" "lsame u v" by auto
  have lv: "lg_start v = 2" "lg_size v = 30" "disksize v = 1000" "lg_dev v = lg_dev ?s" using v(4) lu by (simp_all add: lsame_def)
  have "trans_ready v [59]"
    using area59 v u(4) lv g(1) D f by (auto simp: trans_ready_def in_trans_def entries_def homes_def log_geom_def log_add_def)
  with v(2,3) u(4) lv show ?thesis by auto
qed

theorem commit_atomic_witness:
  "\<exists>(s :: lg) t u. trans_ready s [59] \<and> commit s = Ret () t \<and> memdisk t 59 = replicate BSIZE 7 \<and>
     reboot_of s (crash_image s t 0) (binit disk0) \<and> recover_from_log (binit disk0) = Ret () u"
proof -
  from ready_example obtain s :: lg where
    s: "trans_ready s [59]" "bview s 59 = replicate BSIZE 7" "memdisk s = memdisk (binit disk0)"
      "lg_start s = 2" "lg_size s = 30" "disksize s = 1000" by blast
  have n: "59 \<notin> log_area (lg_start s) (lg_size s)" using s(1) by (simp add: trans_ready_def homes_def)
  from commit_atomic [OF s(1)] n s(2) obtain t where
    t: "commit s = Ret () t" "memdisk t 59 = replicate BSIZE 7"
      "\<forall>k r. reboot_of s (crash_image s t k) r \<longrightarrow> (\<exists>u. recover_from_log r = Ret () u)" by metis
  have "reboot_of s (crash_image s t 0) (binit disk0)"
    using s log_idle_disk0 binit_ok(6) [OF fresh_disk0]
    by (simp add: reboot_of_def log_idle_def crash_image_def) (simp add: disk0_def)
  with t s(1) show ?thesis by blast
qed

lemma committed_disk0_reboot:
  "reboot_of (binit committed_disk0) (memdisk (binit committed_disk0)) (binit committed_disk0)"
  "disk_header (memdisk (binit committed_disk0) 2) = [59]" "lg_start (binit committed_disk0) = 2" "lg_size (binit committed_disk0) = 30"
  "disksize (binit committed_disk0) = 1000"
proof -
  note B = binit_ok [OF fresh_disks(2)]
  show f: "lg_start (binit committed_disk0) = 2" "lg_size (binit committed_disk0) = 30" "disksize (binit committed_disk0) = 1000"
    using B(6) by (simp_all) (simp_all add: committed_disk0_def disk0_def)
  have "log_geom (binit committed_disk0)" using f by (simp add: log_geom_def) (simp add: committed_disk0_def disk0_def)
  with B(1-3) show "reboot_of (binit committed_disk0) (memdisk (binit committed_disk0)) (binit committed_disk0)"
    by (simp add: reboot_of_def rebooted_def)
  have "memdisk (binit committed_disk0) 2 = put32 4 59 (put32 0 1 (replicate BSIZE 0))"
    unfolding B(4) by (simp add: committed_disk0_def)
  moreover have "get32 (put32 4 59 (put32 0 1 (replicate BSIZE 0))) 0 = 1" by (simp add: get32_put32_other)
  ultimately show "disk_header (memdisk (binit committed_disk0) 2) = [59]" by (simp add: disk_header_def upt_rec)
qed

theorem recovery_idempotent_witness:
  "disk_header (memdisk (binit committed_disk0) 2) = [59] \<and>
   (\<exists>u u'. recover_from_log (binit committed_disk0) = Ret () u \<and> lh_n (lg_lh u) = 0 \<and> disk_header (memdisk u 2) = [] \<and>
     reboot_of (binit committed_disk0) (crash_image (binit committed_disk0) u 0) (binit committed_disk0) \<and>
     recover_from_log (binit committed_disk0) = Ret () u' \<and> memdisk u' 59 = memdisk u 59)"
proof -
  let ?s = "binit committed_disk0"
  note C = committed_disk0_reboot
  have l: "lblk 2 0 = 2" by (simp add: lblk_def)
  have "homes ?s (disk_header (memdisk ?s (lblk (lg_start ?s) 0)))" using C(2-5) area59 by (simp add: homes_def l)
  from recovery_idempotent [OF C(1) this] obtain u where
    u: "recover_from_log ?s = Ret () u" "lh_n (lg_lh u) = 0" "disk_header (memdisk u (lblk (lg_start ?s) 0)) = []"
      "\<forall>k r'. reboot_of ?s (crash_image ?s u k) r' \<longrightarrow> (\<exists>u'. recover_from_log r' = Ret () u' \<and>
        (\<forall>b. b \<notin> log_area (lg_start ?s) (lg_size ?s) \<longrightarrow> memdisk u' b = memdisk u b))" by blast
  have k: "reboot_of ?s (crash_image ?s u 0) ?s" using C(1) by (simp add: crash_image_def)
  with u(4) obtain u' where
    "recover_from_log ?s = Ret () u'" "\<forall>b. b \<notin> log_area (lg_start ?s) (lg_size ?s) \<longrightarrow> memdisk u' b = memdisk u b" by blast
  moreover have "59 \<notin> log_area (lg_start ?s) (lg_size ?s)" unfolding C(3,4) by (rule area59)
  moreover have "disk_header (memdisk u 2) = []" using u(3) unfolding C(3) l .
  ultimately show ?thesis using u(1,2) k C(2) by blast
qed

end
