(* ===== verification/Ringbuf.thy ===== *)
theory Ringbuf
  imports Xv6_Prelude
begin

text \<open>
  Circular byte buffers as the pipe and the console use them: an array of \<open>N\<close> bytes with two 32-bit
  counters that are never reduced, only their remainders index the array.  As \<open>N\<close> divides \<open>2 ^ 32\<close>,
  the overflow of a counter does no harm.  The locale \<open>byte_queue\<close> is the contract of such a buffer.
\<close>

section \<open>Indices\<close>

lemma unat_add_mod:
  assumes "N dvd 2 ^ 32"
  shows "unat (a + of_nat k :: uint) mod N = (unat a + k) mod N"
proof -
  have "unat (a + of_nat k) = (unat a + k mod 2 ^ 32) mod 2 ^ 32" by (simp add: unat_word_ariths unat_of_nat)
  also have "\<dots> = (unat a + k) mod 2 ^ 32" by presburger
  finally show ?thesis using mod_mod_cancel [OF assms] by simp
qed

lemma mod_add_neq:
  fixes a j k N :: nat
  assumes "j < k" and "k < N"
  shows "(a + j) mod N \<noteq> (a + k) mod N"
proof
  assume "(a + j) mod N = (a + k) mod N"
  then have "N dvd (a + k) - (a + j)" using mod_eq_dvd_iff_nat [of "a + j" "a + k" N] assms(1) by simp
  then have "N dvd k - j" by simp
  with assms show False by (auto dest: dvd_imp_le)
qed

section \<open>Contents\<close>

text \<open>The bytes between the counters \<open>r\<close> and \<open>w\<close>, oldest first.\<close>

definition rbytes :: "nat \<Rightarrow> uchar list \<Rightarrow> uint \<Rightarrow> uint \<Rightarrow> uchar list" where
  "rbytes N d r w = map (\<lambda>k. d ! (unat (r + of_nat k) mod N)) [0..<unat (w - r)]"

definition rbuf_ok :: "nat \<Rightarrow> uchar list \<Rightarrow> uint \<Rightarrow> uint \<Rightarrow> bool" where
  "rbuf_ok N d r w \<longleftrightarrow> length d = N \<and> unat (w - r) \<le> N"

lemma rbytes_length [simp]: "length (rbytes N d r w) = unat (w - r)"
  by (simp add: rbytes_def)

lemma rbytes_empty_iff: "rbytes N d r w = [] \<longleftrightarrow> r = w"
  by (simp add: rbytes_def unat_eq_0) (metis right_minus_eq)

lemma word_eq_add_iff: "(w = r + c) \<longleftrightarrow> unat (w - r) = unat (c :: uint)"
  by (metis add_diff_cancel_left' diff_add_cancel add.commute word_unat_eq_iff)

lemma unat_incr:
  assumes "unat (w - r :: uint) < 2 ^ 32 - 1"
  shows "unat (w + 1 - r) = Suc (unat (w - r))"
proof -
  have "unat (x + 1) = Suc (unat x)" if "unat x < 2 ^ 32 - 1" for x :: uint
    using that by (simp add: unat_word_ariths)
  from this [of "w - r"] assms show ?thesis by (simp add: algebra_simps)
qed

lemma unat_decr:
  assumes "w \<noteq> (r :: uint)"
  shows "unat (w - r) = Suc (unat (w - (r + 1)))"
proof -
  have "unat (w - r) \<noteq> 0" using assms by (simp add: unat_eq_0)
  moreover have "w - (r + 1) = (w - r) - 1" by simp
  ultimately show ?thesis by (metis Suc_pred' not_gr_zero unat_eq_zero unat_minus_one)
qed

lemma rbytes_push:
  assumes ok: "rbuf_ok N d r w" and "N dvd 2 ^ 32" and room: "unat (w - r) < N" and "N < 2 ^ 32"
  shows "rbytes N (d[unat w mod N := c]) r (w + 1) = rbytes N d r w @ [c]"
    and "rbuf_ok N (d[unat w mod N := c]) r (w + 1)"
proof -
  let ?n = "unat (w - r)"
  have n: "unat (w + 1 - r) = Suc ?n" using room assms(4) by (intro unat_incr) simp
  have w: "unat (r + of_nat ?n) = unat w" by simp
  have "d[unat w mod N := c] ! (unat (r + of_nat k) mod N) = d ! (unat (r + of_nat k) mod N)" if "k < ?n" for k
  proof -
    have "unat (r + of_nat k) mod N \<noteq> unat w mod N"
      using mod_add_neq [OF that room, of "unat r"] unat_add_mod [OF assms(2), of r k]
        unat_add_mod [OF assms(2), of r ?n] w by simp
    then show ?thesis by simp
  qed
  moreover have "unat w mod N < length d" using ok room by (simp add: rbuf_ok_def)
  ultimately show "rbytes N (d[unat w mod N := c]) r (w + 1) = rbytes N d r w @ [c]"
    by (simp add: rbytes_def n)
  show "rbuf_ok N (d[unat w mod N := c]) r (w + 1)" using ok room n by (simp add: rbuf_ok_def)
qed

lemma rbytes_pop:
  assumes ok: "rbuf_ok N d r w" and "r \<noteq> w"
  shows "rbytes N d r w = d ! (unat r mod N) # rbytes N d (r + 1) w" and "rbuf_ok N d (r + 1) w"
proof -
  have n: "unat (w - r) = Suc (unat (w - (r + 1)))" using assms(2) by (intro unat_decr) auto
  have "[0..<unat (w - r)] = 0 # map Suc [0..<unat (w - (r + 1))]"
    by (simp add: n upt_conv_Cons map_Suc_upt del: upt_Suc)
  then show "rbytes N d r w = d ! (unat r mod N) # rbytes N d (r + 1) w"
    by (simp add: rbytes_def comp_def add.assoc)
  show "rbuf_ok N d (r + 1) w" using ok n by (simp add: rbuf_ok_def)
qed

section \<open>Queues of bytes\<close>

text \<open>
  A client inserts a byte when the buffer is not full and removes one when it is not empty.  For every
  interleaving of the two, what has been removed followed by what is still there is what was there at
  the beginning followed by what has been inserted.
\<close>

datatype qop = QPut uchar | QGet

text \<open>A run of operations: the bytes accepted, the bytes delivered, the final queue.\<close>

fun queue_run ::
  "('q \<Rightarrow> bool) \<Rightarrow> ('q \<Rightarrow> bool) \<Rightarrow> (uchar \<Rightarrow> 'q \<Rightarrow> 'q) \<Rightarrow> ('q \<Rightarrow> uchar \<times> 'q) \<Rightarrow> qop list \<Rightarrow> 'q \<Rightarrow>
   uchar list \<times> uchar list \<times> 'q" where
  "queue_run full void put get [] q = ([], [], q)"
| "queue_run full void put get (QPut c # xs) q =
     (if full q then queue_run full void put get xs q
      else let (a, d, q') = queue_run full void put get xs (put c q) in (c # a, d, q'))"
| "queue_run full void put get (QGet # xs) q =
     (if void q then queue_run full void put get xs q
      else let (c, q1) = get q; (a, d, q') = queue_run full void put get xs q1 in (a, c # d, q'))"

locale byte_queue =
  fixes ok :: "'q \<Rightarrow> bool" and full :: "'q \<Rightarrow> bool" and void :: "'q \<Rightarrow> bool"
    and put :: "uchar \<Rightarrow> 'q \<Rightarrow> 'q" and get :: "'q \<Rightarrow> uchar \<times> 'q" and contents :: "'q \<Rightarrow> uchar list"
    and capacity :: nat
  assumes void_law: "ok q \<Longrightarrow> void q \<longleftrightarrow> contents q = []"
    and full_law: "ok q \<Longrightarrow> full q \<longleftrightarrow> length (contents q) = capacity"
    and bound_law: "ok q \<Longrightarrow> length (contents q) \<le> capacity"
    and put_law: "ok q \<Longrightarrow> \<not> full q \<Longrightarrow> ok (put c q) \<and> contents (put c q) = contents q @ [c]"
    and get_law: "ok q \<Longrightarrow> \<not> void q \<Longrightarrow> ok (snd (get q)) \<and> contents q = fst (get q) # contents (snd (get q))"
begin

lemma qrun_fifo:
  "ok q \<Longrightarrow> queue_run full void put get xs q = (a, d, q') \<Longrightarrow> ok q' \<and> d @ contents q' = contents q @ a"
proof (induction xs arbitrary: q a d q')
  case (Cons x xs)
  show ?case
  proof (cases x)
    case (QPut c)
    show ?thesis
    proof (cases "full q")
      case False
      from False Cons.prems QPut obtain a' where
        r: "queue_run full void put get xs (put c q) = (a', d, q')" "a = c # a'" by (auto simp: Let_def split: prod.splits)
      show ?thesis using Cons.IH [OF _ r(1)] put_law [OF Cons.prems(1) False] r(2) by simp
    qed (use Cons QPut in simp)
  next
    case QGet
    show ?thesis
    proof (cases "void q")
      case False
      from False Cons.prems QGet obtain d' where
        r: "queue_run full void put get xs (snd (get q)) = (a, d', q')" "d = fst (get q) # d'" by (auto simp: Let_def split: prod.splits)
      show ?thesis using Cons.IH [OF _ r(1)] get_law [OF Cons.prems(1) False] r(2) by simp
    qed (use Cons QGet in simp)
  qed
qed simp

end

end
