(* ===== verification/Pipe_Fifo.thy ===== *)
theory Pipe_Fifo
  imports Ringbuf Machine0
begin

text \<open>
  Correctness of pipes: a pipe is a queue of at most 512 bytes.  The counters \<open>nread\<close> and \<open>nwrite\<close> run
  freely and wrap around; \<open>pbytes\<close> gives the bytes between them.
\<close>

section \<open>The buffer\<close>

definition pipe_ok :: "pipe \<Rightarrow> bool" where
  "pipe_ok x \<longleftrightarrow> rbuf_ok 512 (pp_data x) (pp_nread x) (pp_nwrite x)"

definition pbytes :: "pipe \<Rightarrow> uchar list" where
  "pbytes x = rbytes 512 (pp_data x) (pp_nread x) (pp_nwrite x)"

definition pipe_full :: "pipe \<Rightarrow> bool" where
  "pipe_full x \<longleftrightarrow> pp_nwrite x = pp_nread x + PIPESIZE"

definition pipe_void :: "pipe \<Rightarrow> bool" where
  "pipe_void x \<longleftrightarrow> pp_nread x = pp_nwrite x"

interpretation pq: byte_queue pipe_ok pipe_full pipe_void pipe_push pipe_pop pbytes 512
proof
  fix q c
  assume ok: "pipe_ok q"
  then have r: "rbuf_ok 512 (pp_data q) (pp_nread q) (pp_nwrite q)" by (simp add: pipe_ok_def)
  show "pipe_void q \<longleftrightarrow> pbytes q = []" by (simp add: pipe_void_def pbytes_def rbytes_empty_iff)
  show full: "pipe_full q \<longleftrightarrow> length (pbytes q) = 512" by (simp add: pipe_full_def pbytes_def word_eq_add_iff)
  show "length (pbytes q) \<le> 512" using r by (simp add: pbytes_def rbuf_ok_def)
  show "pipe_ok (pipe_push c q) \<and> pbytes (pipe_push c q) = pbytes q @ [c]" if "\<not> pipe_full q"
  proof -
    have "unat (pp_nwrite q - pp_nread q) < 512" using that full r by (simp add: pbytes_def rbuf_ok_def)
    then show ?thesis using rbytes_push [OF r, of c] by (simp add: pipe_ok_def pbytes_def pipe_push_def unat_mod)
  qed
  show "pipe_ok (snd (pipe_pop q)) \<and> pbytes q = fst (pipe_pop q) # pbytes (snd (pipe_pop q))" if "\<not> pipe_void q"
    using rbytes_pop [OF r] that by (simp add: pipe_ok_def pbytes_def pipe_pop_def pipe_void_def unat_mod)
qed

section \<open>Writing\<close>

lemma sel_pipe_upd [simp]:
  "lk L (pipe_upd p f s) = lk L s" "kcore s (pipe_upd p f s)" "curp (pipe_upd p f s) = curp s"
  "pipes (pipe_upd p f s) = (pipes s)(p := f (pipes s p))" "ps.more (pipe_upd p f s) = ps.more s"
  "procs (pipe_upd p f s) = procs s" "k_mem (pipe_upd p f s) = k_mem s" "cpage (pipe_upd p f s) = cpage s"
  by (simp_all add: pipe_upd_def kcore_def lk_def mach_inv_def curp_def cpage_def)

lemma pipes_more: "pt.more t = pt.more s \<Longrightarrow> pipes t = pipes s"
  by (cases s, cases t) simp

lemma lk_mykilled:
  assumes "lk L s" and "curp s = Some q"
  shows "\<exists>t. mykilled s = Ret (p_killed (procs s q)) t \<and> lk L t \<and> kcore s t \<and> pt.more t = pt.more s"
proof -
  from lk_myproc [OF assms(1)] assms(2) obtain t where
    "myproc s = Ret (Some q) t" "lk L t" "kcore s t" "pt.more t = pt.more s" by auto
  then show ?thesis by (simp add: mykilled_def kcoreD(5))
qed

text \<open>After a \<open>wakeup\<close> no process sleeps on the channel.\<close>

definition no_sleeper :: "chan \<Rightarrow> 'a pt_scheme \<Rightarrow> bool" where
  "no_sleeper ch s \<longleftrightarrow> (\<forall>q < NPROC. \<not> (p_state (procs s q) = SLEEPING \<and> p_chan (procs s q) = Some ch))"

lemma procs_release: "release l s = Ret () t \<Longrightarrow> procs t = procs s"
  by (auto simp: release_def holding_def pushcli_def popcli_def mycpu_def mach_upd_defs cli_def sti_def Let_def
      split: if_splits option.splits)

lemma wakeup_no_sleeper: "wakeup ch s = Ret () t \<Longrightarrow> no_sleeper ch t"
proof -
  assume "wakeup ch s = Ret () t"
  then obtain u where "release PtableLock (wakeup1 (Some ch) u) = Ret () t" by (auto simp: wakeup_def)
  then have "procs t = procs (wakeup1 (Some ch) u)" by (rule procs_release)
  moreover have "p_chan (procs (wakeup1 (Some ch) u) q) = p_chan (procs u q)" for q
    using pcore_eqD(8) [OF sched_frameD(16) [OF sched_frame_wakeup1]] .
  ultimately show ?thesis using pstate_wakeup1 [of "Some ch" u] by (auto simp: no_sleeper_def pstate_def)
qed

text \<open>
  \<open>pwrote\<close> describes a run of \<open>pipewrite_from\<close> that finds \<open>x\<close> in the pipe and has \<open>bs\<close> to write: as
  many bytes as fit are appended.
\<close>

definition pfit :: "nat \<Rightarrow> pipe \<Rightarrow> nat" where
  "pfit k x = min k (512 - length (pbytes x))"

definition pwrote :: "uint \<Rightarrow> uchar list \<Rightarrow> 'a ps_scheme \<Rightarrow> 'a ps_scheme \<Rightarrow> bool" where
  "pwrote p w s t \<longleftrightarrow> kcore s t \<and> pipes t = (pipes s)(p := fold pipe_push w (pipes s p)) \<and>
     pipe_ok (pipes t p) \<and> pbytes (pipes t p) = pbytes (pipes s p) @ w"

lemma pwrote_Nil:
  assumes "kcore s t" and "pipes t = pipes s" and "pipe_ok (pipes s p)"
  shows "pwrote p [] s t"
  using assms by (auto simp: pwrote_def)

lemma pwrote_Cons:
  assumes "pwrote p w (pipe_upd p (pipe_push c) s) t" and "pipe_ok (pipes s p)" and "\<not> pipe_full (pipes s p)"
  shows "pwrote p (c # w) s t"
  using assms pq.put_law [OF assms(2,3), of c] kcore_trans [OF sel_pipe_upd(2) [of s p "pipe_push c"]]
  by (auto simp: pwrote_def)

lemma push_fields [simp]:
  "pp_readopen (pipe_push c x) = pp_readopen x" "pp_writeopen (pipe_push c x) = pp_writeopen x"
  "pp_nread (pipe_push c x) = pp_nread x"
  by (simp_all add: pipe_push_def)

definition pw_stop :: "uint \<Rightarrow> nat \<Rightarrow> 'a ps_scheme \<Rightarrow> bool" where
  "pw_stop p q s \<longleftrightarrow> \<not> pp_readopen (pipes s p) \<or> p_killed (procs s q)"

lemma pw_stop_push [simp]: "pw_stop p q (pipe_upd p (pipe_push c) s) = pw_stop p q s"
  by (simp add: pw_stop_def)

lemma pipewrite_full:
  assumes lk: "lk [PipeLock p] s" and q: "curp s = Some q" and ok: "pipe_ok (pipes s p)" and full: "pipe_full (pipes s p)"
  shows "\<exists>t. pipewrite_from p addr n (Suc k) i s = Ret (if pw_stop p q s then Inl (- 1) else Inr i) t \<and>
    pwrote p [] s t \<and> lk (if pw_stop p q s then [] else [PipeLock p]) t \<and>
    (pw_stop p q s \<or> no_sleeper (ChanPipeRead p) t)"
proof -
  have "\<exists>u. (if \<not> pp_readopen (pipes s p) then Ret True s else mykilled s) = Ret (pw_stop p q s) u \<and>
      lk [PipeLock p] u \<and> kcore s u \<and> pipes u = pipes s"
    using lk_mykilled [OF lk q] lk by (auto simp: pw_stop_def dest: pipes_more)
  then obtain u where u: "(if \<not> pp_readopen (pipes s p) then Ret True s else mykilled s) = Ret (pw_stop p q s) u"
    "lk [PipeLock p] u" "kcore s u" "pipes u = pipes s" by blast
  show ?thesis
  proof (cases "pw_stop p q s")
    case True
    from lk_release [OF u(2), of "PipeLock p"] obtain t where
      t: "release (PipeLock p) u = Ret () t" "lk [] t" "kcore u t" "pt.more t = pt.more u" by auto
    have "pwrote p [] s t"
      using pwrote_Nil [OF kcore_trans [OF u(3) t(3)] _ ok] pipes_more [OF t(4)] u(4) by simp
    then show ?thesis using u(1) t(1,2) True full by (auto simp: pipe_full_def)
  next
    case False
    from lk_wakeup [OF u(2), of "ChanPipeRead p"] obtain t where
      t: "wakeup (ChanPipeRead p) u = Ret () t" "lk [PipeLock p] t" "kcore u t" "pt.more t = pt.more u" by auto
    have "pwrote p [] s t"
      using pwrote_Nil [OF kcore_trans [OF u(3) t(3)] _ ok] pipes_more [OF t(4)] u(4) by simp
    then show ?thesis using u(1) t(1,2) False full wakeup_no_sleeper [OF t(1)] by (auto simp: pipe_full_def)
  qed
qed

lemma pipewrite_from_spec:
  assumes "lk [PipeLock p] s" and "curp s = Some q" and "pipe_ok (pipes s p)"
    and "vread (addr + of_nat i) k s = Ret bs s"
  shows "\<exists>t. pipewrite_from p addr n k i s =
      Ret (if pfit k (pipes s p) = k then Inl n else if pw_stop p q s then Inl (- 1) else Inr (i + pfit k (pipes s p))) t \<and>
    pwrote p (take (pfit k (pipes s p)) bs) s t \<and>
    lk (if pfit k (pipes s p) = k \<or> pw_stop p q s then [] else [PipeLock p]) t \<and>
    (pw_stop p q s \<and> pfit k (pipes s p) < k \<or> no_sleeper (ChanPipeRead p) t)"
  using assms
proof (induction k arbitrary: i s bs)
  case 0
  from lk_wakeup [OF 0(1), of "ChanPipeRead p"] obtain u where
    u: "wakeup (ChanPipeRead p) s = Ret () u" "lk [PipeLock p] u" "kcore s u" "pt.more u = pt.more s" by auto
  from lk_release [OF u(2), of "PipeLock p"] obtain t where
    t: "release (PipeLock p) u = Ret () t" "lk [] t" "kcore u t" "pt.more t = pt.more u" by auto
  have "pwrote p [] s t"
    using pwrote_Nil [OF kcore_trans [OF u(3) t(3)] _ 0(3)] pipes_more [of t s] t(4) u(4) by simp
  moreover have "no_sleeper (ChanPipeRead p) t"
    using wakeup_no_sleeper [OF u(1)] procs_release [OF t(1)] by (simp add: no_sleeper_def)
  ultimately show ?case using u(1) t(1,2) by (simp add: pfit_def)
next
  case (Suc k)
  note full_law = pq.full_law [OF Suc.prems(3)]
  show ?case
  proof (cases "pipe_full (pipes s p)")
    case True
    then have "pfit (Suc k) (pipes s p) = 0" using full_law by (simp add: pfit_def)
    then show ?thesis using pipewrite_full [OF Suc.prems(1-3) True, of addr n k i] by (auto split: if_splits)
  next
    case False
    from Suc.prems(4) obtain c bs' where
      r: "ld8 (addr + of_nat i) s = Ret c s" "vread (addr + of_nat i + 1) k s = Ret bs' s" "bs = c # bs'"
      by (rule vread_SucE)
    let ?s = "pipe_upd p (pipe_push c) s"
    note put = pq.put_law [OF Suc.prems(3) False, of c]
    have len: "length (pbytes (pipes s p)) < 512"
      using False full_law pq.bound_law [OF Suc.prems(3)] by linarith
    then have fit: "pfit (Suc k) (pipes s p) = Suc (pfit k (pipes ?s p))" using put by (simp add: pfit_def)
    have "vread (addr + of_nat (Suc i)) k ?s = Ret bs' ?s"
      using vread_same_map [OF same_map_kcore [OF sel_pipe_upd(2)] r(2)] by (simp add: ac_simps)
    from Suc.IH [OF _ _ _ this] Suc.prems(1-3) put obtain t where
      t: "pipewrite_from p addr n k (Suc i) ?s =
        Ret (if pfit k (pipes ?s p) = k then Inl n else if pw_stop p q ?s then Inl (- 1) else Inr (Suc i + pfit k (pipes ?s p))) t"
      "pwrote p (take (pfit k (pipes ?s p)) bs') ?s t"
      "lk (if pfit k (pipes ?s p) = k \<or> pw_stop p q ?s then [] else [PipeLock p]) t"
      "pw_stop p q ?s \<and> pfit k (pipes ?s p) < k \<or> no_sleeper (ChanPipeRead p) t" by auto
    have "pipewrite_from p addr n (Suc k) i s = pipewrite_from p addr n k (Suc i) ?s"
      using False r(1) by (simp add: pipe_full_def)
    moreover have "pwrote p (take (pfit (Suc k) (pipes s p)) bs) s t"
      using pwrote_Cons [OF t(2) Suc.prems(3) False] r(3) fit by simp
    ultimately show ?thesis using t(1,3,4) fit by auto
  qed
qed

section \<open>Reading\<close>

lemma st8_pipe_upd: "st8 va c s = Ret () t \<Longrightarrow> st8 va c (pipe_upd p f s) = Ret () (pipe_upd p f t)"
  by (auto simp: st8_def pipe_upd_def vtrans_def Let_def split: option.splits if_splits)

lemma vwrite_pipe_upd: "vwrite va bs s = Ret () t \<Longrightarrow> vwrite va bs (pipe_upd p f s) = Ret () (pipe_upd p f t)"
proof (induction bs arbitrary: va s)
  case (Cons b bs)
  from Cons.prems obtain u where "st8 va b s = Ret () u" "vwrite (va + 1) bs u = Ret () t" by auto
  with st8_pipe_upd [of va b s u p f] Cons.IH [of "va + 1" u] show ?case by simp
qed simp

lemma vwrite_pipes: "vwrite va bs s = Ret () t \<Longrightarrow> pipes t = pipes s"
  using vwrite_frame by fastforce

lemma pipe_upd_collapse [simp]:
  "pipe_upd p (\<lambda>_. y) (pipe_upd p (\<lambda>_. x) s) = pipe_upd p (\<lambda>_. y) s" "pipe_upd p (\<lambda>_. pipes s p) s = s"
  by (simp_all add: pipe_upd_def)

lemma piperead_copy_spec:
  assumes "pipe_ok (pipes s p)" and "vwrite (addr + of_nat i) (take k (pbytes (pipes s p))) s = Ret () s1"
  shows "\<exists>y. piperead_copy p addr k i s = Ret (i + min k (length (pbytes (pipes s p)))) (pipe_upd p (\<lambda>_. y) s1) \<and>
    pipe_ok y \<and> pbytes y = drop k (pbytes (pipes s p)) \<and> pp_readopen y = pp_readopen (pipes s p) \<and>
    pp_writeopen y = pp_writeopen (pipes s p)"
  using assms
proof (induction k arbitrary: i s s1)
  case 0
  then show ?case by (intro exI [of _ "pipes s p"]) simp
next
  case (Suc k)
  let ?x = "pipes s p"
  show ?case
  proof (cases "pipe_void ?x")
    case True
    with pq.void_law [OF Suc.prems(1)] Suc.prems show ?thesis
      by (intro exI [of _ ?x]) (simp add: pipe_void_def)
  next
    case False
    obtain c y where pop: "pipe_pop ?x = (c, y)" by (cases "pipe_pop ?x")
    note g = pq.get_law [OF Suc.prems(1) False, unfolded pop fst_conv snd_conv]
    from Suc.prems(2) g obtain s2 where
      s2: "st8 (addr + of_nat i) c s = Ret () s2" "vwrite (addr + of_nat i + 1) (take k (pbytes y)) s2 = Ret () s1"
      by auto
    let ?s3 = "pipe_upd p (\<lambda>_. y) s2"
    have "vwrite (addr + of_nat (Suc i)) (take k (pbytes y)) ?s3 = Ret () (pipe_upd p (\<lambda>_. y) s1)"
      using vwrite_pipe_upd [OF s2(2)] by (simp add: ac_simps)
    then have "vwrite (addr + of_nat (Suc i)) (take k (pbytes (pipes ?s3 p))) ?s3 = Ret () (pipe_upd p (\<lambda>_. y) s1)" by simp
    moreover have "pipe_ok (pipes ?s3 p)" using g by simp
    ultimately obtain z where
      z: "piperead_copy p addr k (Suc i) ?s3 = Ret (Suc i + min k (length (pbytes y))) (pipe_upd p (\<lambda>_. z) s1)"
      "pipe_ok z" "pbytes z = drop k (pbytes y)" "pp_readopen z = pp_readopen y" "pp_writeopen z = pp_writeopen y"
      using Suc.IH [of ?s3 "Suc i" "pipe_upd p (\<lambda>_. y) s1"] by auto
    have "piperead_copy p addr (Suc k) i s = piperead_copy p addr k (Suc i) ?s3"
      using False pop st8_pipe_upd [OF s2(1), of p "\<lambda>_. y"] by (simp add: pipe_void_def)
    moreover have "pp_readopen y = pp_readopen ?x" "pp_writeopen y = pp_writeopen ?x"
      using pop by (auto simp: pipe_pop_def)
    ultimately show ?thesis using z g by auto
  qed
qed

text \<open>The state after a reader has taken its bytes: \<open>s1\<close> is the state with them written to its memory.\<close>

definition ptook :: "uint \<Rightarrow> pipe \<Rightarrow> 'a ps_scheme \<Rightarrow> 'a ps_scheme \<Rightarrow> bool" where
  "ptook p y s1 t \<longleftrightarrow> kcore s1 t \<and> pipes t = (pipes s1)(p := y)"

lemma piperead_from_spec:
  assumes lk: "lk [PipeLock p] s" and "pipe_ok (pipes s p)"
    and w: "vwrite addr (take (nat n) (pbytes (pipes s p))) s = Ret () s1"
    and go: "\<not> pipe_void (pipes s p) \<or> \<not> pp_writeopen (pipes s p)"
  shows "\<exists>t y. piperead_from p addr n s = Ret (Inl (int (min (nat n) (length (pbytes (pipes s p)))))) t \<and>
    ptook p y s1 t \<and> pipe_ok y \<and> pbytes y = drop (nat n) (pbytes (pipes s p)) \<and> lk [] t \<and>
    no_sleeper (ChanPipeWrite p) t"
proof -
  from piperead_copy_spec [OF assms(2), of addr 0 "nat n" s1] w obtain y where
    y: "piperead_copy p addr (nat n) 0 s =
        Ret (min (nat n) (length (pbytes (pipes s p)))) (pipe_upd p (\<lambda>_. y) s1)"
      "pipe_ok y" "pbytes y = drop (nat n) (pbytes (pipes s p))" by auto
  let ?u = "pipe_upd p (\<lambda>_. y) s1"
  from vwrite_frame [OF w] obtain m where "s1 = s\<lparr>k_mem := m\<rparr>" by blast
  then have "lk [PipeLock p] ?u" using lk by simp
  from lk_wakeup [OF this, of "ChanPipeWrite p"] obtain v where
    v: "wakeup (ChanPipeWrite p) ?u = Ret () v" "lk [PipeLock p] v" "kcore ?u v" "pt.more v = pt.more ?u" by auto
  from lk_release [OF v(2), of "PipeLock p"] obtain t where
    t: "release (PipeLock p) v = Ret () t" "lk [] t" "kcore v t" "pt.more t = pt.more v" by auto
  have "ptook p y s1 t"
    using kcore_trans [OF sel_pipe_upd(2) kcore_trans [OF v(3) t(3)]] pipes_more [of t ?u] t(4) v(4)
    by (simp add: ptook_def)
  moreover have "no_sleeper (ChanPipeWrite p) t"
    using wakeup_no_sleeper [OF v(1)] procs_release [OF t(1)] by (simp add: no_sleeper_def)
  ultimately show ?thesis using y v(1) t(1,2) go by (auto simp: piperead_from_def pipe_void_def)
qed

lemma piperead_waits:
  assumes lk: "lk [PipeLock p] s" and q: "curp s = Some q" and "pipe_void (pipes s p)" and "pp_writeopen (pipes s p)"
  shows "\<exists>t. piperead_from p addr n s = Ret (if p_killed (procs s q) then Inl (- 1) else Inr ()) t \<and>
    kcore s t \<and> pipes t = pipes s \<and> lk (if p_killed (procs s q) then [] else [PipeLock p]) t"
proof -
  from lk_mykilled [OF lk q] obtain u where
    u: "mykilled s = Ret (p_killed (procs s q)) u" "lk [PipeLock p] u" "kcore s u" "pt.more u = pt.more s" by blast
  from lk_release [OF u(2), of "PipeLock p"] obtain t where
    t: "release (PipeLock p) u = Ret () t" "lk [] t" "kcore u t" "pt.more t = pt.more u" by auto
  show ?thesis
    using u t kcore_trans [OF u(3) t(3)] pipes_more [OF u(4)] pipes_more [OF t(4)] assms(3,4)
    by (auto simp: piperead_from_def pipe_void_def)
qed

section \<open>Properties\<close>

text \<open>
  C10. First in, first out: whatever the order of insertions and removals that the reader and the writer
  make under the lock of the pipe, the bytes delivered, followed by the bytes still in the buffer,
  are the initial contents followed by the bytes accepted; the buffer never holds more than 512 bytes.
  This includes runs in which the 32-bit counters overflow.
\<close>

theorem pipe_fifo:
  assumes "pipe_ok x" and "queue_run pipe_full pipe_void pipe_push pipe_pop ops x = (accepted, delivered, y)"
  shows "pipe_ok y \<and> length (pbytes y) \<le> 512 \<and> delivered @ pbytes y = pbytes x @ accepted"
  using pq.qrun_fifo [OF assms] pq.bound_law by blast

definition wrap_pipe :: pipe where
  "wrap_pipe = no_pipe\<lparr>pp_nread := 0xFFFFFFFF, pp_nwrite := 0xFFFFFFFF\<rparr>"

theorem pipe_fifo_witness:
  "pipe_ok wrap_pipe \<and> pbytes wrap_pipe = [] \<and>
   fst (snd (queue_run pipe_full pipe_void pipe_push pipe_pop [QPut 10, QPut 20, QPut 30, QGet, QGet] wrap_pipe)) = [10, 20]"
proof -
  have e: "pipe_ok wrap_pipe" "pbytes wrap_pipe = []"
    by (simp_all add: wrap_pipe_def no_pipe_def pipe_ok_def rbuf_ok_def pbytes_def rbytes_def)
  obtain a d y where
    r: "queue_run pipe_full pipe_void pipe_push pipe_pop [QPut 10, QPut 20, QPut 30, QGet, QGet] wrap_pipe = (a, d, y)"
    by (metis surj_pair)
  have "a = [10, 20, 30]" "length d = 2"
    using r by (auto simp: wrap_pipe_def no_pipe_def pipe_full_def pipe_void_def pipe_push_def pipe_pop_def)
  with pipe_fifo [OF e(1) r] e(2) have "d @ pbytes y = [10, 20, 30]" and "length d = 2" by simp_all
  then have "d = [10, 20]" by (metis append_eq_conv_conj take_Suc_Cons take_0 numeral_2_eq_2)
  then show ?thesis using e r by simp
qed

text \<open>
  C11. \<open>pipewrite\<close>, on every path.  It appends as many of the bytes at \<open>addr\<close> as fit, in order, and
  touches no other pipe and no memory.  If all fit it returns \<open>n\<close>; otherwise it returns \<open>-1\<close> if the
  read end is closed or the process has been killed, and waits for room if not.  Whenever it returns \<open>n\<close> or
  waits, no process is left sleeping for data in this pipe.
\<close>

theorem pipewrite_outcome:
  assumes lk: "lk [] s" and q: "curp s = Some q" and ok: "pipe_ok (pipes s p)" and v: "vread addr (nat n) s = Ret bs s"
  shows "\<exists>t m. m = min (nat n) (512 - length (pbytes (pipes s p))) \<and>
    pipewrite p addr n s =
      (if m = nat n then Ret n t
       else if \<not> pp_readopen (pipes s p) \<or> p_killed (procs s q) then Ret (- 1) t
       else Sleeps (ChanPipeWrite p) (PipeLock p) t) \<and>
    pipe_ok (pipes t p) \<and> pbytes (pipes t p) = pbytes (pipes s p) @ take m bs \<and>
    (\<forall>r. r \<noteq> p \<longrightarrow> pipes t r = pipes s r) \<and> k_mem t = k_mem s \<and>
    (m = nat n \<or> pp_readopen (pipes s p) \<and> \<not> p_killed (procs s q) \<longrightarrow> no_sleeper (ChanPipeRead p) t)"
proof -
  from lk_acquire [OF lk, of "PipeLock p"] obtain u where
    u: "acquire (PipeLock p) s = Ret () u" "lk [PipeLock p] u" "kcore s u" "pt.more u = pt.more s" by auto
  have pu: "pipes u = pipes s" by (rule pipes_more [OF u(4)])
  have st: "pw_stop p q u \<longleftrightarrow> \<not> pp_readopen (pipes s p) \<or> p_killed (procs s q)"
    using pu kcoreD(5) [OF u(3)] by (simp add: pw_stop_def)
  let ?m = "pfit (nat n) (pipes s p)"
  have "vread (addr + of_nat 0) (nat n) u = Ret bs u" using vread_same_map [OF same_map_kcore [OF u(3)] v] by simp
  from pipewrite_from_spec [OF u(2) _ _ this, of q n] kcoreD(2) [OF u(3)] q ok pu obtain t where
    t: "pipewrite_from p addr n (nat n) 0 u =
        Ret (if ?m = nat n then Inl n else if pw_stop p q u then Inl (- 1) else Inr ?m) t"
      "pwrote p (take ?m bs) u t" "pw_stop p q u \<and> ?m < nat n \<or> no_sleeper (ChanPipeRead p) t" by auto
  have w: "kcore u t" "pipes t = (pipes s)(p := fold pipe_push (take ?m bs) (pipes s p))"
    "pipe_ok (pipes t p)" "pbytes (pipes t p) = pbytes (pipes s p) @ take ?m bs"
    using t(2) pu by (auto simp: pwrote_def)
  have "pipewrite p addr n s =
      (if ?m = nat n then Ret n t else if pw_stop p q u then Ret (- 1) t else Sleeps (ChanPipeWrite p) (PipeLock p) t)"
    using u(1) t(1) by (simp add: pipewrite_def)
  moreover have "k_mem t = k_mem s" using kcoreD(1) [OF u(3)] kcoreD(1) [OF w(1)] by simp
  moreover have "?m = nat n \<or> \<not> pw_stop p q u \<longrightarrow> no_sleeper (ChanPipeRead p) t" using t(3) by auto
  ultimately show ?thesis using w(2-4) by (intro exI [of _ t] exI [of _ ?m]) (auto simp: pfit_def st)
qed

theorem pipewrite_outcome_witness:
  "\<exists>t. pipewrite 0x80400000 0x80500000 3 con0 = Ret 3 t \<and> pbytes (pipes t 0x80400000) = [0, 0, 0]"
proof -
  have v: "vread 0x80500000 (nat 3) con0 = Ret [0, 0, 0] con0"
    by (simp add: numeral_3_eq_3 ld8_def vtrans_def) (simp add: con0_def)
  have e: "pipe_ok (pipes con0 p)" "pbytes (pipes con0 p) = []" for p
    by (simp_all add: con0_def no_pipe_def pipe_ok_def rbuf_ok_def pbytes_def rbytes_def)
  show ?thesis using pipewrite_outcome [OF lk_con0 e(1) [of "0x80400000"] v] e(2) [of "0x80400000"] by auto
qed

text \<open>
  C12. \<open>piperead\<close>, on every path.  Here \<open>s1\<close> is the state in which the first \<open>n\<close> bytes of the pipe (all, if
  there are fewer) have been written to memory at \<open>addr\<close>.  If the pipe is empty and its write end is
  open, the call waits, or returns \<open>-1\<close> if the process has been killed.  Otherwise it removes these bytes from
  the pipe, stores them at \<open>addr\<close>, returns their number, which is 0 only at the end of the data, and leaves
  no process sleeping for room in this pipe.
\<close>

theorem piperead_outcome:
  assumes lk: "lk [] s" and q: "curp s = Some q" and ok: "pipe_ok (pipes s p)"
    and w: "vwrite addr (take (nat n) (pbytes (pipes s p))) s = Ret () s1"
  shows "\<exists>t. if pbytes (pipes s p) = [] \<and> pp_writeopen (pipes s p)
    then piperead p addr n s = (if p_killed (procs s q) then Ret (- 1) t else Sleeps (ChanPipeRead p) (PipeLock p) t) \<and>
      pipes t = pipes s \<and> k_mem t = k_mem s
    else piperead p addr n s = Ret (int (min (nat n) (length (pbytes (pipes s p))))) t \<and> pipe_ok (pipes t p) \<and>
      pbytes (pipes t p) = drop (nat n) (pbytes (pipes s p)) \<and> (\<forall>r. r \<noteq> p \<longrightarrow> pipes t r = pipes s r) \<and>
      k_mem t = k_mem s1 \<and> no_sleeper (ChanPipeWrite p) t"
proof -
  from lk_acquire [OF lk, of "PipeLock p"] obtain u where
    u: "acquire (PipeLock p) s = Ret () u" "lk [PipeLock p] u" "kcore s u" "pt.more u = pt.more s" by auto
  have pu: "pipes u = pipes s" by (rule pipes_more [OF u(4)])
  have void: "pipe_void (pipes u p) \<longleftrightarrow> pbytes (pipes s p) = []" using pq.void_law [OF ok] pu by simp
  show ?thesis
  proof (cases "pbytes (pipes s p) = [] \<and> pp_writeopen (pipes s p)")
    case True
    with piperead_waits [OF u(2), of q addr n] void pu kcoreD(2) [OF u(3)] q obtain t where
      t: "piperead_from p addr n u = Ret (if p_killed (procs u q) then Inl (- 1) else Inr ()) t" "kcore u t"
        "pipes t = pipes u" by auto
    have "piperead p addr n s = (if p_killed (procs s q) then Ret (- 1) t else Sleeps (ChanPipeRead p) (PipeLock p) t)"
      using u(1) t(1) kcoreD(5) [OF u(3)] by (simp add: piperead_def)
    with True t(3) pu kcoreD(1) [OF u(3)] kcoreD(1) [OF t(2)] show ?thesis by auto
  next
    case False
    let ?u1 = "u\<lparr>k_mem := k_mem s1\<rparr>"
    have "vwrite addr (take (nat n) (pbytes (pipes u p))) u = Ret () ?u1"
      using vwrite_same_map [OF same_map_kcore [OF u(3)] w] pu by simp
    from piperead_from_spec [OF u(2) _ this] ok pu void False obtain t y where
      t: "piperead_from p addr n u = Ret (Inl (int (min (nat n) (length (pbytes (pipes s p)))))) t"
        "ptook p y ?u1 t" "pipe_ok y" "pbytes y = drop (nat n) (pbytes (pipes s p))" "no_sleeper (ChanPipeWrite p) t"
      by auto
    have "piperead p addr n s = Ret (int (min (nat n) (length (pbytes (pipes s p))))) t"
      using u(1) t(1) by (simp add: piperead_def)
    moreover have "k_mem t = k_mem s1" "pipes t = (pipes s)(p := y)"
      using t(2) pu kcoreD(1) [of ?u1 t] by (simp_all add: ptook_def)
    ultimately show ?thesis using False t(3-5) by (intro exI [of _ t]) simp
  qed
qed

theorem piperead_outcome_witness:
  "\<exists>t. piperead 0x80400000 0x80500000 8 (pipe_upd 0x80400000 (\<lambda>x. pipe_push 5 (x\<lparr>pp_writeopen := False\<rparr>)) con0) = Ret 1 t \<and>
     k_mem t 0x80500000 = 5 \<and> pbytes (pipes t 0x80400000) = []"
proof -
  let ?p = "0x80400000 :: uint"
  let ?s = "pipe_upd ?p (\<lambda>x. pipe_push 5 (x\<lparr>pp_writeopen := False\<rparr>)) con0"
  have x: "pipes ?s ?p = pipe_push 5 (no_pipe\<lparr>pp_writeopen := False\<rparr>)" by (simp add: con0_def)
  have e: "pipe_ok (no_pipe\<lparr>pp_writeopen := False\<rparr>)" "pbytes (no_pipe\<lparr>pp_writeopen := False\<rparr>) = []"
    "\<not> pipe_full (no_pipe\<lparr>pp_writeopen := False\<rparr>)"
    by (simp_all add: no_pipe_def pipe_ok_def rbuf_ok_def pbytes_def rbytes_def pipe_full_def)
  have c: "pipe_ok (pipes ?s ?p)" "pbytes (pipes ?s ?p) = [5]"
    using pq.put_law [OF e(1,3), of 5] e(2) x by simp_all
  have w: "vwrite 0x80500000 (take (nat 8) (pbytes (pipes ?s ?p))) ?s = Ret () (?s\<lparr>k_mem := (k_mem ?s)(0x80500000 := 5)\<rparr>)"
    using c(2) by (simp add: st8_def)
  show ?thesis using piperead_outcome [OF _ _ c(1) w, of 1] c(2) by auto
qed

end
