(* ===== verification/Fs_Trans.thy ===== *)
theory Fs_Trans
  imports Fs Log_Trans
begin

text \<open>
  Steps of a file-system call inside a transaction: reading, changing and releasing blocks while
  other blocks may be held, and the block allocator of \<^verbatim>\<open>kernel/fs.c\<close> on top of them.
\<close>

section \<open>Steps on blocks\<close>

text \<open>
  \<open>tr s bs H\<close>: the log header lists the blocks \<open>bs\<close>, which are the pinned ones, the blocks of \<open>H\<close> are
  held, and a held block that is not in the log has the contents of the disk.
\<close>

definition tr :: "'a lg_scheme \<Rightarrow> uint list \<Rightarrow> (nat \<times> uint) set \<Rightarrow> bool" where
  "tr s bs H \<longleftrightarrow> bok s \<and> bheld s = H \<and> finite H \<and> entries s bs \<and> bdirty s = set bs \<and> distinct bs \<and>
     (\<forall>(i, b) \<in> H. b \<in> set bs \<or> bview s b = memdisk s b)"

text \<open>\<open>room s bs k\<close>: a transaction is open and \<open>k\<close> more blocks can be logged.\<close>

definition room :: "'a lg_scheme \<Rightarrow> uint list \<Rightarrow> nat \<Rightarrow> bool" where
  "room s bs k \<longleftrightarrow> 1 \<le> lg_outstanding s \<and> length bs + k \<le> 29 \<and> int (length bs + k) < lg_size s"

lemma room_mono: "room s bs k \<Longrightarrow> j \<le> k \<Longrightarrow> room s bs j"
  by (simp add: room_def)

lemma room_step: "room s bs k \<Longrightarrow> lsame s t \<Longrightarrow> length cs + j \<le> length bs + k \<Longrightarrow> room t cs j"
  by (simp add: room_def lsame_def)

lemma lsame_refl [simp]: "lsame s s"
  by (simp add: lsame_def)

lemma lg_more_fs:
  assumes "lg.more t = lg.more s"
  shows "fs_sb t = fs_sb s" "inodes t = inodes s"
  using assms by (cases s, cases t, simp)+

lemma lsame_fs:
  assumes "lsame s t"
  shows "fs_sb t = fs_sb s" "inodes t = inodes s" "disksize t = disksize s"
  using assms lg_more_fs [of t s] by (simp_all add: lsame_def)

lemma length_log_add: "length (log_add b bs) \<le> length bs + 1" "set (log_add b bs) = insert b (set bs)"
  by (auto simp: log_add_def)

lemma trD:
  assumes "tr s bs H"
  shows "bok s" "bheld s = H" "finite H" "entries s bs" "bdirty s = set bs" "distinct bs"
  using assms by (simp_all add: tr_def)

lemma tr_view_length: "tr s bs H \<Longrightarrow> length (bview s b) = BSIZE"
  by (rule bio.view_length [OF trD(1)])

lemma tr_bread:
  assumes t: "tr s bs H" and b: "int (unat b) < disksize s" "b \<notin> snd ` H" and n: "length bs + card H < NBUF"
  shows "\<exists>i t. bread 1 b s = Ret i t \<and> tr t bs (insert (i, b) H) \<and> i \<notin> fst ` H \<and> bview t = bview s \<and>
    b_data (bufs t i) = bview s b \<and> lsame s t"
proof -
  have "card (set bs \<union> snd ` H) \<le> card (set bs) + card (snd ` H)" by (rule card_Un_le)
  also have "\<dots> \<le> length bs + card H" using card_image_le [of H snd] card_length [of bs] trD [OF t] by simp
  finally have c: "card (bdirty s \<union> snd ` bheld s) < NBUF" using n trD [OF t] by simp
  have h: "b \<notin> snd ` bheld s" using b(2) trD(2) [OF t] by simp
  from bio.bread [OF trD(1) [OF t] b(1) h] c obtain i u where
    u: "bread 1 b s = Ret i u" "bok u" "bsame s u" "bview u = bview s" "memdisk u = memdisk s"
      "bdirty u = bdirty s" "bheld u = insert (i, b) H" "i \<notin> fst ` H" using trD [OF t] by auto
  have e: "entries u bs" using trD(4) [OF t] bsame_lg(3) [OF u(3)] by (simp add: entries_def)
  have cl: "b \<in> set bs \<or> bview s b = memdisk s b" using bio.clean [OF trD(1) [OF t] _ h] trD(5) [OF t] by auto
  have d: "b_data (bufs u i) = bview s b" using bio.contents [OF u(2), of i b] u(4,7) by simp
  have "tr u bs (insert (i, b) H)"
    using t u e cl by (auto simp: tr_def)
  with u d bsame_lsame [OF u(3)] show ?thesis by blast
qed

lemma tr_log_write:
  assumes t: "tr s bs H" and i: "(i, b) \<in> H" and d: "length d = BSIZE" and r: "room s bs 1"
  shows "\<exists>t. log_write i (set_data i d s) = Ret () t \<and> tr t (log_add b bs) H \<and> bview t = (bview s)(b := d) \<and> lsame s t"
proof -
  let ?v = "set_data i d s"
  have h: "(i, b) \<in> bheld s" using i trD(2) [OF t] by simp
  note S = set_data_law [OF trD(1) [OF t] h d]
  have v: "bok ?v" "bsame s ?v" "(i, b) \<in> bheld ?v" using S h by simp_all
  note L = bsame_lg [OF v(2)] bsame_lsame [OF v(2)]
  have ev: "entries ?v bs" "length bs < 30" "int (length bs) < lg_size ?v - 1" "1 \<le> lg_outstanding ?v"
    using trD(4) [OF t] r L by (simp_all add: entries_def room_def lsame_def)
  from log_write_spec [OF v(1,3) ev] obtain w where
    w: "log_write i ?v = Ret () w" "bok w" "entries w (log_add b bs)" "bheld w = bheld ?v" "bview w = bview ?v"
      "memdisk w = memdisk ?v" "bdirty w = insert b (bdirty ?v)" "lsame ?v w" by blast
  have "distinct (log_add b bs)" using trD(6) [OF t] by (simp add: log_add_def)
  then have "tr w (log_add b bs) H"
    using w S t by (auto simp: tr_def length_log_add)
  with w S lsame_trans [OF L(9) w(8)] show ?thesis by auto
qed

lemma tr_brelse:
  assumes t: "tr s bs H" and i: "(i, b) \<in> H"
  shows "\<exists>t. brelse i s = Ret () t \<and> tr t bs (H - {(i, b)}) \<and> bview t = bview s \<and> lsame s t"
proof -
  have c: "b \<in> bdirty s \<or> bview s b = memdisk s b" using t i by (auto simp: tr_def)
  from bio.brelse [OF trD(1) [OF t], of i b] i c trD(2) [OF t] obtain x where
    x: "brelse i s = Ret () x" "bok x" "bsame s x" "bview x = bview s" "memdisk x = memdisk s" "bdirty x = bdirty s"
      "bheld x = H - {(i, b)}" by auto
  have "entries x bs" using trD(4) [OF t] bsame_lg(3) [OF x(3)] by (simp add: entries_def)
  with x t have "tr x bs (H - {(i, b)})" by (auto simp: tr_def)
  with x bsame_lsame [OF x(3)] show ?thesis by blast
qed

lemma tr_held_uniq: "tr s bs H \<Longrightarrow> (i, b) \<in> H \<Longrightarrow> (i, c) \<in> H \<Longrightarrow> b = c"
  using bio.held_block by (auto simp: tr_def)

text \<open>The common form: a block is read, its data changed and logged, and it is released.\<close>

lemma tr_update:
  assumes t: "tr s bs H" and b: "int (unat b) < disksize s" "b \<notin> snd ` H" and c: "card H \<le> 1" and r: "room s bs 1"
    and f: "length (f (bview s b)) = BSIZE"
  shows "\<exists>t. bindK (bread 1 b s) (\<lambda>i s. bindK (log_write i (data_upd i f s)) (\<lambda>_ s. brelse i s)) = Ret () t \<and>
    tr t (log_add b bs) H \<and> bview t = (bview s)(b := f (bview s b)) \<and> lsame s t"
proof -
  have n: "length bs + card H < NBUF" using r c by (simp add: room_def)
  from tr_bread [OF t b n] obtain i u where
    u: "bread 1 b s = Ret i u" "tr u bs (insert (i, b) H)" "i \<notin> fst ` H" "bview u = bview s" "b_data (bufs u i) = bview s b"
      "lsame s u" by blast
  have ni: "(i, b) \<notin> H" using u(3) by force
  have lw: "\<exists>t. log_write i (data_upd i f u) = Ret () t \<and> tr t (log_add b bs) (insert (i, b) H) \<and>
      bview t = (bview u)(b := f (bview s b)) \<and> lsame u t"
    unfolding data_upd_def u(5)
  proof (rule tr_log_write [OF u(2)])
    show "room u bs 1" using r u(6) by (simp add: room_def lsame_def)
  qed (use f in auto)
  then obtain v where v: "log_write i (data_upd i f u) = Ret () v" "tr v (log_add b bs) (insert (i, b) H)"
      "bview v = (bview u)(b := f (bview s b))" "lsame u v" by blast
  from tr_brelse [OF v(2), of i b] ni obtain w where
    w: "brelse i v = Ret () w" "tr w (log_add b bs) H" "bview w = bview v" "lsame v w" by auto
  from u v w lsame_trans [OF u(6) lsame_trans [OF v(4) w(4)]] show ?thesis by auto
qed

section \<open>The free map\<close>

definition used :: "(uint \<Rightarrow> block) \<Rightarrow> superblock \<Rightarrow> nat \<Rightarrow> bool" where
  "used V sb b \<longleftrightarrow> \<not> bit_clear (V (BBLOCK (of_nat b) sb)) (b mod unat BPB)"

definition map_blocks :: "superblock \<Rightarrow> uint set" where
  "map_blocks sb = {BBLOCK (of_nat b) sb | b. b < unat (sb_size sb)}"

lemma bit_clear_bit: "bit_clear d i \<longleftrightarrow> \<not> bit (d ! (i div 8)) (i mod 8)"
  using and_exp_eq_0_iff_not_bit [of "d ! (i div 8)" "i mod 8"] by (simp add: bit_clear_def push_bit_eq_mult)

lemma bit_mark_clear:
  assumes "i < 8 * length d"
  shows "bit_clear (bit_mark i d) j \<longleftrightarrow> bit_clear d j \<and> j \<noteq> i"
proof (cases "j div 8 = i div 8")
  case True
  have i: "i div 8 < length d" using assms by (simp add: less_mult_imp_div_less)
  have "j mod 8 = i mod 8 \<longleftrightarrow> j = i" using True by (metis div_mult_mod_eq)
  moreover have "bit (push_bit (i mod 8) 1 :: uchar) (j mod 8) \<longleftrightarrow> j mod 8 = i mod 8"
    by (auto simp: bit_exp_iff)
  ultimately show ?thesis using True i by (simp add: bit_clear_bit bit_mark_def bit_or_iff)
next
  case False
  then show ?thesis by (auto simp: bit_clear_bit bit_mark_def)
qed

lemma length_bit_mark [simp]: "length (bit_mark i d) = length d"
  by (simp add: bit_mark_def)

lemma BBLOCK_nat: "b < 2 ^ 32 \<Longrightarrow> BBLOCK (of_nat b) sb = of_nat (b div unat BPB) + sb_bmapstart sb"
proof -
  assume b: "b < 2 ^ 32"
  then have "b div unat BPB < 2 ^ 32" by (rule le_less_trans [OF div_le_dividend])
  with b have "(of_nat b :: uint) div BPB = of_nat (b div unat BPB)"
    by (simp add: word_unat_eq_iff unat_div unat_of_nat)
  then show ?thesis by (simp add: BBLOCK_def)
qed

lemma find_append: "find P (xs @ ys) = (case find P xs of Some x \<Rightarrow> Some x | None \<Rightarrow> find P ys)"
  by (induction xs) auto

lemma find_map: "find P (map f xs) = map_option f (find (P \<circ> f) xs)"
  by (induction xs) auto

lemma find_upt: "k < n \<Longrightarrow> P k \<Longrightarrow> (\<And>j. j < k \<Longrightarrow> \<not> P j) \<Longrightarrow> find P [0..<n] = Some k"
  by (auto simp: find_Some_iff intro!: exI [of _ k])

lemma find_cong_set: "(\<And>x. x \<in> set xs \<Longrightarrow> P x = Q x) \<Longrightarrow> find P xs = find Q xs"
  by (induction xs) auto

lemma takeWhile_upt: "takeWhile (\<lambda>i. b + i < n) [0..<k] = [0..<min k (n - b)]"
proof (induction k)
  case (Suc k)
  show ?case
  proof (cases "k < n - b")
    case True
    with Suc show ?thesis by (simp add: takeWhile_append2 min_def)
  next
    case False
    then have "\<exists>i \<in> set [0..<k]. \<not> b + i < n \<or> k = n - b" if "n - b < k" using that by (intro bexI [of _ "n - b"]) auto
    with Suc False show ?thesis by (cases "n - b = k") (auto simp: takeWhile_append min_def)
  qed
qed simp

text \<open>What a successful allocation of block \<open>a\<close> does to the contents of the blocks.\<close>

definition alloc_eff :: "superblock \<Rightarrow> nat \<Rightarrow> (uint \<Rightarrow> block) \<Rightarrow> uint \<Rightarrow> block" where
  "alloc_eff sb a V = V(BBLOCK (of_nat a) sb := bit_mark (a mod unat BPB) (V (BBLOCK (of_nat a) sb)), of_nat a := replicate BSIZE 0)"

text \<open>
  The layout the allocator relies on: the file system fits on the disk, and block 0 and the blocks of
  the map are themselves marked as used.
\<close>

definition fs_geom :: "(uint \<Rightarrow> block) \<Rightarrow> superblock \<Rightarrow> int \<Rightarrow> bool" where
  "fs_geom V sb n \<longleftrightarrow> int (unat (sb_size sb)) \<le> n \<and> used V sb 0 \<and>
     (\<forall>b \<in> map_blocks sb. unat b < unat (sb_size sb) \<and> used V sb (unat b))"

lemma fs_geom_map: "fs_geom V sb n \<Longrightarrow> b < unat (sb_size sb) \<Longrightarrow> int (unat (BBLOCK (of_nat b) sb)) < n"
proof -
  assume a: "fs_geom V sb n" "b < unat (sb_size sb)"
  then have "BBLOCK (of_nat b) sb \<in> map_blocks sb" by (auto simp: map_blocks_def)
  with a(1) have "unat (BBLOCK (of_nat b) sb) < unat (sb_size sb)" "int (unat (sb_size sb)) \<le> n"
    unfolding fs_geom_def by blast+
  then show ?thesis by linarith
qed

text \<open>The bits of one map block, as block numbers.\<close>

lemma find_in_map:
  assumes n: "n \<le> 2 ^ 32" and b: "b = m * unat BPB" "b < n"
  shows "find (\<lambda>i. bit_clear (V (BBLOCK (of_nat b) sb)) i) (takeWhile (\<lambda>i. b + i < n) [0..<unat BPB]) =
    map_option (\<lambda>a. a - b) (find (\<lambda>a. \<not> used V sb a) [b..<min n (b + unat BPB)])"
proof -
  have u: "[b..<min n (b + unat BPB)] = map (\<lambda>i. b + i) [0..<min (unat BPB) (n - b)]"
  proof -
    have "min n (b + unat BPB) = min (unat BPB) (n - b) + b" using b(2) by linarith
    then show ?thesis using map_add_upt [of b "min (unat BPB) (n - b)"] by (simp add: add.commute)
  qed
  have "bit_clear (V (BBLOCK (of_nat b) sb)) i = (\<not> used V sb (b + i))" if "i < min (unat BPB) (n - b)" for i
  proof -
    have "(b + i) div unat BPB = b div unat BPB" "(b + i) mod unat BPB = i" using that b(1) by (auto simp: BPB_def)
    moreover have "b + i < 2 ^ 32" using that n by linarith
    ultimately show ?thesis using n b(2) by (simp add: used_def BBLOCK_nat del: of_nat_add)
  qed
  then have "find (\<lambda>i. bit_clear (V (BBLOCK (of_nat b) sb)) i) [0..<min (unat BPB) (n - b)] =
      find ((\<lambda>a. \<not> used V sb a) \<circ> (\<lambda>i. b + i)) [0..<min (unat BPB) (n - b)]"
    by (intro find_cong_set) auto
  then show ?thesis unfolding takeWhile_upt u find_map by (simp add: option.map_comp comp_def option.map_ident)
qed

lemma balloc_loop_spec:
  assumes g: "fs_geom (bview s) (fs_sb s) (disksize s)" and t: "tr s bs H" and r: "room s bs 2" and c: "card H \<le> 1"
    and h: "\<forall>b \<in> snd ` H. b \<notin> map_blocks (fs_sb s) \<and> used (bview s) (fs_sb s) (unat b)"
    and n: "n = unat (sb_size (fs_sb s))" and m: "m \<le> k" "k = (n + unat BPB - 1) div unat BPB"
  shows "case find (\<lambda>b. \<not> used (bview s) (fs_sb s) b) [m * unat BPB..<n] of
      None \<Rightarrow> balloc_loop 1 (map (\<lambda>k. k * unat BPB) [m..<k]) s = Panic ''balloc: out of blocks''
    | Some a \<Rightarrow> \<exists>u cs. balloc_loop 1 (map (\<lambda>k. k * unat BPB) [m..<k]) s = Ret (of_nat a) u \<and> tr u cs H \<and>
        length cs \<le> length bs + 2 \<and> set bs \<subseteq> set cs \<and> bview u = alloc_eff (fs_sb s) a (bview s) \<and> lsame s u"
  using g t r h n m
proof (induction "k - m" arbitrary: m s)
  case 0
  then have "n \<le> m * unat BPB" by (simp add: BPB_def)
  with 0 show ?case by simp
next
  case (Suc x)
  define b where "b = m * unat BPB"
  let ?V = "bview s" and ?sb = "fs_sb s"
  let ?B = "BBLOCK (of_nat b) ?sb" and ?P = "\<lambda>a. \<not> used ?V ?sb a"
  have mk: "m < k" using Suc(2) by simp
  then have bn: "b < n" using Suc(9) by (simp add: BPB_def b_def)
  have n32: "n \<le> 2 ^ 32" using Suc(7) unat_lt_32 [of "sb_size ?sb"] by simp
  have Bm: "?B \<in> map_blocks ?sb" using bn Suc(7) by (auto simp: map_blocks_def)
  have Bd: "int (unat ?B) < disksize s" by (rule fs_geom_map [OF Suc(3)]) (use bn Suc(7) in simp)
  have Bh: "?B \<notin> snd ` H" using Suc(6) Bm by blast
  have nb: "length bs + card H < NBUF" using Suc(5) c by (simp add: room_def)
  from tr_bread [OF Suc(4) Bd Bh nb] obtain i u where
    u: "bread 1 ?B s = Ret i u" "tr u bs (insert (i, ?B) H)" "i \<notin> fst ` H" "bview u = ?V" "b_data (bufs u i) = ?V ?B"
      "lsame s u" by blast
  have fu: "fs_sb u = ?sb" "disksize u = disksize s" using lsame_fs [OF u(6)] by simp_all
  have ni: "insert (i, ?B) H - {(i, ?B)} = H" using u(3) by force
  have spl: "[b..<n] = [b..<min n (b + unat BPB)] @ [(m + 1) * unat BPB..<n]"
  proof (cases "n \<le> b + unat BPB")
    case False
    then have "[b..<n] = [b..<b + unat BPB] @ [b + unat BPB..<n]"
      using upt_add_eq_append [of b "b + unat BPB" "n - (b + unat BPB)"] by simp
    with False show ?thesis by (simp add: min_def b_def algebra_simps)
  qed (simp add: min_def b_def algebra_simps)
  have lst: "map (\<lambda>k. k * unat BPB) [m..<k] = b # map (\<lambda>k. k * unat BPB) [m + 1..<k]"
    using mk by (simp add: upt_rec b_def)
  note F = find_in_map [OF n32 b_def bn, of ?V ?sb]
  show ?case
  proof (cases "find ?P [b..<min n (b + unat BPB)]")
    case None
    from tr_brelse [OF u(2), of i ?B] ni obtain v where
      v: "brelse i u = Ret () v" "tr v bs H" "bview v = ?V" "lsame u v" using u(4) by auto
    have lv: "lsame s v" by (rule lsame_trans [OF u(6) v(4)])
    have fv: "fs_sb v = ?sb" "disksize v = disksize s" using lsame_fs [OF lv] by simp_all
    have e: "balloc_loop 1 (map (\<lambda>k. k * unat BPB) [m..<k]) s = balloc_loop 1 (map (\<lambda>k. k * unat BPB) [m + 1..<k]) v"
      unfolding lst using u(1,5) v(1) F None Suc(7) fu by simp
    have IH: "case find (\<lambda>b. \<not> used (bview v) (fs_sb v) b) [(m + 1) * unat BPB..<n] of
        None \<Rightarrow> balloc_loop 1 (map (\<lambda>k. k * unat BPB) [m + 1..<k]) v = Panic ''balloc: out of blocks''
      | Some a \<Rightarrow> \<exists>u cs. balloc_loop 1 (map (\<lambda>k. k * unat BPB) [m + 1..<k]) v = Ret (of_nat a) u \<and> tr u cs H \<and>
          length cs \<le> length bs + 2 \<and> set bs \<subseteq> set cs \<and> bview u = alloc_eff (fs_sb v) a (bview v) \<and> lsame v u"
      by (rule Suc(1)) (use Suc v fv mk room_step [OF Suc(5) lv] in auto)
    have f: "find ?P [m * unat BPB..<n] = find ?P [(m + 1) * unat BPB..<n]" unfolding b_def [symmetric] spl find_append None by simp
    show ?thesis using IH lsame_trans [OF lv] unfolding e f v(3) fv(1) by (force split: option.splits)
  next
    case (Some a)
    then have f: "find ?P [m * unat BPB..<n] = Some a" unfolding b_def [symmetric] spl find_append by simp
    from Some have a: "b \<le> a" "a < n" "a < b + unat BPB" "\<not> used ?V ?sb a" using find_SomeD [OF Some] by auto
    have ab: "a mod unat BPB = a - b" "BBLOCK (of_nat a) ?sb = ?B"
    proof -
      have "a div unat BPB = m" using a by (intro div_nat_eqI) (auto simp: b_def algebra_simps)
      then show "BBLOCK (of_nat a) ?sb = ?B" using a bn n32 by (simp add: BBLOCK_nat) (simp add: b_def BPB_def)
      show "a mod unat BPB = a - b" using \<open>a div unat BPB = m\<close> by (metis b_def minus_div_mult_eq_mod)
    qed
    have lV: "length (?V ?B) = BSIZE" by (rule tr_view_length [OF Suc(4)])
    let ?d = "bit_mark (a - b) (?V ?B)"
    have "\<exists>v. log_write i (set_data i ?d u) = Ret () v \<and> tr v (log_add ?B bs) (insert (i, ?B) H) \<and>
        bview v = (bview u)(?B := ?d) \<and> lsame u v"
      by (rule tr_log_write [OF u(2)]) (use lV room_step [OF Suc(5) u(6), of bs 1] in auto)
    then obtain v where v: "log_write i (set_data i ?d u) = Ret () v" "tr v (log_add ?B bs) (insert (i, ?B) H)"
        "bview v = ?V(?B := ?d)" "lsame u v" using u(4) by auto
    from tr_brelse [OF v(2), of i ?B] ni obtain w where
      w: "brelse i v = Ret () w" "tr w (log_add ?B bs) H" "bview w = ?V(?B := ?d)" "lsame v w" using v(3) by auto
    have lw: "lsame s w" by (rule lsame_trans [OF u(6) lsame_trans [OF v(4) w(4)]])
    let ?a = "of_nat a :: uint"
    have ua: "unat ?a = a" using a n32 by (simp add: unat_of_nat)
    have "int n \<le> disksize s" using Suc(3,7) by (simp only: fs_geom_def)
    then have ad: "int (unat ?a) < disksize w" using a(2) lw unfolding ua lsame_def by linarith
    have ah: "?a \<notin> snd ` H" using Suc(6) a(4) ua by auto
    have rw: "room w (log_add ?B bs) 1" by (rule room_step [OF Suc(5) lw]) (use length_log_add(1) [of ?B bs] in simp)
    have "\<exists>x. bindK (bread 1 ?a w) (\<lambda>i s. bindK (log_write i (data_upd i (\<lambda>_. replicate BSIZE 0) s)) (\<lambda>_ s. brelse i s)) = Ret () x \<and>
        tr x (log_add ?a (log_add ?B bs)) H \<and> bview x = (bview w)(?a := replicate BSIZE 0) \<and> lsame w x"
      by (rule tr_update [OF w(2) ad ah c rw]) simp
    then obtain x where x: "bzero 1 ?a w = Ret () x" "tr x (log_add ?a (log_add ?B bs)) H"
        "bview x = (bview w)(?a := replicate BSIZE 0)" "lsame w x" by (auto simp: bzero_def data_upd_def)
    have "balloc_loop 1 (map (\<lambda>k. k * unat BPB) [m..<k]) s = Ret ?a x"
      unfolding lst using u(1,5) v(1) w(1) x(1) F Some Suc(7) fu a(1) by (simp add: data_upd_def)
    moreover have "bview x = alloc_eff ?sb a ?V" using x(3) w(3) ab by (simp add: alloc_eff_def)
    moreover have "length (log_add ?a (log_add ?B bs)) \<le> length bs + 2"
      using length_log_add(1) [of ?a "log_add ?B bs"] length_log_add(1) [of ?B bs] by simp
    moreover have "set bs \<subseteq> set (log_add ?a (log_add ?B bs))" by (auto simp: length_log_add(2))
    ultimately show ?thesis using f x(2) lsame_trans [OF lw x(4)] by auto
  qed
qed

lemma balloc_spec:
  assumes "fs_geom (bview s) (fs_sb s) (disksize s)" and "tr s bs H" and "room s bs 2" and "card H \<le> 1"
    and "\<forall>b \<in> snd ` H. b \<notin> map_blocks (fs_sb s) \<and> used (bview s) (fs_sb s) (unat b)"
  shows "case find (\<lambda>b. \<not> used (bview s) (fs_sb s) b) [0..<unat (sb_size (fs_sb s))] of
      None \<Rightarrow> balloc 1 s = Panic ''balloc: out of blocks''
    | Some a \<Rightarrow> \<exists>u cs. balloc 1 s = Ret (of_nat a) u \<and> tr u cs H \<and> length cs \<le> length bs + 2 \<and> set bs \<subseteq> set cs \<and>
        bview u = alloc_eff (fs_sb s) a (bview s) \<and> lsame s u"
  using balloc_loop_spec [OF assms refl _ refl, of 0] unfolding balloc_def by simp

text \<open>The map after an allocation.\<close>

lemma used_alloc:
  assumes a: "a < unat (sb_size sb)" "\<not> used V sb a" and b: "b < unat (sb_size sb)"
    and g: "fs_geom V sb n" and l: "length (V (BBLOCK (of_nat a) sb)) = BSIZE"
  shows "used (alloc_eff sb a V) sb b \<longleftrightarrow> used V sb b \<or> b = a"
proof -
  let ?A = "BBLOCK (of_nat a) sb" and ?B = "BBLOCK (of_nat b) sb"
  have s32: "unat (sb_size sb) < 2 ^ 32" by (rule unat_lt_32)
  have ua: "unat (of_nat a :: uint) = a" using a s32 by (simp add: unat_of_nat)
  have "?B \<in> map_blocks sb" using b by (auto simp: map_blocks_def)
  with g a(2) have na: "?B \<noteq> of_nat a" unfolding fs_geom_def by (metis ua)
  have eq: "?A = ?B \<longleftrightarrow> a div unat BPB = b div unat BPB"
  proof -
    have "a div unat BPB < 2 ^ 32" "b div unat BPB < 2 ^ 32" using a b s32 by (simp_all add: BPB_def)
    then have "(of_nat (a div unat BPB) :: uint) = of_nat (b div unat BPB) \<longleftrightarrow> a div unat BPB = b div unat BPB"
      by (simp add: word_unat_eq_iff unat_of_nat)
    then show ?thesis using a b s32 by (simp add: BBLOCK_nat)
  qed
  show ?thesis
  proof (cases "?A = ?B")
    case True
    then have "b = a \<longleftrightarrow> b mod unat BPB = a mod unat BPB" using eq by (metis div_mult_mod_eq)
    with True na show ?thesis using bit_mark_clear [of "a mod unat BPB" "V ?B" "b mod unat BPB"] l
      by (auto simp: used_def alloc_eff_def BPB_def)
  next
    case False
    with na eq show ?thesis by (auto simp: used_def alloc_eff_def)
  qed
qed

section \<open>A disk with a file system\<close>

text \<open>
  The disk that the image builder makes, as far as the allocator is concerned: 1000 blocks of which the
  first 59 hold the boot block, the super block, the log, the inodes and the map; and a machine with
  this disk inside a system call.
\<close>

definition map0 :: block where
  "map0 = replicate 7 255 @ 7 # replicate 504 0"

definition sb0 :: superblock where
  "sb0 = \<lparr>sb_size = 1000, sb_nblocks = 941, sb_ninodes = 200, sb_nlog = 30, sb_logstart = 2, sb_inodestart = 32,
     sb_bmapstart = 58\<rparr>"

definition no_inode :: inode where
  "no_inode = \<lparr>i_dev = 1, i_inum = 1, i_ref = 1, i_valid = True, i_type = T_FILE, i_major = 0, i_minor = 0,
     i_nlink = 1, i_size = 0, i_addrs = replicate 13 0\<rparr>"

definition fs_disk0 :: fsys where
  "fs_disk0 = lg.extend (disk0\<lparr>memdisk := (memdisk disk0)(58 := map0), lg_outstanding := 1\<rparr>)
     (fsys.fields sb0 (\<lambda>_. no_inode))"

definition fs0 :: fsys where
  "fs0 = binit fs_disk0"

lemma sb0_sel [simp]: "sb_size sb0 = 1000" "sb_bmapstart sb0 = 58" "sb_inodestart sb0 = 32"
  by (simp_all add: sb0_def)

lemma BBLOCK_sb0: "b < 1000 \<Longrightarrow> BBLOCK (of_nat b) sb0 = 58"
  by (simp add: BBLOCK_nat BPB_def)

lemma map_blocks_sb0: "map_blocks sb0 = {58}"
proof -
  have "BBLOCK (of_nat 0) sb0 = 58" by (rule BBLOCK_sb0) simp
  then show ?thesis by (auto simp: map_blocks_def BBLOCK_sb0 intro!: exI [of _ "0 :: nat"])
qed

lemma tr_fs0: "tr fs0 [] {}" "room fs0 [] 29" "fs_sb fs0 = sb0" "disksize fs0 = 1000" "inodes fs0 = (\<lambda>_. no_inode)"
  "bview fs0 = (\<lambda>b. if b = 58 then map0 else replicate BSIZE 0)"
proof -
  note D = fs_disk0_def disk0_def lg.defs fsys.defs
  have "fresh fs_disk0"
    by (simp add: fresh_def D lk_def mach_inv_def curp_def cpage_def zero_buf_def inj_on_def map0_def)
  note B = binit_ok [OF this, folded fs0_def]
  have "bc.more fs0 = bc.more fs_disk0" unfolding fs0_def by (rule binit_more)
  note M = bc_more_lg [OF this]
  show "fs_sb fs0 = sb0" "inodes fs0 = (\<lambda>_. no_inode)"
    using lg_more_fs [OF M(7)] by (simp_all add: D)
  show "disksize fs0 = 1000" unfolding B(6) by (simp add: D)
  have md: "memdisk fs0 = (\<lambda>b. if b = 58 then map0 else replicate BSIZE 0)"
    unfolding B(4) by (auto simp: D)
  show "bview fs0 = (\<lambda>b. if b = 58 then map0 else replicate BSIZE 0)"
    using bview_clean [OF B(1)] B(2,3) md by (auto simp: fun_eq_iff)
  have l: "lg_lh fs_disk0 = \<lparr>lh_n = 0, lh_block = replicate 30 0\<rparr>" "lg_outstanding fs_disk0 = 1" "lg_size fs_disk0 = 30"
    by (simp_all add: D)
  show "tr fs0 [] {}" using B(1-3) M(6) l by (simp add: tr_def entries_def)
  show "room fs0 [] 29" using M l by (simp add: room_def)
qed

lemma bit_clear_map0: "b < 4096 \<Longrightarrow> bit_clear map0 b \<longleftrightarrow> 59 \<le> b"
proof -
  assume b: "b < 4096"
  have m: "b mod 8 < 8" by simp
  have c: "list_all (\<lambda>k. bit (255 :: uchar) k \<and> bit (7 :: uchar) k = (k < 3)) [0..<8]" by code_simp
  then have c: "bit (255 :: uchar) (b mod 8)" "bit (7 :: uchar) (b mod 8) = (b mod 8 < 3)"
    using m by (simp_all add: list_all_length)
  consider "b div 8 < 7" | "b div 8 = 7" | "7 < b div 8" by linarith
  then show ?thesis
  proof cases
    case 1
    then have "map0 ! (b div 8) = 255" by (simp add: map0_def nth_append)
    moreover have "b < 59" using 1 by simp
    ultimately show ?thesis using c by (simp add: bit_clear_bit)
  next
    case 2
    then have "map0 ! (b div 8) = 7" by (simp add: map0_def nth_append)
    moreover have "b = 56 + b mod 8" using 2 div_mult_mod_eq [of b 8] by simp
    then have "59 \<le> b \<longleftrightarrow> \<not> b mod 8 < 3" by linarith
    ultimately show ?thesis using c by (simp add: bit_clear_bit)
  next
    case 3
    then have "map0 ! (b div 8) = 0" using b by (simp add: map0_def nth_append nth_Cons')
    moreover have "59 \<le> b" using 3 by simp
    ultimately show ?thesis by (simp add: bit_clear_bit)
  qed
qed

lemma used_fs0: "b < 1000 \<Longrightarrow> used (bview fs0) sb0 b \<longleftrightarrow> b < 59"
  using bit_clear_map0 [of b] by (auto simp: used_def tr_fs0(6) BBLOCK_sb0 BPB_def)

lemma geom_fs0: "fs_geom (bview fs0) (fs_sb fs0) (disksize fs0)"
  by (simp add: fs_geom_def tr_fs0(3,4) map_blocks_sb0 used_fs0)

section \<open>The property of the allocator\<close>

text \<open>
  C27.  \<open>balloc\<close> inside a transaction, with two more blocks of room in the log: it returns the
  lowest block that is free in the map, marks it and no other block, fills it with zeros and changes no
  other block outside the map; it panics exactly when no block is free.
\<close>

theorem balloc_lowest_free:
  assumes "fs_geom (bview s) (fs_sb s) (disksize s)" and "tr s bs {}" and "room s bs 2"
  shows "case find (\<lambda>b. \<not> used (bview s) (fs_sb s) b) [0..<unat (sb_size (fs_sb s))] of
      None \<Rightarrow> balloc 1 s = Panic ''balloc: out of blocks''
    | Some a \<Rightarrow> \<exists>u cs. balloc 1 s = Ret (of_nat a) u \<and> tr u cs {} \<and> bview u (of_nat a) = replicate BSIZE 0 \<and>
        (\<forall>b < unat (sb_size (fs_sb s)). used (bview u) (fs_sb s) b \<longleftrightarrow> used (bview s) (fs_sb s) b \<or> b = a) \<and>
        (\<forall>c. c \<notin> map_blocks (fs_sb s) \<and> c \<noteq> of_nat a \<longrightarrow> bview u c = bview s c) \<and>
        fs_sb u = fs_sb s \<and> inodes u = inodes s"
proof (cases "find (\<lambda>b. \<not> used (bview s) (fs_sb s) b) [0..<unat (sb_size (fs_sb s))]")
  case None
  with balloc_spec [OF assms] show ?thesis by simp
next
  case (Some a)
  with balloc_spec [OF assms] obtain u cs where u: "balloc 1 s = Ret (of_nat a) u" "tr u cs {}"
    "bview u = alloc_eff (fs_sb s) a (bview s)" "lsame s u" by auto
  have a: "a < unat (sb_size (fs_sb s))" "\<not> used (bview s) (fs_sb s) a" using find_SomeD [OF Some] by auto
  note ua = used_alloc [OF a _ assms(1) tr_view_length [OF assms(2)]]
  have "fs_sb u = fs_sb s" "inodes u = inodes s" using lsame_fs [OF u(4)] by simp_all
  moreover have "bview u c = bview s c" if "c \<notin> map_blocks (fs_sb s)" "c \<noteq> of_nat a" for c
    using that a u(3) by (auto simp: alloc_eff_def map_blocks_def)
  moreover have "bview u (of_nat a) = replicate BSIZE 0" using u(3) by (simp add: alloc_eff_def)
  ultimately show ?thesis using Some u ua by auto
qed

theorem balloc_lowest_free_witness:
  "\<exists>u. balloc 1 fs0 = Ret 59 u \<and> bview u 59 = replicate BSIZE 0"
proof -
  have r: "room fs0 [] 2" by (rule room_mono [OF tr_fs0(2)]) simp
  have "find (\<lambda>b. \<not> used (bview fs0) (fs_sb fs0) b) [0..<unat (sb_size (fs_sb fs0))] = Some 59"
    unfolding tr_fs0(3) by (rule find_upt) (simp_all add: used_fs0)
  with balloc_lowest_free [OF geom_fs0 tr_fs0(1) r] show ?thesis by auto
qed

end
