(* ===== verification/Fs_File.thy ===== *)
theory Fs_File
  imports Fs_Trans
begin

text \<open>
  Files as byte arrays: the blocks of an inode, the invariant that keeps the blocks of different
  files apart, and \<open>bmap\<close> of \<^verbatim>\<open>kernel/fs.c\<close>, which finds or adds a block of a file.
\<close>

section \<open>The blocks of an inode\<close>

text \<open>
  \<open>V\<close> is the current contents of the blocks.  Address 0 stands for a block that is not allocated;
  it reads as zeros.
\<close>

definition indb :: "inode \<Rightarrow> uint" where
  "indb x = i_addrs x ! NDIRECT"

definition baddr :: "(uint \<Rightarrow> block) \<Rightarrow> inode \<Rightarrow> nat \<Rightarrow> uint" where
  "baddr V x k = (if k < NDIRECT then i_addrs x ! k else if indb x = 0 then 0 else get32 (V (indb x)) (4 * (k - NDIRECT)))"

definition own :: "(uint \<Rightarrow> block) \<Rightarrow> inode \<Rightarrow> uint set" where
  "own V x = insert (indb x) (baddr V x ` {..<MAXFILE}) - {0}"

definition fbyte :: "(uint \<Rightarrow> block) \<Rightarrow> inode \<Rightarrow> nat \<Rightarrow> uchar" where
  "fbyte V x p = (let a = baddr V x (p div BSIZE) in if a = 0 then 0 else V a ! (p mod BSIZE))"

text \<open>The contents of a file.\<close>

definition fdata :: "(uint \<Rightarrow> block) \<Rightarrow> inode \<Rightarrow> uchar list" where
  "fdata V x = map (fbyte V x) [0..<unat (i_size x)]"

definition inode_blocks :: "superblock \<Rightarrow> uint set" where
  "inode_blocks sb = {IBLOCK (of_nat i) sb | i. i < unat (sb_ninodes sb)}"

definition fs_ok :: "(uint \<Rightarrow> block) \<Rightarrow> superblock \<Rightarrow> int \<Rightarrow> bool" where
  "fs_ok V sb n \<longleftrightarrow> fs_geom V sb n \<and> (\<forall>b. length (V b) = BSIZE) \<and> inode_blocks sb \<inter> map_blocks sb = {} \<and>
     (\<forall>b \<in> inode_blocks sb. unat b < unat (sb_size sb) \<and> used V sb (unat b))"

definition inode_ok :: "(uint \<Rightarrow> block) \<Rightarrow> superblock \<Rightarrow> inode \<Rightarrow> bool" where
  "inode_ok V sb x \<longleftrightarrow> length (i_addrs x) = 13 \<and>
     (\<forall>a \<in> own V x. unat a < unat (sb_size sb) \<and> used V sb (unat a) \<and> a \<notin> map_blocks sb \<and> a \<notin> inode_blocks sb) \<and>
     (\<forall>k < MAXFILE. \<forall>j < MAXFILE. baddr V x k = baddr V x j \<longrightarrow> baddr V x k \<noteq> 0 \<longrightarrow> k = j) \<and>
     (\<forall>k < MAXFILE. indb x \<noteq> 0 \<longrightarrow> baddr V x k \<noteq> indb x)"

definition nfree :: "(uint \<Rightarrow> block) \<Rightarrow> superblock \<Rightarrow> nat" where
  "nfree V sb = card {b. b < unat (sb_size sb) \<and> \<not> used V sb b}"

lemma ownI:
  "k < MAXFILE \<Longrightarrow> baddr V x k \<noteq> 0 \<Longrightarrow> baddr V x k \<in> own V x" "indb x \<noteq> 0 \<Longrightarrow> indb x \<in> own V x"
  by (auto simp: own_def)

text \<open>Only the contents of its own blocks matter to a file.\<close>

lemma own_agree:
  assumes "\<And>c. c \<in> own V x \<Longrightarrow> W c = V c"
  shows "baddr W x k = baddr V x k" "own W x = own V x" "p < MAXFILE * BSIZE \<Longrightarrow> fbyte W x p = fbyte V x p"
proof -
  have b: "baddr W x k = baddr V x k" for k using assms [OF ownI(2)] by (auto simp: baddr_def)
  then show "baddr W x k = baddr V x k" "own W x = own V x" by (simp_all add: own_def)
  assume "p < MAXFILE * BSIZE"
  then have "p div BSIZE < MAXFILE" by (simp add: less_mult_imp_div_less)
  with b assms [OF ownI(1)] show "fbyte W x p = fbyte V x p" by (simp add: fbyte_def Let_def)
qed

lemma inode_ok_agree:
  assumes "inode_ok V sb x" and "\<And>c. c \<in> own V x \<Longrightarrow> W c = V c"
    and "\<And>b. b < unat (sb_size sb) \<Longrightarrow> used V sb b \<Longrightarrow> used W sb b"
  shows "inode_ok W sb x"
  using assms(1,3) own_agree(1,2) [OF assms(2)] by (simp add: inode_ok_def)

section \<open>Allocating a block\<close>

definition free_block :: "(uint \<Rightarrow> block) \<Rightarrow> superblock \<Rightarrow> nat \<Rightarrow> bool" where
  "free_block V sb a \<longleftrightarrow> a < unat (sb_size sb) \<and> \<not> used V sb a"

lemma free_blockD:
  assumes f: "fs_ok V sb n" and a: "free_block V sb a"
  shows "unat (of_nat a :: uint) = a" "(of_nat a :: uint) \<noteq> 0" "of_nat a \<notin> map_blocks sb" "of_nat a \<notin> inode_blocks sb"
    "b < unat (sb_size sb) \<Longrightarrow> used (alloc_eff sb a V) sb b \<longleftrightarrow> used V sb b \<or> b = a"
proof -
  have g: "fs_geom V sb n" using f by (simp add: fs_ok_def)
  show u: "unat (of_nat a :: uint) = a" using a unat_lt_32 [of "sb_size sb"] by (simp add: free_block_def unat_of_nat)
  have "used V sb 0" using g by (simp add: fs_geom_def)
  then have "a \<noteq> 0" using a unfolding free_block_def by metis
  with u show "(of_nat a :: uint) \<noteq> 0" by (metis unat_0)
  show "of_nat a \<notin> map_blocks sb" "of_nat a \<notin> inode_blocks sb" using a f g u by (auto simp: free_block_def fs_ok_def fs_geom_def)
  show "used (alloc_eff sb a V) sb b \<longleftrightarrow> used V sb b \<or> b = a" if "b < unat (sb_size sb)"
    by (rule used_alloc [OF _ _ that g]) (use a f in \<open>simp_all add: free_block_def fs_ok_def\<close>)
qed

lemma alloc_eff_other: "c \<notin> map_blocks sb \<Longrightarrow> c \<noteq> of_nat a \<Longrightarrow> free_block V sb a \<Longrightarrow> alloc_eff sb a V c = V c"
  by (auto simp: alloc_eff_def map_blocks_def free_block_def)

lemma alloc_eff_own:
  assumes f: "fs_ok V sb n" and a: "free_block V sb a" and x: "inode_ok V sb x" and c: "c \<in> own V x"
  shows "c \<noteq> of_nat a" "alloc_eff sb a V c = V c"
proof -
  have u: "used V sb (unat c)" "c \<notin> map_blocks sb" using x c by (auto simp: inode_ok_def)
  show n: "c \<noteq> of_nat a" using u(1) a free_blockD(1) [OF f a] by (auto simp: free_block_def)
  show "alloc_eff sb a V c = V c" by (rule alloc_eff_other [OF u(2) n a])
qed

lemma fs_ok_alloc:
  assumes f: "fs_ok V sb n" and a: "free_block V sb a"
  shows "fs_ok (alloc_eff sb a V) sb n" "nfree V sb = Suc (nfree (alloc_eff sb a V) sb)"
proof -
  note F = free_blockD [OF f a]
  have l: "length (alloc_eff sb a V b) = BSIZE" for b using f by (simp add: fs_ok_def alloc_eff_def)
  have s: "0 < unat (sb_size sb)" using a by (auto simp: free_block_def)
  show "fs_ok (alloc_eff sb a V) sb n"
    using f l s F(5) by (auto simp: fs_ok_def fs_geom_def)
  let ?S = "\<lambda>V. {b. b < unat (sb_size sb) \<and> \<not> used V sb b}"
  have "?S V = insert a (?S (alloc_eff sb a V))" "a \<notin> ?S (alloc_eff sb a V)"
    using F(5) a by (auto simp: free_block_def)
  then show "nfree V sb = Suc (nfree (alloc_eff sb a V) sb)" by (simp add: nfree_def)
qed

section \<open>Changes to a file\<close>

text \<open>No other file notices: its blocks, which are not those of the changed one, keep their contents.\<close>

definition frame :: "superblock \<Rightarrow> (uint \<Rightarrow> block) \<Rightarrow> inode \<Rightarrow> (uint \<Rightarrow> block) \<Rightarrow> inode \<Rightarrow> bool" where
  "frame sb V x W z \<longleftrightarrow> (\<forall>y. inode_ok V sb y \<longrightarrow> own V x \<inter> own V y = {} \<longrightarrow>
     inode_ok W sb y \<and> own W y = own V y \<and> own W z \<inter> own V y = {} \<and> (\<forall>p < MAXFILE * BSIZE. fbyte W y p = fbyte V y p))"

lemma frameI:
  assumes "\<And>c. c \<notin> own V x \<Longrightarrow> c \<notin> map_blocks sb \<Longrightarrow> c \<notin> inode_blocks sb \<Longrightarrow> c \<notin> N \<Longrightarrow> W c = V c"
    and "\<And>b. b < unat (sb_size sb) \<Longrightarrow> used V sb b \<Longrightarrow> used W sb b"
    and "own W z \<subseteq> own V x \<union> N" and "\<And>c. c \<in> N \<Longrightarrow> \<not> used V sb (unat c)"
  shows "frame sb V x W z"
  unfolding frame_def
proof (intro allI impI)
  fix y assume y: "inode_ok V sb y" "own V x \<inter> own V y = {}"
  have n: "c \<notin> N" "W c = V c" if "c \<in> own V y" for c
  proof -
    have "used V sb (unat c)" "c \<notin> map_blocks sb" "c \<notin> inode_blocks sb" "c \<notin> own V x"
      using y that by (auto simp: inode_ok_def)
    with assms(1,4) show "c \<notin> N" "W c = V c" by blast+
  qed
  have "own W z \<inter> own V y = {}" using assms(3) y(2) n(1) by blast
  moreover have "inode_ok W sb y" by (rule inode_ok_agree [OF y(1) n(2) assms(2)])
  moreover have "own W y = own V y" by (rule own_agree(2) [OF n(2)])
  moreover have "fbyte W y p = fbyte V y p" if "p < MAXFILE * BSIZE" for p by (rule own_agree(3) [OF n(2) that])
  ultimately show "inode_ok W sb y \<and> own W y = own V y \<and> own W z \<inter> own V y = {} \<and> (\<forall>p < MAXFILE * BSIZE. fbyte W y p = fbyte V y p)"
    by blast
qed

lemma frame_trans: "frame sb V x W z \<Longrightarrow> frame sb W z U w \<Longrightarrow> frame sb V x U w"
  unfolding frame_def by metis

lemma frame_refl: "frame sb V x V x"
  by (simp add: frame_def)

text \<open>The address of a new block is entered in a free place.\<close>

lemma inode_ok_add:
  assumes x: "inode_ok V sb x" and z: "length (i_addrs z) = 13"
    and a: "a \<notin> own V x" "a \<noteq> 0" "unat a < unat (sb_size sb)" "used W sb (unat a)" "a \<notin> map_blocks sb" "a \<notin> inode_blocks sb"
    and u: "\<And>b. b < unat (sb_size sb) \<Longrightarrow> used V sb b \<Longrightarrow> used W sb b"
    and c: "(\<exists>k < MAXFILE. baddr V x k = 0 \<and> indb z = indb x \<and> (\<forall>j < MAXFILE. baddr W z j = (if j = k then a else baddr V x j))) \<or>
      indb x = 0 \<and> indb z = a \<and> (\<forall>j < MAXFILE. baddr W z j = baddr V x j)"
  shows "inode_ok W sb z" "own W z = insert a (own V x)"
proof -
  have o: "baddr V x k \<noteq> a" if "k < MAXFILE" for k using ownI(1) [OF that, of V x] a(1,2) by auto
  have oi: "indb x \<noteq> a" using ownI(2) [of x V] a(1,2) by auto
  show w: "own W z = insert a (own V x)"
    using c
  proof
    assume "\<exists>k < MAXFILE. baddr V x k = 0 \<and> indb z = indb x \<and> (\<forall>j < MAXFILE. baddr W z j = (if j = k then a else baddr V x j))"
    then obtain k where k: "k < MAXFILE" "baddr V x k = 0" "indb z = indb x" "\<forall>j < MAXFILE. baddr W z j = (if j = k then a else baddr V x j)" by blast
    have "baddr W z ` {..<MAXFILE} - {0} = insert a (baddr V x ` {..<MAXFILE} - {0})"
      using k a(2) by (auto simp: image_iff split: if_splits)
    then show ?thesis using k(3) a(2) by (auto simp: own_def)
  next
    assume "indb x = 0 \<and> indb z = a \<and> (\<forall>j < MAXFILE. baddr W z j = baddr V x j)"
    then show ?thesis using a(2) by (auto simp: own_def)
  qed
  have "\<forall>b \<in> own W z. unat b < unat (sb_size sb) \<and> used W sb (unat b) \<and> b \<notin> map_blocks sb \<and> b \<notin> inode_blocks sb"
    unfolding w using x a u by (auto simp: inode_ok_def)
  moreover have "(\<forall>k < MAXFILE. \<forall>j < MAXFILE. baddr W z k = baddr W z j \<longrightarrow> baddr W z k \<noteq> 0 \<longrightarrow> k = j) \<and>
      (\<forall>k < MAXFILE. indb z \<noteq> 0 \<longrightarrow> baddr W z k \<noteq> indb z)"
    using c
  proof
    assume "\<exists>k < MAXFILE. baddr V x k = 0 \<and> indb z = indb x \<and> (\<forall>j < MAXFILE. baddr W z j = (if j = k then a else baddr V x j))"
    then obtain k where k: "indb z = indb x" "\<And>j. j < MAXFILE \<Longrightarrow> baddr W z j = (if j = k then a else baddr V x j)" by blast
    have i: "i = j" if "i < MAXFILE" "j < MAXFILE" "baddr V x i = baddr V x j" "baddr V x i \<noteq> 0" for i j
      using x that by (simp add: inode_ok_def)
    have "baddr W z i \<noteq> indb z" if "i < MAXFILE" "indb z \<noteq> 0" for i
      using x that k oi by (auto simp: inode_ok_def split: if_splits)
    moreover have "i = j" if "i < MAXFILE" "j < MAXFILE" "baddr W z i = baddr W z j" "baddr W z i \<noteq> 0" for i j
      using that(3,4) o [OF that(1)] o [OF that(2)] i [OF that(1,2)] unfolding k(2) [OF that(1)] k(2) [OF that(2)]
      by (auto split: if_splits)
    ultimately show ?thesis by blast
  next
    assume "indb x = 0 \<and> indb z = a \<and> (\<forall>j < MAXFILE. baddr W z j = baddr V x j)"
    then show ?thesis using x o by (auto simp: inode_ok_def)
  qed
  ultimately show "inode_ok W sb z" using z by (simp add: inode_ok_def)
qed

text \<open>\<open>ext\<close>: blocks may have been added, up to \<open>m\<close> of them, but no byte has changed.\<close>

definition ext :: "superblock \<Rightarrow> int \<Rightarrow> (uint \<Rightarrow> block) \<Rightarrow> inode \<Rightarrow> (uint \<Rightarrow> block) \<Rightarrow> inode \<Rightarrow> nat \<Rightarrow> bool" where
  "ext sb n V x W z m \<longleftrightarrow> fs_ok W sb n \<and> inode_ok W sb z \<and> z = x\<lparr>i_addrs := i_addrs z\<rparr> \<and> own V x \<subseteq> own W z \<and>
     (\<forall>p < MAXFILE * BSIZE. fbyte W z p = fbyte V x p) \<and> nfree V sb \<le> nfree W sb + m \<and> frame sb V x W z \<and>
     (\<forall>k < MAXFILE. baddr V x k \<noteq> 0 \<longrightarrow> baddr W z k = baddr V x k)"

lemma ext_refl: "fs_ok V sb n \<Longrightarrow> inode_ok V sb x \<Longrightarrow> ext sb n V x V x m"
  by (simp add: ext_def frame_refl)

lemma ext_trans:
  assumes "ext sb n V x W z m" and "ext sb n W z U w l"
  shows "ext sb n V x U w (m + l)"
proof -
  have "w = x\<lparr>i_addrs := i_addrs w\<rparr>" using assms by (simp add: ext_def) (metis inode.surjective inode.update_convs(10))
  moreover have "\<forall>k < MAXFILE. baddr V x k \<noteq> 0 \<longrightarrow> baddr U w k = baddr V x k" using assms by (auto simp: ext_def)
  ultimately show ?thesis using assms frame_trans [of sb V x W z U w] by (auto simp: ext_def)
qed

lemma ext_mono: "ext sb n V x W z m \<Longrightarrow> m \<le> l \<Longrightarrow> ext sb n V x W z l"
  by (auto simp: ext_def)

lemma get32_zeros: "off + 4 \<le> BSIZE \<Longrightarrow> get32 (replicate BSIZE 0) off = 0"
  by (rule get32_zero)

lemma div_MAXFILE: "p < MAXFILE * BSIZE \<Longrightarrow> p div BSIZE < MAXFILE"
  by (simp add: less_mult_imp_div_less)

text \<open>
  The three places that receive the address of a new, zeroed block: the direct addresses, the address of
  the indirect block, and the entries of the indirect block.
\<close>

lemma ext_addr:
  assumes f: "fs_ok V sb n" and a: "free_block V sb a" and x: "inode_ok V sb x" and j: "j \<le> NDIRECT" "i_addrs x ! j = 0"
  defines "W \<equiv> alloc_eff sb a V" and "z \<equiv> x\<lparr>i_addrs := (i_addrs x)[j := of_nat a]\<rparr>"
  shows "ext sb n V x W z 1" "j < NDIRECT \<Longrightarrow> baddr W z j = of_nat a" "j = NDIRECT \<Longrightarrow> indb z = of_nat a"
proof -
  note F = free_blockD [OF f a]
  note O = alloc_eff_own [OF f a x, folded W_def]
  note E = fs_ok_alloc [OF f a, folded W_def]
  have l: "length (i_addrs x) = 13" using x by (simp add: inode_ok_def)
  have A: "W (of_nat a) = replicate BSIZE 0" by (simp add: W_def alloc_eff_def)
  have Vb: "baddr W x k = baddr V x k" for k by (rule own_agree(1) [OF O(2)])
  have c: "j < NDIRECT \<and> indb z = indb x \<and> (\<forall>k. baddr W z k = (if k = j then of_nat a else baddr V x k)) \<or>
      j = NDIRECT \<and> indb x = 0 \<and> indb z = of_nat a \<and> (\<forall>k < MAXFILE. baddr W z k = baddr V x k)"
  proof (cases "j < NDIRECT")
    case True
    have "indb z = indb x" using True by (simp add: indb_def z_def)
    moreover have "baddr W z k = (if k = j then of_nat a else baddr V x k)" for k
      using True l Vb [of k] calculation by (auto simp: baddr_def z_def)
    ultimately show ?thesis using True by blast
  next
    case False
    then have j': "j = NDIRECT" using j(1) by simp
    have iz: "indb z = of_nat a" "indb x = 0" using j' j(2) l by (simp_all add: indb_def z_def)
    have "baddr W z k = baddr V x k" if "k < MAXFILE" for k
      using that iz F(2) get32_zeros [of "4 * (k - NDIRECT)"] A j' by (auto simp: baddr_def) (simp add: z_def)
    then show ?thesis using j' iz by blast
  qed
  show "j < NDIRECT \<Longrightarrow> baddr W z j = of_nat a" "j = NDIRECT \<Longrightarrow> indb z = of_nat a" using c by auto
  have m: "used W sb b" if "b < unat (sb_size sb)" "used V sb b" for b using that F(5) by (simp add: W_def)
  have na: "of_nat a \<notin> own V x" using O(1) by blast
  have ua: "unat (of_nat a :: uint) < unat (sb_size sb)" "used W sb (unat (of_nat a :: uint))" using F(1,5) a by (simp_all add: free_block_def W_def)
  have b0: "j < NDIRECT \<Longrightarrow> baddr V x j = 0" using j(2) by (simp add: baddr_def)
  have lz: "length (i_addrs z) = 13" using l by (simp add: z_def)
  have jm: "j < NDIRECT \<Longrightarrow> j < MAXFILE" by simp
  have c': "(\<exists>k < MAXFILE. baddr V x k = 0 \<and> indb z = indb x \<and> (\<forall>j < MAXFILE. baddr W z j = (if j = k then of_nat a else baddr V x j))) \<or>
      indb x = 0 \<and> indb z = of_nat a \<and> (\<forall>j < MAXFILE. baddr W z j = baddr V x j)"
    using c b0 jm by blast
  have oz: "inode_ok W sb z" "own W z = insert (of_nat a) (own V x)"
    by (rule inode_ok_add [OF x lz na F(2) ua F(3,4) m c']; assumption)+
  have fb: "fbyte W z p = fbyte V x p" if "p < MAXFILE * BSIZE" for p
  proof -
    have p: "p div BSIZE < MAXFILE" by (rule div_MAXFILE [OF that])
    show ?thesis
    proof (cases "j < NDIRECT \<and> p div BSIZE = j")
      case True
      then have "baddr W z (p div BSIZE) = of_nat a" "baddr V x (p div BSIZE) = 0" using c b0 by auto
      then show ?thesis using A by (simp add: fbyte_def Let_def)
    next
      case False
      then have "baddr W z (p div BSIZE) = baddr V x (p div BSIZE)" using c p by auto
      then show ?thesis using O(2) [OF ownI(1) [OF p]] by (auto simp: fbyte_def Let_def)
    qed
  qed
  have "frame sb V x W z"
  proof (rule frameI [where N = "{of_nat a}"])
    show "W c = V c" if "c \<notin> map_blocks sb" "c \<notin> {of_nat a}" for c
      unfolding W_def by (rule alloc_eff_other [OF that(1) _ a]) (use that in simp)
    show "\<not> used V sb (unat c)" if "c \<in> {of_nat a}" for c :: uint using that F(1) a by (simp add: free_block_def)
  qed (use m oz in auto)
  moreover have "baddr W z k = baddr V x k" if "k < MAXFILE" "baddr V x k \<noteq> 0" for k using c b0 that by auto
  ultimately show "ext sb n V x W z 1" using E oz fb by (auto simp: ext_def z_def)
qed

lemma ext_entry:
  assumes f: "fs_ok V sb n" and a: "free_block V sb a" and x: "inode_ok V sb x" and i: "indb x \<noteq> 0"
    and k: "NDIRECT \<le> k" "k < MAXFILE" "baddr V x k = 0"
  defines "W \<equiv> (alloc_eff sb a V)(indb x := put32 (4 * (k - NDIRECT)) (of_nat a) (V (indb x)))"
  shows "ext sb n V x W x 1" "baddr W x k = of_nat a"
proof -
  note F = free_blockD [OF f a]
  note O = alloc_eff_own [OF f a x]
  note E = fs_ok_alloc [OF f a]
  have io: "indb x \<in> own V x" by (rule ownI(2) [OF i])
  have ix: "indb x \<notin> map_blocks sb" "indb x \<noteq> of_nat a" using x io O(1) by (auto simp: inode_ok_def)
  have lV: "length (V b) = BSIZE" for b using f by (simp add: fs_ok_def)
  have off: "4 * (k - NDIRECT) + 4 \<le> BSIZE" using k by simp
  have us: "used W sb b \<longleftrightarrow> used (alloc_eff sb a V) sb b" if "b < unat (sb_size sb)" for b
  proof -
    have "BBLOCK (of_nat b) sb \<noteq> indb x" using ix(1) that by (auto simp: map_blocks_def)
    then show ?thesis by (simp add: used_def W_def)
  qed
  have lW: "length (W b) = BSIZE" for b using E(1) off lV by (auto simp: W_def fs_ok_def)
  have fsW: "fs_ok W sb n" using E(1) us lW a by (auto simp: fs_ok_def fs_geom_def free_block_def)
  have A: "W (of_nat a) = replicate BSIZE 0" using ix(2) by (simp add: W_def alloc_eff_def)
  have Wo: "W c = V c" if "c \<in> own V x" "c \<noteq> indb x" for c using O(2) [OF that(1)] that(2) by (simp add: W_def)
  have bW: "baddr W x j = (if j = k then of_nat a else baddr V x j)" if "j < MAXFILE" for j
  proof (cases "j < NDIRECT \<or> j = k")
    case True
    then show ?thesis using k i off lV by (auto simp: baddr_def W_def)
  next
    case False
    then have "4 * (j - NDIRECT) + 4 \<le> BSIZE" "4 * (j - NDIRECT) + 4 \<le> 4 * (k - NDIRECT) \<or> 4 * (k - NDIRECT) + 4 \<le> 4 * (j - NDIRECT)"
      using that k by auto
    then show ?thesis using False i off lV get32_put32_other [of "4 * (k - NDIRECT)" "V (indb x)" "4 * (j - NDIRECT)"]
      by (simp add: baddr_def W_def)
  qed
  show "baddr W x k = of_nat a" using bW [OF k(2)] by simp
  have m: "used W sb b" if "b < unat (sb_size sb)" "used V sb b" for b using that F(5) us by simp
  have na: "of_nat a \<notin> own V x" using O(1) by blast
  have al: "a < unat (sb_size sb)" using a by (simp add: free_block_def)
  have ua: "unat (of_nat a :: uint) < unat (sb_size sb)" "used W sb (unat (of_nat a :: uint))" using F(1,5) us al by simp_all
  have l: "length (i_addrs x) = 13" using x by (simp add: inode_ok_def)
  have oz: "inode_ok W sb x" "own W x = insert (of_nat a) (own V x)"
    by (rule inode_ok_add [OF x l na F(2) ua F(3,4) m]; use k bW in blast)+
  have fb: "fbyte W x p = fbyte V x p" if "p < MAXFILE * BSIZE" for p
  proof -
    have p: "p div BSIZE < MAXFILE" by (rule div_MAXFILE [OF that])
    have ni: "baddr V x (p div BSIZE) \<noteq> indb x" using x p i by (simp add: inode_ok_def)
    show ?thesis
    proof (cases "p div BSIZE = k")
      case True
      then show ?thesis using bW [OF p] k(3) A by (simp add: fbyte_def Let_def)
    next
      case False
      then show ?thesis using bW [OF p] Wo [OF ownI(1) [OF p] ni] by (auto simp: fbyte_def Let_def)
    qed
  qed
  have "frame sb V x W x"
  proof (rule frameI [where N = "{of_nat a}"])
    show "W c = V c" if "c \<notin> own V x" "c \<notin> map_blocks sb" "c \<notin> {of_nat a}" for c
      using alloc_eff_other [OF that(2) _ a] that io by (auto simp: W_def)
    show "\<not> used V sb (unat c)" if "c \<in> {of_nat a}" for c :: uint using that F(1) a by (simp add: free_block_def)
  qed (use m oz in auto)
  moreover have "nfree W sb = nfree (alloc_eff sb a V) sb" unfolding nfree_def using us by (intro arg_cong [where f = card]) auto
  ultimately show "ext sb n V x W x 1" using E(2) fsW oz fb bW k(3) by (auto simp: ext_def)
qed

text \<open>A change of the contents of one of the blocks.\<close>

lemma write_block:
  assumes f: "fs_ok V sb n" and x: "inode_ok V sb x" and k: "k < MAXFILE" "baddr V x k \<noteq> 0" and d: "length d = BSIZE"
  defines "W \<equiv> V(baddr V x k := d)"
  shows "fs_ok W sb n" "inode_ok W sb x" "own W x = own V x" "nfree W sb = nfree V sb" "frame sb V x W x" "baddr W x j = baddr V x j"
    "p < MAXFILE * BSIZE \<Longrightarrow> fbyte W x p = (if p div BSIZE = k then d ! (p mod BSIZE) else fbyte V x p)"
proof -
  let ?a = "baddr V x k"
  have o: "?a \<in> own V x" by (rule ownI(1) [OF k])
  then have m: "?a \<notin> map_blocks sb" "?a \<noteq> indb x \<or> indb x = 0" using x k by (auto simp: inode_ok_def)
  have us: "used W sb b = used V sb b" if "b < unat (sb_size sb)" for b
    using m(1) that by (auto simp: used_def W_def map_blocks_def)
  have "W (indb x) = V (indb x) \<or> indb x = 0" using m(2) by (auto simp: W_def)
  then have b: "baddr W x j = baddr V x j" for j by (auto simp: baddr_def)
  then show "baddr W x j = baddr V x j" .
  show w: "own W x = own V x" using b by (simp add: own_def)
  show "inode_ok W sb x" using x b w us by (simp add: inode_ok_def)
  have "unat b < unat (sb_size sb)" if "b \<in> map_blocks sb" for b using f that by (simp add: fs_ok_def fs_geom_def)
  moreover have "0 < unat (sb_size sb)" using x o by (auto simp: inode_ok_def)
  ultimately show "fs_ok W sb n" using f us d by (auto simp: fs_ok_def fs_geom_def W_def)
  show "nfree W sb = nfree V sb" unfolding nfree_def using us by (intro arg_cong [where f = card]) auto
  show "frame sb V x W x" by (rule frameI [where N = "{}"]) (use o us w in \<open>auto simp: W_def\<close>)
  assume p: "p < MAXFILE * BSIZE"
  have "baddr V x (p div BSIZE) = ?a \<longleftrightarrow> p div BSIZE = k" using x k div_MAXFILE [OF p] by (auto simp: inode_ok_def)
  then show "fbyte W x p = (if p div BSIZE = k then d ! (p mod BSIZE) else fbyte V x p)"
    using k(2) b by (auto simp: fbyte_def Let_def W_def)
qed

section \<open>\<open>bmap\<close>\<close>

lemma views_inodes [simp]:
  "lk L (s\<lparr>inodes := f\<rparr>) = lk L s" "kcore s (s\<lparr>inodes := f\<rparr>)" "bview (s\<lparr>inodes := f\<rparr>) = bview s"
  "bheld (s\<lparr>inodes := f\<rparr>) = bheld s" "bdirty (s\<lparr>inodes := f\<rparr>) = bdirty s" "bok (s\<lparr>inodes := f\<rparr>) = bok s"
  "curp (s\<lparr>inodes := f\<rparr>) = curp s" "cpage (s\<lparr>inodes := f\<rparr>) = cpage s" "kcore (s\<lparr>inodes := f\<rparr>) t = kcore s t"
  "entries (s\<lparr>inodes := f\<rparr>) bs = entries s bs" "tr (s\<lparr>inodes := f\<rparr>) bs H = tr s bs H" "room (s\<lparr>inodes := f\<rparr>) bs k = room s bs k"
  by (simp_all add: lk_def mach_inv_def kcore_def curp_def cpage_def bview_def buf_of_def bheld_def bdirty_def locked_def bok_def
      bring_def buf_ok_def buf_uniq_def curpid_def fun_eq_iff entries_def room_def tr_def split: option.split)

text \<open>\<open>fsame ip s t\<close>: of the state outside the disk, the cache and the log header, only inode \<open>ip\<close> may differ.\<close>

definition fsame :: "nat \<Rightarrow> 'a fsys_scheme \<Rightarrow> 'a fsys_scheme \<Rightarrow> bool" where
  "fsame ip s t \<longleftrightarrow> lsame (s\<lparr>inodes := (inodes s)(ip := inodes t ip)\<rparr>) t"

lemma fsame_lsame: "lsame s t \<Longrightarrow> fsame ip s t"
  using lsame_fs(2) [of s t] by (simp add: fsame_def)

lemma fsameD:
  assumes "fsame ip s t"
  shows "fs_sb t = fs_sb s" "inodes t = (inodes s)(ip := inodes t ip)" "disksize t = disksize s"
    "lg_outstanding t = lg_outstanding s" "lg_size t = lg_size s"
  using lsame_fs [OF assms [unfolded fsame_def]] assms by (simp_all add: fsame_def lsame_def)

lemma fsame_trans:
  assumes "fsame ip s t" and "fsame ip t u"
  shows "fsame ip s u"
proof -
  note T = fsameD [OF assms(1)]
  have k: "kcore s t" "kcore t u" using assms by (auto simp: fsame_def lsame_def)
  have "lg.more (t\<lparr>inodes := (inodes t)(ip := inodes u ip)\<rparr>) = lg.more (s\<lparr>inodes := (inodes s)(ip := inodes u ip)\<rparr>)"
    if "lg.more t = lg.more (s\<lparr>inodes := (inodes s)(ip := inodes t ip)\<rparr>)"
    using that T(2) by (cases s, cases t, simp) (metis fun_upd_upd)
  then show ?thesis using assms kcore_trans [OF k] by (auto simp: fsame_def lsame_def)
qed

lemma fsame_inode: "fsame ip s (s\<lparr>inodes := (inodes s)(ip := x)\<rparr>)"
  by (simp add: fsame_def lsame_def)

lemma room_fsame: "room s bs k \<Longrightarrow> fsame ip s t \<Longrightarrow> length cs + j \<le> length bs + k \<Longrightarrow> room t cs j"
  using fsameD(4,5) [of ip s t] by (simp add: room_def)

text \<open>\<open>balloc\<close> once more, when a block is free.\<close>

lemma balloc_free:
  assumes f: "fs_ok (bview s) (fs_sb s) (disksize s)" and t: "tr s bs H" and r: "room s bs 2" and c: "card H \<le> 1"
    and h: "\<forall>b \<in> snd ` H. b \<notin> map_blocks (fs_sb s) \<and> used (bview s) (fs_sb s) (unat b)"
    and n: "0 < nfree (bview s) (fs_sb s)"
  shows "\<exists>a u cs. balloc 1 s = Ret (of_nat a) u \<and> free_block (bview s) (fs_sb s) a \<and> tr u cs H \<and> length cs \<le> length bs + 2 \<and>
    bview u = alloc_eff (fs_sb s) a (bview s) \<and> lsame s u"
proof -
  have g: "fs_geom (bview s) (fs_sb s) (disksize s)" using f by (simp add: fs_ok_def)
  have "{b. b < unat (sb_size (fs_sb s)) \<and> \<not> used (bview s) (fs_sb s) b} \<noteq> {}" using n by (metis card.empty less_nat_zero_code nfree_def)
  then have "find (\<lambda>b. \<not> used (bview s) (fs_sb s) b) [0..<unat (sb_size (fs_sb s))] \<noteq> None" by (auto simp: find_None_iff)
  then obtain a where a: "find (\<lambda>b. \<not> used (bview s) (fs_sb s) b) [0..<unat (sb_size (fs_sb s))] = Some a" by blast
  with balloc_spec [OF g t r c h] find_SomeD [OF a] show ?thesis by (auto simp: free_block_def)
qed

definition file_at :: "'a fsys_scheme \<Rightarrow> nat \<Rightarrow> bool" where
  "file_at s ip \<longleftrightarrow> i_dev (inodes s ip) = 1 \<and> fs_ok (bview s) (fs_sb s) (disksize s) \<and> inode_ok (bview s) (fs_sb s) (inodes s ip)"

definition sext :: "nat \<Rightarrow> 'a fsys_scheme \<Rightarrow> 'a fsys_scheme \<Rightarrow> nat \<Rightarrow> bool" where
  "sext ip s t m \<longleftrightarrow> fsame ip s t \<and> ext (fs_sb s) (disksize s) (bview s) (inodes s ip) (bview t) (inodes t ip) m"

lemma sext_trans: "sext ip s t m \<Longrightarrow> sext ip t u l \<Longrightarrow> sext ip s u (m + l)"
  using fsame_trans [of ip s t u] fsameD(1,3) [of ip s t] ext_trans by (fastforce simp: sext_def)

lemma sext_mono: "sext ip s t m \<Longrightarrow> m \<le> l \<Longrightarrow> sext ip s t l"
  by (auto simp: sext_def intro: ext_mono)

lemma sext_lsame: "file_at s ip \<Longrightarrow> lsame s t \<Longrightarrow> bview t = bview s \<Longrightarrow> sext ip s t m"
  using lsame_fs(2) [of s t] by (auto simp: sext_def file_at_def intro: ext_refl fsame_lsame)

lemma sextD:
  assumes "sext ip s t m" and "file_at s ip"
  shows "file_at t ip" "fs_sb t = fs_sb s" "disksize t = disksize s"
    "inodes t = (inodes s)(ip := inodes t ip)" "inodes t ip = (inodes s ip)\<lparr>i_addrs := i_addrs (inodes t ip)\<rparr>"
    "p < MAXFILE * BSIZE \<Longrightarrow> fbyte (bview t) (inodes t ip) p = fbyte (bview s) (inodes s ip) p"
    "nfree (bview s) (fs_sb s) \<le> nfree (bview t) (fs_sb t) + m" "fsame ip s t"
    "frame (fs_sb s) (bview s) (inodes s ip) (bview t) (inodes t ip)"
    "k < MAXFILE \<Longrightarrow> baddr (bview s) (inodes s ip) k \<noteq> 0 \<Longrightarrow> baddr (bview t) (inodes t ip) k = baddr (bview s) (inodes s ip) k"
proof -
  note F = fsameD [of ip s t]
  have f: "fsame ip s t" and e: "ext (fs_sb s) (disksize s) (bview s) (inodes s ip) (bview t) (inodes t ip) m"
    using assms(1) by (auto simp: sext_def)
  show a: "inodes t ip = (inodes s ip)\<lparr>i_addrs := i_addrs (inodes t ip)\<rparr>" using e by (simp add: ext_def)
  then have "i_dev (inodes t ip) = i_dev (inodes s ip)" by (metis inode.select_convs(1) inode.surjective inode.update_convs(10))
  then show "file_at t ip" using e F(1,3) [OF f] assms(2) by (simp add: file_at_def ext_def)
  show "fs_sb t = fs_sb s" "disksize t = disksize s" "inodes t = (inodes s)(ip := inodes t ip)" by (rule F [OF f])+
  show "p < MAXFILE * BSIZE \<Longrightarrow> fbyte (bview t) (inodes t ip) p = fbyte (bview s) (inodes s ip) p"
    "nfree (bview s) (fs_sb s) \<le> nfree (bview t) (fs_sb t) + m" "frame (fs_sb s) (bview s) (inodes s ip) (bview t) (inodes t ip)"
    "k < MAXFILE \<Longrightarrow> baddr (bview s) (inodes s ip) k \<noteq> 0 \<Longrightarrow> baddr (bview t) (inodes t ip) k = baddr (bview s) (inodes s ip) k"
    using e F(1) [OF f] by (auto simp: ext_def)
  show "fsame ip s t" by (rule f)
qed

text \<open>A new block for one of the addresses in the inode.\<close>

lemma balloc_addr:
  assumes a: "file_at s ip" and t: "tr s bs {}" and r: "room s bs 2" and n: "0 < nfree (bview s) (fs_sb s)"
    and j: "j \<le> NDIRECT" "i_addrs (inodes s ip) ! j = 0"
  shows "\<exists>b u cs. balloc 1 s = Ret b u \<and> b \<noteq> 0 \<and> lsame s u \<and>
    tr (inode_upd ip (\<lambda>x. x\<lparr>i_addrs := (i_addrs x)[j := b]\<rparr>) u) cs {} \<and> length cs \<le> length bs + 2 \<and>
    sext ip s (inode_upd ip (\<lambda>x. x\<lparr>i_addrs := (i_addrs x)[j := b]\<rparr>) u) 1 \<and>
    i_addrs (inodes (inode_upd ip (\<lambda>x. x\<lparr>i_addrs := (i_addrs x)[j := b]\<rparr>) u) ip) ! j = b"
proof -
  have f: "fs_ok (bview s) (fs_sb s) (disksize s)" "inode_ok (bview s) (fs_sb s) (inodes s ip)" using a by (auto simp: file_at_def)
  from balloc_free [OF f(1) t r _ _ n] obtain b u cs where
    b: "balloc 1 s = Ret (of_nat b) u" "free_block (bview s) (fs_sb s) b" "tr u cs {}" "length cs \<le> length bs + 2"
      "bview u = alloc_eff (fs_sb s) b (bview s)" "lsame s u" by auto
  let ?u = "inode_upd ip (\<lambda>x. x\<lparr>i_addrs := (i_addrs x)[j := of_nat b]\<rparr>) u"
  note E = ext_addr [OF f(1) b(2) f(2) j]
  have iu: "inodes u = inodes s" by (rule lsame_fs(2) [OF b(6)])
  have "fsame ip s ?u"
    unfolding inode_upd_def by (rule fsame_trans [OF fsame_lsame [OF b(6)] fsame_inode])
  moreover have "ext (fs_sb s) (disksize s) (bview s) (inodes s ip) (bview ?u) (inodes ?u ip) 1"
    using E(1) b(5) iu by (simp add: inode_upd_def)
  ultimately have "sext ip s ?u 1" by (simp add: sext_def)
  moreover have "tr ?u cs {}" using b(3) by (simp add: inode_upd_def)
  moreover have "i_addrs (inodes ?u ip) ! j = of_nat b" using iu j(1) f(2) by (simp add: inode_upd_def inode_ok_def)
  ultimately show ?thesis using b free_blockD(2) [OF f(1) b(2)] by blast
qed

text \<open>The part of \<open>bmap\<close> that looks up, or fills, an entry of the indirect block.\<close>

definition bmap_entry :: "nat \<Rightarrow> nat \<Rightarrow> uint \<Rightarrow> 'a fsys_scheme \<Rightarrow> (uint, 'a fsys_scheme) kres" where
  "bmap_entry ip k addr s =
     bindK (bread (i_dev (inodes s ip)) addr s) (\<lambda>bp s.
     let addr = get32 (b_data (bufs s bp)) (4 * k) in
     bindK (if addr = 0 then
         bindK (balloc (i_dev (inodes s ip)) s) (\<lambda>addr s.
         bindK (log_write bp (data_upd bp (put32 (4 * k) addr) s)) (\<lambda>_ s.
         Ret addr s))
       else Ret addr s) (\<lambda>addr s.
     bindK (brelse bp s) (\<lambda>_ s.
     Ret addr s)))"

definition bmap_done :: "nat \<Rightarrow> nat \<Rightarrow> uint list \<Rightarrow> 'a fsys_scheme \<Rightarrow> (uint, 'a fsys_scheme) kres \<Rightarrow> nat \<Rightarrow> nat \<Rightarrow> bool" where
  "bmap_done ip k bs s res m l \<longleftrightarrow> (\<exists>a t cs. res = Ret a t \<and> a \<noteq> 0 \<and> tr t cs {} \<and> length cs \<le> length bs + l \<and> sext ip s t m \<and>
     baddr (bview t) (inodes t ip) k = a \<and>
     (baddr (bview s) (inodes s ip) k \<noteq> 0 \<longrightarrow> bview t = bview s \<and> lsame s t \<and> cs = bs))"

lemma bmap_entry_done:
  assumes a: "file_at s ip" and t: "tr s bs {}" and k: "NDIRECT \<le> k" "k < MAXFILE" and i: "indb (inodes s ip) \<noteq> 0"
    and l: "length bs < NBUF"
    and n: "baddr (bview s) (inodes s ip) k \<noteq> 0 \<or> room s bs 3 \<and> 0 < nfree (bview s) (fs_sb s)"
  shows "bmap_done ip k bs s (bmap_entry ip (k - NDIRECT) (indb (inodes s ip)) s) 1 3"
proof -
  let ?x = "inodes s ip" and ?V = "bview s" and ?sb = "fs_sb s"
  let ?i = "indb ?x" and ?o = "4 * (k - NDIRECT)"
  have f: "fs_ok ?V ?sb (disksize s)" "inode_ok ?V ?sb ?x" and dv: "i_dev ?x = 1" using a by (auto simp: file_at_def)
  have io: "unat ?i < unat (sb_size ?sb)" "used ?V ?sb (unat ?i)" "?i \<notin> map_blocks ?sb"
    using f(2) ownI(2) [OF i, of ?V] by (auto simp: inode_ok_def)
  have "int (unat (sb_size ?sb)) \<le> disksize s" using f(1) by (simp only: fs_ok_def fs_geom_def)
  then have id: "int (unat ?i) < disksize s" using io(1) by linarith
  from tr_bread [OF t id] l obtain h u where
    u: "bread 1 ?i s = Ret h u" "tr u bs {(h, ?i)}" "bview u = ?V" "b_data (bufs u h) = ?V ?i" "lsame s u" by auto
  have fu: "fs_sb u = ?sb" "inodes u = inodes s" "disksize u = disksize s" using lsame_fs [OF u(5)] by auto
  have ba: "baddr ?V ?x k = get32 (?V ?i) ?o" using k i by (simp add: baddr_def)
  show ?thesis
  proof (cases "baddr ?V ?x k = 0")
    case False
    from tr_brelse [OF u(2), of h ?i] obtain w where
      w: "brelse h u = Ret () w" "tr w bs {}" "bview w = ?V" "lsame u w" using u(3) by auto
    have lw: "lsame s w" by (rule lsame_trans [OF u(5) w(4)])
    have "bmap_entry ip (k - NDIRECT) ?i s = Ret (baddr ?V ?x k) w"
      using u(1,4) w(1) dv False ba by (simp add: bmap_entry_def Let_def)
    then show ?thesis using False w(2,3) lw sext_lsame [OF a lw w(3)] lsame_fs(2) [OF lw]
      unfolding bmap_done_def by auto
  next
    case True
    then have r: "room s bs 3" and nf: "0 < nfree ?V ?sb" using n by auto
    have "\<exists>b v cs. balloc 1 u = Ret (of_nat b) v \<and> free_block (bview u) (fs_sb u) b \<and> tr v cs {(h, ?i)} \<and> length cs \<le> length bs + 2 \<and>
        bview v = alloc_eff (fs_sb u) b (bview u) \<and> lsame u v"
      by (rule balloc_free) (use f u(2,3) fu io nf room_step [OF r u(5), of bs 2] in auto)
    then obtain b v cs where b: "balloc 1 u = Ret (of_nat b) v" "free_block ?V ?sb b" "tr v cs {(h, ?i)}" "length cs \<le> length bs + 2"
        "bview v = alloc_eff ?sb b ?V" "lsame u v" using u(3) fu(1) by auto
    have lv: "lsame s v" by (rule lsame_trans [OF u(5) b(6)])
    have vi: "bview v ?i = ?V ?i" using alloc_eff_own(2) [OF f(1) b(2) f(2) ownI(2) [OF i]] b(5) by simp
    have dvi: "b_data (bufs v h) = ?V ?i" using bio.contents [OF trD(1) [OF b(3)], of h ?i] trD(2) [OF b(3)] vi by simp
    let ?d = "put32 ?o (of_nat b) (?V ?i)"
    have ld: "length ?d = BSIZE" using k tr_view_length [OF t] by simp
    have "\<exists>w. log_write h (set_data h ?d v) = Ret () w \<and> tr w (log_add ?i cs) {(h, ?i)} \<and> bview w = (bview v)(?i := ?d) \<and> lsame v w"
      by (rule tr_log_write [OF b(3) _ ld]) (use room_step [OF r lv, of cs 1] b(4) in auto)
    then obtain w where w: "log_write h (data_upd h (put32 ?o (of_nat b)) v) = Ret () w" "tr w (log_add ?i cs) {(h, ?i)}"
        "bview w = (bview v)(?i := ?d)" "lsame v w" using dvi by (auto simp: data_upd_def)
    from tr_brelse [OF w(2), of h ?i] obtain z where
      z: "brelse h w = Ret () z" "tr z (log_add ?i cs) {}" "bview z = (alloc_eff ?sb b ?V)(?i := ?d)" "lsame w z" using w(3) b(5) by auto
    have lz: "lsame s z" by (rule lsame_trans [OF lv lsame_trans [OF w(4) z(4)]])
    have e: "bmap_entry ip (k - NDIRECT) ?i s = Ret (of_nat b) z"
      using u(1,4) b(1) w(1) z(1) dv True ba fu by (simp add: bmap_entry_def Let_def)
    note E = ext_entry [OF f(1) b(2) f(2) i k True]
    have iz: "inodes z = inodes s" by (rule lsame_fs(2) [OF lz])
    have "sext ip s z 1" using E(1) iz z(3) fsame_lsame [OF lz] by (simp add: sext_def)
    moreover have "length (log_add ?i cs) \<le> length bs + 3" using length_log_add(1) [of ?i cs] b(4) by simp
    ultimately show ?thesis using e z(2,3) E(2) iz True free_blockD(2) [OF f(1) b(2)] unfolding bmap_done_def by auto
  qed
qed

lemma bmap_spec:
  assumes a: "file_at s ip" and t: "tr s bs {}" and k: "k < MAXFILE" and l: "length bs < NBUF"
    and n: "baddr (bview s) (inodes s ip) k \<noteq> 0 \<or> room s bs 5 \<and> 2 \<le> nfree (bview s) (fs_sb s)"
  shows "bmap_done ip k bs s (bmap ip (of_nat k) s) 2 5"
proof -
  let ?x = "inodes s ip" and ?V = "bview s"
  have uk: "unat (of_nat k :: uint) = k" using k by (simp add: unat_of_nat)
  have dv: "i_dev ?x = 1" using a by (simp add: file_at_def)
  show ?thesis
  proof (cases "k < NDIRECT")
    case True
    then have ba: "baddr ?V ?x k = i_addrs ?x ! k" by (simp add: baddr_def)
    show ?thesis
    proof (cases "baddr ?V ?x k = 0")
      case False
      then have "bmap ip (of_nat k) s = Ret (baddr ?V ?x k) s" using True uk ba by (simp add: bmap_def Let_def)
      then show ?thesis using False t sext_lsame [OF a lsame_refl refl] unfolding bmap_done_def by auto
    next
      case b0: True
      with n have r: "room s bs 2" "0 < nfree ?V (fs_sb s)" using room_mono [of s bs 5 2] by auto
      from balloc_addr [OF a t r, of k] True b0 ba obtain b u cs where
        b: "balloc 1 s = Ret b u" "b \<noteq> 0" "tr (inode_upd ip (\<lambda>x. x\<lparr>i_addrs := (i_addrs x)[k := b]\<rparr>) u) cs {}"
          "length cs \<le> length bs + 2" "sext ip s (inode_upd ip (\<lambda>x. x\<lparr>i_addrs := (i_addrs x)[k := b]\<rparr>) u) 1"
          "i_addrs (inodes (inode_upd ip (\<lambda>x. x\<lparr>i_addrs := (i_addrs x)[k := b]\<rparr>) u) ip) ! k = b" by auto
      let ?u = "inode_upd ip (\<lambda>x. x\<lparr>i_addrs := (i_addrs x)[k := b]\<rparr>) u"
      have "bmap ip (of_nat k) s = Ret b ?u" using True uk ba b0 b(1) dv by (simp add: bmap_def Let_def)
      moreover have "baddr (bview ?u) (inodes ?u ip) k = b" using True b(6) by (simp add: baddr_def)
      ultimately show ?thesis using b b0 sext_mono [OF b(5), of 2] unfolding bmap_done_def by auto
    qed
  next
    case False
    then have kn: "NDIRECT \<le> k" by simp
    have kr: "k - NDIRECT < NINDIRECT" using k kn by linarith
    have ix: "i_addrs ?x ! NDIRECT = indb ?x" by (simp add: indb_def)
    show ?thesis
    proof (cases "indb ?x = 0")
      case ni: False
      have e: "bmap ip (of_nat k) s = bmap_entry ip (k - NDIRECT) (indb ?x) s"
        using False uk kr ni ix by (simp add: bmap_def bmap_entry_def Let_def)
      have "bmap_done ip k bs s (bmap_entry ip (k - NDIRECT) (indb ?x) s) 1 3"
        by (rule bmap_entry_done [OF a t kn k ni l]) (use n room_mono [of s bs 5 3] in auto)
      then show ?thesis unfolding e bmap_done_def using sext_mono [of ip s _ 1 2] by fastforce
    next
      case i0: True
      then have b0: "baddr ?V ?x k = 0" using False by (simp add: baddr_def)
      with n have r: "room s bs 5" "room s bs 2" "0 < nfree ?V (fs_sb s)" "2 \<le> nfree ?V (fs_sb s)" using room_mono [of s bs 5 2] by auto
      from balloc_addr [OF a t r(2,3), of NDIRECT] i0 ix obtain b u cs where
        b: "balloc 1 s = Ret b u" "b \<noteq> 0" "tr (inode_upd ip (\<lambda>x. x\<lparr>i_addrs := (i_addrs x)[NDIRECT := b]\<rparr>) u) cs {}"
          "length cs \<le> length bs + 2" "sext ip s (inode_upd ip (\<lambda>x. x\<lparr>i_addrs := (i_addrs x)[NDIRECT := b]\<rparr>) u) 1"
          "i_addrs (inodes (inode_upd ip (\<lambda>x. x\<lparr>i_addrs := (i_addrs x)[NDIRECT := b]\<rparr>) u) ip) ! NDIRECT = b" by auto
      define v where "v = inode_upd ip (\<lambda>x. x\<lparr>i_addrs := (i_addrs x)[NDIRECT := b]\<rparr>) u"
      note B = b(3,5,6) [folded v_def]
      note S = sextD [OF B(2) a]
      have iv: "indb (inodes v ip) = b" using B(3) by (simp add: indb_def)
      have e: "bmap ip (of_nat k) s = bmap_entry ip (k - NDIRECT) (indb (inodes v ip)) v"
        using False uk kr i0 ix b(1) dv iv by (simp add: bmap_def bmap_entry_def Let_def v_def)
      have rv: "room v cs 3" by (rule room_fsame [OF r(1) S(8)]) (use b(4) in simp)
      have "bmap_done ip k cs v (bmap_entry ip (k - NDIRECT) (indb (inodes v ip)) v) 1 3"
        by (rule bmap_entry_done [OF S(1) B(1) kn k]) (use rv iv b(2) S(7) r(4) in \<open>auto simp: room_def\<close>)
      then obtain c w ds where w: "bmap_entry ip (k - NDIRECT) (indb (inodes v ip)) v = Ret c w" "c \<noteq> 0" "tr w ds {}"
          "length ds \<le> length cs + 3" "sext ip v w 1" "baddr (bview w) (inodes w ip) k = c" unfolding bmap_done_def by blast
      show ?thesis unfolding e bmap_done_def using w b0 b(4) sext_trans [OF B(2) w(5)] by (auto simp: numeral_2_eq_2)
    qed
  qed
qed

end
