(* ===== verification/Fs_Rw.thy ===== *)
theory Fs_Rw
  imports Fs_File
begin

text \<open>
  \<open>readi\<close> and \<open>writei\<close> of \<^verbatim>\<open>kernel/fs.c\<close> read and change the bytes of a file, and \<open>iupdate\<close> stores an
  inode in its block.
\<close>

declare readi_loop.simps [simp del] writei_loop.simps [simp del]

section \<open>Steps that may change bytes\<close>

definition wext :: "nat \<Rightarrow> 'a fsys_scheme \<Rightarrow> 'a fsys_scheme \<Rightarrow> nat \<Rightarrow> bool" where
  "wext ip s t m \<longleftrightarrow> fsame ip s t \<and> file_at t ip \<and> inodes t ip = (inodes s ip)\<lparr>i_addrs := i_addrs (inodes t ip)\<rparr> \<and>
     nfree (bview s) (fs_sb s) \<le> nfree (bview t) (fs_sb t) + m \<and>
     frame (fs_sb s) (bview s) (inodes s ip) (bview t) (inodes t ip) \<and>
     (\<forall>k < MAXFILE. baddr (bview s) (inodes s ip) k \<noteq> 0 \<longrightarrow> baddr (bview t) (inodes t ip) k \<noteq> 0)"

lemma wext_refl: "file_at s ip \<Longrightarrow> wext ip s s m"
  by (simp add: wext_def fsame_lsame frame_refl)

lemma wext_trans:
  assumes "wext ip s t m" and "wext ip t u l"
  shows "wext ip s u (m + l)"
proof -
  have "inodes u ip = (inodes s ip)\<lparr>i_addrs := i_addrs (inodes u ip)\<rparr>"
    using assms by (simp add: wext_def) (metis inode.surjective inode.update_convs(10))
  moreover have "frame (fs_sb s) (bview s) (inodes s ip) (bview u) (inodes u ip)"
    using assms fsameD(1) [of ip s t] frame_trans by (fastforce simp: wext_def)
  ultimately show ?thesis using assms fsame_trans [of ip s t u] by (auto simp: wext_def)
qed

lemma wext_mono: "wext ip s t m \<Longrightarrow> m \<le> l \<Longrightarrow> wext ip s t l"
  by (auto simp: wext_def)

lemma wext_sext: "sext ip s t m \<Longrightarrow> file_at s ip \<Longrightarrow> wext ip s t m"
  using sextD [of ip s t m] by (auto simp: wext_def)

text \<open>A logged change of one block of the file.\<close>

lemma wext_write:
  assumes a: "file_at s ip" and k: "k < MAXFILE" "baddr (bview s) (inodes s ip) k \<noteq> 0" and d: "length d = BSIZE"
    and t: "lsame s t" "bview t = (bview s)(baddr (bview s) (inodes s ip) k := d)"
  shows "wext ip s t 0"
    "p < MAXFILE * BSIZE \<Longrightarrow> fbyte (bview t) (inodes t ip) p =
       (if p div BSIZE = k then d ! (p mod BSIZE) else fbyte (bview s) (inodes s ip) p)"
proof -
  have f: "fs_ok (bview s) (fs_sb s) (disksize s)" "inode_ok (bview s) (fs_sb s) (inodes s ip)" using a by (auto simp: file_at_def)
  note W = write_block [OF f k d, folded t(2)]
  note L = lsame_fs [OF t(1)]
  show "wext ip s t 0" using W(1-6) L a fsame_lsame [OF t(1)] by (simp add: wext_def file_at_def)
  show "p < MAXFILE * BSIZE \<Longrightarrow> fbyte (bview t) (inodes t ip) p =
       (if p div BSIZE = k then d ! (p mod BSIZE) else fbyte (bview s) (inodes s ip) p)" using W(7) L by simp
qed

section \<open>\<open>writei\<close>\<close>

text \<open>The number of blocks that the bytes from \<open>p\<close> to \<open>e\<close> lie in.\<close>

definition nblk :: "nat \<Rightarrow> nat \<Rightarrow> nat" where
  "nblk p e = (if p < e then (e - 1) div BSIZE - p div BSIZE + 1 else 0)"

lemma nblk_step:
  assumes "p < e"
  shows "nblk p e = Suc (nblk (p + min (e - p) (BSIZE - p mod BSIZE)) e)"
proof (cases "e - p \<le> BSIZE - p mod BSIZE")
  case True
  have p: "p div BSIZE * BSIZE + p mod BSIZE = p" "p mod BSIZE < BSIZE" by simp_all
  have "p div BSIZE * BSIZE \<le> e - 1" "e - 1 < p div BSIZE * BSIZE + BSIZE"
    using p True assms by linarith+
  then have "(e - 1) div BSIZE = p div BSIZE" by (intro div_nat_eqI) (simp_all add: mult.commute)
  with True assms show ?thesis by (simp add: nblk_def)
next
  case False
  let ?q = "p + (BSIZE - p mod BSIZE)"
  have q: "?q = (p div BSIZE + 1) * BSIZE" 
  proof -
    have "p div BSIZE * BSIZE + p mod BSIZE = p" "p mod BSIZE < BSIZE" by simp_all
    then have "p + (BSIZE - p mod BSIZE) = p div BSIZE * BSIZE + BSIZE" by linarith
    then show ?thesis by simp
  qed
  then have "?q div BSIZE = p div BSIZE + 1" by (metis nonzero_mult_div_cancel_right zero_neq_numeral)
  moreover have "?q < e" using False by linarith
  moreover have "?q div BSIZE \<le> (e - 1) div BSIZE" by (rule div_le_mono) (use \<open>?q < e\<close> in linarith)
  moreover from calculation have "(e - 1) div BSIZE - p div BSIZE = Suc ((e - 1) div BSIZE - Suc (p div BSIZE))"
    by (intro Suc_diff_Suc [symmetric]) simp
  ultimately show ?thesis using False assms by (simp add: nblk_def min_def)
qed

lemma bpos:
  fixes off :: uint
  assumes "unat off + n \<le> MAXFILE * BSIZE" and "tot < n"
  shows "unat (off + of_nat tot) = unat off + tot" "(off + of_nat tot) div 512 = of_nat ((unat off + tot) div BSIZE)"
    "(unat off + tot) div BSIZE < MAXFILE" "chunk off n tot = min (n - tot) (BSIZE - (unat off + tot) mod BSIZE)"
proof -
  have t: "unat (of_nat tot :: uint) = tot" using assms by (simp add: unat_of_nat)
  then show u: "unat (off + of_nat tot) = unat off + tot" using assms by (simp add: unat_word_ariths)
  have lt: "(unat off + tot) div BSIZE < 2 ^ 32" using assms by (intro le_less_trans [OF div_le_dividend]) simp
  then show "(off + of_nat tot) div 512 = of_nat ((unat off + tot) div BSIZE)"
    by (simp add: word_unat_eq_iff unat_div u unat_of_nat)
  show "(unat off + tot) div BSIZE < MAXFILE" using assms by (intro div_MAXFILE) simp
  show "chunk off n tot = min (n - tot) (BSIZE - (unat off + tot) mod BSIZE)" by (simp add: chunk_def u)
qed

text \<open>One round of the loop of \<open>writei\<close>: the bytes \<open>bs\<close> go to position \<open>p\<close>.\<close>

lemma write_round:
  assumes a: "file_at s ip" and t: "tr s cs {}" and r: "room s cs 6" and n: "2 \<le> nfree (bview s) (fs_sb s)"
    and p: "p < MAXFILE * BSIZE" and xs: "length xs \<le> BSIZE - p mod BSIZE"
  defines "k \<equiv> p div BSIZE"
  shows "\<exists>t ds. bindK (bmap ip (of_nat k) s) (\<lambda>addr s.
        bindK (bread (i_dev (inodes s ip)) addr s) (\<lambda>bp s.
        bindK (log_write bp (data_upd bp (\<lambda>d. splice d (p mod BSIZE) xs) s)) (\<lambda>_ s.
        brelse bp s))) = Ret () t \<and>
    tr t ds {} \<and> length ds \<le> length cs + 6 \<and> wext ip s t 2 \<and> baddr (bview t) (inodes t ip) k \<noteq> 0 \<and>
    (\<forall>q < MAXFILE * BSIZE. fbyte (bview t) (inodes t ip) q =
       (if p \<le> q \<and> q < p + length xs then xs ! (q - p) else fbyte (bview s) (inodes s ip) q))"
proof -
  have k: "k < MAXFILE" unfolding k_def by (rule div_MAXFILE [OF p])
  have "bmap_done ip k cs s (bmap ip (of_nat k) s) 2 5"
    by (rule bmap_spec [OF a t k]) (use r n room_mono [of s cs 6 5] in \<open>auto simp: room_def\<close>)
  then obtain b u es where u: "bmap ip (of_nat k) s = Ret b u" "b \<noteq> 0" "tr u es {}" "length es \<le> length cs + 5" "sext ip s u 2"
      "baddr (bview u) (inodes u ip) k = b" unfolding bmap_done_def by blast
  note S = sextD [OF u(5) a]
  have f: "fs_ok (bview u) (fs_sb u) (disksize u)" "inode_ok (bview u) (fs_sb u) (inodes u ip)" "i_dev (inodes u ip) = 1"
    using S(1) by (auto simp: file_at_def)
  have "unat b < unat (sb_size (fs_sb u))" using f(2) ownI(1) [OF k, of "bview u" "inodes u ip"] u(2,6) by (auto simp: inode_ok_def)
  moreover have "int (unat (sb_size (fs_sb u))) \<le> disksize u" using f(1) by (simp only: fs_ok_def fs_geom_def)
  ultimately have bd: "int (unat b) < disksize u" by linarith
  have ru: "room u es 1" by (rule room_fsame [OF r S(8)]) (use u(4) in simp)
  let ?f = "\<lambda>d. splice d (p mod BSIZE) xs"
  have pm: "p mod BSIZE + length xs \<le> BSIZE" using xs mod_less_divisor [of BSIZE p] by simp
  have lf: "length (?f (bview u b)) = BSIZE" using tr_view_length [OF u(3), of b] pm by simp
  from tr_update [OF u(3) bd _ _ ru, of ?f] lf obtain w where
    w: "bindK (bread 1 b u) (\<lambda>i s. bindK (log_write i (data_upd i ?f s)) (\<lambda>_ s. brelse i s)) = Ret () w" "tr w (log_add b es) {}"
      "bview w = (bview u)(b := ?f (bview u b))" "lsame u w" by auto
  have ww: "wext ip u w 0" using wext_write(1) [OF S(1) k _ lf w(4)] w(3) u(2,6) by simp
  have "wext ip s w 2" using wext_trans [OF wext_sext [OF u(5) a] ww] by simp
  moreover have "length (log_add b es) \<le> length cs + 6" using length_log_add(1) [of b es] u(4) by simp
  moreover have "baddr (bview w) (inodes w ip) k \<noteq> 0" using ww k u(2,6) by (auto simp: wext_def)
  moreover have "fbyte (bview w) (inodes w ip) q = (if p \<le> q \<and> q < p + length xs then xs ! (q - p) else fbyte (bview s) (inodes s ip) q)"
    if q: "q < MAXFILE * BSIZE" for q
  proof -
    have fu: "fbyte (bview u) (inodes u ip) q = fbyte (bview s) (inodes s ip) q" by (rule S(6) [OF q])
    have fw: "fbyte (bview w) (inodes w ip) q = (if q div BSIZE = k then ?f (bview u b) ! (q mod BSIZE) else fbyte (bview u) (inodes u ip) q)"
      using wext_write(2) [OF S(1) k _ lf w(4) _ q] w(3) u(2,6) by simp
    show ?thesis
    proof (cases "q div BSIZE = k")
      case True
      have d: "q = k * BSIZE + q mod BSIZE" "p = k * BSIZE + p mod BSIZE" using True k_def by simp_all (metis div_mult_mod_eq)
      have c: "p \<le> q \<and> q < p + length xs \<longleftrightarrow> p mod BSIZE \<le> q mod BSIZE \<and> q mod BSIZE < p mod BSIZE + length xs" using d by linarith
      have e: "q - p = q mod BSIZE - p mod BSIZE" using d by linarith
      have "?f (bview u b) ! (q mod BSIZE) = (if p mod BSIZE \<le> q mod BSIZE \<and> q mod BSIZE < p mod BSIZE + length xs
          then xs ! (q mod BSIZE - p mod BSIZE) else bview u b ! (q mod BSIZE))"
        using tr_view_length [OF u(3), of b] pm by (intro nth_splice) simp_all
      moreover have "fbyte (bview u) (inodes u ip) q = bview u b ! (q mod BSIZE)" using True u(2,6) by (simp add: fbyte_def Let_def)
      ultimately show ?thesis using fw True fu unfolding c e by simp
    next
      case False
      have "\<not> (p \<le> q \<and> q < p + length xs)"
      proof
        assume q: "p \<le> q \<and> q < p + length xs"
        have "p = k * BSIZE + p mod BSIZE" by (simp add: k_def)
        then have "k * BSIZE \<le> q" "q < k * BSIZE + BSIZE" using q pm by linarith+
        then have "q div BSIZE = k" by (intro div_nat_eqI) (simp_all add: mult.commute)
        with False show False by simp
      qed
      with fw fu False show ?thesis by (simp only: if_False)
    qed
  qed
  ultimately show ?thesis using u(1) w(1,2) f(3) by auto
qed

lemma writei_loop_spec:
  assumes g: "\<And>tot m s. get tot m s = Ret (slice src tot m) s" and src: "length src = n"
    and n: "unat off + n \<le> MAXFILE * BSIZE" and tot: "tot \<le> n" and a: "file_at s ip" and t: "tr s cs {}"
    and r: "room s cs (6 * nblk (unat off + tot) (unat off + n))"
    and fr: "2 * nblk (unat off + tot) (unat off + n) \<le> nfree (bview s) (fs_sb s)"
  shows "\<exists>t ds. writei_loop get ip off n tot s = Ret () t \<and> tr t ds {} \<and>
    length ds \<le> length cs + 6 * nblk (unat off + tot) (unat off + n) \<and>
    wext ip s t (2 * nblk (unat off + tot) (unat off + n)) \<and>
    (\<forall>q < MAXFILE * BSIZE. fbyte (bview t) (inodes t ip) q =
       (if unat off + tot \<le> q \<and> q < unat off + n then src ! (q - unat off) else fbyte (bview s) (inodes s ip) q)) \<and>
    (\<forall>q. unat off + tot \<le> q \<and> q < unat off + n \<longrightarrow> baddr (bview t) (inodes t ip) (q div BSIZE) \<noteq> 0)"
  using tot a t r fr
proof (induction "n - tot" arbitrary: tot s cs rule: less_induct)
  case less
  let ?p = "unat off + tot" and ?e = "unat off + n"
  show ?case
  proof (cases "tot < n")
    case False
    with less(2) have "tot = n" by simp
    then have "writei_loop get ip off n tot s = Ret () s" by (simp add: writei_loop.simps)
    with \<open>tot = n\<close> less(4) wext_refl [OF less(3)] show ?thesis by (auto simp: nblk_def)
  next
    case True
    note B = bpos [OF n True]
    define m where "m = min (n - tot) (BSIZE - ?p mod BSIZE)"
    have m0: "0 < m" "m \<le> BSIZE - ?p mod BSIZE" "tot + m \<le> n" using True by (auto simp: m_def)
    let ?xs = "slice src tot m"
    have lx: "length ?xs = m" using m0(3) src by simp
    have nb: "nblk ?p ?e = Suc (nblk (?p + m) ?e)" using nblk_step [of ?p ?e] True by (simp add: m_def)
    have p: "?p < MAXFILE * BSIZE" using n True by linarith
    have r6: "room s cs 6" and f2: "2 \<le> nfree (bview s) (fs_sb s)" using less(5,6) nb room_mono [of s cs _ 6] by auto
    from write_round [OF less(3,4) r6 f2 p, of ?xs] lx m0(2) obtain u ds where
      u: "bindK (bmap ip (of_nat (?p div BSIZE)) s) (\<lambda>addr s. bindK (bread (i_dev (inodes s ip)) addr s) (\<lambda>bp s.
          bindK (log_write bp (data_upd bp (\<lambda>d. splice d (?p mod BSIZE) ?xs) s)) (\<lambda>_ s. brelse bp s))) = Ret () u"
        "tr u ds {}" "length ds \<le> length cs + 6" "wext ip s u 2" "baddr (bview u) (inodes u ip) (?p div BSIZE) \<noteq> 0"
        "\<forall>q < MAXFILE * BSIZE. fbyte (bview u) (inodes u ip) q =
           (if ?p \<le> q \<and> q < ?p + m then ?xs ! (q - ?p) else fbyte (bview s) (inodes s ip) q)" by auto
    have e: "writei_loop get ip off n tot s = writei_loop get ip off n (tot + m) u"
    proof -
      have "writei_loop get ip off n tot s =
          bindK (bindK (bmap ip (of_nat (?p div BSIZE)) s) (\<lambda>addr s. bindK (bread (i_dev (inodes s ip)) addr s) (\<lambda>bp s.
            bindK (log_write bp (data_upd bp (\<lambda>d. splice d (?p mod BSIZE) ?xs) s)) (\<lambda>_ s. brelse bp s))))
          (\<lambda>_ s. writei_loop get ip off n (tot + m) s)"
        using True B g by (subst writei_loop.simps) (simp add: Let_def bindK_assoc flip: m_def)
      then show ?thesis unfolding u(1) by simp
    qed
    have au: "file_at u ip" using u(4) by (simp add: wext_def)
    have fu: "fsame ip s u" "nfree (bview s) (fs_sb s) \<le> nfree (bview u) (fs_sb u) + 2" using u(4) by (auto simp: wext_def)
    have pm: "unat off + (tot + m) = ?p + m" by simp
    have ru: "room u ds (6 * nblk (unat off + (tot + m)) ?e)"
      unfolding pm by (rule room_fsame [OF less(5) fu(1)]) (use u(3) nb in simp)
    have nu: "2 * nblk (unat off + (tot + m)) ?e \<le> nfree (bview u) (fs_sb u)" unfolding pm using fu(2) less(6) nb by simp
    have "n - (tot + m) < n - tot" using m0(1) True by linarith
    from less(1) [OF this m0(3) au u(2) ru nu] obtain w es where
      w: "writei_loop get ip off n (tot + m) u = Ret () w" "tr w es {}" "length es \<le> length ds + 6 * nblk (?p + m) ?e"
        "wext ip u w (2 * nblk (?p + m) ?e)"
        "\<forall>q < MAXFILE * BSIZE. fbyte (bview w) (inodes w ip) q =
           (if ?p + m \<le> q \<and> q < ?e then src ! (q - unat off) else fbyte (bview u) (inodes u ip) q)"
        "\<forall>q. ?p + m \<le> q \<and> q < ?e \<longrightarrow> baddr (bview w) (inodes w ip) (q div BSIZE) \<noteq> 0"
      unfolding pm by blast
    have "fbyte (bview w) (inodes w ip) q = (if ?p \<le> q \<and> q < ?e then src ! (q - unat off) else fbyte (bview s) (inodes s ip) q)"
      if "q < MAXFILE * BSIZE" for q
    proof -
      have "?xs ! (q - ?p) = src ! (q - unat off)" if "?p \<le> q" "q < ?p + m"
        using that m0(3) src by (subst nth_slice) auto
      moreover have "\<not> (?p + m \<le> q \<and> q < ?e) \<Longrightarrow> ?p \<le> q \<and> q < ?e \<longleftrightarrow> ?p \<le> q \<and> q < ?p + m" using m0(3) by linarith
      ultimately show ?thesis using w(5) [rule_format, OF that] u(6) [rule_format, OF that] by (auto split: if_splits)
    qed
    moreover have "baddr (bview w) (inodes w ip) (q div BSIZE) \<noteq> 0" if q: "?p \<le> q" "q < ?e" for q
    proof (cases "?p + m \<le> q")
      case False
      have "?p = ?p div BSIZE * BSIZE + ?p mod BSIZE" by simp
      then have "?p div BSIZE * BSIZE \<le> q" "q < ?p div BSIZE * BSIZE + BSIZE" using q False m0(2) by linarith+
      then have "q div BSIZE = ?p div BSIZE" by (intro div_nat_eqI) (simp_all add: mult.commute)
      then show ?thesis using w(4) u(5) B(3) by (simp add: wext_def)
    qed (use w(6) q in blast)
    moreover have "wext ip s w (2 * nblk ?p ?e)" using wext_trans [OF u(4) w(4)] nb by simp
    ultimately show ?thesis unfolding e using w(1,2,3) u(3) nb by auto
  qed
qed

section \<open>\<open>iupdate\<close>\<close>

lemma size_irrelevant [simp]:
  "indb (x\<lparr>i_size := v\<rparr>) = indb x" "baddr V (x\<lparr>i_size := v\<rparr>) = baddr V x" "own V (x\<lparr>i_size := v\<rparr>) = own V x"
  "fbyte V (x\<lparr>i_size := v\<rparr>) = fbyte V x" "inode_ok V sb (x\<lparr>i_size := v\<rparr>) = inode_ok V sb x"
  "frame sb V x W (z\<lparr>i_size := v\<rparr>) = frame sb V x W z"
proof -
  show i: "indb (x\<lparr>i_size := v\<rparr>) = indb x" for x by (simp add: indb_def)
  then show b: "baddr V (x\<lparr>i_size := v\<rparr>) = baddr V x" for x V by (simp add: baddr_def fun_eq_iff)
  with i show o: "own V (x\<lparr>i_size := v\<rparr>) = own V x" for x V by (simp add: own_def)
  from b show "fbyte V (x\<lparr>i_size := v\<rparr>) = fbyte V x" by (simp add: fbyte_def fun_eq_iff)
  from i b o show "inode_ok V sb (x\<lparr>i_size := v\<rparr>) = inode_ok V sb x" by (simp add: inode_ok_def)
  from o show "frame sb V x W (z\<lparr>i_size := v\<rparr>) = frame sb V x W z" by (simp add: frame_def)
qed

text \<open>Writing an inode block concerns no file.\<close>

lemma write_inode_block:
  assumes f: "fs_ok V sb n" and x: "inode_ok V sb x" and c: "c \<in> inode_blocks sb" and d: "length d = BSIZE"
  defines "W \<equiv> V(c := d)"
  shows "fs_ok W sb n" "inode_ok W sb x" "baddr W x k = baddr V x k" "nfree W sb = nfree V sb" "frame sb V x W x"
    "p < MAXFILE * BSIZE \<Longrightarrow> fbyte W x p = fbyte V x p"
proof -
  have m: "c \<notin> map_blocks sb" using f c by (auto simp: fs_ok_def)
  have us: "used W sb b = used V sb b" if "b < unat (sb_size sb)" for b
    using m that by (auto simp: used_def W_def map_blocks_def)
  have ag: "W b = V b" if "b \<in> own V x" for b using x that c by (auto simp: inode_ok_def W_def)
  have cs: "unat c < unat (sb_size sb)" using f c by (simp add: fs_ok_def)
  then show "fs_ok W sb n" using f us d by (auto simp: fs_ok_def fs_geom_def W_def)
  show "inode_ok W sb x" by (rule inode_ok_agree [OF x ag]) (use us in auto)
  show "baddr W x k = baddr V x k" by (rule own_agree(1) [OF ag])
  show "nfree W sb = nfree V sb" unfolding nfree_def using us by (intro arg_cong [where f = card]) auto
  have "own W x = own V x" by (rule own_agree(2) [OF ag])
  then show "frame sb V x W x" by (intro frameI [where N = "{}"]) (use c us in \<open>auto simp: W_def\<close>)
  show "p < MAXFILE * BSIZE \<Longrightarrow> fbyte W x p = fbyte V x p" by (rule own_agree(3) [OF ag])
qed

lemma length_dinode_bytes: "length (d_addrs di) = 13 \<Longrightarrow> length (dinode_bytes di) = 64"
proof -
  have "length (concat (map bytes32 xs)) = 4 * length xs" for xs by (induction xs) simp_all
  then show "length (d_addrs di) = 13 \<Longrightarrow> length (dinode_bytes di) = 64" by (simp add: dinode_bytes_def)
qed

text \<open>An inode is read back from the place it was stored in.\<close>

lemma slice_splice_in:
  "off \<le> length d \<Longrightarrow> i + n \<le> length xs \<Longrightarrow> slice (splice d off xs) (off + i) n = slice xs i n"
  by (simp add: slice_def splice_def)

lemma slice_app:
  "slice (xs @ ys) (length xs + i) n = slice ys i n" "slice (xs @ ys) 0 (length xs) = xs" "slice xs 0 (length xs) = xs"
  by (simp_all add: slice_def)

lemma slice_addrs: "k < length xs \<Longrightarrow> slice (concat (map bytes32 xs)) (4 * k) 4 = bytes32 (xs ! k)"
proof (induction xs arbitrary: k)
  case (Cons x xs)
  show ?case
  proof (cases k)
    case 0
    then show ?thesis using slice_app(2) [of "bytes32 x"] by simp
  next
    case (Suc j)
    then show ?thesis using Cons slice_app(1) [of "bytes32 x" "concat (map bytes32 xs)" "4 * j" 4] by simp
  qed
qed simp

lemma get_dinode_splice:
  assumes a: "length (d_addrs di) = 13" and o: "off \<le> length d"
  shows "get_dinode (splice d off (dinode_bytes di)) off = di"
proof -
  let ?d = "splice d off (dinode_bytes di)"
  let ?c = "concat (map bytes32 (d_addrs di))"
  note L = length_dinode_bytes [OF a]
  have S: "slice ?d (off + i) n = slice (dinode_bytes di) i n" if "i + n \<le> 64" for i n
    by (rule slice_splice_in [OF o]) (use that L in simp)
  have b: "slice (dinode_bytes di) 0 2 = bytes16 (d_type di)" "slice (dinode_bytes di) 2 2 = bytes16 (d_major di)"
    "slice (dinode_bytes di) 4 2 = bytes16 (d_minor di)" "slice (dinode_bytes di) 6 2 = bytes16 (d_nlink di)"
    "slice (dinode_bytes di) 8 4 = bytes32 (d_size di)"
    by (simp_all add: dinode_bytes_def slice_def take_Cons' drop_append bytes16_def bytes32_def)
  have c: "slice (dinode_bytes di) (12 + 4 * k) 4 = bytes32 (d_addrs di ! k)" if "k < 13" for k
  proof -
    let ?h = "bytes16 (d_type di) @ bytes16 (d_major di) @ bytes16 (d_minor di) @ bytes16 (d_nlink di) @ bytes32 (d_size di)"
    have "dinode_bytes di = ?h @ ?c" "length ?h = 12" by (simp_all add: dinode_bytes_def)
    then show ?thesis using slice_app(1) [of ?h ?c "4 * k" 4] slice_addrs [of k "d_addrs di"] that a by (simp only:)
  qed
  have "map (\<lambda>k. get32 ?d (off + 12 + 4 * k)) [0..<NDIRECT + 1] = d_addrs di"
    using a S c by (intro nth_equalityI) (simp_all add: get32_def add.assoc del: upt_Suc)
  moreover have "get16 ?d off = d_type di" "get16 ?d (off + 2) = d_major di" "get16 ?d (off + 4) = d_minor di"
    "get16 ?d (off + 6) = d_nlink di" "get32 ?d (off + 8) = d_size di"
    using S [of 0 2] S [of 2 2] S [of 4 2] S [of 6 2] S [of 8 4] b by (simp_all add: get16_def get32_def)
  ultimately show ?thesis by (simp add: get_dinode_def)
qed

lemma iupdate_spec:
  assumes a: "file_at s ip" and t: "tr s cs {}" and r: "room s cs 1" and i: "i_inum (inodes s ip) < sb_ninodes (fs_sb s)"
  defines "b \<equiv> IBLOCK (i_inum (inodes s ip)) (fs_sb s)"
  shows "\<exists>t. iupdate ip s = Ret () t \<and> tr t (log_add b cs) {} \<and> lsame s t \<and> wext ip s t 0 \<and>
    (\<forall>p < MAXFILE * BSIZE. fbyte (bview t) (inodes t ip) p = fbyte (bview s) (inodes s ip) p) \<and>
    get_dinode (bview t b) (64 * unat (i_inum (inodes s ip) mod IPB)) = inode_dinode (inodes s ip)"
proof -
  let ?x = "inodes s ip"
  let ?o = "64 * unat (i_inum ?x mod IPB)"
  have f: "fs_ok (bview s) (fs_sb s) (disksize s)" "inode_ok (bview s) (fs_sb s) ?x" "i_dev ?x = 1" using a by (auto simp: file_at_def)
  have la: "length (d_addrs (inode_dinode ?x)) = 13" using f(2) by (simp add: inode_dinode_def inode_ok_def)
  have "IBLOCK (of_nat (unat (i_inum ?x))) (fs_sb s) = b" by (simp add: b_def)
  moreover have "unat (i_inum ?x) < unat (sb_ninodes (fs_sb s))" using i by (simp add: word_less_nat_alt)
  ultimately have bi: "b \<in> inode_blocks (fs_sb s)" unfolding inode_blocks_def by blast
  then have "unat b < unat (sb_size (fs_sb s))" using f(1) by (simp add: fs_ok_def)
  moreover have "int (unat (sb_size (fs_sb s))) \<le> disksize s" using f(1) by (simp only: fs_ok_def fs_geom_def)
  ultimately have bd: "int (unat b) < disksize s" by linarith
  have "unat (i_inum ?x mod IPB) < 8" by (simp add: IPB_def unat_mod)
  then have o: "?o + 64 \<le> BSIZE" by simp
  let ?d = "put_dinode ?o (inode_dinode ?x) (bview s b)"
  have ld: "length ?d = BSIZE" using o length_dinode_bytes [OF la] tr_view_length [OF t, of b] by (simp add: put_dinode_def)
  from tr_update [OF t bd _ _ r, of "put_dinode ?o (inode_dinode ?x)"] ld obtain u where
    u: "bindK (bread 1 b s) (\<lambda>i s. bindK (log_write i (data_upd i (put_dinode ?o (inode_dinode ?x)) s)) (\<lambda>_ s. brelse i s)) = Ret () u"
      "tr u (log_add b cs) {}" "bview u = (bview s)(b := ?d)" "lsame s u" by auto
  note W = write_inode_block [OF f(1,2) bi ld, folded u(3)]
  note L = lsame_fs [OF u(4)]
  obtain h v where hv: "bread 1 b s = Ret h v" "lsame s v"
    using tr_bread [OF t bd] r by (auto simp: room_def)
  have "inodes v = inodes s" by (rule lsame_fs(2) [OF hv(2)])
  then have "iupdate ip s = Ret () u" using u(1) hv(1) f(3) by (simp add: iupdate_def Let_def b_def)
  moreover have "wext ip s u 0" using W L f(3) fsame_lsame [OF u(4)] by (simp add: wext_def file_at_def)
  moreover have "get_dinode (bview u b) ?o = inode_dinode ?x"
    using get_dinode_splice [OF la, of ?o "bview s b"] u(3) o tr_view_length [OF t, of b] by (simp add: put_dinode_def)
  ultimately show ?thesis using u(2,4) W(6) L by auto
qed

section \<open>The contents of files\<close>

text \<open>A file without holes, of a size that its blocks can hold.\<close>

definition whole :: "'a fsys_scheme \<Rightarrow> nat \<Rightarrow> bool" where
  "whole s ip \<longleftrightarrow> file_at s ip \<and> i_type (inodes s ip) \<noteq> T_DEV \<and> i_inum (inodes s ip) < sb_ninodes (fs_sb s) \<and>
     unat (i_size (inodes s ip)) \<le> MAXFILE * BSIZE \<and>
     (\<forall>q < unat (i_size (inodes s ip)). baddr (bview s) (inodes s ip) (q div BSIZE) \<noteq> 0)"

lemma fdata_splice:
  assumes "\<And>q. q < unat (i_size z) \<Longrightarrow> fbyte W z q = (if off \<le> q \<and> q < off + length src then src ! (q - off) else fbyte V x q)"
    and "off \<le> unat (i_size x)" and "unat (i_size z) = max (unat (i_size x)) (off + length src)"
  shows "fdata W z = splice (fdata V x) off src"
proof (rule nth_equalityI)
  show "length (fdata W z) = length (splice (fdata V x) off src)" using assms(2,3) by (simp add: fdata_def splice_def)
  fix q assume "q < length (fdata W z)"
  then have q: "q < unat (i_size z)" by (simp add: fdata_def)
  with assms show "fdata W z ! q = splice (fdata V x) off src ! q"
    by (auto simp: fdata_def splice_def nth_append)
qed

text \<open>
  C25.  \<open>writei\<close> on a file inside a transaction, with room in the log and enough free blocks, writes
  all bytes: afterwards the contents of the file are the old contents with the bytes written over the
  given offset, extended if they go past the end.  The file keeps its invariant and no other file
  changes; when the file has grown its inode is in its block.
\<close>

theorem writei_splices:
  assumes w: "whole s ip" and t: "tr s cs {}" and off: "off \<le> i_size (inodes s ip)"
    and n: "unat off + unat n \<le> MAXFILE * BSIZE" and src: "length src = unat n"
    and r: "room s cs (6 * nblk (unat off) (unat off + unat n) + 1)"
    and fr: "2 * nblk (unat off) (unat off + unat n) \<le> nfree (bview s) (fs_sb s)"
  shows "\<exists>t ds. writei devsw (get_local src) ip off n s = Ret (sint n) t \<and> tr t ds {} \<and> whole t ip \<and>
    fdata (bview t) (inodes t ip) = splice (fdata (bview s) (inodes s ip)) (unat off) src \<and>
    frame (fs_sb s) (bview s) (inodes s ip) (bview t) (inodes t ip) \<and>
    (unat (i_size (inodes s ip)) < unat off + unat n \<longrightarrow>
       get_dinode (bview t (IBLOCK (i_inum (inodes s ip)) (fs_sb s))) (64 * unat (i_inum (inodes s ip) mod IPB)) =
       inode_dinode (inodes t ip))"
proof -
  let ?x = "inodes s ip" and ?e = "unat off + unat n"
  have a: "file_at s ip" and ty: "i_type ?x \<noteq> T_DEV" and iu: "i_inum ?x < sb_ninodes (fs_sb s)" using w by (auto simp: whole_def)
  have e: "unat (off + n) = ?e" using n by (simp add: unat_word_ariths)
  have lt: "\<not> off + n < off" "\<not> off + n > of_nat (MAXFILE * BSIZE)" using e n by (simp_all add: word_less_nat_alt)
  have ln: "\<not> off > i_size ?x" using off by simp
  have szc: "off + n > i_size ?x \<longleftrightarrow> unat (i_size ?x) < ?e" using e by (simp add: word_less_nat_alt)
  have n0: "0 < n \<or> \<not> unat (i_size ?x) < ?e" using off by (auto simp: word_le_nat_alt word_less_nat_alt)
  have r': "room s cs (6 * nblk (unat off + 0) ?e)" using r by (auto intro: room_mono)
  have "\<And>tot m s. get_local src tot m s = Ret (slice src tot m) s" by (simp add: get_local_def)
  from writei_loop_spec [OF this src n le0 a t r'] fr obtain u ds where
    u: "writei_loop (get_local src) ip off (unat n) 0 s = Ret () u" "tr u ds {}" "length ds \<le> length cs + 6 * nblk (unat off) ?e"
      "wext ip s u (2 * nblk (unat off) ?e)"
      "\<forall>q < MAXFILE * BSIZE. fbyte (bview u) (inodes u ip) q =
        (if unat off \<le> q \<and> q < ?e then src ! (q - unat off) else fbyte (bview s) ?x q)"
      "\<forall>q. unat off \<le> q \<and> q < ?e \<longrightarrow> baddr (bview u) (inodes u ip) (q div BSIZE) \<noteq> 0" by auto
  have au: "file_at u ip" and ix: "inodes u ip = ?x\<lparr>i_addrs := i_addrs (inodes u ip)\<rparr>" and fu: "fsame ip s u"
    and fm: "frame (fs_sb s) (bview s) ?x (bview u) (inodes u ip)" using u(4) by (auto simp: wext_def)
  note F = fsameD [OF fu]
  have ux: "i_size (inodes u ip) = i_size ?x" "i_type (inodes u ip) = i_type ?x" "i_inum (inodes u ip) = i_inum ?x"
    by (subst ix, simp)+
  have bd: "baddr (bview u) (inodes u ip) (q div BSIZE) \<noteq> 0" if "q < max (unat (i_size ?x)) ?e" for q
  proof (cases "unat off \<le> q \<and> q < ?e")
    case False
    then have q: "q < unat (i_size ?x)" using that off by (auto simp: word_le_nat_alt)
    then have "baddr (bview s) ?x (q div BSIZE) \<noteq> 0" "q div BSIZE < MAXFILE" using w div_MAXFILE [of q] by (auto simp: whole_def)
    then show ?thesis using u(4) by (simp add: wext_def)
  qed (use u(6) in blast)
  have m: "max (unat (i_size ?x)) ?e \<le> MAXFILE * BSIZE" using w n by (simp add: whole_def)
  have fd: "fdata (bview t) z = splice (fdata (bview s) ?x) (unat off) src"
    if "unat (i_size z) = max (unat (i_size ?x)) ?e"
      "\<And>q. q < MAXFILE * BSIZE \<Longrightarrow> fbyte (bview t) z q = fbyte (bview u) (inodes u ip) q" for t :: "'a fsys_scheme" and z
  proof (rule fdata_splice)
    show "fbyte (bview t) z q = (if unat off \<le> q \<and> q < unat off + length src then src ! (q - unat off) else fbyte (bview s) ?x q)"
      if "q < unat (i_size z)" for q
    proof -
      have "q < MAXFILE * BSIZE" using that \<open>unat (i_size z) = _\<close> m by linarith
      then show ?thesis using \<open>\<And>q. q < MAXFILE * BSIZE \<Longrightarrow> fbyte (bview t) z q = _\<close> u(5) src by simp
    qed
  qed (use off that(1) src in \<open>simp_all add: word_le_nat_alt\<close>)
  show ?thesis
  proof (cases "unat (i_size ?x) < ?e")
    case False
    then have mx: "max (unat (i_size ?x)) ?e = unat (i_size ?x)" by simp
    have "writei devsw (get_local src) ip off n s = Ret (sint n) u"
      using u(1) ty lt ln False szc ux by (simp add: writei_def)
    moreover have "whole u ip" using w au ux F(1) bd mx by (simp add: whole_def)
    moreover have "fdata (bview u) (inodes u ip) = splice (fdata (bview s) ?x) (unat off) src" by (rule fd) (use mx ux in simp_all)
    ultimately show ?thesis using u(2) fm False by blast
  next
    case True
    define v where "v = inode_upd ip (\<lambda>x. x\<lparr>i_size := off + n\<rparr>) u"
    have vi: "inodes v ip = (inodes u ip)\<lparr>i_size := off + n\<rparr>" "bview v = bview u" "fs_sb v = fs_sb u" "disksize v = disksize u"
      by (simp_all add: v_def inode_upd_def)
    have av: "file_at v ip" using au vi by (simp add: file_at_def)
    have tv: "tr v ds {}" using u(2) by (simp add: v_def inode_upd_def)
    have rv: "room v ds 1" using room_fsame [OF r fu, of ds 1] u(3) by (simp add: v_def inode_upd_def)
    have iv: "i_inum (inodes v ip) < sb_ninodes (fs_sb v)" using iu ux vi F(1) by simp
    from iupdate_spec [OF av tv rv iv] obtain z es where
      z: "iupdate ip v = Ret () z" "tr z es {}" "lsame v z" "wext ip v z 0"
        "\<forall>p < MAXFILE * BSIZE. fbyte (bview z) (inodes z ip) p = fbyte (bview v) (inodes v ip) p"
        "get_dinode (bview z (IBLOCK (i_inum (inodes v ip)) (fs_sb v))) (64 * unat (i_inum (inodes v ip) mod IPB)) = inode_dinode (inodes v ip)"
      by blast
    note Z = lsame_fs [OF z(3)]
    have "writei devsw (get_local src) ip off n s = Ret (sint n) z"
      using u(1) ty lt ln True szc n0 ux z(1) by (auto simp: writei_def v_def)
    moreover have "whole z ip"
    proof -
      have "file_at z ip" using z(4) by (simp add: wext_def)
      moreover have "baddr (bview z) (inodes z ip) (q div BSIZE) \<noteq> 0" if "q < ?e" for q
        using z(4) bd [of q] div_MAXFILE [of q] that n vi by (simp add: wext_def)
      ultimately show ?thesis using Z vi ux iu ty F(1) e n by (simp add: whole_def)
    qed
    moreover have "fdata (bview z) (inodes z ip) = splice (fdata (bview s) ?x) (unat off) src"
      by (rule fd) (use Z vi e True z(5) in simp_all)
    moreover have "frame (fs_sb s) (bview s) ?x (bview z) (inodes z ip)"
    proof -
      have "frame (fs_sb v) (bview v) (inodes v ip) (bview z) (inodes z ip)" using z(4) by (simp add: wext_def)
      then show ?thesis using frame_trans [of "fs_sb s" "bview s" ?x "bview v" "inodes v ip"] fm vi F(1) by simp
    qed
    moreover have "get_dinode (bview z (IBLOCK (i_inum ?x) (fs_sb s))) (64 * unat (i_inum ?x mod IPB)) = inode_dinode (inodes z ip)"
      using z(6) Z vi ux F(1) by simp
    ultimately show ?thesis using z(2) by blast
  qed
qed

section \<open>\<open>readi\<close>\<close>

lemma read_round:
  assumes a: "file_at s ip" and t: "tr s cs {}" and l: "length cs < NBUF" and p: "p < MAXFILE * BSIZE"
    and b: "baddr (bview s) (inodes s ip) (p div BSIZE) \<noteq> 0" and m: "m \<le> BSIZE - p mod BSIZE"
  shows "\<exists>t. bindK (bmap ip (of_nat (p div BSIZE)) s) (\<lambda>addr s.
      bindK (bread (i_dev (inodes s ip)) addr s) (\<lambda>bp s.
      bindK (put_local acc tot (slice (b_data (bufs s bp)) (p mod BSIZE) m) s) (\<lambda>acc s.
      bindK (brelse bp s) (\<lambda>_ s. Ret acc s)))) = Ret (acc @ map (fbyte (bview s) (inodes s ip)) [p..<p + m]) t \<and>
    tr t cs {} \<and> bview t = bview s \<and> lsame s t"
proof -
  let ?k = "p div BSIZE" and ?V = "bview s" and ?x = "inodes s ip"
  let ?a = "baddr ?V ?x ?k"
  have k: "?k < MAXFILE" by (rule div_MAXFILE [OF p])
  have "bmap_done ip ?k cs s (bmap ip (of_nat ?k) s) 2 5" by (rule bmap_spec [OF a t k l]) (use b in simp)
  then obtain c u where c: "bmap ip (of_nat ?k) s = Ret c u" "baddr (bview u) (inodes u ip) ?k = c"
      and u: "tr u cs {}" "bview u = ?V" "lsame s u"
    using b unfolding bmap_done_def by blast
  have u: "bmap ip (of_nat ?k) s = Ret ?a u" "tr u cs {}" "bview u = ?V" "lsame s u"
    using c u lsame_fs(2) [OF u(3)] by simp_all
  have f: "fs_ok ?V (fs_sb s) (disksize s)" "inode_ok ?V (fs_sb s) ?x" "i_dev ?x = 1" using a by (auto simp: file_at_def)
  note L = lsame_fs [OF u(4)]
  have "unat ?a < unat (sb_size (fs_sb s))" using f(2) ownI(1) [OF k b] by (auto simp: inode_ok_def)
  moreover have "int (unat (sb_size (fs_sb s))) \<le> disksize s" using f(1) by (simp only: fs_ok_def fs_geom_def)
  ultimately have ad: "int (unat ?a) < disksize u" using L(3) by linarith
  from tr_bread [OF u(2) ad] l obtain i v where
    v: "bread 1 ?a u = Ret i v" "tr v cs {(i, ?a)}" "bview v = ?V" "b_data (bufs v i) = ?V ?a" "lsame u v" using u(3) by auto
  from tr_brelse [OF v(2), of i ?a] obtain w where
    w: "brelse i v = Ret () w" "tr w cs {}" "bview w = ?V" "lsame v w" using v(3) by auto
  have pm: "p mod BSIZE + m \<le> BSIZE" using m mod_less_divisor [of BSIZE p] by simp
  have "slice (?V ?a) (p mod BSIZE) m = map (fbyte ?V ?x) [p..<p + m]"
  proof (rule nth_equalityI)
    show "length (slice (?V ?a) (p mod BSIZE) m) = length (map (fbyte ?V ?x) [p..<p + m])"
      using pm tr_view_length [OF t, of ?a] by simp
    fix j assume "j < length (slice (?V ?a) (p mod BSIZE) m)"
    then have j: "j < m" using pm tr_view_length [OF t, of ?a] by simp
    have d: "?k * BSIZE + p mod BSIZE = p" by simp
    have "?k * BSIZE \<le> p + j" "p + j < ?k * BSIZE + BSIZE" using d pm j by linarith+
    then have q: "(p + j) div BSIZE = ?k" by (intro div_nat_eqI) (simp_all add: mult.commute)
    then have "(p + j) mod BSIZE = p mod BSIZE + j" using d div_mult_mod_eq [of "p + j" BSIZE] by linarith
    then show "slice (?V ?a) (p mod BSIZE) m ! j = map (fbyte ?V ?x) [p..<p + m] ! j"
      using q b j pm tr_view_length [OF t, of ?a] by (simp add: fbyte_def Let_def)
  qed
  then show ?thesis using u(1) v(1,4) w f(3) L lsame_trans [OF u(4) lsame_trans [OF v(5) w(4)]] by (simp add: put_local_def)
qed

lemma readi_loop_spec:
  assumes n: "unat off + n \<le> MAXFILE * BSIZE" and tot: "tot \<le> n" and a: "file_at s ip" and t: "tr s cs {}" and l: "length cs < NBUF"
    and b: "\<forall>q < unat off + n. baddr (bview s) (inodes s ip) (q div BSIZE) \<noteq> 0"
  shows "\<exists>t. readi_loop put_local ip off n tot acc s =
      Ret (acc @ map (fbyte (bview s) (inodes s ip)) [unat off + tot..<unat off + n]) t \<and>
    tr t cs {} \<and> bview t = bview s \<and> lsame s t"
  using tot a t b
proof (induction "n - tot" arbitrary: tot acc s rule: less_induct)
  case less
  let ?p = "unat off + tot"
  show ?case
  proof (cases "tot < n")
    case False
    with less(2,4) show ?thesis by (simp add: readi_loop.simps)
  next
    case True
    note B = bpos [OF n True]
    define m where "m = min (n - tot) (BSIZE - ?p mod BSIZE)"
    have m0: "0 < m" "m \<le> BSIZE - ?p mod BSIZE" "tot + m \<le> n" using True by (auto simp: m_def)
    have p: "?p < MAXFILE * BSIZE" using n True by linarith
    have bp: "baddr (bview s) (inodes s ip) (?p div BSIZE) \<noteq> 0" using less(5) True by simp
    from read_round [OF less(3,4) l p bp m0(2), of acc tot] obtain u where
      u: "bindK (bmap ip (of_nat (?p div BSIZE)) s) (\<lambda>addr s. bindK (bread (i_dev (inodes s ip)) addr s) (\<lambda>bp s.
          bindK (put_local acc tot (slice (b_data (bufs s bp)) (?p mod BSIZE) m) s) (\<lambda>acc s.
          bindK (brelse bp s) (\<lambda>_ s. Ret acc s)))) = Ret (acc @ map (fbyte (bview s) (inodes s ip)) [?p..<?p + m]) u"
        "tr u cs {}" "bview u = bview s" "lsame s u" by (elim exE conjE) (rule that)
    note L = lsame_fs [OF u(4)]
    have e: "readi_loop put_local ip off n tot acc s =
        readi_loop put_local ip off n (tot + m) (acc @ map (fbyte (bview s) (inodes s ip)) [?p..<?p + m]) u"
    proof -
      have "readi_loop put_local ip off n tot acc s =
          bindK (bindK (bmap ip (of_nat (?p div BSIZE)) s) (\<lambda>addr s. bindK (bread (i_dev (inodes s ip)) addr s) (\<lambda>bp s.
            bindK (put_local acc tot (slice (b_data (bufs s bp)) (?p mod BSIZE) m) s) (\<lambda>acc s.
            bindK (brelse bp s) (\<lambda>_ s. Ret acc s)))))
          (\<lambda>acc s. readi_loop put_local ip off n (tot + m) acc s)"
        using True B by (subst readi_loop.simps) (simp add: Let_def bindK_assoc flip: m_def)
      then show ?thesis unfolding u(1) by (simp)
    qed
    have au: "file_at u ip" using less(3) L u(3) by (simp add: file_at_def)
    have bu: "\<forall>q < unat off + n. baddr (bview u) (inodes u ip) (q div BSIZE) \<noteq> 0" using less(5) L u(3) by simp
    have "n - (tot + m) < n - tot" using m0(1) True by linarith
    from less(1) [OF this m0(3) au u(2) bu, of "acc @ map (fbyte (bview s) (inodes s ip)) [?p..<?p + m]"] obtain w where
      w: "readi_loop put_local ip off n (tot + m) (acc @ map (fbyte (bview s) (inodes s ip)) [?p..<?p + m]) u =
          Ret ((acc @ map (fbyte (bview s) (inodes s ip)) [?p..<?p + m]) @ map (fbyte (bview s) (inodes s ip)) [?p + m..<unat off + n]) w"
        "tr w cs {}" "bview w = bview s" "lsame u w" using L u(3) by (auto simp: add.assoc)
    have "[?p..<unat off + n] = [?p..<?p + m] @ [?p + m..<unat off + n]"
      using upt_add_eq_append [of ?p "?p + m" "n - (tot + m)"] m0(3) by simp
    then show ?thesis unfolding e using w lsame_trans [OF u(4) w(4)] by (simp)
  qed
qed

lemma sint_unat: "unat m < 2 ^ 31 \<Longrightarrow> sint m = int (unat m)" for m :: uint
proof -
  assume "unat m < 2 ^ 31"
  then have "uint m < 2 ^ 31" unfolding uint_nat by (simp only: of_nat_less_numeral_power_cancel_iff)
  moreover have "- (2 ^ 31) \<le> uint m" by (rule order_trans [OF _ uint_nonnegative]) simp
  ultimately have "sint m = uint m" unfolding sint_uint by (intro signed_take_bit_int_eq_self) simp_all
  then show ?thesis by (simp only: uint_nat)
qed

text \<open>
  C26.  \<open>readi\<close> on a file returns the bytes of the file at the offset, as many as were asked for and
  are there, and changes neither the file nor any block; past the end, or when the sum of offset and
  length wraps, it returns the error.
\<close>

theorem readi_reads:
  assumes w: "whole s ip" and t: "tr s cs {}" and l: "length cs < NBUF"
  shows "if off > i_size (inodes s ip) \<or> off + n < off then readi devsw put_local [] ip off n s = Ret (- 1, []) s
    else \<exists>t bytes. readi devsw put_local [] ip off n s = Ret (int (length bytes), bytes) t \<and>
      bytes = take (unat n) (drop (unat off) (fdata (bview s) (inodes s ip))) \<and> tr t cs {} \<and> bview t = bview s \<and> lsame s t"
proof (cases "off > i_size (inodes s ip) \<or> off + n < off")
  case True
  then show ?thesis using w by (simp add: readi_def whole_def)
next
  case False
  let ?x = "inodes s ip"
  have a: "file_at s ip" and ty: "i_type ?x \<noteq> T_DEV" and sz: "unat (i_size ?x) \<le> MAXFILE * BSIZE"
    and b: "\<forall>q < unat (i_size ?x). baddr (bview s) ?x (q div BSIZE) \<noteq> 0" using w by (auto simp: whole_def)
  define m where "m = (if off + n > i_size ?x then i_size ?x - off else n)"
  have le: "unat off \<le> unat (i_size ?x)" using False by (simp add: word_le_nat_alt linorder_not_less)
  have nw: "unat (off + n) = unat off + unat n" using False unat_plus_simple [of off n] by (simp add: not_less)
  have um: "unat m = min (unat n) (unat (i_size ?x) - unat off)"
    using le nw by (auto simp: m_def word_less_nat_alt unat_sub word_le_nat_alt)
  have mb: "unat off + unat m \<le> unat (i_size ?x)" using um le by linarith
  have "\<forall>q < unat off + unat m. baddr (bview s) ?x (q div BSIZE) \<noteq> 0" using b mb by simp
  from readi_loop_spec [OF _ le0 a t l this, of "[]"] mb sz obtain u where
    u: "readi_loop put_local ip off (unat m) 0 [] s = Ret (map (fbyte (bview s) ?x) [unat off..<unat off + unat m]) u"
      "tr u cs {}" "bview u = bview s" "lsame s u" by auto
  let ?b = "map (fbyte (bview s) ?x) [unat off..<unat off + unat m]"
  have "sint m = int (unat m)" by (rule sint_unat) (use mb sz in simp)
  then have "sint m = int (length ?b)" by (simp only: length_map length_upt add_diff_cancel_left')
  moreover have "readi devsw put_local [] ip off n s = Ret (sint m, ?b) u"
    using False ty u(1) by (simp add: readi_def m_def Let_def)
  ultimately have "readi devsw put_local [] ip off n s = Ret (int (length ?b), ?b) u" by (simp only:)
  moreover have "?b = take (unat n) (drop (unat off) (fdata (bview s) ?x))"
    using um le mb by (intro nth_equalityI) (auto simp: fdata_def)
  ultimately show ?thesis using False u(2-4) by metis
qed

section \<open>Files on the concrete disk\<close>

lemma inode_blocks_sb0: "b \<in> inode_blocks sb0 \<Longrightarrow> 32 \<le> unat b \<and> unat b < 57"
proof -
  assume "b \<in> inode_blocks sb0"
  then obtain i where i: "b = IBLOCK (of_nat i) sb0" "i < 200" by (auto simp: inode_blocks_def sb0_def)
  have "unat (of_nat i div IPB :: uint) = i div 8" using i(2) by (simp add: IPB_def unat_div unat_of_nat)
  moreover have "i div 8 < 25" using i(2) by simp
  ultimately show ?thesis using i(1) by (simp add: IBLOCK_def unat_word_ariths)
qed

lemma fs_ok_fs0: "fs_ok (bview fs0) sb0 1000"
  unfolding fs_ok_def
proof (intro conjI allI ballI)
  show "fs_geom (bview fs0) sb0 1000" using geom_fs0 by (simp add: tr_fs0(3,4))
  show "length (bview fs0 b) = BSIZE" for b by (rule tr_view_length [OF tr_fs0(1)])
  show "inode_blocks sb0 \<inter> map_blocks sb0 = {}" using inode_blocks_sb0 by (fastforce simp: map_blocks_sb0)
  fix b assume "b \<in> inode_blocks sb0"
  from inode_blocks_sb0 [OF this] show "unat b < unat (sb_size sb0)" "used (bview fs0) sb0 (unat b)" by (simp_all add: used_fs0)
qed

text \<open>A file of five bytes in block 57, the last block before the map, which no inode uses.\<close>

definition file5 :: inode where
  "file5 = no_inode\<lparr>i_size := 5, i_addrs := 57 # replicate 12 0\<rparr>"

lemma whole_fs0: "whole fs0 0" "whole (fs0\<lparr>inodes := (\<lambda>_. file5)\<rparr>) 0"
proof -
  have b: "baddr V no_inode k = 0" "indb no_inode = 0" for V k by (auto simp: baddr_def indb_def no_inode_def)
  then have "own V no_inode = {}" for V by (auto simp: own_def)
  with b have "inode_ok (bview fs0) sb0 no_inode" by (simp add: inode_ok_def) (simp add: no_inode_def)
  then show "whole fs0 0" using fs_ok_fs0 by (simp add: whole_def file_at_def tr_fs0(3,4,5)) (simp add: no_inode_def sb0_def)
  have c: "baddr V file5 k = (if k = 0 then 57 else 0)" "indb file5 = 0" for V k
    by (auto simp: baddr_def indb_def file5_def nth_Cons')
  then have "a = 57" if "a \<in> own (bview fs0) file5" for a using that by (auto simp: own_def split: if_splits)
  moreover have "57 \<notin> inode_blocks sb0" using inode_blocks_sb0 [of 57] by auto
  ultimately have "\<forall>a \<in> own (bview fs0) file5. unat a < unat (sb_size sb0) \<and> used (bview fs0) sb0 (unat a) \<and>
      a \<notin> map_blocks sb0 \<and> a \<notin> inode_blocks sb0" by (fastforce simp: used_fs0 map_blocks_sb0)
  with c have "inode_ok (bview fs0) sb0 file5" by (simp add: inode_ok_def) (simp add: file5_def)
  with c show "whole (fs0\<lparr>inodes := (\<lambda>_. file5)\<rparr>) 0"
    using fs_ok_fs0 by (simp add: whole_def file_at_def tr_fs0(3,4)) (auto simp: file5_def no_inode_def sb0_def)
qed

lemma nfree_fs0: "2 \<le> nfree (bview fs0) (fs_sb fs0)"
proof -
  have "{59, 60} \<subseteq> {b. b < unat (sb_size sb0) \<and> \<not> used (bview fs0) sb0 b}" by (auto simp: used_fs0)
  then have "card {59, 60 :: nat} \<le> nfree (bview fs0) sb0" unfolding nfree_def by (intro card_mono) simp_all
  then show ?thesis by (simp add: tr_fs0(3))
qed

theorem writei_splices_witness:
  "\<exists>t. writei (\<lambda>_. (None, None)) (get_local [104, 105]) 0 0 2 fs0 = Ret 2 t \<and> fdata (bview t) (inodes t 0) = [104, 105]"
proof -
  have s: "i_size (inodes fs0 0) = 0" by (simp add: tr_fs0(5) no_inode_def)
  then have d: "fdata (bview fs0) (inodes fs0 0) = []" by (simp add: fdata_def)
  have n: "nblk (unat (0 :: uint)) (unat (0 :: uint) + unat (2 :: uint)) = 1" by (simp add: nblk_def)
  have r: "room fs0 [] (6 * nblk (unat (0 :: uint)) (unat (0 :: uint) + unat (2 :: uint)) + 1)"
    by (rule room_mono [OF tr_fs0(2)]) (simp only: n)
  have "\<exists>t ds. writei (\<lambda>_. (None, None)) (get_local [104, 105]) 0 0 2 fs0 = Ret (sint (2 :: uint)) t \<and> tr t ds {} \<and> whole t 0 \<and>
    fdata (bview t) (inodes t 0) = splice (fdata (bview fs0) (inodes fs0 0)) (unat (0 :: uint)) [104, 105]"
    using writei_splices [OF whole_fs0(1) tr_fs0(1) _ _ _ r, of "[104, 105]" "\<lambda>_. (None, None)", unfolded n] nfree_fs0 s by auto
  then show ?thesis unfolding d by (auto simp: splice_def)
qed

theorem readi_reads_witness:
  "\<exists>t. readi (\<lambda>_. (None, None)) put_local [] 0 2 10 (fs0\<lparr>inodes := (\<lambda>_. file5)\<rparr>) = Ret (3, [0, 0, 0]) t"
proof -
  let ?s = "fs0\<lparr>inodes := (\<lambda>_. file5)\<rparr>"
  have t: "tr ?s [] {}" using tr_fs0(1) by simp
  have z: "i_size (inodes ?s 0) = 5" by (simp add: file5_def)
  have "fbyte (bview fs0) file5 q = 0" if "q < 5" for q
    using that by (simp add: fbyte_def baddr_def file5_def tr_fs0(6))
  with z have "fdata (bview ?s) (inodes ?s 0) = replicate 5 0" by (intro nth_equalityI) (simp_all add: fdata_def)
  then have d: "take (unat (10 :: uint)) (drop (unat (2 :: uint)) (fdata (bview ?s) (inodes ?s 0))) = [0, 0, 0]"
    by (simp add: numeral_3_eq_3)
  from readi_reads [OF whole_fs0(2) t, of 2 10 "\<lambda>_. (None, None)"] show ?thesis unfolding d z by auto
qed

end
