(* ===== verification/Ulib.thy ===== *)
theory Ulib
  imports Kstring
begin

text \<open>
  The user library: \<^verbatim>\<open>libs/ulib.c\<close> and \<^verbatim>\<open>libs/printf.c\<close>.  The string functions work on the byte
  memory of the process; a loop over a string that is not terminated runs forever, which is \<open>None\<close>.

  Programs reach the kernel only through system calls.  They are an argument of the definitions: a
  record with one function per call on a world \<open>'w\<close>, \<open>None\<close> or a negative number being the error
  result.
\<close>

section \<open>System calls as seen by programs\<close>

type_synonym str = "uchar list"

record ustat =
  us_type :: uint
  us_dev :: uint
  us_ino :: uint
  us_nlink :: uint
  us_size :: uint

record 'w usys =
  u_read :: "int \<Rightarrow> nat \<Rightarrow> 'w \<Rightarrow> str option \<times> 'w"
  u_write :: "int \<Rightarrow> str \<Rightarrow> 'w \<Rightarrow> int \<times> 'w"
  u_open :: "str \<Rightarrow> uint \<Rightarrow> 'w \<Rightarrow> int \<times> 'w"
  u_close :: "int \<Rightarrow> 'w \<Rightarrow> int \<times> 'w"
  u_fstat :: "int \<Rightarrow> 'w \<Rightarrow> ustat option \<times> 'w"
  u_link :: "str \<Rightarrow> str \<Rightarrow> 'w \<Rightarrow> int \<times> 'w"
  u_unlink :: "str \<Rightarrow> 'w \<Rightarrow> int \<times> 'w"
  u_mkdir :: "str \<Rightarrow> 'w \<Rightarrow> int \<times> 'w"
  u_kill :: "int \<Rightarrow> 'w \<Rightarrow> int \<times> 'w"

definition ubytes :: "string \<Rightarrow> str" where
  "ubytes cs = map of_char cs"

section \<open>Strings in memory\<close>

partial_function (option) strcpy_u :: "bytemem \<Rightarrow> uint \<Rightarrow> uint \<Rightarrow> bytemem option" where
  "strcpy_u m s t =
     (let c = m t; m = m(s := c)
      in if c \<noteq> 0 then strcpy_u m (s + 1) (t + 1) else Some m)"

partial_function (option) strcmp_u :: "bytemem \<Rightarrow> uint \<Rightarrow> uint \<Rightarrow> int option" where
  "strcmp_u m p q =
     (if m p \<noteq> 0 \<and> m p = m q then strcmp_u m (p + 1) (q + 1)
      else Some (Word.uint (m p) - Word.uint (m q)))"

partial_function (option) strlen_u_loop :: "bytemem \<Rightarrow> uint \<Rightarrow> uint \<Rightarrow> uint option" where
  "strlen_u_loop m s n = (if m (s + n) \<noteq> 0 then strlen_u_loop m s (n + 1) else Some n)"

definition strlen_u :: "bytemem \<Rightarrow> uint \<Rightarrow> uint option" where
  "strlen_u m s = strlen_u_loop m s 0"

definition memset_u :: "bytemem \<Rightarrow> uint \<Rightarrow> uint \<Rightarrow> uint \<Rightarrow> bytemem" where
  "memset_u m dst c n = stosb m dst (ucast c) (unat n)"

text \<open>A null result is 0.\<close>

partial_function (option) strchr_u :: "bytemem \<Rightarrow> uint \<Rightarrow> uchar \<Rightarrow> uint option" where
  "strchr_u m s c =
     (if m s = 0 then Some 0 else if m s = c then Some s else strchr_u m (s + 1) c)"

partial_function (option) atoi_loop :: "bytemem \<Rightarrow> uint \<Rightarrow> uint \<Rightarrow> uint option" where
  "atoi_loop m s n =
     (if 48 \<le> m s \<and> m s \<le> 57 then atoi_loop m (s + 1) (n * 10 + ucast (m s) - 48) else Some n)"

definition atoi :: "bytemem \<Rightarrow> uint \<Rightarrow> uint option" where
  "atoi m s = atoi_loop m s 0"

definition memmove_u :: "bytemem \<Rightarrow> uint \<Rightarrow> uint \<Rightarrow> int \<Rightarrow> bytemem" where
  "memmove_u m dst src n = copy_up m dst src (nat n)"

text \<open>\<open>gets\<close>: the number of rounds left is \<open>max - 1 - i\<close>, \<open>mx\<close> being \<open>max\<close>.\<close>

fun gets_loop :: "'w usys \<Rightarrow> nat \<Rightarrow> bytemem \<Rightarrow> uint \<Rightarrow> 'w \<Rightarrow> bytemem \<times> uint \<times> 'w" where
  "gets_loop S 0 m a w = (m, a, w)"
| "gets_loop S (Suc k) m a w =
     (case u_read S 0 1 w of
        (Some (c # _), w) \<Rightarrow>
          let m = m(a := c) in
          if c = 10 \<or> c = 13 then (m, a + 1, w) else gets_loop S k m (a + 1) w
      | (_, w) \<Rightarrow> (m, a, w))"

definition gets :: "'w usys \<Rightarrow> bytemem \<Rightarrow> uint \<Rightarrow> int \<Rightarrow> 'w \<Rightarrow> bytemem \<times> 'w" where
  "gets S m buf mx w =
     (case gets_loop S (nat (mx - 1)) m buf w of (m, a, w) \<Rightarrow> (m(a := 0), w))"

definition stat_u :: "'w usys \<Rightarrow> str \<Rightarrow> 'w \<Rightarrow> ustat option \<times> 'w" where
  "stat_u S n w =
     (case u_open S n 0 w of (fd, w) \<Rightarrow>
        if fd < 0 then (None, w)
        else case u_fstat S fd w of (r, w) \<Rightarrow>
          case u_close S fd w of (_, w) \<Rightarrow> (r, w))"

section \<open>\<open>printf\<close>\<close>

definition putc :: "'w usys \<Rightarrow> int \<Rightarrow> uchar \<Rightarrow> 'w \<Rightarrow> 'w" where
  "putc S fd c w = snd (u_write S fd [c] w)"

definition digit_u :: "uint \<Rightarrow> uchar" where
  "digit_u d = ubytes ''0123456789ABCDEF'' ! unat d"

text \<open>The do-while loop: the digits from the last one on.  The base is 10 or 16.\<close>

function digits_u :: "uint \<Rightarrow> uint \<Rightarrow> str" where
  "digits_u base x =
     (if base < 2 then []
      else digit_u (x mod base) # (if x div base \<noteq> 0 then digits_u base (x div base) else []))"
  by pat_completeness auto

termination
proof (relation "measure (\<lambda>(base, x). unat x)", goal_cases)
  case (2 base x)
  then have b: "1 < unat base" by (simp add: word_less_nat_alt)
  from 2 have "0 < unat x" by (cases "x = 0") (auto simp: unat_gt_0)
  with b show ?case by (simp add: unat_div)
qed simp

definition printint_u :: "uint \<Rightarrow> uint \<Rightarrow> bool \<Rightarrow> str" where
  "printint_u xx base sg =
     (let neg = sg \<and> xx <s 0;
          x = (if neg then - xx else xx);
          buf = digits_u base x @ (if neg then [45] else [])
      in rev buf)"

text \<open>
  The arguments are tagged; a format that asks for an argument of the other kind, or for one too many,
  reads an arbitrary word, which is \<open>None\<close>.
\<close>

datatype uarg = UNum uint | UStr "str option"

fun printf_out :: "str \<Rightarrow> uarg list \<Rightarrow> str option" where
  "printf_out [] args = Some []"
| "printf_out (c # fmt) args =
     (if c \<noteq> 37 then map_option ((#) c) (printf_out fmt args)
      else case fmt of
        [] \<Rightarrow> Some []
      | d # fmt \<Rightarrow>
          if d = 100 then
            (case args of UNum x # args \<Rightarrow> map_option ((@) (printint_u x 10 True)) (printf_out fmt args) | _ \<Rightarrow> None)
          else if d = 120 \<or> d = 112 then
            (case args of UNum x # args \<Rightarrow> map_option ((@) (printint_u x 16 False)) (printf_out fmt args) | _ \<Rightarrow> None)
          else if d = 115 then
            (case args of
               UStr so # args \<Rightarrow>
                 map_option ((@) (case so of None \<Rightarrow> ubytes ''(null)'' | Some s \<Rightarrow> s)) (printf_out fmt args)
             | _ \<Rightarrow> None)
          else if d = 99 then
            (case args of UNum x # args \<Rightarrow> map_option ((#) (ucast x)) (printf_out fmt args) | _ \<Rightarrow> None)
          else if d = 37 then map_option ((#) d) (printf_out fmt args)
          else map_option (\<lambda>r. 37 # d # r) (printf_out fmt args))"

definition printf :: "'w usys \<Rightarrow> int \<Rightarrow> string \<Rightarrow> uarg list \<Rightarrow> 'w \<Rightarrow> 'w option" where
  "printf S fd fmt args w = map_option (\<lambda>out. fold (putc S fd) out w) (printf_out (ubytes fmt) args)"

declare digits_u.simps [simp del]

section \<open>Lemmas\<close>

lemma strlen_u_cstr:
  "cstr m (s + n) xs \<Longrightarrow> strlen_u_loop m s n = Some (n + of_nat (length xs))"
proof (induction xs arbitrary: n)
  case Nil
  then show ?case by (subst strlen_u_loop.simps) simp
next
  case (Cons x xs)
  then have "strlen_u_loop m s (n + 1) = Some (n + 1 + of_nat (length xs))"
    by (intro Cons.IH) (simp add: algebra_simps)
  with Cons.prems show ?case by (subst strlen_u_loop.simps) (simp add: algebra_simps)
qed

text \<open>The decimal digits of a number below 10, and the loops that print and read them.\<close>

lemma digit_u_10:
  assumes "d < (10 :: uint)"
  shows "48 \<le> digit_u d" "digit_u d \<le> 57" "ucast (digit_u d) - 48 = d" "digit_u d \<noteq> 0"
proof -
  have "unat d < 10" using assms by (simp add: word_less_nat_alt)
  then have "unat d \<in> set [0..<10]" by simp
  moreover have "\<forall>k \<in> set [0..<10]. 48 \<le> digit_u (of_nat k) \<and> digit_u (of_nat k) \<le> 57 \<and>
      ucast (digit_u (of_nat k)) - 48 = (of_nat k :: uint) \<and> digit_u (of_nat k) \<noteq> 0"
    by code_simp
  ultimately have "48 \<le> digit_u (of_nat (unat d)) \<and> digit_u (of_nat (unat d)) \<le> 57 \<and>
      ucast (digit_u (of_nat (unat d))) - 48 = (of_nat (unat d) :: uint) \<and> digit_u (of_nat (unat d)) \<noteq> 0"
    by blast
  then show "48 \<le> digit_u d" "digit_u d \<le> 57" "ucast (digit_u d) - 48 = d" "digit_u d \<noteq> 0" by simp_all
qed

lemma digits_u_range: "c \<in> set (digits_u 10 x) \<Longrightarrow> 48 \<le> c \<and> c \<le> 57"
proof (induction "10 :: uint" x rule: digits_u.induct)
  case (1 x)
  have d: "x mod 10 < 10" by (simp add: word_mod_less_divisor)
  show ?case using 1 digit_u_10(1,2) [OF d]
    by (subst (asm) (2) digits_u.simps) (auto split: if_splits)
qed

lemma digits_u_value: "foldr (\<lambda>c v. v * 10 + ucast c - 48) (digits_u 10 x) 0 = x"
proof (induction "10 :: uint" x rule: digits_u.induct)
  case (1 x)
  have d: "x mod 10 < 10" by (simp add: word_mod_less_divisor)
  have e: "v * 10 + ucast (digit_u (x mod 10)) - 48 = v * 10 + x mod 10" for v :: uint
    using digit_u_10(3) [OF d] by (simp add: algebra_simps)
  show ?case
  proof (cases "x div 10 = 0")
    case True
    then have "x mod 10 = x" using div_mult_mod_eq [of x 10] by simp
    then show ?thesis using True e [of 0] by (subst digits_u.simps) simp
  next
    case False
    then show ?thesis using 1 e [of "x div 10"] div_mult_mod_eq [of x 10] by (subst digits_u.simps) simp
  qed
qed

lemma atoi_loop_digits:
  assumes "cstr m s xs" and "\<forall>c \<in> set xs. 48 \<le> c \<and> c \<le> 57"
  shows "atoi_loop m s n = Some (foldl (\<lambda>n c. n * 10 + ucast c - 48) n xs)"
  using assms
proof (induction xs arbitrary: s n)
  case Nil
  then show ?case by (subst atoi_loop.simps) simp
next
  case (Cons x xs)
  then show ?case by (subst atoi_loop.simps) simp
qed

section \<open>Properties\<close>

text \<open>
  C40. Reading back what was printed: if \<open>printf\<close> of the format \<open>%d\<close> printed a number that is not
  negative, \<open>atoi\<close> of the printed string is that number.
\<close>

theorem atoi_printint:
  assumes "printf_out (ubytes ''%d'') [UNum x] = Some xs" and "0 \<le>s x" and "cstr m a xs"
  shows "atoi m a = Some x"
proof -
  have xs: "xs = rev (digits_u 10 x)"
    using assms(1,2) by (auto simp: ubytes_def printint_u_def Let_def)
  then have "\<forall>c \<in> set xs. 48 \<le> c \<and> c \<le> 57" using digits_u_range by auto
  from atoi_loop_digits [OF assms(3) this]
  show ?thesis by (simp add: atoi_def xs foldl_conv_foldr digits_u_value)
qed

theorem atoi_printint_witness:
  "printf_out (ubytes ''%d'') [UNum 907] = Some [57, 48, 55] \<and>
   atoi ((\<lambda>_. 0)(5 := 57, 6 := 48, 7 := 55)) 5 = Some 907"
proof -
  have o: "printf_out (ubytes ''%d'') [UNum 907] = Some [57, 48, 55]" by code_simp
  then show ?thesis using atoi_printint [OF o, of "(\<lambda>_. 0)(5 := 57, 6 := 48, 7 := 55)" 5]
    by (simp add: word_sle_eq)
qed

end
