(* ===== verification/Umalloc.thy ===== *)
theory Umalloc
  imports Ulib
begin

text \<open>
  The allocator of user programs, \<^verbatim>\<open>libs/umalloc.c\<close>.  Memory is seen through the headers: a map from
  addresses to headers, since the code reads and writes nothing else; a header takes 8 bytes and
  pointer arithmetic counts in units of 8.  The address of the static variable \<open>base\<close> and the system
  call \<open>sbrk\<close> are arguments.  Walking round the circular list may fail to end, which is \<open>None\<close>.
\<close>

section \<open>Definitions\<close>

record header =
  h_ptr :: uint
  h_size :: uint

record umem =
  hdr :: "uint \<Rightarrow> header"
  freep :: uint

type_synonym 'w sbrk = "uint \<Rightarrow> 'w \<Rightarrow> uint \<times> 'w"

definition set_ptr :: "uint \<Rightarrow> uint \<Rightarrow> umem \<Rightarrow> umem" where
  "set_ptr a v s = s\<lparr>hdr := (hdr s)(a := (hdr s a)\<lparr>h_ptr := v\<rparr>)\<rparr>"

definition set_size :: "uint \<Rightarrow> uint \<Rightarrow> umem \<Rightarrow> umem" where
  "set_size a v s = s\<lparr>hdr := (hdr s)(a := (hdr s a)\<lparr>h_size := v\<rparr>)\<rparr>"

text \<open>The loop of \<open>free\<close>, which finds the block \<open>p\<close> after which \<open>bp\<close> belongs.\<close>

partial_function (option) free_slot :: "(uint \<Rightarrow> header) \<Rightarrow> uint \<Rightarrow> uint \<Rightarrow> uint option" where
  "free_slot h bp p =
     (if bp > p \<and> bp < h_ptr (h p) then Some p
      else if p \<ge> h_ptr (h p) \<and> (bp > p \<or> bp < h_ptr (h p)) then Some p
      else free_slot h bp (h_ptr (h p)))"

text \<open>The rest of \<open>free\<close>: joining the block with its upper and with its lower neighbour.\<close>

definition free_join_upper :: "uint \<Rightarrow> uint \<Rightarrow> umem \<Rightarrow> umem" where
  "free_join_upper p bp s =
     (let q = h_ptr (hdr s p) in
      if bp + 8 * h_size (hdr s bp) = q then
        set_ptr bp (h_ptr (hdr s q)) (set_size bp (h_size (hdr s bp) + h_size (hdr s q)) s)
      else set_ptr bp q s)"

definition free_join_lower :: "uint \<Rightarrow> uint \<Rightarrow> umem \<Rightarrow> umem" where
  "free_join_lower p bp s =
     (if p + 8 * h_size (hdr s p) = bp then
        set_ptr p (h_ptr (hdr s bp)) (set_size p (h_size (hdr s p) + h_size (hdr s bp)) s)
      else set_ptr p bp s)"

definition free :: "uint \<Rightarrow> umem \<Rightarrow> umem option" where
  "free ap s =
     (let bp = ap - 8 in
      case free_slot (hdr s) bp (freep s) of
        None \<Rightarrow> None
      | Some p \<Rightarrow> Some ((free_join_lower p bp (free_join_upper p bp s))\<lparr>freep := p\<rparr>))"

text \<open>A null result is 0.\<close>

definition morecore :: "'w sbrk \<Rightarrow> uint \<Rightarrow> umem \<Rightarrow> 'w \<Rightarrow> (uint \<times> umem \<times> 'w) option" where
  "morecore sbrk nu s w =
     (let nu = (if nu < 4096 then 4096 else nu) in
      case sbrk (nu * 8) w of (p, w) \<Rightarrow>
        if p = - 1 then Some (0, s, w)
        else case free (p + 8) (set_size p nu s) of
          None \<Rightarrow> None
        | Some s \<Rightarrow> Some (freep s, s, w))"

definition take_block :: "uint \<Rightarrow> uint \<Rightarrow> uint \<Rightarrow> umem \<Rightarrow> uint \<times> umem" where
  "take_block nunits prevp p s =
     (if h_size (hdr s p) = nunits then (p + 8, (set_ptr prevp (h_ptr (hdr s p)) s)\<lparr>freep := prevp\<rparr>)
      else
        let s = set_size p (h_size (hdr s p) - nunits) s;
            p = p + 8 * h_size (hdr s p);
            s = set_size p nunits s
        in (p + 8, s\<lparr>freep := prevp\<rparr>))"

partial_function (option) malloc_loop ::
  "'w sbrk \<Rightarrow> uint \<Rightarrow> uint \<Rightarrow> uint \<Rightarrow> umem \<Rightarrow> 'w \<Rightarrow> (uint \<times> umem \<times> 'w) option" where
  "malloc_loop sbrk nunits prevp p s w =
     (if h_size (hdr s p) \<ge> nunits then
        case take_block nunits prevp p s of (r, s) \<Rightarrow> Some (r, s, w)
      else if p = freep s then
        case morecore sbrk nunits s w of
          None \<Rightarrow> None
        | Some (p, s, w) \<Rightarrow>
            if p = 0 then Some (0, s, w) else malloc_loop sbrk nunits p (h_ptr (hdr s p)) s w
      else malloc_loop sbrk nunits p (h_ptr (hdr s p)) s w)"

definition units_of :: "uint \<Rightarrow> uint" where
  "units_of nbytes = (nbytes + 8 - 1) div 8 + 1"

definition malloc :: "'w sbrk \<Rightarrow> uint \<Rightarrow> uint \<Rightarrow> umem \<Rightarrow> 'w \<Rightarrow> (uint \<times> umem \<times> 'w) option" where
  "malloc sbrk base nbytes s w =
     (let nunits = units_of nbytes;
          s = (if freep s = 0 then set_size base 0 ((set_ptr base base s)\<lparr>freep := base\<rparr>) else s)
      in malloc_loop sbrk nunits (freep s) (h_ptr (hdr s (freep s))) s w)"

lemma hdr_simps [simp]:
  "hdr (set_ptr a v s) = (hdr s)(a := (hdr s a)\<lparr>h_ptr := v\<rparr>)" "freep (set_ptr a v s) = freep s"
  "hdr (set_size a v s) = (hdr s)(a := (hdr s a)\<lparr>h_size := v\<rparr>)" "freep (set_size a v s) = freep s"
  by (simp_all add: set_ptr_def set_size_def)

section \<open>The free list\<close>

text \<open>
  \<open>seg h xs b e\<close>: the blocks \<open>xs\<close> lie in memory in this order, with a gap after each, below \<open>e\<close>, each
  pointing to the next and the last to \<open>b\<close>.
\<close>

fun seg :: "(uint \<Rightarrow> header) \<Rightarrow> uint list \<Rightarrow> uint \<Rightarrow> nat \<Rightarrow> bool" where
  "seg h [] b e \<longleftrightarrow> True"
| "seg h (x # xs) b e \<longleftrightarrow>
     h_ptr (h x) = (if xs = [] then b else hd xs) \<and>
     unat x + 8 * unat (h_size (h x)) < (if xs = [] then e else unat (hd xs)) \<and> seg h xs b e"

lemma seg_append: "seg h (xs @ y # ys) b e \<longleftrightarrow> seg h xs y (unat y) \<and> seg h (y # ys) b e"
  by (induction xs) auto

lemma seg_cong: "(\<And>x. x \<in> set xs \<Longrightarrow> h x = h' x) \<Longrightarrow> seg h xs b e = seg h' xs b e"
  by (induction xs) auto

text \<open>The bytes of a block.\<close>

definition bytes :: "(uint \<Rightarrow> header) \<Rightarrow> uint \<Rightarrow> nat set" where
  "bytes h x = {unat x ..< unat x + 8 * unat (h_size (h x))}"

lemma seg_end: "seg h xs b e \<Longrightarrow> x \<in> set xs \<Longrightarrow> unat x + 8 * unat (h_size (h x)) < e"
proof (induction xs arbitrary: x)
  case (Cons y ys)
  show ?case
  proof (cases "x = y \<and> ys \<noteq> []")
    case True
    then have "unat (hd ys) + 8 * unat (h_size (h (hd ys))) < e" using Cons.IH [of "hd ys"] Cons.prems by simp
    with True Cons.prems show ?thesis by simp
  qed (use Cons in auto)
qed simp

lemma seg_above: "seg h (x # xs) b e \<Longrightarrow> y \<in> set xs \<Longrightarrow> unat x + 8 * unat (h_size (h x)) < unat y"
proof (induction xs arbitrary: x)
  case (Cons z zs)
  then show ?case using Cons.IH [of z] by (cases "y = z") fastforce+
qed simp

lemma seg_distinct: "seg h xs b e \<Longrightarrow> distinct xs"
  by (induction xs) (use seg_above in fastforce)+

text \<open>Where a block belongs.\<close>

lemma split_at:
  fixes x bp :: uint
  assumes "x < bp" and "bp \<notin> set xs"
  obtains L p R where "x # xs = L @ p # R" and "p < bp" and "R = [] \<or> bp < hd R"
  using assms
proof (induction xs arbitrary: x thesis)
  case Nil
  then show ?case by (metis append_Nil)
next
  case (Cons y ys)
  show ?case
  proof (cases "bp < y")
    case True
    then show ?thesis using Cons.prems(1) [of "[]" x "y # ys"] Cons.prems(2) by simp
  next
    case False
    then have "y < bp" using Cons.prems(3) by auto
    with Cons.IH [of y] Cons.prems(3) obtain L p R where
      "y # ys = L @ p # R" "p < bp" "R = [] \<or> bp < hd R" by auto
    then show ?thesis using Cons.prems(1) [of "x # L" p R] by simp
  qed
qed

text \<open>The test that ends the loop of \<open>free\<close>, and walking over blocks that do not pass it.\<close>

definition stops :: "(uint \<Rightarrow> header) \<Rightarrow> uint \<Rightarrow> uint \<Rightarrow> bool" where
  "stops h bp p \<longleftrightarrow> bp > p \<and> bp < h_ptr (h p) \<or> p \<ge> h_ptr (h p) \<and> (bp > p \<or> bp < h_ptr (h p))"

lemma free_slot_stops: "stops h bp p \<Longrightarrow> free_slot h bp p = Some p"
  by (subst free_slot.simps) (auto simp: stops_def)

lemma free_slot_walk:
  "xs \<noteq> [] \<Longrightarrow> seg h xs b e \<Longrightarrow> \<forall>x \<in> set xs. \<not> stops h bp x \<Longrightarrow> free_slot h bp (hd xs) = free_slot h bp b"
proof (induction xs)
  case (Cons x xs)
  then have "free_slot h bp x = free_slot h bp (h_ptr (h x))"
    by (subst free_slot.simps) (auto simp: stops_def)
  with Cons show ?case by (cases "xs = []") auto
qed simp

lemma low_not_stops:
  assumes "seg h (x # xs) p (unat p)" and "p < bp" and "y \<in> set (x # xs)"
  shows "\<not> stops h bp y"
  using assms
proof (induction xs arbitrary: x)
  case Nil
  then have "unat x < unat p" "h_ptr (h x) = p" "y = x" by auto
  with assms(2) show ?case by (auto simp: stops_def word_less_nat_alt word_le_nat_alt)
next
  case (Cons z zs)
  show ?case
  proof (cases "y = x")
    case True
    have "unat z < unat p" using seg_end [OF Cons.prems(1), of z] by simp
    moreover have "unat x < unat z" "h_ptr (h x) = z" using Cons.prems(1) by auto
    ultimately show ?thesis using Cons.prems(2) True by (auto simp: stops_def word_less_nat_alt word_le_nat_alt)
  qed (use Cons.IH [of z] Cons.prems in auto)
qed

lemma high_not_stops:
  assumes "seg h (x # xs) base e" and "bp < x" and "base < bp" and "y \<in> set (x # xs)"
  shows "\<not> stops h bp y"
  using assms
proof (induction xs arbitrary: x)
  case Nil
  then have "h_ptr (h x) = base" "y = x" by auto
  with Nil.prems show ?case by (auto simp: stops_def word_less_nat_alt word_le_nat_alt)
next
  case (Cons z zs)
  have z: "unat x < unat z" "h_ptr (h x) = z" using Cons.prems(1) by auto
  show ?case
  proof (cases "y = x")
    case True
    with z Cons.prems(2) show ?thesis by (auto simp: stops_def word_less_nat_alt word_le_nat_alt)
  next
    case False
    with z Cons.IH [of z] Cons.prems show ?thesis by (auto simp: word_less_nat_alt)
  qed
qed

lemma free_slot_finds:
  assumes s: "seg h (L @ p # R) base e" and b: "hd (L @ [p]) = base" and f: "f \<in> set (L @ p # R)"
    and p: "p < bp" "R = [] \<or> bp < hd R" "base < bp"
  shows "free_slot h bp f = Some p"
proof -
  have sL: "seg h L p (unat p)" and sR: "seg h (p # R) base e" using s by (simp_all add: seg_append)
  have "h_ptr (h p) = base \<and> R = [] \<or> R \<noteq> [] \<and> h_ptr (h p) = hd R" using sR by auto
  moreover have "base \<le> p"
  proof (cases L)
    case (Cons x xs)
    then show ?thesis using b seg_end [OF sL, of base] by (simp add: word_le_nat_alt)
  qed (use b in simp)
  ultimately have stp: "free_slot h bp p = Some p" using p by (intro free_slot_stops) (auto simp: stops_def)
  have low: "free_slot h bp y = Some p" if y: "y \<in> set L" for y
  proof -
    obtain L1 L2 where L: "L = L1 @ y # L2" using split_list [OF y] by blast
    then have sy: "seg h (y # L2) p (unat p)" using sL by (simp add: seg_append)
    have "free_slot h bp (hd (y # L2)) = free_slot h bp p"
      by (rule free_slot_walk [OF _ sy]) (use low_not_stops [OF sy p(1)] in auto)
    with stp show ?thesis by simp
  qed
  have high: "free_slot h bp y = Some p" if y: "y \<in> set R" for y
  proof -
    obtain R1 R2 where R: "R = R1 @ y # R2" using split_list [OF y] by blast
    have "bp < y"
    proof (cases R1)
      case (Cons z zs)
      then have "seg h (z # zs @ y # R2) base e" using sR R by simp
      from seg_above [OF this, of y] Cons p(2) R show ?thesis by (auto simp: word_less_nat_alt)
    qed (use p R in auto)
    moreover have sy: "seg h (y # R2) base e"
    proof -
      have "seg h ((p # R1) @ y # R2) base e" using sR R by simp
      then show ?thesis unfolding seg_append by simp
    qed
    ultimately have "free_slot h bp (hd (y # R2)) = free_slot h bp base"
      by (intro free_slot_walk [OF _ sy]) (use high_not_stops [OF sy _ p(3)] in auto)
    moreover have "free_slot h bp base = Some p" using b stp low [of base] by (cases L) auto
    ultimately show ?thesis by simp
  qed
  from f low high stp show ?thesis by auto
qed

section \<open>\<open>free\<close>\<close>

text \<open>
  The invariant of the allocator: \<open>base\<close>, of size 0, and the free blocks \<open>fl\<close> above it form the
  circular list; no block is empty, and everything lies below \<open>e\<close>.
\<close>

definition heap_ok :: "uint \<Rightarrow> (uint \<Rightarrow> header) \<Rightarrow> uint list \<Rightarrow> nat \<Rightarrow> bool" where
  "heap_ok base h fl e \<longleftrightarrow> seg h (base # fl) base e \<and> h_size (h base) = 0 \<and>
     (\<forall>x \<in> set fl. h_size (h x) \<noteq> 0) \<and> e \<le> 2 ^ 32"

definition free_bytes :: "(uint \<Rightarrow> header) \<Rightarrow> uint list \<Rightarrow> nat set" where
  "free_bytes h fl = (\<Union>x \<in> set fl. bytes h x)"

lemma free_bytes_cong: "(\<And>x. x \<in> set xs \<Longrightarrow> h x = h' x) \<Longrightarrow> free_bytes h xs = free_bytes h' xs"
  by (auto simp: free_bytes_def bytes_def)

lemma free_bytes_simps [simp]:
  "free_bytes h [] = {}" "free_bytes h (x # xs) = bytes h x \<union> free_bytes h xs"
  "free_bytes h (xs @ ys) = free_bytes h xs \<union> free_bytes h ys"
  by (auto simp: free_bytes_def)

lemma unat_add_units:
  fixes x k :: uint
  assumes "unat x + 8 * unat k < 2 ^ 32"
  shows "unat (x + 8 * k) = unat x + 8 * unat k"
proof -
  have k: "unat (8 * k) = 8 * unat k"
    using unat_mult_lem [of "8 :: uint" k] assms by simp
  then show ?thesis using unat_add_lem [of x "8 * k"] assms by simp
qed

lemma unat_add_sizes:
  fixes a b :: uint
  assumes "unat a + unat b < 2 ^ 32"
  shows "unat (a + b) = unat a + unat b"
  using unat_add_lem [of a b] assms by simp

text \<open>The list after the block has been joined with its neighbours.\<close>

definition joined_upper :: "(uint \<Rightarrow> header) \<Rightarrow> uint \<Rightarrow> uint list \<Rightarrow> uint list" where
  "joined_upper h bp R = (if R \<noteq> [] \<and> bp + 8 * h_size (h bp) = hd R then tl R else R)"

lemma join_upper_seg:
  assumes s: "seg (hdr s) (p # R) base e" and e: "e \<le> 2 ^ 32"
    and b: "base < bp" "p \<noteq> bp" "bp \<notin> set R"
    and k: "unat bp + 8 * unat (h_size (hdr s bp)) < e" "R \<noteq> [] \<longrightarrow> unat bp + 8 * unat (h_size (hdr s bp)) \<le> unat (hd R)"
  defines "t \<equiv> free_join_upper p bp s"
  shows "seg (hdr t) (bp # joined_upper (hdr s) bp R) base e" "\<And>a. a \<noteq> bp \<Longrightarrow> hdr t a = hdr s a"
    "bytes (hdr t) bp \<union> free_bytes (hdr s) (joined_upper (hdr s) bp R) = bytes (hdr s) bp \<union> free_bytes (hdr s) R"
    "h_size (hdr s bp) \<noteq> 0 \<Longrightarrow> h_size (hdr t bp) \<noteq> 0" "freep t = freep s"
proof -
  show o: "hdr t a = hdr s a" if "a \<noteq> bp" for a using that by (simp add: t_def free_join_upper_def Let_def)
  show "freep t = freep s" by (simp add: t_def free_join_upper_def Let_def)
  have ub: "unat (bp + 8 * h_size (hdr s bp)) = unat bp + 8 * unat (h_size (hdr s bp))"
    using k(1) e by (intro unat_add_units) simp
  have q: "h_ptr (hdr s p) = (if R = [] then base else hd R)" using s by simp
  have nb: "bp + 8 * h_size (hdr s bp) \<noteq> base" using ub b(1) by (auto simp: word_less_nat_alt)
  have "seg (hdr t) (bp # joined_upper (hdr s) bp R) base e \<and>
    bytes (hdr t) bp \<union> free_bytes (hdr s) (joined_upper (hdr s) bp R) = bytes (hdr s) bp \<union> free_bytes (hdr s) R \<and>
    (h_size (hdr s bp) \<noteq> 0 \<longrightarrow> h_size (hdr t bp) \<noteq> 0)"
  proof (cases "R \<noteq> [] \<and> bp + 8 * h_size (hdr s bp) = hd R")
    case True
    then obtain r R' where R: "R = r # R'" by (cases R) auto
    then have r: "unat r = unat bp + 8 * unat (h_size (hdr s bp))" using True ub by auto
    have sr: "seg (hdr s) (r # R') base e" using s R by simp
    have er: "unat r + 8 * unat (h_size (hdr s r)) < e" using seg_end [OF sr, of r] by simp
    have z: "unat (h_size (hdr s bp) + h_size (hdr s r)) = unat (h_size (hdr s bp)) + unat (h_size (hdr s r))"
      using er r e by (intro unat_add_sizes) simp
    have t: "hdr t bp = \<lparr>h_ptr = h_ptr (hdr s r), h_size = h_size (hdr s bp) + h_size (hdr s r)\<rparr>"
      using True R q by (simp add: t_def free_join_upper_def Let_def)
    have c: "seg (hdr t) R' base e = seg (hdr s) R' base e"
      by (rule seg_cong, rule o) (use b(3) R in auto)
    have "seg (hdr t) (bp # R') base e" using sr t z r c by (simp add: algebra_simps)
    moreover have "bytes (hdr t) bp = bytes (hdr s) bp \<union> bytes (hdr s) r"
      using t z r by (auto simp: bytes_def)
    moreover have "h_size (hdr t bp) \<noteq> 0" if n: "h_size (hdr s bp) \<noteq> 0"
    proof
      assume "h_size (hdr t bp) = 0"
      then have "unat (h_size (hdr s bp)) = 0" using z t by simp
      with n show False by (simp add: unsigned_eq_0_iff)
    qed
    ultimately show ?thesis using True R by (auto simp: joined_upper_def free_bytes_def)
  next
    case False
    then have t: "hdr t bp = (hdr s bp)\<lparr>h_ptr := h_ptr (hdr s p)\<rparr>"
      using q nb by (auto simp: t_def free_join_upper_def Let_def)
    have "seg (hdr t) R base e = seg (hdr s) R base e" by (rule seg_cong, rule o) (use b(3) in auto)
    then have c: "seg (hdr t) R base e" using s by simp
    have "unat bp + 8 * unat (h_size (hdr s bp)) < unat (hd R)" if "R \<noteq> []"
      using k(2) False that ub by (metis nat_less_le word_unat_eq_iff)
    then have "seg (hdr t) (bp # R) base e" using t q c k(1) by simp
    then show ?thesis using False t by (auto simp: joined_upper_def bytes_def)
  qed
  then show "seg (hdr t) (bp # joined_upper (hdr s) bp R) base e"
    "bytes (hdr t) bp \<union> free_bytes (hdr s) (joined_upper (hdr s) bp R) = bytes (hdr s) bp \<union> free_bytes (hdr s) R"
    "h_size (hdr s bp) \<noteq> 0 \<Longrightarrow> h_size (hdr t bp) \<noteq> 0" by auto
qed

definition joined_lower :: "(uint \<Rightarrow> header) \<Rightarrow> uint \<Rightarrow> uint \<Rightarrow> uint list \<Rightarrow> uint list" where
  "joined_lower h p bp R = (if p + 8 * h_size (h p) = bp then p # R else p # bp # R)"

lemma join_lower_seg:
  assumes s: "seg (hdr s) L p (unat p)" "seg (hdr s) (bp # R) base e" and e: "e \<le> 2 ^ 32"
    and d: "p \<noteq> bp" "p \<notin> set L" "bp \<notin> set L" "p \<notin> set R" and k: "unat p + 8 * unat (h_size (hdr s p)) \<le> unat bp"
  defines "t \<equiv> free_join_lower p bp s"
  shows "seg (hdr t) (L @ joined_lower (hdr s) p bp R) base e" "\<And>a. a \<noteq> p \<Longrightarrow> hdr t a = hdr s a"
    "free_bytes (hdr t) (joined_lower (hdr s) p bp R) = bytes (hdr s) p \<union> bytes (hdr s) bp \<union> free_bytes (hdr s) R"
    "h_size (hdr s p) \<noteq> 0 \<Longrightarrow> h_size (hdr t p) \<noteq> 0"
    "p + 8 * h_size (hdr s p) \<noteq> bp \<Longrightarrow> h_size (hdr t p) = h_size (hdr s p)"
proof -
  show o: "hdr t a = hdr s a" if "a \<noteq> p" for a using that by (simp add: t_def free_join_lower_def)
  show "p + 8 * h_size (hdr s p) \<noteq> bp \<Longrightarrow> h_size (hdr t p) = h_size (hdr s p)"
    by (simp add: t_def free_join_lower_def)
  have up: "unat (p + 8 * h_size (hdr s p)) = unat p + 8 * unat (h_size (hdr s p))"
    using k unat_lt_32 [of bp] by (intro unat_add_units) simp
  have eb: "unat bp + 8 * unat (h_size (hdr s bp)) < e" using seg_end [OF s(2), of bp] by simp
  have cL: "seg (hdr t) L p (unat p)"
  proof -
    have "seg (hdr t) L p (unat p) = seg (hdr s) L p (unat p)" by (rule seg_cong, rule o) (use d in auto)
    with s show ?thesis by simp
  qed
  have cR: "seg (hdr t) (bp # R) base e"
  proof -
    have "seg (hdr t) (bp # R) base e = seg (hdr s) (bp # R) base e" by (rule seg_cong, rule o) (use d in auto)
    with s show ?thesis by simp
  qed
  have fR: "free_bytes (hdr t) R = free_bytes (hdr s) R" by (rule free_bytes_cong, rule o) (use d in auto)
  have bb: "bytes (hdr t) bp = bytes (hdr s) bp" using o [of bp] d(1) by (simp add: bytes_def)
  have "seg (hdr t) (L @ joined_lower (hdr s) p bp R) base e \<and>
    free_bytes (hdr t) (joined_lower (hdr s) p bp R) = bytes (hdr s) p \<union> bytes (hdr s) bp \<union> free_bytes (hdr s) R \<and>
    (h_size (hdr s p) \<noteq> 0 \<longrightarrow> h_size (hdr t p) \<noteq> 0)"
  proof (cases "p + 8 * h_size (hdr s p) = bp")
    case True
    then have b: "unat bp = unat p + 8 * unat (h_size (hdr s p))" using up by simp
    have z: "unat (h_size (hdr s p) + h_size (hdr s bp)) = unat (h_size (hdr s p)) + unat (h_size (hdr s bp))"
      using eb b e by (intro unat_add_sizes) simp
    have t: "hdr t p = \<lparr>h_ptr = h_ptr (hdr s bp), h_size = h_size (hdr s p) + h_size (hdr s bp)\<rparr>"
      using True by (simp add: t_def free_join_lower_def)
    have "seg (hdr t) (p # R) base e" using cR o [of bp] d(1) t z b by (simp add: algebra_simps)
    moreover have "bytes (hdr t) p = bytes (hdr s) p \<union> bytes (hdr s) bp" using t z b by (auto simp: bytes_def)
    moreover have "h_size (hdr t p) \<noteq> 0" if n: "h_size (hdr s p) \<noteq> 0"
    proof
      assume "h_size (hdr t p) = 0"
      then have "unat (h_size (hdr s p)) = 0" using z t by simp
      with n show False by (simp add: unsigned_eq_0_iff)
    qed
    ultimately show ?thesis using True cL fR by (auto simp: joined_lower_def seg_append free_bytes_def)
  next
    case False
    then have t: "hdr t p = (hdr s p)\<lparr>h_ptr := bp\<rparr>" by (simp add: t_def free_join_lower_def)
    have "unat p + 8 * unat (h_size (hdr s p)) < unat bp" using False k up by (metis nat_less_le word_unat_eq_iff)
    then have "seg (hdr t) (p # bp # R) base e" using cR t by simp
    then show ?thesis using False cL fR bb t
      by (auto simp: joined_lower_def seg_append free_bytes_def bytes_def)
  qed
  then show "seg (hdr t) (L @ joined_lower (hdr s) p bp R) base e"
    "free_bytes (hdr t) (joined_lower (hdr s) p bp R) = bytes (hdr s) p \<union> bytes (hdr s) bp \<union> free_bytes (hdr s) R"
    "h_size (hdr s p) \<noteq> 0 \<Longrightarrow> h_size (hdr t p) \<noteq> 0" by auto
qed

text \<open>A block outside the free list that may be given back.\<close>

definition may_free_block :: "uint \<Rightarrow> (uint \<Rightarrow> header) \<Rightarrow> uint list \<Rightarrow> nat \<Rightarrow> uint \<Rightarrow> bool" where
  "may_free_block base h fl e bp \<longleftrightarrow> base < bp \<and> h_size (h bp) \<noteq> 0 \<and>
     unat bp + 8 * unat (h_size (h bp)) < e \<and> bytes h bp \<inter> free_bytes h fl = {}"

lemma unat_pos: "x \<noteq> (0 :: uint) \<Longrightarrow> 0 < unat x"
  by (simp add: unat_gt_0)

lemma free_blocks_apart:
  assumes "h_size (h x) \<noteq> 0" and "h_size (h y) \<noteq> 0" and "bytes h x \<inter> bytes h y = {}"
  shows "x \<noteq> y" "x < y \<Longrightarrow> unat x + 8 * unat (h_size (h x)) \<le> unat y"
proof -
  have p: "0 < unat (h_size (h x))" "0 < unat (h_size (h y))" using assms(1,2) unat_pos by auto
  then show "x \<noteq> y" using assms(3) by (auto simp: bytes_def)
  have "unat y \<in> bytes h y" using p by (simp add: bytes_def)
  then have "unat y \<notin> bytes h x" using assms(3) by blast
  then show "unat x + 8 * unat (h_size (h x)) \<le> unat y" if "x < y"
    using that by (auto simp: bytes_def word_less_nat_alt)
qed

lemma free_ok:
  assumes ok: "heap_ok base (hdr s) fl e" and f: "freep s \<in> set (base # fl)"
    and m: "may_free_block base (hdr s) fl e bp"
  shows "\<exists>t fl'. free (bp + 8) s = Some t \<and> heap_ok base (hdr t) fl' e \<and> freep t \<in> set (base # fl') \<and>
    free_bytes (hdr t) fl' = free_bytes (hdr s) fl \<union> bytes (hdr s) bp \<and>
    freep t \<in> set (base # fl) \<and> (\<forall>a. a \<noteq> freep t \<longrightarrow> a \<noteq> bp \<longrightarrow> hdr t a = hdr s a)"
proof -
  let ?h = "hdr s"
  have sg: "seg ?h (base # fl) base e" and sz: "h_size (?h base) = 0" "\<And>x. x \<in> set fl \<Longrightarrow> h_size (?h x) \<noteq> 0"
    and e: "e \<le> 2 ^ 32" using ok by (auto simp: heap_ok_def)
  have k: "base < bp" "h_size (?h bp) \<noteq> 0" "unat bp + 8 * unat (h_size (?h bp)) < e"
    "\<And>x. x \<in> set fl \<Longrightarrow> bytes ?h bp \<inter> bytes ?h x = {}"
    using m by (auto simp: may_free_block_def free_bytes_def)
  have ap: "bp \<noteq> x" "bp < x \<Longrightarrow> unat bp + 8 * unat (h_size (?h bp)) \<le> unat x"
    "x < bp \<Longrightarrow> unat x + 8 * unat (h_size (?h x)) \<le> unat bp" if "x \<in> set fl" for x
    using free_blocks_apart [OF k(2) sz(2) [OF that] k(4) [OF that]]
      free_blocks_apart(2) [OF sz(2) [OF that] k(2)] k(4) [OF that] by auto
  have nin: "bp \<notin> set fl" using ap(1) by blast
  obtain L p R where sp: "base # fl = L @ p # R" "p < bp" "R = [] \<or> bp < hd R" by (rule split_at [OF k(1) nin])
  have hdL: "hd (L @ [p]) = base" using sp(1) by (cases L) auto
  have inR: "set R \<subseteq> set fl" using sp(1) by (cases L) auto
  have inp: "p = base \<or> p \<in> set fl" using sp(1) by (cases L) auto
  have slot: "free_slot ?h bp (freep s) = Some p"
    by (rule free_slot_finds [OF _ hdL]) (use sg f sp k in auto)
  have sL: "seg ?h L p (unat p)" and sR: "seg ?h (p # R) base e" using sg unfolding sp(1) by (simp_all add: seg_append)
  have dis: "distinct (L @ p # R)" using seg_distinct [OF sg] unfolding sp(1) .
  have pbp: "p \<noteq> bp" "bp \<notin> set L" "bp \<notin> set R" using k(1) nin sp(1,2) inR by (cases L; auto)+
  let ?t = "free_join_upper p bp s"
  let ?R = "joined_upper ?h bp R"
  have rR: "R \<noteq> [] \<longrightarrow> unat bp + 8 * unat (h_size (?h bp)) \<le> unat (hd R)"
    using ap(2) [of "hd R"] sp(3) inR by (cases R) auto
  note U = join_upper_seg [OF sR e k(1) pbp(1,3) k(3) rR]
  have sRs: "set ?R \<subseteq> set R" by (cases R) (auto simp: joined_upper_def)
  have pt: "hdr ?t p = ?h p" using U(2) pbp(1) by blast
  have sL': "seg (hdr ?t) L p (unat p)"
  proof -
    have "seg (hdr ?t) L p (unat p) = seg ?h L p (unat p)" by (rule seg_cong, rule U(2)) (use pbp in auto)
    with sL show ?thesis by simp
  qed
  have lp: "unat p + 8 * unat (h_size (hdr ?t p)) \<le> unat bp"
    unfolding pt using inp ap(3) [of p] sz(1) sp(2) by (auto simp: word_less_nat_alt)
  have nd: "p \<notin> set L" "p \<notin> set ?R" using dis sRs by auto
  let ?u = "free_join_lower p bp ?t"
  note W = join_lower_seg [OF sL' U(1) e pbp(1) nd(1) pbp(2) nd(2) lp]
  let ?fl = "tl (L @ joined_lower (hdr ?t) p bp ?R)"
  have fl: "base # ?fl = L @ joined_lower (hdr ?t) p bp ?R"
    using hdL by (cases L) (auto simp: joined_lower_def)
  have keep: "hdr ?u a = ?h a" if "a \<noteq> p" "a \<noteq> bp" for a using W(2) U(2) that by simp
  have bsz: "h_size (hdr ?u base) = 0"
  proof (cases "p = base")
    case True
    then have "p + 8 * h_size (hdr ?t p) \<noteq> bp" using pt sz(1) pbp(1) by simp
    then show ?thesis using W(5) pt sz(1) True by simp
  qed (use keep sz(1) k(1) in auto)
  have nz: "h_size (hdr ?u x) \<noteq> 0" if x: "x \<in> set ?fl" for x
  proof -
    have "distinct (base # ?fl)" using seg_distinct [OF W(1)] by (simp only: fl)
    then have xb: "x \<noteq> base" using x by auto
    have xs: "x \<in> set fl \<or> x = bp \<or> x = p"
      using x sp(1) sRs inR by (cases L) (auto simp: joined_lower_def split: if_splits)
    show ?thesis
    proof (cases "x = p \<or> x = bp")
      case True
      then show ?thesis
      proof
        assume xp: "x = p"
        then have "h_size (hdr ?t p) \<noteq> 0" using xb inp sz(2) pt by auto
        then show ?thesis using W(4) xp by simp
      next
        assume "x = bp"
        then show ?thesis using W(2) [of bp] U(4) k(2) pbp(1) by simp
      qed
    next
      case False
      then show ?thesis using keep [of x] sz(2) xs by auto
    qed
  qed
  have bu: "free_bytes (hdr ?u) ?fl = free_bytes ?h fl \<union> bytes ?h bp"
  proof -
    have fb: "free_bytes h (base # xs) = free_bytes h xs" if "h_size (h base) = 0" for h xs
      using that by (simp add: bytes_def)
    have "free_bytes (hdr ?u) ?fl = free_bytes (hdr ?u) (L @ joined_lower (hdr ?t) p bp ?R)"
      using fb [of "hdr ?u" ?fl, OF bsz] unfolding fl by simp
    also have "\<dots> = free_bytes (hdr ?u) L \<union> (bytes (hdr ?t) p \<union> bytes (hdr ?t) bp \<union> free_bytes (hdr ?t) ?R)"
      using W(3) by simp
    also have "free_bytes (hdr ?u) L = free_bytes ?h L" by (rule free_bytes_cong, rule keep) (use nd pbp in auto)
    also have "free_bytes (hdr ?t) ?R = free_bytes ?h ?R" by (rule free_bytes_cong, rule U(2)) (use sRs pbp in auto)
    also have "bytes (hdr ?t) p = bytes ?h p" using pt by (simp add: bytes_def)
    finally have "free_bytes (hdr ?u) ?fl = free_bytes ?h (L @ p # R) \<union> bytes ?h bp" using U(3) by auto
    also have "free_bytes ?h (L @ p # R) = free_bytes ?h fl" using fb [of ?h fl, OF sz(1)] unfolding sp(1) by simp
    finally show ?thesis .
  qed
  let ?v = "?u\<lparr>freep := p\<rparr>"
  have "free (bp + 8) s = Some ?v" using slot by (simp add: free_def Let_def)
  moreover have "heap_ok base (hdr ?v) ?fl e"
    using W(1) bsz nz e unfolding heap_ok_def fl by simp
  moreover have "p \<in> set (base # ?fl)" unfolding fl by (simp add: joined_lower_def)
  moreover have "p \<in> set (base # fl)" unfolding sp(1) by simp
  ultimately show ?thesis using bu keep by (intro exI [of _ ?v] exI [of _ ?fl]) auto
qed

section \<open>\<open>malloc\<close>\<close>

fun follows :: "(uint \<Rightarrow> header) \<Rightarrow> uint \<Rightarrow> uint list \<Rightarrow> bool" where
  "follows h x [] \<longleftrightarrow> True"
| "follows h x (y # ys) \<longleftrightarrow> h_ptr (h x) = y \<and> follows h y ys"

lemma follows_append: "follows h x (xs @ ys) \<longleftrightarrow> follows h x xs \<and> follows h (last (x # xs)) ys"
  by (induction xs arbitrary: x) auto

lemma seg_follows: "seg h (x # xs) b e \<Longrightarrow> follows h x (xs @ [b])"
  by (induction xs arbitrary: x) auto

text \<open>From a block of the circular list once round it.\<close>

lemma ring_round:
  assumes "seg h (base # fl) base e" and "f \<in> set (base # fl)"
  obtains xs where "follows h f (xs @ [f])" "set (xs @ [f]) = set (base # fl)" "f \<notin> set xs"
proof -
  from split_list [OF assms(2)] obtain A B where AB: "base # fl = A @ f # B" by blast
  have "seg h (f # B) base e" using assms(1) unfolding AB by (simp add: seg_append)
  then have fB: "follows h f (B @ [base])" by (rule seg_follows)
  have ndist: "distinct (A @ f # B)" using seg_distinct [OF assms(1)] unfolding AB .
  show ?thesis
  proof (cases A)
    case Nil
    then show ?thesis using that [of B] fB AB ndist by auto
  next
    case (Cons a A')
    then have a: "a = base" using AB by simp
    have "follows h base (fl @ [base])" by (rule seg_follows [OF assms(1)])
    moreover have "fl @ [base] = (A' @ [f]) @ B @ [base]" using AB Cons by simp
    ultimately have "follows h base (A' @ [f])" by (simp add: follows_append)
    then have "follows h f ((B @ [base]) @ (A' @ [f]))" using fB by (simp only: follows_append) simp
    then show ?thesis using that [of "B @ A"] Cons a AB ndist by auto
  qed
qed

text \<open>The search: the first block on the way that is large enough, or the whole round without one.\<close>

lemma malloc_scan:
  assumes "follows (hdr s) x (xs @ [freep s])" and "freep s \<notin> set xs"
  shows "(\<exists>q y. q \<in> set (x # xs @ [freep s]) \<and> y \<in> set (xs @ [freep s]) \<and> h_ptr (hdr s q) = y \<and> n \<le> h_size (hdr s y) \<and>
      malloc_loop sb n x (h_ptr (hdr s x)) s w = (case take_block n q y s of (r, t) \<Rightarrow> Some (r, t, w))) \<or>
    (\<forall>y \<in> set (xs @ [freep s]). h_size (hdr s y) < n) \<and>
      malloc_loop sb n x (h_ptr (hdr s x)) s w =
        (case morecore sb n s w of None \<Rightarrow> None | Some (p, t, v) \<Rightarrow>
           if p = 0 then Some (0, t, v) else malloc_loop sb n p (h_ptr (hdr t p)) t v)"
  using assms
proof (induction xs arbitrary: x)
  case Nil
  then have x: "h_ptr (hdr s x) = freep s" by simp
  show ?case
  proof (cases "n \<le> h_size (hdr s (freep s))")
    case True
    with x show ?thesis by (intro disjI1 exI [of _ x] exI [of _ "freep s"]) (subst malloc_loop.simps, simp)
  next
    case False
    then have "h_size (hdr s (freep s)) < n" by simp
    then show ?thesis by (intro disjI2) (subst malloc_loop.simps, simp add: x False)
  qed
next
  case (Cons y ys)
  then have x: "h_ptr (hdr s x) = y" "follows (hdr s) y (ys @ [freep s])" "y \<noteq> freep s" by auto
  show ?case
  proof (cases "n \<le> h_size (hdr s y)")
    case True
    with x show ?thesis by (intro disjI1 exI [of _ x] exI [of _ y]) (subst malloc_loop.simps, simp)
  next
    case False
    then have e: "malloc_loop sb n x (h_ptr (hdr s x)) s w = malloc_loop sb n y (h_ptr (hdr s y)) s w"
      by (subst malloc_loop.simps) (simp add: x)
    from Cons.IH [OF x(2)] Cons.prems(2) have
      "(\<exists>q z. q \<in> set (y # ys @ [freep s]) \<and> z \<in> set (ys @ [freep s]) \<and> h_ptr (hdr s q) = z \<and> n \<le> h_size (hdr s z) \<and>
        malloc_loop sb n y (h_ptr (hdr s y)) s w = (case take_block n q z s of (r, t) \<Rightarrow> Some (r, t, w))) \<or>
      (\<forall>z \<in> set (ys @ [freep s]). h_size (hdr s z) < n) \<and>
        malloc_loop sb n y (h_ptr (hdr s y)) s w =
          (case morecore sb n s w of None \<Rightarrow> None | Some (p, t, v) \<Rightarrow>
             if p = 0 then Some (0, t, v) else malloc_loop sb n p (h_ptr (hdr t p)) t v)" by simp
    then show ?thesis
    proof (elim disjE exE conjE)
      fix q z assume "q \<in> set (y # ys @ [freep s])" "z \<in> set (ys @ [freep s])" "h_ptr (hdr s q) = z" "n \<le> h_size (hdr s z)"
        "malloc_loop sb n y (h_ptr (hdr s y)) s w = (case take_block n q z s of (r, t) \<Rightarrow> Some (r, t, w))"
      then show ?thesis unfolding e by (intro disjI1 exI [of _ q] exI [of _ z]) auto
    next
      assume "\<forall>z \<in> set (ys @ [freep s]). h_size (hdr s z) < n"
        "malloc_loop sb n y (h_ptr (hdr s y)) s w =
          (case morecore sb n s w of None \<Rightarrow> None | Some (p, t, v) \<Rightarrow>
             if p = 0 then Some (0, t, v) else malloc_loop sb n p (h_ptr (hdr t p)) t v)"
      with False show ?thesis unfolding e by (intro disjI2) (auto simp: not_le)
    qed
  qed
qed

text \<open>Taking a block from the list, whole or its upper part.\<close>

lemma seg_next: "seg h (L @ q # R) b e \<Longrightarrow> h_ptr (h q) = (if R = [] then b else hd R)"
  by (simp add: seg_append)

lemma take_block_ok:
  assumes ok: "heap_ok base (hdr s) fl e" and q: "q \<in> set (base # fl)" "h_ptr (hdr s q) = y"
    and n: "n \<noteq> 0" "n \<le> h_size (hdr s y)"
  shows "\<exists>b t fl'. take_block n q y s = (b + 8, t) \<and> base < b \<and> h_size (hdr t b) = n \<and>
    heap_ok base (hdr t) fl' e \<and> freep t \<in> set (base # fl') \<and> bytes (hdr t) b \<inter> free_bytes (hdr t) fl' = {} \<and>
    bytes (hdr t) b \<union> free_bytes (hdr t) fl' = free_bytes (hdr s) fl \<and>
    (\<forall>a. a \<noteq> base \<longrightarrow> unat a \<notin> free_bytes (hdr s) fl \<longrightarrow> hdr t a = hdr s a)"
proof -
  let ?h = "hdr s"
  have sg: "seg ?h (base # fl) base e" and sz: "h_size (?h base) = 0" "\<And>x. x \<in> set fl \<Longrightarrow> h_size (?h x) \<noteq> 0"
    and e: "e \<le> 2 ^ 32" using ok by (auto simp: heap_ok_def)
  have yb: "y \<noteq> base" using n sz(1) by auto
  from split_list [OF q(1)] obtain L R0 where L: "base # fl = L @ q # R0" by blast
  then have "R0 \<noteq> [] \<and> hd R0 = y" using seg_next [of ?h L q R0 base e] sg q(2) yb by (auto split: if_splits)
  then obtain R where R: "base # fl = L @ q # y # R" using L by (cases R0) auto
  have sL: "seg ?h L q (unat q)" and sq: "seg ?h (q # y # R) base e" and sR: "seg ?h (y # R) base e"
    using sg unfolding R by (simp_all add: seg_append)
  have dis: "distinct (L @ q # y # R)" using seg_distinct [OF sg] unfolding R .
  have fl: "set fl = (set L \<union> {q} \<union> {y} \<union> set R) - {base}" "y \<in> set fl"
  proof -
    have "distinct (base # fl)" using seg_distinct [OF sg] .
    moreover have "set (base # fl) = set L \<union> {q} \<union> {y} \<union> set R" unfolding R by auto
    ultimately show "set fl = (set L \<union> {q} \<union> {y} \<union> set R) - {base}" by auto
    then show "y \<in> set fl" using yb by auto
  qed
  have yfl: "base < y" using seg_above [OF sg fl(2)] by (simp add: word_less_nat_alt)
  have ey: "unat y + 8 * unat (h_size (?h y)) < 2 ^ 32" using seg_end [OF sR, of y] e by simp
  have own: "unat x \<in> free_bytes ?h fl" if "x \<in> set fl" for x
    using that unat_pos [OF sz(2) [OF that]] by (auto simp: free_bytes_def bytes_def)
  have gap: "unat z < unat y \<or> unat y + 8 * unat (h_size (?h y)) < unat z" if "z \<in> set L \<union> {q} \<union> set R" for z
  proof (cases "z \<in> set R")
    case True
    then show ?thesis using seg_above [OF sR] by blast
  next
    case False
    then have "z \<in> set L \<or> z = q" using that by auto
    moreover have "unat q < unat y" using sq by simp
    ultimately show ?thesis using seg_end [OF sL, of z] by auto
  qed
  have fbase: "free_bytes h (base # xs) = free_bytes h xs" if "h_size (h base) = 0" for h xs
    using that by (simp add: bytes_def)
  have fb: "free_bytes ?h fl = free_bytes ?h (L @ [q]) \<union> bytes ?h y \<union> free_bytes ?h R"
    using fbase [of ?h fl, OF sz(1)] unfolding R by auto
  have apart: "bytes ?h y \<inter> (free_bytes ?h (L @ [q]) \<union> free_bytes ?h R) = {}"
  proof -
    have "bytes ?h y \<inter> bytes ?h z = {}" if z: "z \<in> set L \<union> {q} \<union> set R" for z
    proof (cases "z \<in> set R")
      case True
      then show ?thesis using seg_above [OF sR True] by (auto simp: bytes_def)
    next
      case False
      then have "unat z + 8 * unat (h_size (?h z)) < unat y"
      proof -
        have "z \<in> set L \<or> z = q" using z False by auto
        moreover have "seg ?h (L @ [q]) y (unat y)" using sg unfolding R seg_append [of ?h "L @ [q]" y, simplified]
          by (simp add: seg_append)
        ultimately show ?thesis using seg_end [of ?h "L @ [q]" y "unat y" z] by auto
      qed
      then show ?thesis by (auto simp: bytes_def)
    qed
    then show ?thesis by (auto simp: free_bytes_def)
  qed
  show ?thesis
  proof (cases "h_size (?h y) = n")
    case True
    let ?t = "(set_ptr q (h_ptr (?h y)) s)\<lparr>freep := q\<rparr>"
    let ?fl = "tl (L @ q # R)"
    have hb: "base # ?fl = L @ q # R" using R by (cases L) auto
    have szt: "h_size (hdr ?t x) = h_size (?h x)" for x by simp
    have "seg (hdr ?t) L q (unat q) = seg ?h L q (unat q)" by (rule seg_cong) (use dis in auto)
    moreover have "seg (hdr ?t) R base e = seg ?h R base e" by (rule seg_cong) (use dis in auto)
    moreover have "unat q + 8 * unat (h_size (?h q)) < (if R = [] then e else unat (hd R))"
      using sq by (auto split: if_splits)
    ultimately have "seg (hdr ?t) (L @ q # R) base e" using sL sR by (auto simp: seg_append)
    then have "heap_ok base (hdr ?t) ?fl e"
      unfolding heap_ok_def hb using sz e szt
    proof (intro conjI ballI)
      fix x assume "x \<in> set ?fl"
      then have "x \<in> set (L @ q # R)" "x \<noteq> base" using hb seg_distinct [OF sg] R by (cases L; auto)+
      then have "x \<in> set fl" using fl(1) by auto
      then show "h_size (hdr ?t x) \<noteq> 0" using sz(2) szt by simp
    qed auto
    moreover have bt: "bytes (hdr ?t) x = bytes ?h x" for x by (simp add: bytes_def)
    then have ft: "free_bytes (hdr ?t) xs = free_bytes ?h xs" for xs by (simp add: free_bytes_def)
    have "free_bytes ?h ?fl = free_bytes ?h (L @ [q]) \<union> free_bytes ?h R"
      using fbase [of ?h ?fl, OF sz(1)] unfolding hb by auto
    moreover have "take_block n q y s = (y + 8, ?t)" using True by (simp add: take_block_def)
    moreover have "hdr ?t a = ?h a" if "a \<noteq> base" "unat a \<notin> free_bytes ?h fl" for a
      using that own [of a] fl(1) by auto
    moreover have "q \<in> set (base # ?fl)" unfolding hb by simp
    ultimately show ?thesis using yfl True fb apart bt ft
      by (intro exI [of _ y] exI [of _ ?t] exI [of _ ?fl]) auto
  next
    case False
    let ?m = "h_size (?h y) - n"
    let ?b = "y + 8 * ?m"
    have nl: "n < h_size (?h y)" using False n(2) by simp
    have um: "unat ?m = unat (h_size (?h y)) - unat n" using n(2) by (simp add: unat_sub)
    have nn: "unat n < unat (h_size (?h y))" "0 < unat n" using nl n(1) by (simp_all add: word_less_nat_alt unat_pos)
    have ub: "unat ?b = unat y + 8 * unat ?m" using ey um by (intro unat_add_units) simp
    have bny: "?b \<noteq> y" using ub um nn by auto
    have mz: "?m \<noteq> 0" using um nn by auto
    let ?t = "(set_size ?b n (set_size y ?m s))\<lparr>freep := q\<rparr>"
    have b_in: "unat ?b \<in> bytes ?h y" using ub um nn by (auto simp: bytes_def)
    have bn: "?b \<notin> set L \<union> {q} \<union> set R" using gap [of ?b] b_in by (auto simp: bytes_def)
    have bb: "?b \<noteq> base" using ub yfl by (auto simp: word_less_nat_alt)
    have ht: "hdr ?t a = ?h a" if "a \<noteq> y" "a \<noteq> ?b" for a using that by simp
    have hy: "h_ptr (hdr ?t y) = h_ptr (?h y)" "h_size (hdr ?t y) = ?m" using bny by simp_all
    have "seg (hdr ?t) (L @ [q]) y (unat y)"
    proof -
      have "seg (hdr ?t) (L @ [q]) y (unat y) = seg ?h (L @ [q]) y (unat y)"
        by (rule seg_cong, rule ht) (use dis bn in auto)
      then show ?thesis using sL sq by (simp add: seg_append)
    qed
    moreover have "seg (hdr ?t) (y # R) base e"
    proof -
      have "seg (hdr ?t) R base e = seg ?h R base e" by (rule seg_cong, rule ht) (use dis bn in auto)
      then show ?thesis using sR hy um by (auto split: if_splits)
    qed
    ultimately have "seg (hdr ?t) ((L @ [q]) @ y # R) base e" unfolding seg_append by simp
    then have "seg (hdr ?t) (base # fl) base e" unfolding R by simp
    moreover have zz: "h_size (hdr ?t x) \<noteq> 0" if x: "x \<in> set fl" for x
    proof (cases "x = y")
      case True
      then show ?thesis by (simp only: hy(2) mz not_False_eq_True)
    next
      case False
      then have "x \<in> set L \<union> {q} \<union> set R" using x fl(1) by auto
      then have "x \<noteq> ?b" using bn by blast
      then have "hdr ?t x = ?h x" using False by (intro ht)
      then show ?thesis using sz(2) [OF x] by (simp only: not_False_eq_True)
    qed
    moreover have "hdr ?t base = ?h base" by (rule ht) (use yb bb in auto)
    ultimately have hk: "heap_ok base (hdr ?t) fl e" using sz e by (simp add: heap_ok_def)
    have bt: "bytes (hdr ?t) y = {unat y ..< unat ?b}" "bytes (hdr ?t) ?b = {unat ?b ..< unat y + 8 * unat (h_size (?h y))}"
      using hy(2) ub um nn by (auto simp: bytes_def)
    have fx: "free_bytes (hdr ?t) (L @ [q]) = free_bytes ?h (L @ [q])" "free_bytes (hdr ?t) R = free_bytes ?h R"
      by (rule free_bytes_cong, rule ht; use dis bn in auto)+
    have ft: "free_bytes (hdr ?t) fl = free_bytes ?h (L @ [q]) \<union> bytes (hdr ?t) y \<union> free_bytes ?h R"
    proof -
      have "h_size (hdr ?t base) = 0" using hk by (simp add: heap_ok_def)
      from fbase [of "hdr ?t" fl, OF this] show ?thesis unfolding R using fx by auto
    qed
    have byy: "bytes ?h y = bytes (hdr ?t) y \<union> bytes (hdr ?t) ?b" "bytes (hdr ?t) y \<inter> bytes (hdr ?t) ?b = {}"
      unfolding bt using ub um nn by (auto simp: bytes_def)
    have "take_block n q y s = (?b + 8, ?t)" using False by (simp add: take_block_def Let_def)
    moreover have "base < ?b" using ub yfl by (simp add: word_less_nat_alt)
    moreover have "h_size (hdr ?t ?b) = n" by simp
    moreover have "q \<in> set (base # fl)" by (rule q(1))
    moreover have "bytes (hdr ?t) ?b \<inter> free_bytes (hdr ?t) fl = {}" unfolding ft using apart byy by blast
    moreover have "bytes (hdr ?t) ?b \<union> free_bytes (hdr ?t) fl = free_bytes ?h fl" unfolding ft fb byy(1) by blast
    moreover have "hdr ?t a = ?h a" if "a \<noteq> base" "unat a \<notin> free_bytes ?h fl" for a
      using that own [OF fl(2)] b_in fb by (intro ht) auto
    ultimately show ?thesis using hk by (intro exI [of _ ?b] exI [of _ ?t] exI [of _ fl]) simp
  qed
qed

text \<open>
  What \<open>sbrk\<close> does: it fails and changes nothing, or the area from the old break up to the new one,
  which is as long as asked for, is added; \<open>brk\<close> is the break.  Only amounts that are positive as an
  \<open>int\<close> are asked for.
\<close>

definition sbrk_grows :: "'w sbrk \<Rightarrow> ('w \<Rightarrow> nat) \<Rightarrow> bool" where
  "sbrk_grows sb brk \<longleftrightarrow> (\<forall>n w a w'. unat n < 2 ^ 31 \<longrightarrow> sb n w = (a, w') \<longrightarrow>
     (if a = - 1 then brk w' = brk w else unat a = brk w \<and> brk w' = brk w + unat n \<and> brk w' < 2 ^ 32))"

lemma seg_mono: "seg h xs b e \<Longrightarrow> e \<le> e' \<Longrightarrow> seg h xs b e'"
  by (induction xs) auto

lemma interval_in_block:
  assumes s: "seg h (base # fl) base e" and z: "h_size (h base) = 0" and m: "0 < m"
    and i: "{a ..< a + 8 * m} \<subseteq> free_bytes h fl"
  shows "\<exists>y \<in> set fl. m \<le> unat (h_size (h y))"
proof -
  have "a \<in> free_bytes h fl" using i m by auto
  then obtain y where y: "y \<in> set fl" "unat y \<le> a" "a < unat y + 8 * unat (h_size (h y))"
    by (auto simp: free_bytes_def bytes_def)
  let ?E = "unat y + 8 * unat (h_size (h y))"
  have "a + 8 * m \<le> ?E"
  proof (rule ccontr)
    assume "\<not> a + 8 * m \<le> ?E"
    then have "?E \<in> free_bytes h fl" using i y(3) by auto
    then obtain x where x: "x \<in> set fl" "unat x \<le> ?E" "?E < unat x + 8 * unat (h_size (h x))"
      by (auto simp: free_bytes_def bytes_def)
    from split_list [OF y(1)] obtain A B where AB: "fl = A @ y # B" by blast
    have sy: "seg h ((base # A) @ y # B) base e" using s AB by simp
    consider "x = y" | "x \<in> set A" | "x \<in> set B" using x(1) AB by auto
    then show False
    proof cases
      case 2
      have "unat x + 8 * unat (h_size (h x)) < unat y"
        using seg_end [of h "base # A" y "unat y" x] sy 2 unfolding seg_append by simp
      with x(3) show False by simp
    next
      case 3
      have "?E < unat x" using seg_above [of h y B base e x] sy 3 unfolding seg_append by blast
      with x(2) show False by simp
    qed (use x in simp)
  qed
  with y show ?thesis by (intro bexI [of _ y]) auto
qed

definition umem_ok :: "uint \<Rightarrow> umem \<Rightarrow> uint list \<Rightarrow> nat \<Rightarrow> bool" where
  "umem_ok base s fl e \<longleftrightarrow> base \<noteq> 0 \<and> unat base < e - 1 \<and> e \<le> 2 ^ 32 \<and>
     (freep s = 0 \<and> fl = [] \<or> heap_ok base (hdr s) fl e \<and> freep s \<in> set (base # fl))"

lemma morecore_ok:
  assumes law: "sbrk_grows sb brk" and ok: "heap_ok base (hdr s) fl (Suc (brk w))"
    and f: "freep s \<in> set (base # fl)" and b: "unat base < brk w" "base \<noteq> 0"
    and n: "0 < unat n" "unat n < 2 ^ 28"
  shows "(\<exists>v. morecore sb n s w = Some (0, s, v) \<and> brk v = brk w) \<or>
    (\<exists>t v fl'. morecore sb n s w = Some (freep t, t, v) \<and> freep t \<noteq> 0 \<and> brk w < brk v \<and>
       heap_ok base (hdr t) fl' (Suc (brk v)) \<and> freep t \<in> set (base # fl') \<and>
       free_bytes (hdr t) fl' = free_bytes (hdr s) fl \<union> {brk w ..< brk v} \<and>
       (\<exists>y \<in> set fl'. n \<le> h_size (hdr t y)) \<and>
       (\<forall>a. a \<noteq> base \<longrightarrow> unat a \<notin> free_bytes (hdr s) fl \<longrightarrow> unat a < brk w \<longrightarrow> hdr t a = hdr s a))"
proof -
  define nu where "nu = (if n < 4096 then 4096 else n)"
  have nu: "unat n \<le> unat nu" "unat nu < 2 ^ 28" using n by (auto simp: nu_def word_less_nat_alt)
  have n8: "unat (nu * 8) = 8 * unat nu" using unat_mult_lem [of nu "8 :: uint"] nu by simp
  obtain p v where pv: "sb (nu * 8) w = (p, v)" by fastforce
  have law': "if p = - 1 then brk v = brk w else unat p = brk w \<and> brk v = brk w + 8 * unat nu \<and> brk v < 2 ^ 32"
  proof -
    have "unat (nu * 8) < 2 ^ 31" using n8 nu by simp
    with law pv have "if p = - 1 then brk v = brk w
        else unat p = brk w \<and> brk v = brk w + unat (nu * 8) \<and> brk v < 2 ^ 32" unfolding sbrk_grows_def by blast
    then show ?thesis unfolding n8 .
  qed
  have mc: "morecore sb n s w = (if p = - 1 then Some (0, s, v)
      else case free (p + 8) (set_size p nu s) of None \<Rightarrow> None | Some s \<Rightarrow> Some (freep s, s, v))"
    using pv by (simp add: morecore_def nu_def Let_def)
  show ?thesis
  proof (cases "p = - 1")
    case True
    with mc law' show ?thesis by simp
  next
    case False
    then have P: "unat p = brk w" "brk v = brk w + 8 * unat nu" "brk v < 2 ^ 32" using law' by auto
    let ?s = "set_size p nu s"
    have sg: "seg (hdr s) (base # fl) base (Suc (brk w))" and sz: "h_size (hdr s base) = 0"
      "\<And>x. x \<in> set fl \<Longrightarrow> h_size (hdr s x) \<noteq> 0" using ok by (auto simp: heap_ok_def)
    have end_le: "unat x + 8 * unat (h_size (hdr s x)) \<le> brk w" if "x \<in> set (base # fl)" for x
      using seg_end [OF sg that] by simp
    have pf: "p \<notin> set fl"
    proof
      assume x: "p \<in> set fl"
      then have "0 < unat (h_size (hdr s p))" using unat_pos sz(2) by blast
      with end_le [of p] x P(1) show False by simp
    qed
    have pb: "p \<noteq> base" "base < p" using b(1) P(1) by (auto simp: word_less_nat_alt)
    have same: "hdr ?s x = hdr s x" if "x \<noteq> p" for x using that by simp
    have "seg (hdr ?s) (base # fl) base (Suc (brk w)) = seg (hdr s) (base # fl) base (Suc (brk w))"
      by (rule seg_cong, rule same) (use pf pb in auto)
    with sg have "seg (hdr ?s) (base # fl) base (Suc (brk w))" by blast
    then have "seg (hdr ?s) (base # fl) base (Suc (brk v))" by (rule seg_mono) (use P(2) in simp)
    then have hk: "heap_ok base (hdr ?s) fl (Suc (brk v))"
      using sz P(3) pf pb by (auto simp: heap_ok_def)
    have fs: "free_bytes (hdr ?s) fl = free_bytes (hdr s) fl" by (rule free_bytes_cong, rule same) (use pf in auto)
    have bp: "bytes (hdr ?s) p = {brk w ..< brk v}" using P by (simp add: bytes_def)
    have below: "free_bytes (hdr s) fl \<subseteq> {..< brk w}" using end_le by (force simp: free_bytes_def bytes_def)
    have "nu \<noteq> 0" using nu n by auto
    then have "may_free_block base (hdr ?s) fl (Suc (brk v)) p"
      using pb(2) P below unfolding may_free_block_def fs bp by auto
    from free_ok [OF hk _ this] f obtain t fl' where
      t: "free (p + 8) ?s = Some t" "heap_ok base (hdr t) fl' (Suc (brk v))" "freep t \<in> set (base # fl')"
        "free_bytes (hdr t) fl' = free_bytes (hdr ?s) fl \<union> bytes (hdr ?s) p" "freep t \<in> set (base # fl)"
        "\<And>a. a \<noteq> freep t \<Longrightarrow> a \<noteq> p \<Longrightarrow> hdr t a = hdr ?s a" by auto
    have ft: "freep t \<noteq> 0"
    proof
      assume "freep t = 0"
      then have "0 \<in> set fl" using t(5) b(2) by auto
      with seg_above [OF sg, of 0] show False by simp
    qed
    have "\<exists>y \<in> set fl'. unat nu \<le> unat (h_size (hdr t y))"
      by (rule interval_in_block [of "hdr t" base fl' "Suc (brk v)" "unat nu" "brk w"])
         (use t(2,4) bp P nu n in \<open>auto simp: heap_ok_def\<close>)
    then have y: "\<exists>y \<in> set fl'. n \<le> h_size (hdr t y)"
      using nu(1) unfolding word_le_nat_alt by (meson order.trans)
    have own: "unat x \<in> free_bytes (hdr s) fl" if "x \<in> set fl" for x
      using that unat_pos [OF sz(2) [OF that]] by (auto simp: free_bytes_def bytes_def)
    have "hdr t a = hdr s a" if "a \<noteq> base" "unat a \<notin> free_bytes (hdr s) fl" "unat a < brk w" for a
    proof -
      have "a \<noteq> freep t" using that(1,2) t(5) own by auto
      moreover have "a \<noteq> p" using that(3) P(1) by auto
      ultimately show ?thesis using t(6) same by simp
    qed
    moreover have "morecore sb n s w = Some (freep t, t, v)" using mc False t(1) by simp
    moreover have "brk w < brk v" using P(2) nu n by simp
    ultimately show ?thesis using t ft y fs bp by (intro disjI2 exI [of _ t] exI [of _ v] exI [of _ fl']) auto
  qed
qed

text \<open>What \<open>malloc\<close> promises about a block of \<open>n\<close> units that it has taken.\<close>

definition got_block :: "uint \<Rightarrow> uint \<Rightarrow> (uint \<Rightarrow> header) \<Rightarrow> uint list \<Rightarrow> nat set \<Rightarrow> uint \<Rightarrow> bool" where
  "got_block base n h fl F b \<longleftrightarrow> base < b \<and> h_size (h b) = n \<and> bytes h b \<inter> free_bytes h fl = {} \<and>
     bytes h b \<union> free_bytes h fl = F"

lemma malloc_found:
  assumes ok: "heap_ok base (hdr s) fl e" and f: "freep s \<in> set (base # fl)" and n: "n \<noteq> 0"
    and y: "y \<in> set (base # fl)" "n \<le> h_size (hdr s y)"
  shows "\<exists>b t fl'. malloc_loop sb n (freep s) (h_ptr (hdr s (freep s))) s w = Some (b + 8, t, w) \<and>
    heap_ok base (hdr t) fl' e \<and> freep t \<in> set (base # fl') \<and> got_block base n (hdr t) fl' (free_bytes (hdr s) fl) b \<and>
    (\<forall>a. a \<noteq> base \<longrightarrow> unat a \<notin> free_bytes (hdr s) fl \<longrightarrow> hdr t a = hdr s a)"
proof -
  have sg: "seg (hdr s) (base # fl) base e" using ok by (simp add: heap_ok_def)
  obtain xs where xs: "follows (hdr s) (freep s) (xs @ [freep s])" "set (xs @ [freep s]) = set (base # fl)"
    "freep s \<notin> set xs" by (rule ring_round [OF sg f])
  have "\<not> (\<forall>y \<in> set (xs @ [freep s]). h_size (hdr s y) < n)" unfolding xs(2) using y by (meson not_le)
  with malloc_scan [OF xs(1,3), of n sb w] obtain q z where
    q: "q \<in> set (freep s # xs @ [freep s])" "h_ptr (hdr s q) = z" "n \<le> h_size (hdr s z)"
      "malloc_loop sb n (freep s) (h_ptr (hdr s (freep s))) s w = (case take_block n q z s of (r, t) \<Rightarrow> Some (r, t, w))"
    by blast
  have "q \<in> set (base # fl)" using q(1) f xs(2) by (metis set_ConsD)
  from take_block_ok [OF ok this q(2) n q(3)] obtain b t fl' where
    "take_block n q z s = (b + 8, t)" "base < b" "h_size (hdr t b) = n"
    "heap_ok base (hdr t) fl' e" "freep t \<in> set (base # fl')" "bytes (hdr t) b \<inter> free_bytes (hdr t) fl' = {}"
    "bytes (hdr t) b \<union> free_bytes (hdr t) fl' = free_bytes (hdr s) fl"
    "\<forall>a. a \<noteq> base \<longrightarrow> unat a \<notin> free_bytes (hdr s) fl \<longrightarrow> hdr t a = hdr s a" by blast
  then show ?thesis using q(4) by (intro exI [of _ b] exI [of _ t] exI [of _ fl']) (auto simp: got_block_def)
qed

lemma malloc_ok:
  assumes law: "sbrk_grows sb brk" and ok: "umem_ok base s fl (Suc (brk w))"
    and n: "0 < unat (units_of nb)" "unat (units_of nb) < 2 ^ 28"
  shows "\<exists>r t v fl'. malloc sb base nb s w = Some (r, t, v) \<and> heap_ok base (hdr t) fl' (Suc (brk v)) \<and>
    freep t \<in> set (base # fl') \<and> brk w \<le> brk v \<and>
    (r = 0 \<and> free_bytes (hdr t) fl' = free_bytes (hdr s) fl \<and> brk v = brk w \<or>
     (\<exists>b. r = b + 8 \<and> got_block base (units_of nb) (hdr t) fl' (free_bytes (hdr s) fl \<union> {brk w ..< brk v}) b)) \<and>
    (\<forall>a. a \<noteq> base \<longrightarrow> unat a \<notin> free_bytes (hdr s) fl \<longrightarrow> unat a < brk w \<longrightarrow> hdr t a = hdr s a)"
proof -
  let ?n = "units_of nb"
  have nz: "?n \<noteq> 0" using n(1) by auto
  have b: "base \<noteq> 0" "unat base < brk w" "Suc (brk w) \<le> 2 ^ 32" using ok by (auto simp: umem_ok_def)
  define s0 where "s0 = (if freep s = 0 then set_size base 0 ((set_ptr base base s)\<lparr>freep := base\<rparr>) else s)"
  have s0: "heap_ok base (hdr s0) fl (Suc (brk w))" "freep s0 \<in> set (base # fl)"
    "\<And>a. a \<noteq> base \<Longrightarrow> hdr s0 a = hdr s a" "free_bytes (hdr s0) fl = free_bytes (hdr s) fl"
  proof -
    have "base \<notin> set fl"
    proof (cases "freep s = 0 \<and> fl = []")
      case False
      then have "heap_ok base (hdr s) fl (Suc (brk w))" using ok by (auto simp: umem_ok_def)
      then have "seg (hdr s) (base # fl) base (Suc (brk w))" unfolding heap_ok_def by blast
      then have "distinct (base # fl)" by (rule seg_distinct)
      then show ?thesis by simp
    qed simp
    show o: "\<And>a. a \<noteq> base \<Longrightarrow> hdr s0 a = hdr s a" by (simp add: s0_def)
    show "free_bytes (hdr s0) fl = free_bytes (hdr s) fl"
      by (rule free_bytes_cong, rule o) (use \<open>base \<notin> set fl\<close> in auto)
    have fz: "freep s \<noteq> 0" if hk: "heap_ok base (hdr s) fl (Suc (brk w))" and f: "freep s \<in> set (base # fl)"
    proof
      assume "freep s = 0"
      then have "0 \<in> set fl" using f b(1) by auto
      moreover have "seg (hdr s) (base # fl) base (Suc (brk w))" using hk unfolding heap_ok_def by blast
      ultimately show False using seg_above [of "hdr s" base fl base "Suc (brk w)" 0] by simp
    qed
    show "heap_ok base (hdr s0) fl (Suc (brk w))" "freep s0 \<in> set (base # fl)"
      using ok fz b by (auto simp: umem_ok_def s0_def heap_ok_def)
  qed
  have m: "malloc sb base nb s w = malloc_loop sb ?n (freep s0) (h_ptr (hdr s0 (freep s0))) s0 w"
    by (simp add: malloc_def s0_def Let_def)
  have sg: "seg (hdr s0) (base # fl) base (Suc (brk w))" using s0(1) by (simp add: heap_ok_def)
  show ?thesis
  proof (cases "\<exists>y \<in> set (base # fl). ?n \<le> h_size (hdr s0 y)")
    case True
    then obtain y where y: "y \<in> set (base # fl)" "?n \<le> h_size (hdr s0 y)" by blast
    from malloc_found [OF s0(1,2) nz y, of sb w] obtain c t fl' where
      t: "malloc sb base nb s w = Some (c + 8, t, w)" "heap_ok base (hdr t) fl' (Suc (brk w))"
        "freep t \<in> set (base # fl')" "got_block base ?n (hdr t) fl' (free_bytes (hdr s) fl) c"
        "\<And>a. a \<noteq> base \<Longrightarrow> unat a \<notin> free_bytes (hdr s) fl \<Longrightarrow> hdr t a = hdr s0 a" unfolding m s0(4) by blast
    have "hdr t a = hdr s a" if "a \<noteq> base" "unat a \<notin> free_bytes (hdr s) fl" for a
      using t(5) [OF that] s0(3) [OF that(1)] by simp
    then show ?thesis using t(1-4)
      by (intro exI [of _ "c + 8"] exI [of _ t] exI [of _ w] exI [of _ fl']) auto
  next
    case False
    obtain xs where xs: "follows (hdr s0) (freep s0) (xs @ [freep s0])" "set (xs @ [freep s0]) = set (base # fl)"
      "freep s0 \<notin> set xs" by (rule ring_round [OF sg s0(2)])
    have "\<not> (\<exists>q y. q \<in> set (freep s0 # xs @ [freep s0]) \<and> y \<in> set (xs @ [freep s0]) \<and> h_ptr (hdr s0 q) = y \<and>
        ?n \<le> h_size (hdr s0 y) \<and> malloc_loop sb ?n (freep s0) (h_ptr (hdr s0 (freep s0))) s0 w =
          (case take_block ?n q y s0 of (r, t) \<Rightarrow> Some (r, t, w)))"
      unfolding xs(2) using False by blast
    with malloc_scan [OF xs(1,3), of ?n sb w] have m2: "malloc sb base nb s w =
        (case morecore sb ?n s0 w of None \<Rightarrow> None | Some (p, t, v) \<Rightarrow>
           if p = 0 then Some (0, t, v) else malloc_loop sb ?n p (h_ptr (hdr t p)) t v)" unfolding m by blast
    from morecore_ok [OF law s0(1,2) b(2,1) n] show ?thesis
    proof (elim disjE exE conjE)
      fix v assume v: "morecore sb ?n s0 w = Some (0, s0, v)" "brk v = brk w"
      then have "malloc sb base nb s w = Some (0, s0, v)" unfolding m2 by simp
      then show ?thesis using s0 v(2)
        by (intro exI [of _ "0 :: uint"] exI [of _ s0] exI [of _ v] exI [of _ fl]) auto
    next
      fix t v fl'
      assume t: "morecore sb ?n s0 w = Some (freep t, t, v)" "freep t \<noteq> 0" "brk w < brk v"
        "heap_ok base (hdr t) fl' (Suc (brk v))" "freep t \<in> set (base # fl')"
        "free_bytes (hdr t) fl' = free_bytes (hdr s0) fl \<union> {brk w ..< brk v}"
        "\<exists>y \<in> set fl'. ?n \<le> h_size (hdr t y)"
        "\<forall>a. a \<noteq> base \<longrightarrow> unat a \<notin> free_bytes (hdr s0) fl \<longrightarrow> unat a < brk w \<longrightarrow> hdr t a = hdr s0 a"
      from t(7) obtain y where y: "y \<in> set (base # fl')" "?n \<le> h_size (hdr t y)" by auto
      from malloc_found [OF t(4,5) nz y, of sb v] obtain c u fl2 where
        u: "malloc_loop sb ?n (freep t) (h_ptr (hdr t (freep t))) t v = Some (c + 8, u, v)"
          "heap_ok base (hdr u) fl2 (Suc (brk v))" "freep u \<in> set (base # fl2)"
          "got_block base ?n (hdr u) fl2 (free_bytes (hdr t) fl') c"
          "\<And>a. a \<noteq> base \<Longrightarrow> unat a \<notin> free_bytes (hdr t) fl' \<Longrightarrow> hdr u a = hdr t a" by blast
      have "malloc sb base nb s w = Some (c + 8, u, v)" unfolding m2 using t(1,2) u(1) by simp
      moreover have "hdr u a = hdr s a" if "a \<noteq> base" "unat a \<notin> free_bytes (hdr s) fl" "unat a < brk w" for a
        using that t(6,8) u(5) [of a] s0(3,4) by auto
      ultimately show ?thesis using u(2-4) t(3,6) s0(4)
        by (intro exI [of _ "c + 8"] exI [of _ u] exI [of _ v] exI [of _ fl2]) auto
    qed
  qed
qed

section \<open>Programs that allocate and free\<close>

text \<open>
  Any sequence of calls of a program that frees only what it holds: the state of the allocator, the
  world, and the blocks held, each with the number of bytes asked for.  Requests of \<open>2 ^ 31\<close> bytes
  and more are left out.
\<close>

inductive heap_run :: "'w sbrk \<Rightarrow> ('w \<Rightarrow> nat) \<Rightarrow> uint \<Rightarrow> umem \<Rightarrow> 'w \<Rightarrow> (uint \<times> uint) list \<Rightarrow> bool"
  for sb :: "'w sbrk" and brk :: "'w \<Rightarrow> nat" and base :: uint where
  start: "freep s = 0 \<Longrightarrow> base \<noteq> 0 \<Longrightarrow> unat base < brk w \<Longrightarrow> brk w < 2 ^ 32 \<Longrightarrow> heap_run sb brk base s w []"
| alloc: "heap_run sb brk base s w A \<Longrightarrow> unat nb \<le> 2 ^ 31 - 16 \<Longrightarrow> malloc sb base nb s w = Some (r, t, v) \<Longrightarrow>
    r \<noteq> 0 \<Longrightarrow> heap_run sb brk base t v ((r, nb) # A)"
| full: "heap_run sb brk base s w A \<Longrightarrow> unat nb \<le> 2 ^ 31 - 16 \<Longrightarrow> malloc sb base nb s w = Some (0, t, v) \<Longrightarrow>
    heap_run sb brk base t v A"
| release: "heap_run sb brk base s w A \<Longrightarrow> (r, nb) \<in> set A \<Longrightarrow> free r s = Some t \<Longrightarrow>
    heap_run sb brk base t w (remove1 (r, nb) A)"

lemma units_of_nat:
  assumes "unat nb \<le> 2 ^ 31 - 16"
  shows "unat (units_of nb) = (unat nb + 7) div 8 + 1" "0 < unat (units_of nb)" "unat (units_of nb) < 2 ^ 28"
    "unat nb + 8 \<le> 8 * unat (units_of nb)"
proof -
  have a: "unat (nb + 7) = unat nb + 7" using unat_add_lem [of nb "7 :: uint"] assms by simp
  have d: "unat ((nb + 7) div 8) = (unat nb + 7) div 8" using a by (simp add: unat_div)
  have "(unat nb + 7) div 8 < 2 ^ 28 - 1" using assms by simp
  then have "unat ((nb + 7) div 8 + 1) = (unat nb + 7) div 8 + 1"
    using unat_add_lem [of "(nb + 7) div 8" "1 :: uint"] d by simp
  then show e: "unat (units_of nb) = (unat nb + 7) div 8 + 1" by (simp add: units_of_def add.commute)
  then show "0 < unat (units_of nb)" "unat (units_of nb) < 2 ^ 28" "unat nb + 8 \<le> 8 * unat (units_of nb)"
    using assms by simp_all
qed

text \<open>A block that the program holds, and two of them.\<close>

definition held_block :: "uint \<Rightarrow> (uint \<Rightarrow> header) \<Rightarrow> uint list \<Rightarrow> nat \<Rightarrow> uint \<times> uint \<Rightarrow> bool" where
  "held_block base h fl e x \<longleftrightarrow> (case x of (r, nb) \<Rightarrow> base < r - 8 \<and> unat nb \<le> 2 ^ 31 - 16 \<and>
     h_size (h (r - 8)) = units_of nb \<and> unat (r - 8) + 8 * unat (units_of nb) < e \<and>
     bytes h (r - 8) \<inter> free_bytes h fl = {})"

definition run_inv :: "uint \<Rightarrow> umem \<Rightarrow> nat \<Rightarrow> (uint \<times> uint) list \<Rightarrow> bool" where
  "run_inv base s e A \<longleftrightarrow> (\<exists>fl. umem_ok base s fl e \<and> (A \<noteq> [] \<longrightarrow> heap_ok base (hdr s) fl e \<and> freep s \<in> set (base # fl)) \<and>
     (\<forall>x \<in> set A. held_block base (hdr s) fl e x) \<and>
     sorted_wrt (\<lambda>x y. bytes (hdr s) (fst x - 8) \<inter> bytes (hdr s) (fst y - 8) = {}) A)"

lemma held_own: "held_block base h fl e (r, nb) \<Longrightarrow> unat (r - 8) \<in> bytes h (r - 8)"
  using units_of_nat(2) [of nb] by (auto simp: held_block_def bytes_def)

text \<open>A block held stays what it is while its header stays and the free bytes do not reach it.\<close>

lemma held_keeps:
  assumes "held_block base h fl e x" and "\<And>a. a \<noteq> base \<Longrightarrow> unat a \<notin> free_bytes h fl \<Longrightarrow> unat a < e - 1 \<Longrightarrow> h' a = h a"
    and "free_bytes h' fl' \<subseteq> free_bytes h fl \<union> {e - 1 ..}" and "e \<le> e'"
  shows "held_block base h' fl' e' x \<and> bytes h' (fst x - 8) = bytes h (fst x - 8)"
proof -
  obtain r nb where x: "x = (r, nb)" by (cases x)
  have o: "unat (r - 8) \<in> bytes h (r - 8)" using held_own assms(1) unfolding x by blast
  have H: "base < r - 8" "bytes h (r - 8) \<inter> free_bytes h fl = {}" "unat (r - 8) + 8 * unat (units_of nb) < e"
    "h_size (h (r - 8)) = units_of nb" using assms(1) by (auto simp: x held_block_def)
  have nz: "0 < unat (units_of nb)" using assms(1) units_of_nat(2) by (auto simp: x held_block_def)
  have "h' (r - 8) = h (r - 8)" using H o nz by (intro assms(2)) auto
  then have b: "bytes h' (r - 8) = bytes h (r - 8)" by (simp add: bytes_def)
  have "bytes h (r - 8) \<subseteq> {..< e - 1}" using H(3,4) by (auto simp: bytes_def)
  then have "bytes h (r - 8) \<inter> free_bytes h' fl' = {}" using assms(3) H(2) by fastforce
  with b show ?thesis using assms(1,4) \<open>h' (r - 8) = h (r - 8)\<close> by (auto simp: x held_block_def)
qed

lemma umem_free_below:
  assumes "umem_ok base s fl e"
  shows "free_bytes (hdr s) fl \<subseteq> {..< e - 1}"
proof (cases "freep s = 0 \<and> fl = []")
  case False
  then have "seg (hdr s) (base # fl) base e" using assms by (auto simp: umem_ok_def heap_ok_def)
  from seg_end [OF this] show ?thesis by (fastforce simp: free_bytes_def bytes_def)
qed simp

lemma sorted_wrt_cong:
  "(\<And>x. x \<in> set A \<Longrightarrow> f x = g x) \<Longrightarrow> sorted_wrt (\<lambda>x y. f x \<inter> f y = {}) A = sorted_wrt (\<lambda>x y. g x \<inter> g y = {}) A"
  by (induction A) auto

lemma alloc_inv:
  assumes law: "sbrk_grows sb brk" and inv: "run_inv base s (Suc (brk w)) A" and nb: "unat nb \<le> 2 ^ 31 - 16"
  shows "\<exists>r t v. malloc sb base nb s w = Some (r, t, v) \<and>
    run_inv base t (Suc (brk v)) (if r = 0 then A else (r, nb) # A)"
proof -
  from inv obtain fl where ok: "umem_ok base s fl (Suc (brk w))"
    and held: "\<And>x. x \<in> set A \<Longrightarrow> held_block base (hdr s) fl (Suc (brk w)) x"
    and apart: "sorted_wrt (\<lambda>x y. bytes (hdr s) (fst x - 8) \<inter> bytes (hdr s) (fst y - 8) = {}) A"
    by (auto simp: run_inv_def)
  note U = units_of_nat [OF nb]
  from malloc_ok [OF law ok U(2,3)] obtain r t v fl' where
    m: "malloc sb base nb s w = Some (r, t, v)" "heap_ok base (hdr t) fl' (Suc (brk v))" "freep t \<in> set (base # fl')"
      "brk w \<le> brk v"
      "r = 0 \<and> free_bytes (hdr t) fl' = free_bytes (hdr s) fl \<and> brk v = brk w \<or>
       (\<exists>b. r = b + 8 \<and> got_block base (units_of nb) (hdr t) fl' (free_bytes (hdr s) fl \<union> {brk w ..< brk v}) b)"
      "\<And>a. a \<noteq> base \<Longrightarrow> unat a \<notin> free_bytes (hdr s) fl \<Longrightarrow> unat a < brk w \<Longrightarrow> hdr t a = hdr s a" by blast
  have um: "umem_ok base t fl' (Suc (brk v))" using ok m(2-4) by (auto simp: umem_ok_def heap_ok_def)
  have sub: "free_bytes (hdr t) fl' \<subseteq> free_bytes (hdr s) fl \<union> {brk w ..}" using m(5) by (auto simp: got_block_def)
  have keep: "held_block base (hdr t) fl' (Suc (brk v)) x \<and> bytes (hdr t) (fst x - 8) = bytes (hdr s) (fst x - 8)"
    if "x \<in> set A" for x
    by (rule held_keeps [OF held [OF that]]) (use m(4,6) sub in auto)
  then have apart': "sorted_wrt (\<lambda>x y. bytes (hdr t) (fst x - 8) \<inter> bytes (hdr t) (fst y - 8) = {}) A"
    using apart sorted_wrt_cong [of A "\<lambda>x. bytes (hdr t) (fst x - 8)" "\<lambda>x. bytes (hdr s) (fst x - 8)"] by blast
  have old: "bytes (hdr s) (fst x - 8) \<inter> (free_bytes (hdr s) fl \<union> {brk w ..}) = {}" if "x \<in> set A" for x
    using held [OF that] by (cases x) (fastforce simp: held_block_def bytes_def)
  show ?thesis
  proof (cases "r = 0")
    case True
    then show ?thesis using m(1-3) um keep apart' by (auto simp: run_inv_def)
  next
    case False
    then obtain b where b: "r = b + 8" "base < b" "h_size (hdr t b) = units_of nb"
      "bytes (hdr t) b \<inter> free_bytes (hdr t) fl' = {}"
      "bytes (hdr t) b \<subseteq> free_bytes (hdr s) fl \<union> {brk w ..< brk v}"
      using m(5) by (auto simp: got_block_def)
    have rb: "r - 8 = b" using b(1) by simp
    have "unat b + 8 * unat (units_of nb) - 1 \<in> bytes (hdr t) b" using U(2) b(3) by (simp add: bytes_def)
    then have "unat b + 8 * unat (units_of nb) - 1 < brk v"
      using b(5) umem_free_below [OF ok] m(4) by fastforce
    then have "held_block base (hdr t) fl' (Suc (brk v)) (r, nb)"
      using b rb nb U(2) by (simp add: held_block_def)
    moreover have "bytes (hdr t) b \<inter> bytes (hdr t) (fst x - 8) = {}" if "x \<in> set A" for x
      using keep [OF that] old [OF that] b(5) by fastforce
    ultimately show ?thesis using False m(1-3) um keep apart' rb by (auto simp: run_inv_def)
  qed
qed

lemma sorted_wrt_remove1:
  assumes "sorted_wrt P A" and "y \<in> set A" and "x \<in> set (remove1 y A)" and "\<And>a b. P a b \<Longrightarrow> P b a"
  shows "P x y"
  using assms(1-3) by (induction A) (auto split: if_splits intro: assms(4) dest: notin_set_remove1 set_remove1_subset [THEN subsetD])

lemma sorted_wrt_remove1_keeps: "sorted_wrt P A \<Longrightarrow> sorted_wrt P (remove1 y A)"
  by (induction A) (auto dest: set_remove1_subset [THEN subsetD])

lemma release_inv_heap:
  assumes inv: "run_inv base s e A" and r: "(r, nb) \<in> set A"
  shows "\<exists>t. free r s = Some t \<and> run_inv base t e (remove1 (r, nb) A)"
proof -
  have "A \<noteq> []" using r by auto
  with inv obtain fl where um: "umem_ok base s fl e" and ok: "heap_ok base (hdr s) fl e" and f: "freep s \<in> set (base # fl)"
    and held: "\<And>x. x \<in> set A \<Longrightarrow> held_block base (hdr s) fl e x"
    and apart: "sorted_wrt (\<lambda>x y. bytes (hdr s) (fst x - 8) \<inter> bytes (hdr s) (fst y - 8) = {}) A"
    by (auto simp: run_inv_def)
  let ?b = "r - 8"
  have "held_block base (hdr s) fl e (r, nb)" by (rule held [OF r])
  moreover from this have "h_size (hdr s ?b) \<noteq> 0" using units_of_nat(2) [of nb] by (auto simp: held_block_def)
  ultimately have "may_free_block base (hdr s) fl e ?b" by (simp add: held_block_def may_free_block_def)
  from free_ok [OF ok f this] obtain t fl' where
    t: "free r s = Some t" "heap_ok base (hdr t) fl' e" "freep t \<in> set (base # fl')"
      "free_bytes (hdr t) fl' = free_bytes (hdr s) fl \<union> bytes (hdr s) ?b" "freep t \<in> set (base # fl)"
      "\<And>a. a \<noteq> freep t \<Longrightarrow> a \<noteq> ?b \<Longrightarrow> hdr t a = hdr s a" by auto
  have own: "unat x \<in> free_bytes (hdr s) fl" if "x \<in> set fl" for x
    using that ok unat_pos [of "h_size (hdr s x)"] by (auto simp: heap_ok_def free_bytes_def bytes_def)
  have keep: "held_block base (hdr t) fl' e x \<and> bytes (hdr t) (fst x - 8) = bytes (hdr s) (fst x - 8)"
    if x: "x \<in> set (remove1 (r, nb) A)" for x
  proof -
    have xA: "x \<in> set A" using x by (meson notin_set_remove1)
    obtain q m where q: "x = (q, m)" by (cases x)
    have H: "held_block base (hdr s) fl e (q, m)" using held [OF xA] q by simp
    have o: "unat (q - 8) \<in> bytes (hdr s) (q - 8)" by (rule held_own [OF H])
    have d: "bytes (hdr s) (q - 8) \<inter> bytes (hdr s) ?b = {}"
      using sorted_wrt_remove1 [OF apart r x] q by auto
    have "q - 8 \<noteq> ?b" using o d by auto
    moreover have "q - 8 \<noteq> freep t"
    proof
      assume e: "q - 8 = freep t"
      have "base < q - 8" using H by (simp add: held_block_def)
      then have "freep t \<in> set fl" using t(5) e by auto
      with own o H e show False by (fastforce simp: held_block_def)
    qed
    ultimately have "hdr t (q - 8) = hdr s (q - 8)" using t(6) by simp
    then show ?thesis using H d t(4) by (auto simp: q held_block_def bytes_def)
  qed
  have "sorted_wrt (\<lambda>x y. bytes (hdr t) (fst x - 8) \<inter> bytes (hdr t) (fst y - 8) = {}) (remove1 (r, nb) A)"
    using sorted_wrt_remove1_keeps [OF apart] keep
      sorted_wrt_cong [of "remove1 (r, nb) A" "\<lambda>x. bytes (hdr t) (fst x - 8)" "\<lambda>x. bytes (hdr s) (fst x - 8)"] by blast
  moreover have "umem_ok base t fl' e" using um t(2,3) by (auto simp: umem_ok_def)
  ultimately have "run_inv base t e (remove1 (r, nb) A)" using t(2,3) keep by (auto simp: run_inv_def)
  with t(1) show ?thesis by blast
qed

lemma heap_run_inv:
  assumes law: "sbrk_grows sb brk"
  shows "heap_run sb brk base s w A \<Longrightarrow> run_inv base s (Suc (brk w)) A"
proof (induction rule: heap_run.induct)
  case (start s w)
  then show ?case by (auto simp: run_inv_def umem_ok_def)
next
  case (alloc s w A nb r t v)
  with alloc_inv [OF law alloc.IH alloc.hyps(2)] show ?case by auto
next
  case (full s w A nb t v)
  with alloc_inv [OF law full.IH full.hyps(2)] show ?case by auto
next
  case (release s w A r nb t)
  with release_inv_heap [OF release.IH release.hyps(2)] show ?case by auto
qed

section \<open>Properties\<close>

text \<open>A world whose only content is the break, with a limit of 1 MB, and an allocator in its first state.\<close>

definition limit_sbrk :: "nat sbrk" where
  "limit_sbrk n w = (if w + unat n \<le> 0x100000 then (of_nat w, w + unat n) else (- 1, w))"

definition fresh_umem :: umem where
  "fresh_umem = \<lparr>hdr = (\<lambda>_. \<lparr>h_ptr = 0, h_size = 0\<rparr>), freep = 0\<rparr>"

lemma limit_sbrk_grows: "sbrk_grows limit_sbrk (\<lambda>w. w)"
proof -
  have u: "unat (of_nat w :: uint) = w" if "w \<le> 0x100000" for w
    using that by (simp add: unat_of_nat)
  moreover have "(of_nat w :: uint) \<noteq> - 1" if "w \<le> 0x100000" for w
  proof
    assume "(of_nat w :: uint) = - 1"
    then have "unat (of_nat w :: uint) = 2 ^ 32 - 1" by (simp only: unat_neg1_32)
    with u [OF that] that show False by simp
  qed
  ultimately show ?thesis by (auto simp: sbrk_grows_def limit_sbrk_def split: if_splits)
qed

lemma fresh_run: "heap_run limit_sbrk (\<lambda>w. w) 0x1000 fresh_umem 0x4000 []"
  by (rule heap_run.start) (simp_all add: fresh_umem_def)

text \<open>
  C34. \<open>malloc\<close> and \<open>free\<close> always return, and hand out disjoint memory: after any sequence of calls,
  the areas of the requested sizes at the pointers that a program holds lie between \<open>base\<close> and the
  break and do not overlap.
\<close>

theorem malloc_blocks_disjoint:
  assumes "sbrk_grows sb brk" and "heap_run sb brk base s w A"
  shows "(\<forall>nb. unat nb \<le> 2 ^ 31 - 16 \<longrightarrow> (\<exists>r t v. malloc sb base nb s w = Some (r, t, v))) \<and>
    (\<forall>(r, nb) \<in> set A. (\<exists>t. free r s = Some t) \<and> unat base < unat r \<and> unat r + unat nb \<le> brk w) \<and>
    (\<forall>i j. i < j \<longrightarrow> j < length A \<longrightarrow> (case (A ! i, A ! j) of ((r, nb), (q, mb)) \<Rightarrow>
       {unat r ..< unat r + unat nb} \<inter> {unat q ..< unat q + unat mb} = {}))"
proof -
  have inv: "run_inv base s (Suc (brk w)) A" by (rule heap_run_inv [OF assms])
  then obtain fl where um: "umem_ok base s fl (Suc (brk w))"
    and held: "\<And>x. x \<in> set A \<Longrightarrow> held_block base (hdr s) fl (Suc (brk w)) x"
    and apart: "sorted_wrt (\<lambda>x y. bytes (hdr s) (fst x - 8) \<inter> bytes (hdr s) (fst y - 8) = {}) A"
    by (auto simp: run_inv_def)
  have area: "unat r = unat (r - 8) + 8" "unat base < unat r" "unat r + unat nb \<le> brk w"
    "{unat r ..< unat r + unat nb} \<subseteq> bytes (hdr s) (r - 8)" if "(r, nb) \<in> set A" for r nb
  proof -
    have H: "base < r - 8" "unat nb \<le> 2 ^ 31 - 16" "h_size (hdr s (r - 8)) = units_of nb"
      "unat (r - 8) + 8 * unat (units_of nb) < Suc (brk w)" using held [OF that] by (auto simp: held_block_def)
    note U = units_of_nat(4) [OF H(2)]
    have "brk w < 2 ^ 32" using um by (simp add: umem_ok_def)
    then have "unat (r - 8 + 8) = unat (r - 8) + 8"
      using H(4) U unat_add_lem [of "r - 8" "8 :: uint"] by simp
    then show r: "unat r = unat (r - 8) + 8" by simp
    then show "unat base < unat r" "unat r + unat nb \<le> brk w"
      using H(1,4) U by (auto simp: word_less_nat_alt)
    show "{unat r ..< unat r + unat nb} \<subseteq> bytes (hdr s) (r - 8)" using r U H(3) by (auto simp: bytes_def)
  qed
  have "{unat r ..< unat r + unat nb} \<inter> {unat q ..< unat q + unat mb} = {}"
    if "i < j" "j < length A" "A ! i = (r, nb)" "A ! j = (q, mb)" for i j r nb q mb
  proof -
    have "bytes (hdr s) (r - 8) \<inter> bytes (hdr s) (q - 8) = {}"
      using sorted_wrt_nth_less [OF apart that(1,2)] that(3,4) by simp
    moreover have "(r, nb) \<in> set A" "(q, mb) \<in> set A" using that by (metis nth_mem order.strict_trans)+
    ultimately show ?thesis using area(4) by blast
  qed
  moreover have "\<exists>r t v. malloc sb base nb s w = Some (r, t, v)" if "unat nb \<le> 2 ^ 31 - 16" for nb
    using alloc_inv [OF assms(1) inv that] by blast
  moreover have "\<exists>t. free r s = Some t" if "(r, nb) \<in> set A" for r nb
    using release_inv_heap [OF inv that] by blast
  ultimately show ?thesis using area(2,3) by (auto split: prod.splits)
qed

lemma first_block:
  "\<exists>s. malloc limit_sbrk 0x1000 100 fresh_umem 0x4000 = Some (0xBF98, s, 0xC000) \<and> freep s = 0x1000 \<and>
     h_ptr (hdr s 0x1000) = 0x4000 \<and> h_size (hdr s 0x4000) = 4082"
proof -
  define s0 where "s0 = set_size 0x1000 0 ((set_ptr 0x1000 0x1000 fresh_umem)\<lparr>freep := 0x1000\<rparr>)"
  have s0: "hdr s0 0x1000 = \<lparr>h_ptr = 0x1000, h_size = 0\<rparr>" "freep s0 = 0x1000"
    by (simp_all add: s0_def set_size_def set_ptr_def fresh_umem_def)
  define s1 where "s1 = set_size 0x4000 4096 s0"
  have f: "free_slot (hdr s1) 0x4000 0x1000 = Some 0x1000"
    by (subst free_slot.simps) (simp add: s1_def s0)
  define s2 where "s2 = (free_join_lower 0x1000 0x4000 (free_join_upper 0x1000 0x4000 s1))\<lparr>freep := 0x1000\<rparr>"
  have s2: "h_ptr (hdr s2 0x1000) = 0x4000" "h_size (hdr s2 0x4000) = 4096" "freep s2 = 0x1000"
    by (simp_all add: s2_def s1_def s0 free_join_lower_def free_join_upper_def Let_def)
  have "free 0x4008 s1 = Some s2" using f by (simp add: free_def s2_def s1_def s0)
  then have m: "morecore limit_sbrk 14 s0 0x4000 = Some (0x1000, s2, 0xC000)"
    by (simp add: morecore_def limit_sbrk_def s1_def s2)
  define s3 where "s3 = (set_size 0xBF90 14 (set_size 0x4000 4082 s2))\<lparr>freep := 0x1000\<rparr>"
  have "malloc_loop limit_sbrk 14 0x1000 0x4000 s2 0xC000 = Some (0xBF98, s3, 0xC000)"
    by (subst malloc_loop.simps) (simp add: s2 take_block_def Let_def s3_def)
  then have "malloc_loop limit_sbrk 14 0x1000 0x1000 s0 0x4000 = Some (0xBF98, s3, 0xC000)"
    by (subst malloc_loop.simps) (simp add: s0 m s2)
  then have "malloc limit_sbrk 0x1000 100 fresh_umem 0x4000 = Some (0xBF98, s3, 0xC000)"
    unfolding malloc_def s0_def [symmetric] by (simp add: units_of_def fresh_umem_def s0 s0_def [symmetric])
  then show ?thesis by (simp add: s3_def s2)
qed

lemma second_block:
  assumes "freep s = 0x1000" and "h_ptr (hdr s 0x1000) = 0x4000" and "h_size (hdr s 0x4000) = 4082"
  shows "\<exists>t. malloc limit_sbrk 0x1000 200 s w = Some (0xBEC8, t, w)"
  using assms by (simp add: malloc_def units_of_def) (subst malloc_loop.simps, simp add: take_block_def Let_def)

theorem malloc_blocks_disjoint_witness:
  "\<exists>s t x. malloc limit_sbrk 0x1000 100 fresh_umem 0x4000 = Some (0xBF98, s, 0xC000) \<and>
     malloc limit_sbrk 0x1000 200 s 0xC000 = Some (0xBEC8, t, 0xC000) \<and> free 0xBF98 t = Some x \<and>
     {0xBEC8 ..< 0xBEC8 + 200} \<inter> {0xBF98 ..< 0xBF98 + 100} = ({} :: nat set)"
proof -
  from first_block obtain s where m: "malloc limit_sbrk 0x1000 100 fresh_umem 0x4000 = Some (0xBF98, s, 0xC000)"
    and s: "freep s = 0x1000" "h_ptr (hdr s 0x1000) = 0x4000" "h_size (hdr s 0x4000) = 4082" by blast
  from second_block [OF s, where w = "0xC000"] obtain t where n: "malloc limit_sbrk 0x1000 200 s 0xC000 = Some (0xBEC8, t, 0xC000)" ..
  have "heap_run limit_sbrk (\<lambda>w. w) 0x1000 s 0xC000 [(0xBF98, 100)]"
    by (rule heap_run.alloc [OF fresh_run _ m]) simp_all
  then have "heap_run limit_sbrk (\<lambda>w. w) 0x1000 t 0xC000 [(0xBEC8, 200), (0xBF98, 100)]"
    by (rule heap_run.alloc [OF _ _ n]) simp_all
  note D = malloc_blocks_disjoint [OF limit_sbrk_grows this]
  have "\<exists>x. free 0xBF98 t = Some x" using D by simp
  moreover have "{0xBEC8 ..< 0xBEC8 + 200} \<inter> {0xBF98 ..< 0xBF98 + 100} = ({} :: nat set)"
    using D [THEN conjunct2, THEN conjunct2, rule_format, of 0 1] by simp
  ultimately show ?thesis using m n by blast
qed

text \<open>
  C35. The number of units that \<open>malloc\<close> computes.  Up to \<open>2 ^ 32 - 8\<close> bytes it is one for the header
  and the least number whose bytes hold the request.  The sum wraps for exactly the seven larger
  requests: they have one unit, a header without room for data, and are served like \<open>malloc(0)\<close>.
\<close>

theorem malloc_size_wraps:
  "(unat nb + 8 \<le> 8 * unat (units_of nb) \<longleftrightarrow> unat nb + 7 < 2 ^ 32) \<and>
   (if unat nb + 7 < 2 ^ 32
    then unat nb + 8 \<le> 8 * unat (units_of nb) \<and> 8 * unat (units_of nb) < unat nb + 16
    else units_of nb = 1 \<and> malloc sb base nb s w = malloc sb base 0 s w)"
proof (cases "unat nb + 7 < 2 ^ 32")
  case True
  then have a: "unat (nb + 7) = unat nb + 7" using unat_add_lem [of nb "7 :: uint"] by simp
  then have d: "unat ((nb + 7) div 8) = (unat nb + 7) div 8" by (simp add: unat_div)
  have "(unat nb + 7) div 8 < 2 ^ 32 - 1" using True by simp
  then have "unat ((nb + 7) div 8 + 1) = (unat nb + 7) div 8 + 1"
    using d unat_add_lem [of "(nb + 7) div 8" "1 :: uint"] by simp
  then have "unat (units_of nb) = (unat nb + 7) div 8 + 1" by (simp add: units_of_def add.commute)
  moreover have "n \<le> 8 * ((n + 7) div 8) \<and> 8 * ((n + 7) div 8) < n + 8" for n :: nat by presburger
  ultimately show ?thesis using True by simp
next
  case False
  then have nb: "0xFFFFFFF9 \<le> nb" by (simp add: word_le_nat_alt)
  have e: "nb + 8 - 1 = nb - 0xFFFFFFF9" by simp
  have "unat (nb - 0xFFFFFFF9) = unat nb - 0xFFFFFFF9" using unat_sub [OF nb] by simp
  then have "unat ((nb + 8 - 1) div 8) = 0" unfolding e using unat_lt_32 [of nb] by (simp add: unat_div)
  then have "units_of nb = 1" by (simp add: units_of_def unsigned_eq_0_iff)
  moreover have "units_of 0 = 1" by (simp add: units_of_def)
  ultimately show ?thesis using False by (simp add: malloc_def)
qed

end
