(* ===== verification/Textutils.thy ===== *)
theory Textutils
  imports Ulib
begin

text \<open>
  The user programs that process text and directories: \<^verbatim>\<open>user/grep.c\<close>, \<^verbatim>\<open>user/wc.c\<close>, \<^verbatim>\<open>user/cat.c\<close>,
  \<^verbatim>\<open>user/echo.c\<close>, \<^verbatim>\<open>user/ls.c\<close>, and the small programs that make one system call per argument.  A string
  is the list of its bytes without the terminating zero; \<open>at xs i\<close> reads the zero at the end.  A
  program that calls \<open>exit\<close> ends with the world it leaves; \<open>None\<close> is a program that does not end.
\<close>

definition at :: "str \<Rightarrow> nat \<Rightarrow> uchar" where
  "at xs i = (if i < length xs then xs ! i else 0)"

lemma at_simps [simp]: "at [] i = 0" "at (x # xs) 0 = x" "at (x # xs) (Suc i) = at xs i"
  by (simp_all add: at_def)

text \<open>How a function of a program ends: it returns or it calls \<open>exit\<close>.\<close>

datatype 'w uend = URet 'w | UExit 'w

fun end_world :: "'w uend \<Rightarrow> 'w" where
  "end_world (URet w) = w"
| "end_world (UExit w) = w"

section \<open>\<open>grep\<close>: the matcher\<close>

abbreviation (input) ch_dollar :: uchar where "ch_dollar \<equiv> 36"
abbreviation (input) ch_star :: uchar where "ch_star \<equiv> 42"
abbreviation (input) ch_dot :: uchar where "ch_dot \<equiv> 46"
abbreviation (input) ch_caret :: uchar where "ch_caret \<equiv> 94"
abbreviation (input) ch_nl :: uchar where "ch_nl \<equiv> 10"

function matchhere :: "str \<Rightarrow> str \<Rightarrow> bool" and matchstar :: "uchar \<Rightarrow> str \<Rightarrow> str \<Rightarrow> bool" where
  "matchhere re tx =
     (if at re 0 = 0 then True
      else if at re 1 = ch_star then matchstar (at re 0) (drop 2 re) tx
      else if at re 0 = ch_dollar \<and> at re 1 = 0 then at tx 0 = 0
      else if at tx 0 \<noteq> 0 \<and> (at re 0 = ch_dot \<or> at re 0 = at tx 0) then matchhere (drop 1 re) (drop 1 tx)
      else False)"
| "matchstar c re tx =
     (if matchhere re tx then True
      else if at tx 0 \<noteq> 0 \<and> (at tx 0 = c \<or> c = ch_dot) then matchstar c re (drop 1 tx)
      else False)"
  by pat_completeness auto

termination
proof (relation "measures [\<lambda>x. case x of Inl (re, tx) \<Rightarrow> length re + length tx | Inr (c, re, tx) \<Rightarrow> length re + length tx,
    \<lambda>x. case x of Inl _ \<Rightarrow> 0 | Inr _ \<Rightarrow> 1]", goal_cases)
  case (2 re tx)
  then show ?case by (cases re) auto
next
  case (3 re tx)
  then show ?case by (cases re; cases tx) auto
next
  case (5 c re tx)
  then show ?case by (cases tx) auto
qed auto

declare matchhere.simps [simp del] matchstar.simps [simp del]

text \<open>The do-while loop of \<open>match\<close>.\<close>

fun match_any :: "str \<Rightarrow> str \<Rightarrow> bool" where
  "match_any re [] = matchhere re []"
| "match_any re (x # xs) = (if matchhere re (x # xs) then True else if x \<noteq> 0 then match_any re xs else False)"

definition match :: "str \<Rightarrow> str \<Rightarrow> bool" where
  "match re tx = (if at re 0 = ch_caret then matchhere (drop 1 re) tx else match_any re tx)"

section \<open>\<open>grep\<close>: lines\<close>

text \<open>\<open>strchr\<close> on the bytes of a buffer that a zero byte follows: the index of the byte found.\<close>

fun strchr_at :: "str \<Rightarrow> uchar \<Rightarrow> nat option" where
  "strchr_at [] c = None"
| "strchr_at (x # xs) c = (if x = 0 then None else if x = c then Some 0 else map_option Suc (strchr_at xs c))"

lemma strchr_at_less: "strchr_at xs c = Some q \<Longrightarrow> q < length xs"
  by (induction xs arbitrary: q) (auto split: if_splits)

text \<open>The inner loop: the writes it makes, and the bytes from the final \<open>p\<close> on.\<close>

function grep_scan :: "str \<Rightarrow> str \<Rightarrow> str list \<times> str" where
  "grep_scan pat p =
     (case strchr_at p ch_nl of
        None \<Rightarrow> ([], p)
      | Some q \<Rightarrow>
          case grep_scan pat (drop (q + 1) p) of (ws, r) \<Rightarrow>
            ((if match pat (take q p) then (take q p @ [ch_nl]) # ws else ws), r))"
  by pat_completeness auto

termination by (relation "measure (\<lambda>(pat, p). length p)") (auto dest: strchr_at_less)

declare grep_scan.simps [simp del]

text \<open>The outer loop; \<open>buf\<close> is the content of the first \<open>m\<close> bytes of the buffer.\<close>

partial_function (option) grep :: "'w usys \<Rightarrow> str \<Rightarrow> int \<Rightarrow> str \<Rightarrow> 'w \<Rightarrow> 'w option" where
  "grep S pat fd buf w =
     (case u_read S fd (1024 - length buf - 1) w of
        (Some (x # xs), w) \<Rightarrow>
          let buf = buf @ x # xs in
          case grep_scan pat buf of (ws, p) \<Rightarrow>
            let w = fold (\<lambda>l w. snd (u_write S 1 l w)) ws w
            in grep S pat fd (if length p = length buf then [] else p) w
      | (_, w) \<Rightarrow> Some w)"

fun grep_files :: "'w usys \<Rightarrow> str \<Rightarrow> str list \<Rightarrow> 'w \<Rightarrow> 'w option" where
  "grep_files S pat [] w = Some w"
| "grep_files S pat (f # fs) w =
     (case u_open S f 0 w of (fd, w) \<Rightarrow>
        if fd < 0 then printf S 1 ''grep: cannot open %s\<newline>'' [UStr (Some f)] w
        else case grep S pat fd [] w of
          None \<Rightarrow> None
        | Some w \<Rightarrow> grep_files S pat fs (snd (u_close S fd w)))"

definition grep_main :: "'w usys \<Rightarrow> str list \<Rightarrow> 'w \<Rightarrow> 'w option" where
  "grep_main S argv w =
     (if length argv \<le> 1 then printf S 2 ''usage: grep pattern [file ...]\<newline>'' [] w
      else if length argv \<le> 2 then grep S (argv ! 1) 0 [] w
      else grep_files S (argv ! 1) (drop 2 argv) w)"

section \<open>\<open>wc\<close>\<close>

record wcount =
  wc_l :: uint
  wc_w :: uint
  wc_c :: uint
  wc_inword :: bool

definition wc_space :: "uchar \<Rightarrow> bool" where
  "wc_space x = (x \<in> set [32, 13, 9, 10, 11])"

definition wc_byte :: "uchar \<Rightarrow> wcount \<Rightarrow> wcount" where
  "wc_byte x k =
     (let k = k\<lparr>wc_c := wc_c k + 1\<rparr>;
          k = (if x = ch_nl then k\<lparr>wc_l := wc_l k + 1\<rparr> else k)
      in if wc_space x then k\<lparr>wc_inword := False\<rparr>
         else if \<not> wc_inword k then k\<lparr>wc_w := wc_w k + 1, wc_inword := True\<rparr>
         else k)"

text \<open>The loop: the counters and whether the last \<open>read\<close> failed.\<close>

partial_function (option) wc_loop :: "'w usys \<Rightarrow> int \<Rightarrow> wcount \<Rightarrow> 'w \<Rightarrow> (bool \<times> wcount \<times> 'w) option" where
  "wc_loop S fd k w =
     (case u_read S fd 512 w of
        (Some (x # xs), w) \<Rightarrow> wc_loop S fd (fold wc_byte (x # xs) k) w
      | (Some [], w) \<Rightarrow> Some (False, k, w)
      | (None, w) \<Rightarrow> Some (True, k, w))"

definition wc :: "'w usys \<Rightarrow> int \<Rightarrow> str \<Rightarrow> 'w \<Rightarrow> 'w uend option" where
  "wc S fd name w =
     (case wc_loop S fd \<lparr>wc_l = 0, wc_w = 0, wc_c = 0, wc_inword = False\<rparr> w of
        None \<Rightarrow> None
      | Some (failed, k, w) \<Rightarrow>
          if failed then map_option UExit (printf S 1 ''wc: read error\<newline>'' [] w)
          else map_option URet
            (printf S 1 ''%d %d %d %s\<newline>'' [UNum (wc_l k), UNum (wc_w k), UNum (wc_c k), UStr (Some name)] w))"

fun wc_files :: "'w usys \<Rightarrow> str list \<Rightarrow> 'w \<Rightarrow> 'w option" where
  "wc_files S [] w = Some w"
| "wc_files S (f # fs) w =
     (case u_open S f 0 w of (fd, w) \<Rightarrow>
        if fd < 0 then printf S 1 ''wc: cannot open %s\<newline>'' [UStr (Some f)] w
        else case wc S fd f w of
          None \<Rightarrow> None
        | Some (UExit w) \<Rightarrow> Some w
        | Some (URet w) \<Rightarrow> wc_files S fs (snd (u_close S fd w)))"

definition wc_main :: "'w usys \<Rightarrow> str list \<Rightarrow> 'w \<Rightarrow> 'w option" where
  "wc_main S argv w =
     (if length argv \<le> 1 then map_option end_world (wc S 0 [] w) else wc_files S (drop 1 argv) w)"

section \<open>\<open>cat\<close> and \<open>echo\<close>\<close>

partial_function (option) cat :: "'w usys \<Rightarrow> int \<Rightarrow> 'w \<Rightarrow> 'w uend option" where
  "cat S fd w =
     (case u_read S fd 512 w of
        (Some (x # xs), w) \<Rightarrow>
          (case u_write S 1 (x # xs) w of (r, w) \<Rightarrow>
             if r \<noteq> int (length (x # xs)) then map_option UExit (printf S 1 ''cat: write error\<newline>'' [] w)
             else cat S fd w)
      | (Some [], w) \<Rightarrow> Some (URet w)
      | (None, w) \<Rightarrow> map_option UExit (printf S 1 ''cat: read error\<newline>'' [] w))"

fun cat_files :: "'w usys \<Rightarrow> str list \<Rightarrow> 'w \<Rightarrow> 'w option" where
  "cat_files S [] w = Some w"
| "cat_files S (f # fs) w =
     (case u_open S f 0 w of (fd, w) \<Rightarrow>
        if fd < 0 then printf S 1 ''cat: cannot open %s\<newline>'' [UStr (Some f)] w
        else case cat S fd w of
          None \<Rightarrow> None
        | Some (UExit w) \<Rightarrow> Some w
        | Some (URet w) \<Rightarrow> cat_files S fs (snd (u_close S fd w)))"

definition cat_main :: "'w usys \<Rightarrow> str list \<Rightarrow> 'w \<Rightarrow> 'w option" where
  "cat_main S argv w =
     (if length argv \<le> 1 then map_option end_world (cat S 0 w) else cat_files S (drop 1 argv) w)"

fun echo_args :: "'w usys \<Rightarrow> str list \<Rightarrow> 'w \<Rightarrow> 'w option" where
  "echo_args S [] w = Some w"
| "echo_args S (a # as) w =
     (case printf S 1 ''%s%s'' [UStr (Some a), UStr (Some (if as \<noteq> [] then ubytes '' '' else ubytes ''\<newline>''))] w of
        None \<Rightarrow> None
      | Some w \<Rightarrow> echo_args S as w)"

definition echo_main :: "'w usys \<Rightarrow> str list \<Rightarrow> 'w \<Rightarrow> 'w option" where
  "echo_main S argv w = echo_args S (drop 1 argv) w"

section \<open>\<open>ls\<close>\<close>

definition fmtname :: "str \<Rightarrow> str" where
  "fmtname path =
     (let p = rev (takeWhile (\<lambda>c. c \<noteq> 47) (rev path))
      in if length p \<ge> 14 then p else p @ replicate (14 - length p) 32)"

definition ls_entry :: "'w usys \<Rightarrow> str \<Rightarrow> ustat \<Rightarrow> 'w \<Rightarrow> 'w option" where
  "ls_entry S path st w =
     printf S 1 ''%s %d %d %d\<newline>'' [UStr (Some (fmtname path)), UNum (us_type st), UNum (us_ino st), UNum (us_size st)] w"

text \<open>The loop over the directory: an entry is two bytes of inode number and 14 bytes of name.\<close>

partial_function (option) ls_dir :: "'w usys \<Rightarrow> int \<Rightarrow> str \<Rightarrow> 'w \<Rightarrow> 'w option" where
  "ls_dir S fd path w =
     (case u_read S fd 16 w of
        (Some de, w) \<Rightarrow>
          if length de \<noteq> 16 then Some w
          else if de ! 0 = 0 \<and> de ! 1 = 0 then ls_dir S fd path w
          else
            let buf = path @ 47 # takeWhile (\<lambda>c. c \<noteq> 0) (drop 2 de) in
            (case stat_u S buf w of
               (None, w) \<Rightarrow>
                 (case printf S 1 ''ls: cannot stat %s\<newline>'' [UStr (Some buf)] w of
                    None \<Rightarrow> None | Some w \<Rightarrow> ls_dir S fd path w)
             | (Some st, w) \<Rightarrow>
                 (case ls_entry S buf st w of None \<Rightarrow> None | Some w \<Rightarrow> ls_dir S fd path w))
      | (None, w) \<Rightarrow> Some w)"

definition ls :: "'w usys \<Rightarrow> str \<Rightarrow> 'w \<Rightarrow> 'w option" where
  "ls S path w =
     (case u_open S path 0 w of (fd, w) \<Rightarrow>
        if fd < 0 then printf S 2 ''ls: cannot open %s\<newline>'' [UStr (Some path)] w
        else case u_fstat S fd w of
          (None, w) \<Rightarrow>
            map_option (\<lambda>w. snd (u_close S fd w)) (printf S 2 ''ls: cannot stat %s\<newline>'' [UStr (Some path)] w)
        | (Some st, w) \<Rightarrow>
            map_option (\<lambda>w. snd (u_close S fd w))
              (if us_type st = 2 then ls_entry S path st w
               else if us_type st = 1 then
                 if length path + 1 + 14 + 1 > 512 then printf S 1 ''ls: path too long\<newline>'' [] w
                 else ls_dir S fd path w
               else Some w))"

fun ls_args :: "'w usys \<Rightarrow> str list \<Rightarrow> 'w \<Rightarrow> 'w option" where
  "ls_args S [] w = Some w"
| "ls_args S (a # as) w = (case ls S a w of None \<Rightarrow> None | Some w \<Rightarrow> ls_args S as w)"

definition ls_main :: "'w usys \<Rightarrow> str list \<Rightarrow> 'w \<Rightarrow> 'w option" where
  "ls_main S argv w = (if length argv < 2 then ls S [46] w else ls_args S (drop 1 argv) w)"

section \<open>One system call per argument\<close>

definition ln_main :: "'w usys \<Rightarrow> str list \<Rightarrow> 'w \<Rightarrow> 'w option" where
  "ln_main S argv w =
     (if length argv \<noteq> 3 then printf S 2 ''Usage: ln old new\<newline>'' [] w
      else case u_link S (argv ! 1) (argv ! 2) w of (r, w) \<Rightarrow>
        if r < 0 then printf S 2 ''link %s %s: failed\<newline>'' [UStr (Some (argv ! 1)), UStr (Some (argv ! 2))] w
        else Some w)"

fun mkdir_args :: "'w usys \<Rightarrow> str list \<Rightarrow> 'w \<Rightarrow> 'w option" where
  "mkdir_args S [] w = Some w"
| "mkdir_args S (a # as) w =
     (case u_mkdir S a w of (r, w) \<Rightarrow>
        if r < 0 then printf S 2 ''mkdir: %s failed to create\<newline>'' [UStr (Some a)] w else mkdir_args S as w)"

definition mkdir_main :: "'w usys \<Rightarrow> str list \<Rightarrow> 'w \<Rightarrow> 'w option" where
  "mkdir_main S argv w =
     (if length argv < 2 then printf S 2 ''Usage: mkdir files...\<newline>'' [] w else mkdir_args S (drop 1 argv) w)"

fun rm_args :: "'w usys \<Rightarrow> str list \<Rightarrow> 'w \<Rightarrow> 'w option" where
  "rm_args S [] w = Some w"
| "rm_args S (a # as) w =
     (case u_unlink S a w of (r, w) \<Rightarrow>
        if r < 0 then printf S 2 ''rm: %s failed to delete\<newline>'' [UStr (Some a)] w else rm_args S as w)"

definition rm_main :: "'w usys \<Rightarrow> str list \<Rightarrow> 'w \<Rightarrow> 'w option" where
  "rm_main S argv w =
     (if length argv < 2 then printf S 2 ''Usage: rm files...\<newline>'' [] w else rm_args S (drop 1 argv) w)"

text \<open>\<open>kill\<close>: its arguments go through \<open>atoi\<close>; the list has the value of the digits in front.\<close>

definition atoi_str :: "str \<Rightarrow> uint" where
  "atoi_str s = foldl (\<lambda>n c. n * 10 + ucast c - 48) 0 (takeWhile (\<lambda>c. 48 \<le> c \<and> c \<le> 57) s)"

definition kill_main :: "'w usys \<Rightarrow> str list \<Rightarrow> 'w \<Rightarrow> 'w option" where
  "kill_main S argv w =
     (if length argv < 2 then printf S 2 ''usage: kill pid...\<newline>'' [] w
      else Some (fold (\<lambda>a w. snd (u_kill S (sint (atoi_str a)) w)) (drop 1 argv) w))"

section \<open>The meaning of a pattern\<close>

text \<open>
  A pattern without its anchors is a sequence of characters, each alone or repeated; \<open>.\<close> stands for
  any character.  \<open>lang\<close> is the set of strings it describes.
\<close>

datatype item = One uchar | Many uchar

definition fits :: "uchar \<Rightarrow> uchar \<Rightarrow> bool" where
  "fits c x \<longleftrightarrow> c = ch_dot \<or> c = x"

fun lang :: "item list \<Rightarrow> str \<Rightarrow> bool" where
  "lang [] u \<longleftrightarrow> u = []"
| "lang (One c # is) u \<longleftrightarrow> (\<exists>x v. u = x # v \<and> fits c x \<and> lang is v)"
| "lang (Many c # is) u \<longleftrightarrow> (\<exists>v v'. u = v @ v' \<and> (\<forall>x \<in> set v. fits c x) \<and> lang is v')"

text \<open>The items of a pattern, and whether it ends with the anchor \<open>$\<close>.\<close>

fun items :: "str \<Rightarrow> item list \<times> bool" where
  "items [] = ([], False)"
| "items [c] = (if c = ch_dollar then ([], True) else ([One c], False))"
| "items (c # d # r) =
     (if d = ch_star then (Many c # fst (items r), snd (items r))
      else (One c # fst (items (d # r)), snd (items (d # r))))"

definition here :: "str \<Rightarrow> str \<Rightarrow> bool" where
  "here re tx \<longleftrightarrow> (\<exists>u v. tx = u @ v \<and> lang (fst (items re)) u \<and> (snd (items re) \<longrightarrow> v = []))"

text \<open>Splitting off the first item of a pattern.\<close>

lemma split_one:
  "(\<exists>u v. tx = u @ v \<and> (\<exists>x w. u = x # w \<and> F x \<and> L w) \<and> D v) \<longleftrightarrow>
    (\<exists>x xs. tx = x # xs \<and> F x \<and> (\<exists>u v. xs = u @ v \<and> L u \<and> D v))"
proof
  assume "\<exists>x xs. tx = x # xs \<and> F x \<and> (\<exists>u v. xs = u @ v \<and> L u \<and> D v)"
  then obtain x u v where "tx = x # u @ v" "F x" "L u" "D v" by blast
  then show "\<exists>u v. tx = u @ v \<and> (\<exists>x w. u = x # w \<and> F x \<and> L w) \<and> D v"
    by (intro exI [of _ "x # u"] exI [of _ v]) simp
qed force

lemma split_many:
  "(\<exists>u v. tx = u @ v \<and> (\<exists>w w'. u = w @ w' \<and> A w \<and> L w') \<and> D v) \<longleftrightarrow>
    (\<exists>u y. tx = u @ y \<and> A u \<and> (\<exists>u' v. y = u' @ v \<and> L u' \<and> D v))"
proof
  assume "\<exists>u y. tx = u @ y \<and> A u \<and> (\<exists>u' v. y = u' @ v \<and> L u' \<and> D v)"
  then obtain u u' v where "tx = u @ u' @ v" "A u" "L u'" "D v" by blast
  then show "\<exists>u v. tx = u @ v \<and> (\<exists>w w'. u = w @ w' \<and> A w \<and> L w') \<and> D v"
    by (intro exI [of _ "u @ u'"] exI [of _ v]) auto
qed force

lemma here_one:
  "d \<noteq> ch_star \<Longrightarrow> here (c # d # r) tx \<longleftrightarrow> (\<exists>x xs. tx = x # xs \<and> fits c x \<and> here (d # r) xs)"
  using split_one [of tx "fits c" "lang (fst (items (d # r)))" "\<lambda>v. snd (items (d # r)) \<longrightarrow> v = []"]
  by (simp add: here_def)

lemma here_many:
  "here (c # ch_star # r) tx \<longleftrightarrow> (\<exists>u v. tx = u @ v \<and> (\<forall>x \<in> set u. fits c x) \<and> here r v)"
  using split_many [of tx "\<lambda>u. \<forall>x \<in> set u. fits c x" "lang (fst (items r))" "\<lambda>v. snd (items r) \<longrightarrow> v = []"]
  by (simp add: here_def)

lemma here_last: "here [c] tx \<longleftrightarrow> (if c = ch_dollar then tx = [] else \<exists>x xs. tx = x # xs \<and> fits c x)"
  using split_one [of tx "fits c" "\<lambda>w. w = []" "\<lambda>_. True"] by (simp add: here_def)

lemma many_step:
  "(\<exists>u v. tx = u @ v \<and> (\<forall>x \<in> set u. fits c x) \<and> here r v) \<longleftrightarrow>
    here r tx \<or> (\<exists>x xs. tx = x # xs \<and> fits c x \<and> (\<exists>u v. xs = u @ v \<and> (\<forall>x \<in> set u. fits c x) \<and> here r v))"
proof
  assume "\<exists>u v. tx = u @ v \<and> (\<forall>x \<in> set u. fits c x) \<and> here r v"
  then obtain u v where "tx = u @ v" "\<forall>x \<in> set u. fits c x" "here r v" by blast
  then show "here r tx \<or> (\<exists>x xs. tx = x # xs \<and> fits c x \<and>
      (\<exists>u v. xs = u @ v \<and> (\<forall>x \<in> set u. fits c x) \<and> here r v))" by (cases u) auto
next
  assume "here r tx \<or> (\<exists>x xs. tx = x # xs \<and> fits c x \<and>
      (\<exists>u v. xs = u @ v \<and> (\<forall>x \<in> set u. fits c x) \<and> here r v))"
  then show "\<exists>u v. tx = u @ v \<and> (\<forall>x \<in> set u. fits c x) \<and> here r v"
  proof (elim disjE exE conjE)
    fix x xs u v assume "tx = x # xs" "fits c x" "xs = u @ v" "\<forall>x \<in> set u. fits c x" "here r v"
    then show ?thesis by (intro exI [of _ "x # u"] exI [of _ v]) auto
  qed (intro exI [of _ "[]"] exI [of _ tx], simp)
qed

lemma matchhere_here:
  "0 \<notin> set re \<Longrightarrow> 0 \<notin> set tx \<Longrightarrow> matchhere re tx \<longleftrightarrow> here re tx"
  "0 \<notin> set re \<Longrightarrow> 0 \<notin> set tx \<Longrightarrow>
    matchstar c re tx \<longleftrightarrow> (\<exists>u v. tx = u @ v \<and> (\<forall>x \<in> set u. fits c x) \<and> here re v)"
proof (induction re tx and c re tx rule: matchhere_matchstar.induct)
  case (1 re tx)
  show ?case
  proof (cases re rule: items.cases)
    case 1
    then show ?thesis by (subst matchhere.simps) (simp add: here_def)
  next
    case (2 c)
    with 1 show ?thesis
      by (subst matchhere.simps; cases tx) (auto simp: here_last fits_def matchhere.simps [of "[]"])
  next
    case (3 c d r)
    show ?thesis
    proof (cases "d = ch_star")
      case True
      with 1 3 show ?thesis by (subst matchhere.simps) (simp add: here_many)
    next
      case False
      with 1 3 show ?thesis by (subst matchhere.simps; cases tx) (auto simp: here_one fits_def)
    qed
  qed
next
  case (2 c re tx)
  show ?case
  proof (cases tx)
    case Nil
    with 2 show ?thesis by (subst matchstar.simps, subst many_step) simp
  next
    case (Cons x xs)
    with 2 show ?thesis by (subst matchstar.simps, subst many_step) (auto simp: fits_def)
  qed
qed

lemma match_any_here:
  "0 \<notin> set re \<Longrightarrow> 0 \<notin> set tx \<Longrightarrow> match_any re tx \<longleftrightarrow> (\<exists>pre suf. tx = pre @ suf \<and> here re suf)"
proof (induction tx)
  case Nil
  then show ?case by (simp add: matchhere_here(1))
next
  case (Cons x xs)
  have "(\<exists>pre suf. x # xs = pre @ suf \<and> here re suf) \<longleftrightarrow>
      here re (x # xs) \<or> (\<exists>pre suf. xs = pre @ suf \<and> here re suf)"
    by (metis append_Cons append_Nil append_eq_Cons_conv)
  with Cons show ?case by (auto simp: matchhere_here(1))
qed

section \<open>The lines that \<open>grep\<close> prints\<close>

definition lines :: "str list \<Rightarrow> str" where
  "lines lns = concat (map (\<lambda>l. l @ [ch_nl]) lns)"

lemma lines_simps [simp]: "lines [] = []" "lines (l # lns) = l @ ch_nl # lines lns"
  "lines (lns @ lns') = lines lns @ lines lns'"
  by (simp_all add: lines_def)

definition text_line :: "str \<Rightarrow> bool" where
  "text_line l \<longleftrightarrow> 0 \<notin> set l \<and> ch_nl \<notin> set l"

text \<open>
  An open file read by \<open>read\<close> as far as possible and an output that receives every write: \<open>rest\<close> is
  what has not been read yet, \<open>out\<close> what has been written.
\<close>

definition file_io :: "'w usys \<Rightarrow> int \<Rightarrow> ('w \<Rightarrow> str) \<Rightarrow> ('w \<Rightarrow> str list) \<Rightarrow> bool" where
  "file_io S fd rest out \<longleftrightarrow>
     (\<forall>n w. \<exists>w'. u_read S fd n w = (Some (take n (rest w)), w') \<and> rest w' = drop n (rest w) \<and> out w' = out w) \<and>
     (\<forall>l w. rest (snd (u_write S 1 l w)) = rest w \<and> out (snd (u_write S 1 l w)) = out w @ [l])"

lemma strchr_at_line: "text_line l \<Longrightarrow> strchr_at (l @ ch_nl # p) ch_nl = Some (length l)"
  by (induction l) (auto simp: text_line_def)

lemma strchr_at_none: "ch_nl \<notin> set p \<Longrightarrow> strchr_at p ch_nl = None"
  by (induction p) auto

lemma grep_scan_lines:
  assumes "\<forall>l \<in> set lns. text_line l" and "ch_nl \<notin> set p"
  shows "grep_scan pat (lines lns @ p) = (map (\<lambda>l. l @ [ch_nl]) (filter (match pat) lns), p)"
  using assms(1)
proof (induction lns)
  case Nil
  then show ?case using strchr_at_none [OF assms(2)] by (simp add: grep_scan.simps)
next
  case (Cons l lns)
  then have "strchr_at (lines (l # lns) @ p) ch_nl = Some (length l)" by (simp add: strchr_at_line)
  with Cons show ?case by (subst grep_scan.simps) simp
qed

text \<open>A buffer full of text is a number of complete lines and the beginning of the next.\<close>

lemma take_lines:
  assumes "\<forall>l \<in> set lns. text_line l" and "ch_nl \<notin> set r"
  shows "\<exists>ls1 ls2 p. lns = ls1 @ ls2 \<and> take n (lines lns @ r) = lines ls1 @ p \<and> ch_nl \<notin> set p"
  using assms(1)
proof (induction lns arbitrary: n)
  case Nil
  then show ?case using assms(2) by (auto dest: in_set_takeD)
next
  case (Cons l lns)
  show ?case
  proof (cases "n \<le> length l")
    case True
    then have "take n (lines (l # lns) @ r) = take n l" by simp
    moreover have "ch_nl \<notin> set (take n l)" using Cons.prems by (auto simp: text_line_def dest: in_set_takeD)
    ultimately show ?thesis by (intro exI [of _ "[]"] exI [of _ "l # lns"] exI [of _ "take n l"]) auto
  next
    case False
    have "\<forall>l \<in> set lns. text_line l" using Cons.prems by simp
    from Cons.IH [OF this, of "n - length l - 1"] obtain ls1 ls2 p where
      e: "lns = ls1 @ ls2" "take (n - length l - 1) (lines lns @ r) = lines ls1 @ p" "ch_nl \<notin> set p" by blast
    have "take n (lines (l # lns) @ r) = l @ take (n - length l) (ch_nl # lines lns @ r)" using False by simp
    also have "take (n - length l) (ch_nl # lines lns @ r) = ch_nl # take (n - length l - 1) (lines lns @ r)"
      using False by (cases "n - length l") auto
    finally have "take n (lines (l # lns) @ r) = lines (l # ls1) @ p" using e(2) by simp
    with e show ?thesis by (metis append_Cons)
  qed
qed

lemma nl_free_lines: "ch_nl \<notin> set p \<Longrightarrow> p = lines lns @ r \<Longrightarrow> lns = []"
  by (cases lns) auto

lemma short_first_line:
  assumes "ch_nl \<notin> set p" and "p @ q = lines lns @ r" and "\<forall>l \<in> set lns. length l < length p"
  shows "lns = []"
proof (cases lns)
  case (Cons l lns')
  then have e: "p @ q = l @ ch_nl # (lines lns' @ r)" and n: "length l < length p" using assms by simp_all
  have "(p @ q) ! length l = ch_nl" unfolding e by simp
  then have "p ! length l = ch_nl" using n by (simp add: nth_append)
  with assms(1) n show ?thesis using nth_mem [of "length l" p] by simp
qed

lemma fold_writes:
  assumes "file_io S fd rest out"
  shows "rest (fold (\<lambda>l w. snd (u_write S 1 l w)) ws w) = rest w \<and>
    out (fold (\<lambda>l w. snd (u_write S 1 l w)) ws w) = out w @ ws"
proof (induction ws arbitrary: w)
  case (Cons l ws)
  from Cons.IH [of "snd (u_write S 1 l w)"] assms show ?case by (simp add: file_io_def)
qed simp

lemma grep_loop_lines:
  assumes io: "file_io S fd rest out"
  shows "\<forall>l \<in> set lns. text_line l \<and> length l < 1023 \<Longrightarrow> ch_nl \<notin> set r \<Longrightarrow> ch_nl \<notin> set buf \<Longrightarrow>
    length buf < 1023 \<Longrightarrow> buf @ rest w = lines lns @ r \<Longrightarrow>
    \<exists>w'. grep S pat fd buf w = Some w' \<and> out w' = out w @ map (\<lambda>l. l @ [ch_nl]) (filter (match pat) lns)"
proof (induction "length (rest w)" arbitrary: w buf lns r rule: less_induct)
  case less
  let ?n = "1024 - length buf - 1"
  from io obtain w1 where w1: "u_read S fd ?n w = (Some (take ?n (rest w)), w1)"
    "rest w1 = drop ?n (rest w)" "out w1 = out w" unfolding file_io_def by blast
  show ?case
  proof (cases "rest w")
    case Nil
    with less.prems(3,5) have "lns = []" using nl_free_lines [of buf lns r] by simp
    with Nil w1 show ?thesis by (subst grep.simps) simp
  next
    case (Cons y ys)
    let ?s = "buf @ take ?n (rest w)"
    obtain x xs where x: "take ?n (rest w) = x # xs" using Cons less.prems(4) by (cases ?n) auto
    have sn: "?s = take 1023 (lines lns @ r)" using less.prems(4) by (simp flip: less.prems(5))
    from take_lines [of lns r 1023] less.prems(1,2) obtain ls1 ls2 p where
      e: "lns = ls1 @ ls2" "?s = lines ls1 @ p" "ch_nl \<notin> set p" unfolding sn by auto
    let ?ws = "map (\<lambda>l. l @ [ch_nl]) (filter (match pat) ls1)"
    let ?w = "fold (\<lambda>l w. snd (u_write S 1 l w)) ?ws w1"
    have sc: "grep_scan pat ?s = (?ws, p)" using grep_scan_lines [of ls1 p pat] e less.prems(1) by simp
    have pr: "p @ rest w1 = lines ls2 @ r"
    proof -
      have "lines ls1 @ p @ rest w1 = buf @ rest w" using e(2) w1(2) by (metis append.assoc append_take_drop_id)
      then show ?thesis using less.prems(5) e(1) by simp
    qed
    have W: "rest ?w = rest w1" "out ?w = out w @ ?ws" using fold_writes [OF io, of ?ws w1] w1(3) by auto
    have dec: "length (rest ?w) < length (rest w)" using W w1(2) Cons less.prems(4) by simp
    let ?b = "if length p = length ?s then [] else p"
    have g: "grep S pat fd buf w = grep S pat fd ?b ?w"
      using w1(1) sc x by (subst grep.simps) (simp add: Let_def)
    show ?thesis
    proof (cases "ls1 = []")
      case True
      then have p: "p = ?s" using e(2) by simp
      have "ls2 = []"
      proof (cases "rest w1 = []")
        case True
        then show ?thesis using pr e(3) nl_free_lines [of p ls2 r] by simp
      next
        case False
        then have "length p = 1023" using p w1(2) less.prems(4) by auto
        then show ?thesis using short_first_line [OF e(3) pr] less.prems(1) e(1) by simp
      qed
      moreover from this pr less.prems(2) have "ch_nl \<notin> set (rest w1)" by (metis Un_iff append_Nil lines_simps(1) set_append)
      ultimately show ?thesis
        using less.hyps [OF dec, of "[]" "rest w1" "[]"] W True e(1) p unfolding g by simp
    next
      case False
      then have "length p < length ?s" unfolding e(2) by (cases ls1) auto
      moreover have "length ?s \<le> 1023" using sn by simp
      ultimately show ?thesis
        using less.hyps [OF dec, of ls2 r p] W pr e less.prems(1,2) unfolding g by auto
    qed
  qed
qed

section \<open>\<open>grep\<close> on input in pieces\<close>

text \<open>
  A descriptor whose reads deliver the input in given pieces: a read returns the next one, if there is
  room for it.  \<open>text_piece\<close> is a piece of a line without its end.
\<close>

definition pieces_io :: "'w usys \<Rightarrow> int \<Rightarrow> ('w \<Rightarrow> str list) \<Rightarrow> ('w \<Rightarrow> str list) \<Rightarrow> bool" where
  "pieces_io S fd pieces out \<longleftrightarrow>
     (\<forall>n w. pieces w = [] \<longrightarrow> (\<exists>w'. u_read S fd n w = (Some [], w') \<and> out w' = out w)) \<and>
     (\<forall>n w p ps. pieces w = p # ps \<longrightarrow> length p \<le> n \<longrightarrow>
        (\<exists>w'. u_read S fd n w = (Some p, w') \<and> pieces w' = ps \<and> out w' = out w)) \<and>
     (\<forall>l w. pieces (snd (u_write S 1 l w)) = pieces w \<and> out (snd (u_write S 1 l w)) = out w @ [l])"

definition text_piece :: "str \<Rightarrow> bool" where
  "text_piece p \<longleftrightarrow> p \<noteq> [] \<and> text_line p \<and> length p \<le> 1023"

lemma grep_forgets_pieces:
  assumes io: "pieces_io S fd pieces out"
  shows "list_all text_piece ps \<Longrightarrow> pieces w = ps @ qs \<Longrightarrow>
    \<exists>v. grep S pat fd [] w = grep S pat fd [] v \<and> pieces v = qs \<and> out v = out w"
proof (induction ps arbitrary: w)
  case (Cons p ps)
  obtain x xs where x: "p = x # xs" using Cons.prems(1) by (cases p) (auto simp: text_piece_def)
  have p: "text_line p" "length p \<le> 1024 - length ([] :: str) - 1" using Cons.prems(1) by (auto simp: text_piece_def)
  with io Cons.prems(2) obtain v where
    v: "u_read S fd (1024 - length ([] :: str) - 1) w = (Some p, v)" "pieces v = ps @ qs" "out v = out w"
    unfolding pieces_io_def by (metis append_Cons)
  have "strchr_at p ch_nl = None" using p(1) by (intro strchr_at_none) (simp add: text_line_def)
  then have "grep_scan pat p = ([], p)" by (subst grep_scan.simps) simp
  then have "grep S pat fd [] w = grep S pat fd [] v" using v(1) x by (subst grep.simps) (simp add: Let_def)
  with Cons.IH [OF _ v(2)] Cons.prems(1) v(3) show ?case by auto
qed auto

lemma grep_line_piece:
  assumes io: "pieces_io S fd pieces out" and l: "text_line l" "length l < 1023" and w: "pieces w = (l @ [ch_nl]) # qs"
  shows "\<exists>v. grep S pat fd [] w = grep S pat fd [] v \<and> pieces v = qs \<and>
    out v = out w @ (if match pat l then [l @ [ch_nl]] else [])"
proof -
  have "length (l @ [ch_nl]) \<le> 1024 - length ([] :: str) - 1" using l(2) by simp
  with io w obtain v where
    v: "u_read S fd (1024 - length ([] :: str) - 1) w = (Some (l @ [ch_nl]), v)" "pieces v = qs" "out v = out w"
    unfolding pieces_io_def by metis
  let ?ws = "if match pat l then [l @ [ch_nl]] else []"
  have sc: "grep_scan pat (l @ [ch_nl]) = (?ws, [])" using grep_scan_lines [of "[l]" "[]" pat] l(1) by simp
  obtain x xs where x: "l @ [ch_nl] = x # xs" by (cases "l @ [ch_nl]") auto
  have "grep S pat fd [] w = grep S pat fd [] (fold (\<lambda>l w. snd (u_write S 1 l w)) ?ws v)"
    using v(1) sc x by (subst grep.simps) (simp add: Let_def)
  moreover have "pieces (fold (\<lambda>l w. snd (u_write S 1 l w)) ?ws v) = qs" "out (fold (\<lambda>l w. snd (u_write S 1 l w)) ?ws v) = out w @ ?ws"
    using io v(2,3) by (auto simp: pieces_io_def)
  ultimately show ?thesis by blast
qed

lemma grep_pieces:
  assumes io: "pieces_io S fd pieces out" and rs: "list_all text_piece rs"
  shows "\<forall>(ps, l) \<in> set lns. list_all text_piece ps \<and> text_line l \<and> length l < 1023 \<Longrightarrow>
    pieces w = concat (map (\<lambda>(ps, l). ps @ [l @ [ch_nl]]) lns) @ rs \<Longrightarrow>
    \<exists>w'. grep S pat fd [] w = Some w' \<and> out w' = out w @ map (\<lambda>l. l @ [ch_nl]) (filter (match pat) (map snd lns))"
proof (induction lns arbitrary: w)
  case Nil
  from grep_forgets_pieces [OF io rs, of w "[]"] Nil(2) obtain v where
    v: "grep S pat fd [] w = grep S pat fd [] v" "pieces v = []" "out v = out w" by auto
  with io obtain u where "u_read S fd (1024 - length ([] :: str) - 1) v = (Some [], u)" "out u = out v"
    unfolding pieces_io_def by metis
  then have "grep S pat fd [] v = Some u" by (subst grep.simps) simp
  with v \<open>out u = out v\<close> show ?case by simp
next
  case (Cons a lns)
  obtain ps l where a: "a = (ps, l)" by fastforce
  let ?qs = "concat (map (\<lambda>(ps, l). ps @ [l @ [ch_nl]]) lns) @ rs"
  have A: "list_all text_piece ps" "text_line l" "length l < 1023" "pieces w = ps @ (l @ [ch_nl]) # ?qs"
    using Cons.prems by (auto simp: a)
  from grep_forgets_pieces [OF io A(1,4)] obtain v where
    v: "grep S pat fd [] w = grep S pat fd [] v" "pieces v = (l @ [ch_nl]) # ?qs" "out v = out w" by blast
  from grep_line_piece [OF io A(2,3) v(2)] obtain u where
    u: "grep S pat fd [] v = grep S pat fd [] u" "pieces u = ?qs" "out u = out v @ (if match pat l then [l @ [ch_nl]] else [])" by blast
  from Cons.IH [OF _ u(2)] Cons.prems(1) obtain w' where
    "grep S pat fd [] u = Some w'" "out w' = out u @ map (\<lambda>l. l @ [ch_nl]) (filter (match pat) (map snd lns))" by auto
  with v u show ?case by (simp add: a)
qed

section \<open>What \<open>wc\<close> counts\<close>

text \<open>A file whose reads return one part after the other, of any size, until nothing is left.\<close>

definition chunked :: "'w usys \<Rightarrow> int \<Rightarrow> ('w \<Rightarrow> str) \<Rightarrow> bool" where
  "chunked S fd rest \<longleftrightarrow>
     (\<forall>n w. 0 < n \<longrightarrow> (\<exists>ys w'. u_read S fd n w = (Some ys, w') \<and> rest w = ys @ rest w' \<and> length ys \<le> n \<and>
        (ys = [] \<longrightarrow> rest w = [])))"

text \<open>The positions where a word starts: a character that is no space, at the beginning or after a space.\<close>

definition word_starts :: "bool \<Rightarrow> str \<Rightarrow> nat set" where
  "word_starts b xs = {i. i < length xs \<and> \<not> wc_space (xs ! i) \<and> (if i = 0 then b else wc_space (xs ! (i - 1)))}"

lemma word_starts_Cons:
  "card (word_starts b (x # xs)) = (if \<not> wc_space x \<and> b then 1 else 0) + card (word_starts (wc_space x) xs)"
proof -
  let ?A = "if \<not> wc_space x \<and> b then {0} else {} :: nat set"
  have "word_starts b (x # xs) = ?A \<union> Suc ` word_starts (wc_space x) xs"
  proof (intro set_eqI)
    fix i show "i \<in> word_starts b (x # xs) \<longleftrightarrow> i \<in> ?A \<union> Suc ` word_starts (wc_space x) xs"
    proof (cases i)
      case (Suc j)
      then show ?thesis by (cases j) (auto simp: word_starts_def)
    qed (auto simp: word_starts_def)
  qed
  moreover have "finite (word_starts (wc_space x) xs)" by (simp add: word_starts_def)
  ultimately show ?thesis by (auto simp: card_insert_if card_image)
qed

lemma wc_fold:
  "wc_l (fold wc_byte xs k) = wc_l k + of_nat (count_list xs ch_nl) \<and>
   wc_c (fold wc_byte xs k) = wc_c k + of_nat (length xs) \<and>
   wc_w (fold wc_byte xs k) = wc_w k + of_nat (card (word_starts (\<not> wc_inword k) xs))"
proof (induction xs arbitrary: k)
  case Nil
  then show ?case by (simp add: word_starts_def)
next
  case (Cons x xs)
  have "wc_space ch_nl" by (simp add: wc_space_def)
  then show ?case using Cons [of "wc_byte x k"] by (auto simp: wc_byte_def Let_def word_starts_Cons)
qed

lemma wc_loop_fold:
  assumes "chunked S fd rest"
  shows "\<exists>w'. wc_loop S fd k w = Some (False, fold wc_byte (rest w) k, w')"
proof (induction "length (rest w)" arbitrary: w k rule: less_induct)
  case less
  from assms have "\<exists>ys w'. u_read S fd 512 w = (Some ys, w') \<and> rest w = ys @ rest w' \<and> length ys \<le> 512 \<and>
        (ys = [] \<longrightarrow> rest w = [])" by (simp add: chunked_def)
  then obtain ys w1 where r: "u_read S fd 512 w = (Some ys, w1)" "rest w = ys @ rest w1" "ys = [] \<longrightarrow> rest w = []"
    by blast
  show ?case
  proof (cases ys)
    case Nil
    with r show ?thesis by (subst wc_loop.simps) simp
  next
    case (Cons x xs)
    with r(2) less [of w1 "fold wc_byte ys k"] r(1) show ?thesis by (subst wc_loop.simps) simp
  qed
qed

section \<open>Properties\<close>

text \<open>A world of one file being read and of the lines written, on which the hypotheses hold.\<close>

definition one_file :: "(str \<times> str list) usys" where
  "one_file = \<lparr>u_read = (\<lambda>fd n (r, out). (Some (take n r), (drop n r, out))),
     u_write = (\<lambda>fd l (r, out). (int (length l), (r, out @ [l]))),
     u_open = (\<lambda>f m w. (-1, w)), u_close = (\<lambda>fd w. (0, w)), u_fstat = (\<lambda>fd w. (None, w)),
     u_link = (\<lambda>a b w. (-1, w)), u_unlink = (\<lambda>a w. (-1, w)), u_mkdir = (\<lambda>a w. (-1, w)), u_kill = (\<lambda>p w. (-1, w))\<rparr>"

lemma one_file_io: "file_io one_file fd fst snd"
  by (auto simp: file_io_def one_file_def)

lemma one_file_chunked: "chunked one_file fd fst"
  by (auto simp: chunked_def one_file_def)

text \<open>The same with a pipe, which holds the pieces that were written to it.\<close>

definition one_pipe :: "(str list \<times> str list) usys" where
  "one_pipe = \<lparr>u_read = (\<lambda>fd n (ps, out). case ps of [] \<Rightarrow> (Some [], ([], out))
       | p # ps \<Rightarrow> (Some (take n p), (if length p \<le> n then ps else drop n p # ps, out))),
     u_write = (\<lambda>fd l (ps, out). (int (length l), (ps, out @ [l]))),
     u_open = (\<lambda>f m w. (-1, w)), u_close = (\<lambda>fd w. (0, w)), u_fstat = (\<lambda>fd w. (None, w)),
     u_link = (\<lambda>a b w. (-1, w)), u_unlink = (\<lambda>a w. (-1, w)), u_mkdir = (\<lambda>a w. (-1, w)), u_kill = (\<lambda>p w. (-1, w))\<rparr>"

lemma one_pipe_io: "pieces_io one_pipe fd fst snd"
  by (auto simp: pieces_io_def one_pipe_def)

text \<open>
  C36. The matcher of \<open>grep\<close> decides its patterns: a text matches exactly when it has a part that the
  pattern describes, a part that starts at the beginning if the pattern starts with \<open>^\<close> and that
  reaches the end if it ends with \<open>$\<close>.
\<close>

theorem match_correct:
  assumes "0 \<notin> set re" and "0 \<notin> set tx"
  shows "match re tx \<longleftrightarrow>
    (let anchored = (at re 0 = ch_caret); body = (if anchored then drop 1 re else re)
     in \<exists>pre mid suf. tx = pre @ mid @ suf \<and> lang (fst (items body)) mid \<and>
          (anchored \<longrightarrow> pre = []) \<and> (snd (items body) \<longrightarrow> suf = []))"
proof (cases "at re 0 = ch_caret")
  case True
  moreover have "0 \<notin> set (drop 1 re)" using assms(1) by (auto dest: in_set_dropD)
  ultimately show ?thesis using assms(2) by (simp add: match_def matchhere_here(1) here_def Let_def)
next
  case False
  then show ?thesis using match_any_here [OF assms] by (simp add: match_def here_def) blast
qed

theorem match_correct_witness:
  "match (ubytes ''ab*.d$'') (ubytes ''xabbcd'') \<and>
   (\<exists>pre mid suf. ubytes ''xabbcd'' = pre @ mid @ suf \<and> lang [One 97, Many 98, One 46, One 100] mid \<and> suf = [])"
proof -
  have z: "0 \<notin> set (ubytes ''ab*.d$'')" "0 \<notin> set (ubytes ''xabbcd'')" by code_simp+
  have i: "items (ubytes ''ab*.d$'') = ([One 97, Many 98, One 46, One 100], True)"
    "at (ubytes ''ab*.d$'') 0 \<noteq> ch_caret" by code_simp+
  have "match (ubytes ''ab*.d$'') (ubytes ''xabbcd'')" by code_simp
  with match_correct [OF z] i show ?thesis by auto
qed

text \<open>
  C37. \<open>grep\<close> on a file whose lines are shorter than its buffer ends and writes exactly the lines that
  match, in order, however long the file is; the reads and the moves of the buffer lose nothing.
  What follows the last newline is not searched.
\<close>

theorem grep_prints_matching_lines:
  assumes "file_io S fd rest out" and "rest w = lines lns @ r" and "ch_nl \<notin> set r"
    and "\<forall>l \<in> set lns. text_line l \<and> length l < 1023"
  shows "\<exists>w'. grep S pat fd [] w = Some w' \<and> out w' = out w @ map (\<lambda>l. l @ [ch_nl]) (filter (match pat) lns)"
  using grep_loop_lines [OF assms(1) assms(4,3), of "[]" w pat] assms(2) by simp

theorem grep_prints_matching_lines_witness:
  "\<exists>w'. grep one_file [97] 0 [] ([98, 97, 10, 98, 10, 97, 10, 97], []) = Some w' \<and>
     snd w' = [[98, 97, 10], [97, 10]]"
proof -
  have m: "filter (match [97]) [[98, 97], [98], [97]] = [[98, 97], [97]]" by code_simp
  show ?thesis
    using grep_prints_matching_lines [OF one_file_io, of "([98, 97, 10, 98, 10, 97, 10, 97], [])"
      "[[98, 97], [98], [97]]" "[97]" "[97]" 0] m by (simp add: text_line_def)
qed

text \<open>
  C38. \<open>grep\<close> on input that arrives in pieces, as a pipe or a terminal delivers it, where no piece goes on
  after a newline.  A line that comes in one piece is searched as a whole.  Of a line that comes in
  several pieces only the last is searched and written: the buffer is forgotten after each of the
  others, so a match that is in them or starts in them is lost.
\<close>

theorem grep_last_piece:
  assumes "pieces_io S fd pieces out" and "pieces w = concat (map (\<lambda>(ps, l). ps @ [l @ [ch_nl]]) lns) @ rs"
    and "\<forall>(ps, l) \<in> set lns. list_all text_piece ps \<and> text_line l \<and> length l < 1023" and "list_all text_piece rs"
  shows "\<exists>w'. grep S pat fd [] w = Some w' \<and>
    out w' = out w @ map (\<lambda>l. l @ [ch_nl]) (filter (match pat) (map snd lns))"
  using grep_pieces [OF assms(1,4,3,2)] .

theorem grep_last_piece_witness:
  "match [97, 98] [97, 98] \<and> (\<exists>w'. grep one_pipe [97, 98] 0 [] ([[97], [98, 10], [97, 98, 10], [97, 98]], []) = Some w' \<and>
     snd w' = [[97, 98, 10]])"
proof -
  have m: "filter (match [97, 98]) [[98], [97, 98]] = [[97, 98]]" "match [97, 98] [97, 98]" by code_simp+
  show ?thesis
    using grep_last_piece [OF one_pipe_io, of "([[97], [98, 10], [97, 98, 10], [97, 98]], [])"
      "[([[97]], [98]), ([], [97, 98])]" "[[97, 98]]" "[97, 98]" 0] m by (simp add: text_line_def text_piece_def)
qed

text \<open>
  C39. \<open>wc\<close> counts the newlines, the words and the bytes of its input, modulo \<open>2 ^ 32\<close>, in whatever
  parts \<open>read\<close> delivers it, a word being a maximal run of characters that are no spaces.
\<close>

theorem wc_counts:
  assumes "chunked S fd rest"
  shows "\<exists>w' k. wc_loop S fd \<lparr>wc_l = 0, wc_w = 0, wc_c = 0, wc_inword = False\<rparr> w = Some (False, k, w') \<and>
    wc_l k = of_nat (count_list (rest w) ch_nl) \<and> wc_c k = of_nat (length (rest w)) \<and>
    wc_w k = of_nat (card {i. i < length (rest w) \<and> \<not> wc_space (rest w ! i) \<and>
      (i = 0 \<or> wc_space (rest w ! (i - 1)))})"
proof -
  let ?k = "\<lparr>wc_l = 0, wc_w = 0, wc_c = 0, wc_inword = False\<rparr>"
  have e: "word_starts True xs = {i. i < length xs \<and> \<not> wc_space (xs ! i) \<and> (i = 0 \<or> wc_space (xs ! (i - 1)))}" for xs
    by (auto simp: word_starts_def split: if_splits)
  show ?thesis using wc_loop_fold [OF assms, of ?k w] wc_fold [of "rest w" ?k] e by auto
qed

theorem wc_counts_witness:
  "\<exists>w' k. wc_loop one_file 0 \<lparr>wc_l = 0, wc_w = 0, wc_c = 0, wc_inword = False\<rparr> ([97, 32, 98, 99, 10], []) =
     Some (False, k, w') \<and> wc_l k = 1 \<and> wc_c k = 5"
  using wc_counts [OF one_file_chunked, of 0 "([97, 32, 98, 99, 10], [])"] by auto

end
