(* ===== verification/Sh.thy ===== *)
theory Sh
  imports Textutils
begin

text \<open>
  The shell, \<^verbatim>\<open>user/sh.c\<close>: tokens, the recursive-descent parser, the termination of the strings, and
  the execution of a parsed command as a tree of system calls.

  The line being parsed is a list of bytes without zeros; a pointer into it is an index, and the byte
  at the end is the terminating zero.  A call of \<open>panic\<close> ends the parse with its message.  The parser
  functions count down a number of calls; \<open>PFuel\<close> is a parse that has used it up.  The constructors
  allocate with \<open>malloc\<close>, whose result the code does not check; here it does not fail.  The line
  \<open>leftovers\<close> that \<open>parsecmd\<close> prints before one of its panics is not kept.
\<close>

section \<open>Data\<close>

datatype cmd =
    EXEC "(nat \<times> nat) list"
  | REDIR cmd nat nat uint nat
  | PIPE cmd cmd
  | LIST cmd cmd
  | BACK cmd

datatype 'a pres = POk 'a nat | PPanic string | PFuel

fun bindP :: "'a pres \<Rightarrow> ('a \<Rightarrow> nat \<Rightarrow> 'b pres) \<Rightarrow> 'b pres" where
  "bindP (POk a s) f = f a s"
| "bindP (PPanic m) f = PPanic m"
| "bindP PFuel f = PFuel"

definition whitespace :: str where
  "whitespace = [32, 9, 13, 10, 11]"

definition symbols :: str where
  "symbols = [60, 124, 62, 38, 59, 40, 41]"

section \<open>Tokens\<close>

text \<open>The loops over white space and over the characters of a word.\<close>

function skip_ws :: "str \<Rightarrow> nat \<Rightarrow> nat" where
  "skip_ws buf s = (if s < length buf \<and> at buf s \<in> set whitespace then skip_ws buf (s + 1) else s)"
  by pat_completeness auto
termination by (relation "measure (\<lambda>(buf, s). length buf - s)") auto

function skip_word :: "str \<Rightarrow> nat \<Rightarrow> nat" where
  "skip_word buf s =
     (if s < length buf \<and> at buf s \<notin> set whitespace \<and> at buf s \<notin> set symbols then skip_word buf (s + 1) else s)"
  by pat_completeness auto
termination by (relation "measure (\<lambda>(buf, s). length buf - s)") auto

declare skip_ws.simps [simp del] skip_word.simps [simp del]

text \<open>\<open>gettoken\<close>: the kind of the token, its first byte, its end, and the new position.\<close>

definition gettoken :: "str \<Rightarrow> nat \<Rightarrow> uchar \<times> nat \<times> nat \<times> nat" where
  "gettoken buf s =
     (let s = skip_ws buf s; q = s; c = at buf s;
          (ret, s) =
            (if c = 0 then (c, s)
             else if c \<in> set [124, 40, 41, 59, 38, 60] then (c, s + 1)
             else if c = 62 then (if at buf (s + 1) = 62 then (43, s + 2) else (c, s + 1))
             else (97, skip_word buf s))
      in (ret, q, s, skip_ws buf s))"

definition peek :: "str \<Rightarrow> nat \<Rightarrow> str \<Rightarrow> nat \<times> bool" where
  "peek buf s toks = (let s = skip_ws buf s in (s, at buf s \<noteq> 0 \<and> at buf s \<in> set toks))"

lemma skip_ws_le: "s \<le> skip_ws buf s \<and> (s \<le> length buf \<longrightarrow> skip_ws buf s \<le> length buf)"
proof (induction buf s rule: skip_ws.induct)
  case (1 buf s)
  then show ?case by (subst (1 2) skip_ws.simps) (auto dest: Suc_leD)
qed

lemma skip_word_le: "s \<le> skip_word buf s \<and> (s \<le> length buf \<longrightarrow> skip_word buf s \<le> length buf)"
proof (induction buf s rule: skip_word.induct)
  case (1 buf s)
  then show ?case by (subst (1 2) skip_word.simps) (auto dest: Suc_leD)
qed

lemma at_less: "at buf s \<noteq> 0 \<Longrightarrow> s < length buf"
  by (auto simp: at_def split: if_splits)

lemma skip_ws_stop: "at buf (skip_ws buf s) \<notin> set whitespace"
proof (induction buf s rule: skip_ws.induct)
  case (1 buf s)
  show ?case
  proof (cases "s < length buf \<and> at buf s \<in> set whitespace")
    case True
    with 1 show ?thesis by (subst skip_ws.simps) simp
  next
    case False
    then have "at buf s \<notin> set whitespace" by (auto simp: at_def whitespace_def split: if_splits)
    with False show ?thesis by (subst skip_ws.simps) simp
  qed
qed

lemma skip_ws_idem [simp]: "skip_ws buf (skip_ws buf s) = skip_ws buf s"
  using skip_ws_stop [of buf s] by (subst skip_ws.simps) simp

text \<open>A token lies in the line, and a token other than the end moves the position forward.\<close>

lemma gettoken_bounds:
  assumes "gettoken buf s = (ret, q, eq, s')" and "s \<le> length buf"
  shows "s \<le> q" "q \<le> eq" "eq \<le> s'" "s' \<le> length buf" "ret \<noteq> 0 \<Longrightarrow> q < eq" "ret \<noteq> 0 \<Longrightarrow> s < s'"
proof -
  let ?s = "skip_ws buf s"
  have s: "s \<le> ?s" "?s \<le> length buf" using skip_ws_le assms(2) by auto
  have w: "?s < skip_word buf ?s" if "at buf ?s \<noteq> 0" "at buf ?s \<notin> set symbols" "at buf ?s \<notin> set whitespace"
    using that at_less [OF that(1)] skip_word_le [of "?s + 1" buf] by (subst skip_word.simps) auto
  have nw: "at buf ?s \<notin> set whitespace" by (rule skip_ws_stop)
  have k: "?s \<le> eq \<and> eq \<le> length buf \<and> q = ?s \<and> s' = skip_ws buf eq \<and> (ret \<noteq> 0 \<longrightarrow> ?s < eq)"
    using assms(1) s w nw at_less [of buf ?s] at_less [of buf "?s + 1"] skip_word_le [of ?s buf]
    by (auto simp: gettoken_def Let_def symbols_def split: if_splits)
  then show "s \<le> q" "q \<le> eq" "eq \<le> s'" "s' \<le> length buf" "ret \<noteq> 0 \<Longrightarrow> q < eq" "ret \<noteq> 0 \<Longrightarrow> s < s'"
    using s skip_ws_le [of eq buf] by auto
qed

lemma peek_bounds:
  assumes "peek buf s toks = (s', b)"
  shows "s \<le> s'" "s \<le> length buf \<Longrightarrow> s' \<le> length buf" "b \<Longrightarrow> s' < length buf"
  using assms skip_ws_le at_less [of buf s'] by (auto simp: peek_def Let_def)

section \<open>The parser\<close>

lemma bindP_cong [fundef_cong]:
  "m = m' \<Longrightarrow> (\<And>a s. m' = POk a s \<Longrightarrow> f a s = g a s) \<Longrightarrow> bindP m f = bindP m' g"
  by (cases m') auto

text \<open>The loop of \<open>parseredirs\<close>: the files, open modes and descriptors of the redirections, in order.\<close>

type_synonym redir = "nat \<times> nat \<times> uint \<times> nat"

function redirs_loop :: "str \<Rightarrow> redir list \<Rightarrow> nat \<Rightarrow> redir list pres" where
  "redirs_loop buf rs s =
     (case peek buf s [60, 62] of (s, b) \<Rightarrow>
        if \<not> b then POk rs s
        else case gettoken buf s of (tok, _, _, s) \<Rightarrow>
          case gettoken buf s of (tk, q, eq, s) \<Rightarrow>
            if tk \<noteq> 97 then PPanic ''missing file for redirection''
            else redirs_loop buf (rs @ [if tok = 60 then (q, eq, 0, 0) else (q, eq, 0x201, 1)]) s)"
  by pat_completeness auto

termination
proof (relation "measure (\<lambda>(buf, rs, s). length buf - s)", goal_cases)
  case (2 buf rs s s1 b tok y1 q1 y2 e1 s2 tk y3 q y4 eq s3)
  then have e: "peek buf s [60, 62] = (s1, True)" "gettoken buf s1 = (tok, q1, e1, s2)"
    "gettoken buf s2 = (tk, q, eq, s3)" "tk \<noteq> 0" by auto
  have "s \<le> s1" "s1 < length buf" using peek_bounds(1,3) [OF e(1)] by auto
  moreover have "s1 \<le> s2" "s2 \<le> length buf" using gettoken_bounds(1-4) [OF e(2)] calculation by auto
  moreover have "s2 < s3" using gettoken_bounds(6) [OF e(3)] e(4) calculation by auto
  ultimately show ?case by simp
qed simp

declare redirs_loop.simps [simp del]

definition wrap :: "cmd \<Rightarrow> redir \<Rightarrow> cmd" where
  "wrap c r = (case r of (q, eq, mode, fd) \<Rightarrow> REDIR c q eq mode fd)"

definition parseredirs :: "cmd \<Rightarrow> str \<Rightarrow> nat \<Rightarrow> cmd pres" where
  "parseredirs c buf s = bindP (redirs_loop buf [] s) (\<lambda>rs s. POk (foldl wrap c rs) s)"

text \<open>
  The loop of \<open>parseexec\<close>.  The structure that holds the arguments is filled while redirections are
  already wrapped round it; here both are collected and put together at the end.
\<close>

function args_loop :: "str \<Rightarrow> (nat \<times> nat) list \<Rightarrow> redir list \<Rightarrow> nat \<Rightarrow> cmd pres" where
  "args_loop buf args rs s =
     (case peek buf s [124, 41, 38, 59] of (s, b) \<Rightarrow>
        if b then POk (foldl wrap (EXEC args) rs) s
        else case gettoken buf s of (tok, q, eq, s) \<Rightarrow>
          if tok = 0 then POk (foldl wrap (EXEC args) rs) s
          else if tok \<noteq> 97 then PPanic ''syntax''
          else
            let args = args @ [(q, eq)] in
            if length args \<ge> 10 then PPanic ''too many args''
            else bindP (redirs_loop buf rs s) (\<lambda>rs s. args_loop buf args rs s))"
  by pat_completeness auto
termination by (relation "measure (\<lambda>(buf, args, rs, s). 10 - length args)") auto

declare args_loop.simps [simp del]

lemma peek_token:
  assumes "peek buf s toks = (s1, True)" and "gettoken buf s1 = (ret, q, eq, s2)"
  shows "s < s2" "s2 \<le> length buf" "s1 < length buf"
proof -
  have s1: "s \<le> s1" "s1 < length buf" using peek_bounds(1,3) [OF assms(1)] by auto
  have "at buf s1 \<noteq> 0" "skip_ws buf s1 = s1"
  proof -
    have e: "s1 = skip_ws buf s" "at buf s1 \<noteq> 0" using assms(1) by (auto simp: peek_def Let_def)
    then show "at buf s1 \<noteq> 0" by simp
    show "skip_ws buf s1 = s1" using e by simp
  qed
  then have "ret \<noteq> 0" using assms(2) by (auto simp: gettoken_def Let_def split: if_splits)
  with gettoken_bounds(4,6) [OF assms(2)] s1 show "s < s2" "s2 \<le> length buf" "s1 < length buf" by auto
qed

text \<open>The loop of \<open>parseline\<close> over \<open>&\<close>.\<close>

function back_loop :: "str \<Rightarrow> cmd \<Rightarrow> nat \<Rightarrow> cmd \<times> nat" where
  "back_loop buf c s =
     (case peek buf s [38] of (s, b) \<Rightarrow>
        if b then case gettoken buf s of (_, _, _, s) \<Rightarrow> back_loop buf (BACK c) s else (c, s))"
  by pat_completeness auto

termination
proof (relation "measure (\<lambda>(buf, c, s). length buf - s)", goal_cases)
  case (2 buf c s s1 b tok y q z eq s2)
  then have "peek buf s [38] = (s1, True)" "gettoken buf s1 = (tok, q, eq, s2)" by auto
  from peek_token [OF this] show ?case by simp
qed simp

declare back_loop.simps [simp del]

text \<open>The position after a token whose value is not used.\<close>

definition skip_token :: "str \<Rightarrow> nat \<Rightarrow> nat" where
  "skip_token buf s = (case gettoken buf s of (_, _, _, s) \<Rightarrow> s)"

fun parseline :: "nat \<Rightarrow> str \<Rightarrow> nat \<Rightarrow> cmd pres"
  and parsepipe :: "nat \<Rightarrow> str \<Rightarrow> nat \<Rightarrow> cmd pres"
  and parseexec :: "nat \<Rightarrow> str \<Rightarrow> nat \<Rightarrow> cmd pres"
  and parseblock :: "nat \<Rightarrow> str \<Rightarrow> nat \<Rightarrow> cmd pres" where
  "parseline 0 buf s = PFuel"
| "parseline (Suc n) buf s =
     bindP (parsepipe n buf s) (\<lambda>c s.
     case back_loop buf c s of (c, s) \<Rightarrow>
     case peek buf s [59] of (s, b) \<Rightarrow>
       if b then bindP (parseline n buf (skip_token buf s)) (\<lambda>d s. POk (LIST c d) s)
       else POk c s)"
| "parsepipe 0 buf s = PFuel"
| "parsepipe (Suc n) buf s =
     bindP (parseexec n buf s) (\<lambda>c s.
     case peek buf s [124] of (s, b) \<Rightarrow>
       if b then bindP (parsepipe n buf (skip_token buf s)) (\<lambda>d s. POk (PIPE c d) s)
       else POk c s)"
| "parseexec 0 buf s = PFuel"
| "parseexec (Suc n) buf s =
     (case peek buf s [40] of (s, b) \<Rightarrow>
        if b then parseblock n buf s
        else bindP (redirs_loop buf [] s) (\<lambda>rs s. args_loop buf [] rs s))"
| "parseblock 0 buf s = PFuel"
| "parseblock (Suc n) buf s =
     (case peek buf s [40] of (s, b) \<Rightarrow>
        if \<not> b then PPanic ''parseblock''
        else
          bindP (parseline n buf (skip_token buf s)) (\<lambda>c s.
          case peek buf s [41] of (s, b) \<Rightarrow>
            if \<not> b then PPanic ''syntax - missing )''
            else parseredirs c buf (skip_token buf s)))"

text \<open>\<open>nulterminate\<close>: a zero byte after every counted string, in the buffer with its final zero.\<close>

fun nulterminate :: "cmd \<Rightarrow> str \<Rightarrow> str" where
  "nulterminate (EXEC args) m = fold (\<lambda>(q, eq) m. m[eq := 0]) args m"
| "nulterminate (REDIR c q eq mode fd) m = (nulterminate c m)[eq := 0]"
| "nulterminate (PIPE c d) m = nulterminate d (nulterminate c m)"
| "nulterminate (LIST c d) m = nulterminate d (nulterminate c m)"
| "nulterminate (BACK c) m = nulterminate c m"

definition parsecmd :: "str \<Rightarrow> (cmd \<times> str) pres" where
  "parsecmd buf =
     bindP (parseline (4 * length buf + 4) buf 0) (\<lambda>c s.
     case peek buf s [] of (s, _) \<Rightarrow>
       if s \<noteq> length buf then PPanic ''syntax'' else POk (c, nulterminate c (buf @ [0])) s)"

section \<open>Running a command\<close>

text \<open>
  What the shell does to run a command, as a tree of system calls: a call whose result matters has a
  continuation for each result, and a \<open>fork\<close> has the program of the child, the program of the parent
  and what happens if it fails.  \<open>exec\<close> has the continuation for its failure only.
\<close>

datatype prog =
    PExit
  | PPrint string "str list" prog
  | PClose nat prog
  | POpen str uint "bool \<Rightarrow> prog"
  | PDup nat prog
  | PExec str "str list" prog
  | PPipe "(nat \<times> nat) option \<Rightarrow> prog"
  | PFork prog prog prog
  | PWait prog

definition sh_panic :: "string \<Rightarrow> prog" where
  "sh_panic m = PPrint ''%s\<newline>'' [ubytes m] PExit"

text \<open>\<open>fork1\<close>: the two branches and the panic.\<close>

definition fork1 :: "prog \<Rightarrow> prog \<Rightarrow> prog" where
  "fork1 child parent = PFork child parent (sh_panic ''fork'')"

text \<open>The string at an index of the terminated buffer.\<close>

definition str_at :: "str \<Rightarrow> nat \<Rightarrow> str" where
  "str_at m q = takeWhile (\<lambda>c. c \<noteq> 0) (drop q m)"

fun runcmd :: "str \<Rightarrow> cmd \<Rightarrow> prog" where
  "runcmd m (EXEC args) =
     (case args of
        [] \<Rightarrow> PExit
      | (q, _) # _ \<Rightarrow>
          PExec (str_at m q) (map (\<lambda>(q, _). str_at m q) args) (PPrint ''exec %s failed\<newline>'' [str_at m q] PExit))"
| "runcmd m (REDIR c q eq mode fd) =
     PClose fd (POpen (str_at m q) mode (\<lambda>ok.
       if \<not> ok then PPrint ''open %s failed\<newline>'' [str_at m q] PExit else runcmd m c))"
| "runcmd m (LIST c d) = fork1 (runcmd m c) (PWait (runcmd m d))"
| "runcmd m (PIPE c d) =
     PPipe (\<lambda>r. case r of
       None \<Rightarrow> sh_panic ''pipe''
     | Some (p0, p1) \<Rightarrow>
         fork1 (PClose 1 (PDup p1 (PClose p0 (PClose p1 (runcmd m c)))))
           (fork1 (PClose 0 (PDup p0 (PClose p0 (PClose p1 (runcmd m d)))))
              (PClose p0 (PClose p1 (PWait (PWait PExit))))))"
| "runcmd m (BACK c) = fork1 (runcmd m c) PExit"

text \<open>
  \<open>getcmd\<close>: the prompt, then a line into the cleared buffer; the result says whether there was one.
  Before its loop the shell opens the console until three descriptors are in use.
\<close>

definition getcmd :: "'w usys \<Rightarrow> bytemem \<Rightarrow> uint \<Rightarrow> nat \<Rightarrow> 'w \<Rightarrow> (bool \<times> bytemem \<times> 'w) option" where
  "getcmd S m buf nbuf w =
     map_option (\<lambda>w.
       case gets S (memset_u m buf 0 (of_nat nbuf)) buf (int nbuf) w of (m, w) \<Rightarrow> (m buf \<noteq> 0, m, w))
     (printf S 2 ''$ '' [] w)"

partial_function (option) open_fds :: "'w usys \<Rightarrow> 'w \<Rightarrow> 'w option" where
  "open_fds S w =
     (case u_open S (ubytes ''console'') 2 w of (fd, w) \<Rightarrow>
        if fd < 0 then Some w
        else if fd \<ge> 3 then Some (snd (u_close S fd w))
        else open_fds S w)"

text \<open>
  What the main loop does with a line, \<open>k\<close> being its next round: \<open>cd\<close> is executed by the shell itself,
  with the last byte of the line cut off, and has a continuation for its failure and one for its
  success; everything else is parsed and run by a child, for which the shell waits.
\<close>

datatype sh_action = Chdir str prog prog | Run prog

definition line_child :: "str \<Rightarrow> prog" where
  "line_child buf = (case parsecmd buf of POk (c, m) _ \<Rightarrow> runcmd m c | PPanic e \<Rightarrow> sh_panic e | PFuel \<Rightarrow> PExit)"

definition sh_line :: "str \<Rightarrow> prog \<Rightarrow> sh_action" where
  "sh_line buf k =
     (if at buf 0 = 99 \<and> at buf 1 = 100 \<and> at buf 2 = 32 then
        let dir = drop 3 (butlast buf) in Chdir dir (PPrint ''cannot cd %s\<newline>'' [dir] k) k
      else Run (fork1 (line_child buf) (PWait k)))"

end
