(* ===== verification/Sh_Props.thy ===== *)
theory Sh_Props
  imports Sh
begin

text \<open>
  What the shell's parser and executor guarantee: the parser always ends, its results point into the
  line, it inverts printing, and the system calls of a command connect the programs it starts as the
  command says.
\<close>

section \<open>Well-formed results\<close>

text \<open>
  A word of the line: its bytes are neither white space nor symbols, and it ends at such a byte or at
  the end of the line.  A well-formed command has words for its strings, at most nine arguments, and
  the two kinds of redirection.
\<close>

definition word_char :: "uchar \<Rightarrow> bool" where
  "word_char c \<longleftrightarrow> c \<notin> set whitespace \<and> c \<notin> set symbols"

definition word_span :: "str \<Rightarrow> nat \<Rightarrow> nat \<Rightarrow> bool" where
  "word_span buf q eq \<longleftrightarrow> q < eq \<and> eq \<le> length buf \<and> list_all word_char (take (eq - q) (drop q buf)) \<and>
     (eq < length buf \<longrightarrow> \<not> word_char (buf ! eq))"

fun cmd_ok :: "str \<Rightarrow> cmd \<Rightarrow> bool" where
  "cmd_ok buf (EXEC args) \<longleftrightarrow> length args < 10 \<and> list_all (\<lambda>(q, eq). word_span buf q eq) args"
| "cmd_ok buf (REDIR c q eq mode fd) \<longleftrightarrow>
     cmd_ok buf c \<and> word_span buf q eq \<and> (mode = 0 \<and> fd = 0 \<or> mode = 0x201 \<and> fd = 1)"
| "cmd_ok buf (PIPE c d) \<longleftrightarrow> cmd_ok buf c \<and> cmd_ok buf d"
| "cmd_ok buf (LIST c d) \<longleftrightarrow> cmd_ok buf c \<and> cmd_ok buf d"
| "cmd_ok buf (BACK c) \<longleftrightarrow> cmd_ok buf c"

definition redir_ok :: "str \<Rightarrow> redir \<Rightarrow> bool" where
  "redir_ok buf r \<longleftrightarrow> (case r of (q, eq, mode, fd) \<Rightarrow>
     word_span buf q eq \<and> (mode = 0 \<and> fd = 0 \<or> mode = 0x201 \<and> fd = 1))"

lemma skip_word_span:
  "s \<le> length buf \<Longrightarrow> list_all word_char (take (skip_word buf s - s) (drop s buf)) \<and>
    (skip_word buf s < length buf \<longrightarrow> \<not> word_char (buf ! skip_word buf s))"
proof (induction buf s rule: skip_word.induct)
  case (1 buf s)
  show ?case
  proof (cases "s < length buf \<and> at buf s \<notin> set whitespace \<and> at buf s \<notin> set symbols")
    case True
    then have e: "skip_word buf s = skip_word buf (s + 1)" by (subst skip_word.simps) simp
    have "Suc s \<le> skip_word buf (s + 1)" using skip_word_le [of "s + 1" buf] by simp
    then have "skip_word buf (s + 1) - s = Suc (skip_word buf (s + 1) - (s + 1))" by simp
    moreover have "drop s buf = buf ! s # drop (s + 1) buf" using True by (simp add: Cons_nth_drop_Suc)
    moreover have "word_char (buf ! s)" using True by (auto simp: at_def word_char_def)
    ultimately show ?thesis using 1 True unfolding e by simp
  next
    case False
    then show ?thesis by (subst (1 2 3) skip_word.simps) (auto simp: at_def word_char_def)
  qed
qed

lemma gettoken_word:
  assumes "gettoken buf s = (97, q, eq, s')" and "s \<le> length buf"
  shows "word_span buf q eq"
proof -
  have "eq = skip_word buf q"
    using assms(1) by (auto simp: gettoken_def Let_def split: if_splits)
  with gettoken_bounds(1-5) [OF assms] skip_word_span [of q buf] show ?thesis by (simp add: word_span_def)
qed

lemma bindP_POk: "bindP m f = POk b t \<longleftrightarrow> (\<exists>a s. m = POk a s \<and> f a s = POk b t)"
  by (cases m) auto

lemma bindP_PFuel: "bindP m f = PFuel \<longleftrightarrow> m = PFuel \<or> (\<exists>a s. m = POk a s \<and> f a s = PFuel)"
  by (cases m) auto

lemma wrap_ok: "cmd_ok buf c \<Longrightarrow> \<forall>r \<in> set rs. redir_ok buf r \<Longrightarrow> cmd_ok buf (foldl wrap c rs)"
  by (induction rs arbitrary: c) (auto simp: wrap_def redir_ok_def split: prod.splits)

lemma redirs_loop_ok:
  "s \<le> length buf \<Longrightarrow> \<forall>r \<in> set rs. redir_ok buf r \<Longrightarrow> redirs_loop buf rs s \<noteq> PFuel \<and>
    (\<forall>rs' s'. redirs_loop buf rs s = POk rs' s' \<longrightarrow> s \<le> s' \<and> s' \<le> length buf \<and> (\<forall>r \<in> set rs'. redir_ok buf r))"
proof (induction buf rs s rule: redirs_loop.induct)
  case (1 buf rs s)
  obtain s1 b where p: "peek buf s [60, 62] = (s1, b)" by fastforce
  obtain tok q1 e1 s2 where g: "gettoken buf s1 = (tok, q1, e1, s2)" by (metis prod_cases4)
  obtain tk q eq s3 where h: "gettoken buf s2 = (tk, q, eq, s3)" by (metis prod_cases4)
  have s1: "s \<le> s1" "s1 \<le> length buf" using peek_bounds(1,2) [OF p] 1(2) by auto
  show ?case
  proof (cases "b \<and> tk = 97")
    case False
    then show ?thesis using 1(3) s1 p g h by (subst (1 2) redirs_loop.simps) auto
  next
    case True
    have s2: "s1 \<le> s2" "s2 \<le> length buf" using gettoken_bounds(1-4) [OF g] s1 by auto
    have s3: "s2 \<le> s3" "s3 \<le> length buf" "word_span buf q eq"
      using gettoken_bounds(1-5) [OF h] gettoken_word [OF h [unfolded conjunct2 [OF True]]] s2 True by auto
    let ?rs = "rs @ [if tok = 60 then (q, eq, 0, 0) else (q, eq, 0x201, 1)]"
    have e: "redirs_loop buf rs s = redirs_loop buf ?rs s3" using True p g h by (subst redirs_loop.simps) simp
    have "\<forall>r \<in> set ?rs. redir_ok buf r" using 1(3) s3 by (auto simp: redir_ok_def)
    with 1(1) p g h True s3 have "redirs_loop buf ?rs s3 \<noteq> PFuel \<and>
      (\<forall>rs' s'. redirs_loop buf ?rs s3 = POk rs' s' \<longrightarrow> s3 \<le> s' \<and> s' \<le> length buf \<and> (\<forall>r \<in> set rs'. redir_ok buf r))"
      by auto
    then show ?thesis unfolding e using s1 s2 s3 by auto
  qed
qed

lemma args_loop_ok:
  "s \<le> length buf \<Longrightarrow> \<forall>r \<in> set rs. redir_ok buf r \<Longrightarrow> cmd_ok buf (EXEC args) \<Longrightarrow>
    args_loop buf args rs s \<noteq> PFuel \<and>
    (\<forall>c s'. args_loop buf args rs s = POk c s' \<longrightarrow> s \<le> s' \<and> s' \<le> length buf \<and> cmd_ok buf c)"
proof (induction buf args rs s rule: args_loop.induct)
  case (1 buf args rs s)
  obtain s1 b where p: "peek buf s [124, 41, 38, 59] = (s1, b)" by fastforce
  obtain tok q eq s2 where g: "gettoken buf s1 = (tok, q, eq, s2)" by (metis prod_cases4)
  have s1: "s \<le> s1" "s1 \<le> length buf" using peek_bounds(1,2) [OF p] 1(2) by auto
  have s2: "s1 \<le> s2" "s2 \<le> length buf" using gettoken_bounds(1-4) [OF g] s1 by auto
  have wr: "cmd_ok buf (foldl wrap (EXEC args) rs)" by (rule wrap_ok [OF 1(4,3)])
  let ?args = "args @ [(q, eq)]"
  show ?case
  proof (cases "\<not> b \<and> tok = 97 \<and> length ?args < 10")
    case False
    let ?c = "foldl wrap (EXEC args) rs"
    have "args_loop buf args rs s \<in> {POk ?c s1, POk ?c s2, PPanic ''syntax'', PPanic ''too many args''}"
      using False p g by (subst args_loop.simps) (simp add: Let_def, linarith)
    then show ?thesis using wr s1 s2 by auto
  next
    case True
    have "word_span buf q eq" using gettoken_word [of buf s1 q eq s2] g s1 True by simp
    then have ok: "cmd_ok buf (EXEC ?args)" using True 1(4) by auto
    note R = redirs_loop_ok [OF s2(2) 1(3)]
    have e: "args_loop buf args rs s = bindP (redirs_loop buf rs s2) (\<lambda>rs s. args_loop buf ?args rs s)"
      using True p g by (subst args_loop.simps) (simp add: Let_def)
    have IH: "args_loop buf ?args rs' s3 \<noteq> PFuel \<and>
      (\<forall>c s'. args_loop buf ?args rs' s3 = POk c s' \<longrightarrow> s3 \<le> s' \<and> s' \<le> length buf \<and> cmd_ok buf c)"
      if red: "redirs_loop buf rs s2 = POk rs' s3" for rs' s3
    proof (rule 1(1) [OF p [symmetric] _ g [symmetric] refl refl _ _ refl _ red])
      show "s3 \<le> length buf" "\<forall>r \<in> set rs'. redir_ok buf r" using R red by blast+
    qed (use True ok in simp_all)
    show ?thesis unfolding e
    proof (cases "redirs_loop buf rs s2")
      case (POk rs' s3)
      then show "bindP (redirs_loop buf rs s2) (args_loop buf ?args) \<noteq> PFuel \<and>
        (\<forall>c s'. bindP (redirs_loop buf rs s2) (args_loop buf ?args) = POk c s' \<longrightarrow>
          s \<le> s' \<and> s' \<le> length buf \<and> cmd_ok buf c)"
        using IH [OF POk] R s1 s2 by auto
    qed (use R in auto)
  qed
qed

definition res_ok :: "str \<Rightarrow> nat \<Rightarrow> cmd pres \<Rightarrow> bool" where
  "res_ok buf s r \<longleftrightarrow> (\<forall>c s'. r = POk c s' \<longrightarrow> s \<le> s' \<and> s' \<le> length buf \<and> cmd_ok buf c)"

lemma res_ok_bind:
  assumes "res_ok buf s m"
    and "\<And>c s1. m = POk c s1 \<Longrightarrow> s \<le> s1 \<Longrightarrow> s1 \<le> length buf \<Longrightarrow> cmd_ok buf c \<Longrightarrow> res_ok buf s1 (f c s1)"
  shows "res_ok buf s (bindP m f)"
  unfolding res_ok_def
proof (intro allI impI)
  fix d s2 assume "bindP m f = POk d s2"
  then obtain c s1 where c: "m = POk c s1" "f c s1 = POk d s2" by (auto simp: bindP_POk)
  with assms(1) have "s \<le> s1" "s1 \<le> length buf" "cmd_ok buf c" by (auto simp: res_ok_def)
  with assms(2) [OF c(1)] c(2) show "s \<le> s2 \<and> s2 \<le> length buf \<and> cmd_ok buf d"
    by (fastforce simp: res_ok_def)
qed

lemma res_ok_mono: "res_ok buf s r \<Longrightarrow> t \<le> s \<Longrightarrow> res_ok buf t r"
  by (fastforce simp: res_ok_def)

lemma res_ok_map: "res_ok buf s m \<Longrightarrow> (\<And>c. cmd_ok buf c \<Longrightarrow> cmd_ok buf (f c)) \<Longrightarrow>
    res_ok buf s (bindP m (\<lambda>c s. POk (f c) s))"
  by (auto simp: res_ok_def bindP_POk)

lemma back_loop_ok:
  "back_loop buf c s = (c', s') \<Longrightarrow> s \<le> length buf \<Longrightarrow> cmd_ok buf c \<Longrightarrow>
    s \<le> s' \<and> s' \<le> length buf \<and> cmd_ok buf c'"
proof (induction buf c s rule: back_loop.induct)
  case (1 buf c s)
  obtain s1 b where p: "peek buf s [38] = (s1, b)" by fastforce
  show ?case
  proof (cases b)
    case False
    with 1(2-) p peek_bounds(1,2) [OF p] show ?thesis by (subst (asm) back_loop.simps) auto
  next
    case True
    obtain tok q eq s2 where g: "gettoken buf s1 = (tok, q, eq, s2)" by (metis prod_cases4)
    have s2: "s < s2" "s2 \<le> length buf" using peek_token [OF p [unfolded True [THEN eqTrueI]] g] by auto
    have "back_loop buf (BACK c) s2 = (c', s')" using 1(2) p g True by (subst (asm) back_loop.simps) simp
    from 1(1) [OF p [symmetric] True g [symmetric] refl refl this s2(2)] 1(4) s2 show ?thesis by simp
  qed
qed

lemma skip_token_bounds:
  assumes "peek buf s toks = (s1, True)"
  shows "s1 < length buf" "s < skip_token buf s1" "skip_token buf s1 \<le> length buf" "s1 < skip_token buf s1"
proof -
  obtain tok q eq s2 where g: "gettoken buf s1 = (tok, q, eq, s2)" by (metis prod_cases4)
  have i: "peek buf s1 toks = (s1, True)" using assms by (auto simp: peek_def Let_def)
  from peek_token [OF assms g] peek_token [OF i g] g
  show "s1 < length buf" "s < skip_token buf s1" "skip_token buf s1 \<le> length buf" "s1 < skip_token buf s1"
    by (simp_all add: skip_token_def)
qed

lemma parseredirs_ok:
  assumes "s \<le> length buf" "cmd_ok buf c"
  shows "res_ok buf s (parseredirs c buf s) \<and> parseredirs c buf s \<noteq> PFuel"
proof (cases "redirs_loop buf [] s")
  case (POk rs s1)
  with redirs_loop_ok [OF assms(1), of "[]"] wrap_ok [OF assms(2), of rs] show ?thesis
    by (simp add: parseredirs_def res_ok_def)
qed (use redirs_loop_ok [OF assms(1), of "[]"] in \<open>simp_all add: parseredirs_def res_ok_def\<close>)

lemma exec_body_ok:
  assumes "s \<le> length buf"
  shows "res_ok buf s (bindP (redirs_loop buf [] s) (args_loop buf []))"
    and "bindP (redirs_loop buf [] s) (args_loop buf []) \<noteq> PFuel"
proof -
  note R = redirs_loop_ok [OF assms, of "[]", simplified]
  have A: "args_loop buf [] rs s1 \<noteq> PFuel \<and> res_ok buf s1 (args_loop buf [] rs s1)"
    if "redirs_loop buf [] s = POk rs s1" for rs s1
    using args_loop_ok [of s1 buf rs "[]"] R that by (auto simp: res_ok_def)
  show "res_ok buf s (bindP (redirs_loop buf [] s) (args_loop buf []))"
    unfolding res_ok_def
  proof (intro allI impI)
    fix c s' assume "bindP (redirs_loop buf [] s) (args_loop buf []) = POk c s'"
    then obtain rs s1 where "redirs_loop buf [] s = POk rs s1" "args_loop buf [] rs s1 = POk c s'"
      by (auto simp: bindP_POk)
    with A R show "s \<le> s' \<and> s' \<le> length buf \<and> cmd_ok buf c" by (fastforce simp: res_ok_def)
  qed
  show "bindP (redirs_loop buf [] s) (args_loop buf []) \<noteq> PFuel" using A R by (auto simp: bindP_PFuel)
qed

lemma parse_ok:
  "s \<le> length buf \<Longrightarrow> res_ok buf s (parseline n buf s)"
  "s \<le> length buf \<Longrightarrow> res_ok buf s (parsepipe n buf s)"
  "s \<le> length buf \<Longrightarrow> res_ok buf s (parseexec n buf s)"
  "s \<le> length buf \<Longrightarrow> res_ok buf s (parseblock n buf s)"
proof (induction n arbitrary: s)
  case (Suc n)
  {
    case 1
    show ?case unfolding parseline.simps
    proof (rule res_ok_bind [OF Suc(2) [OF 1]])
      fix c s1 assume c: "s1 \<le> length buf" "cmd_ok buf c"
      obtain c2 s2 where b: "back_loop buf c s1 = (c2, s2)" by fastforce
      note B = back_loop_ok [OF b c]
      obtain s3 k where p: "peek buf s2 [59] = (s3, k)" by fastforce
      have "res_ok buf s1 (bindP (parseline n buf (skip_token buf s3)) (\<lambda>d s. POk (LIST c2 d) s))" if k
        using skip_token_bounds [OF p [unfolded that [THEN eqTrueI]]] B
        by (intro res_ok_map res_ok_mono [OF Suc(1)]) auto
      moreover have "res_ok buf s1 (POk c2 s3)" using peek_bounds(1,2) [OF p] B by (auto simp: res_ok_def)
      ultimately show "res_ok buf s1 (case back_loop buf c s1 of (c, s) \<Rightarrow> case peek buf s [59] of (s, b) \<Rightarrow>
        if b then bindP (parseline n buf (skip_token buf s)) (\<lambda>d s. POk (LIST c d) s) else POk c s)"
        using b p by simp
    qed
  next
    case 2
    show ?case unfolding parsepipe.simps
    proof (rule res_ok_bind [OF Suc(3) [OF 2]])
      fix c s1 assume c: "s1 \<le> length buf" "cmd_ok buf c"
      obtain s3 k where p: "peek buf s1 [124] = (s3, k)" by fastforce
      have "res_ok buf s1 (bindP (parsepipe n buf (skip_token buf s3)) (\<lambda>d s. POk (PIPE c d) s))" if k
        using skip_token_bounds [OF p [unfolded that [THEN eqTrueI]]] c
        by (intro res_ok_map res_ok_mono [OF Suc(2)]) auto
      moreover have "res_ok buf s1 (POk c s3)" using peek_bounds(1,2) [OF p] c by (auto simp: res_ok_def)
      ultimately show "res_ok buf s1 (case peek buf s1 [124] of (s, b) \<Rightarrow>
        if b then bindP (parsepipe n buf (skip_token buf s)) (\<lambda>d s. POk (PIPE c d) s) else POk c s)"
        using p by simp
    qed
  next
    case 3
    obtain s1 k where p: "peek buf s [40] = (s1, k)" by fastforce
    with peek_bounds(1,2) [OF p] 3 Suc(4) [of s1] exec_body_ok(1) [of s1] show ?case by (auto intro: res_ok_mono)
  next
    case 4
    obtain s1 k where p: "peek buf s [40] = (s1, k)" by fastforce
    show ?case
    proof (cases k)
      case True
      note S = skip_token_bounds [OF p [unfolded True [THEN eqTrueI]]]
      have "res_ok buf (skip_token buf s1) (bindP (parseline n buf (skip_token buf s1)) (\<lambda>c s.
          case peek buf s [41] of (s, b) \<Rightarrow>
            if \<not> b then PPanic ''syntax - missing )'' else parseredirs c buf (skip_token buf s)))"
      proof (rule res_ok_bind [OF Suc(1) [OF S(3)]])
        fix c s2 assume c: "s2 \<le> length buf" "cmd_ok buf c"
        obtain s3 b where q: "peek buf s2 [41] = (s3, b)" by fastforce
        have "res_ok buf s2 (parseredirs c buf (skip_token buf s3))" if b
          using skip_token_bounds [OF q [unfolded that [THEN eqTrueI]]] c
          by (intro res_ok_mono [OF conjunct1 [OF parseredirs_ok]]) auto
        then show "res_ok buf s2 (case peek buf s2 [41] of (s, b) \<Rightarrow>
            if \<not> b then PPanic ''syntax - missing )'' else parseredirs c buf (skip_token buf s))"
          using q by (auto simp: res_ok_def)
      qed
      from res_ok_mono [OF this, of s] S p True show ?thesis by simp
    qed (use p in \<open>simp add: res_ok_def\<close>)
  }
qed (simp_all add: res_ok_def)

lemma parse_fuel:
  "s \<le> length buf \<Longrightarrow> 4 * (length buf - s) + 4 \<le> n \<Longrightarrow> parseline n buf s \<noteq> PFuel"
  "s \<le> length buf \<Longrightarrow> 4 * (length buf - s) + 3 \<le> n \<Longrightarrow> parsepipe n buf s \<noteq> PFuel"
  "s \<le> length buf \<Longrightarrow> 4 * (length buf - s) + 2 \<le> n \<Longrightarrow> parseexec n buf s \<noteq> PFuel"
  "s \<le> length buf \<Longrightarrow> 4 * (length buf - s) + 1 \<le> n \<Longrightarrow> parseblock n buf s \<noteq> PFuel"
proof (induction n arbitrary: s)
  case (Suc n)
  {
    case 1
    have nf: "parsepipe n buf s \<noteq> PFuel" using Suc(2) [OF 1(1)] 1(2) by simp
    show ?case
    proof
      assume "parseline (Suc n) buf s = PFuel"
      moreover obtain c s1 where p: "parsepipe n buf s = POk c s1"
        using nf calculation by (cases "parsepipe n buf s") auto
      moreover obtain c2 s2 where b: "back_loop buf c s1 = (c2, s2)" by fastforce
      moreover obtain s3 k where q: "peek buf s2 [59] = (s3, k)" by fastforce
      ultimately have k: "peek buf s2 [59] = (s3, True)" and f: "parseline n buf (skip_token buf s3) = PFuel"
        by (auto simp: bindP_PFuel split: if_splits)
      have "s \<le> s1" "s1 \<le> length buf" "cmd_ok buf c" using parse_ok(2) [OF 1(1), of n] p by (auto simp: res_ok_def)
      with back_loop_ok [OF b] have "s \<le> s2" by simp
      with skip_token_bounds [OF k] 1 have "4 * (length buf - skip_token buf s3) + 4 \<le> n" by arith
      with Suc(1) [OF skip_token_bounds(3) [OF k]] f show False by simp
    qed
  next
    case 2
    have nf: "parseexec n buf s \<noteq> PFuel" using Suc(3) [OF 2(1)] 2(2) by simp
    show ?case
    proof
      assume "parsepipe (Suc n) buf s = PFuel"
      moreover obtain c s1 where p: "parseexec n buf s = POk c s1"
        using nf calculation by (cases "parseexec n buf s") auto
      moreover obtain s3 k where q: "peek buf s1 [124] = (s3, k)" by fastforce
      ultimately have k: "peek buf s1 [124] = (s3, True)" and f: "parsepipe n buf (skip_token buf s3) = PFuel"
        by (auto simp: bindP_PFuel split: if_splits)
      have "s \<le> s1" "s1 \<le> length buf" using parse_ok(3) [OF 2(1), of n] p by (auto simp: res_ok_def)
      with skip_token_bounds [OF k] 2 have "4 * (length buf - skip_token buf s3) + 3 \<le> n" by arith
      with Suc(2) [OF skip_token_bounds(3) [OF k]] f show False by simp
    qed
  next
    case 3
    obtain s1 k where p: "peek buf s [40] = (s1, k)" by fastforce
    have s1: "s1 \<le> length buf" "4 * (length buf - s1) + 1 \<le> n" using peek_bounds(1,2) [OF p] 3 by auto
    with Suc(4) [OF s1] exec_body_ok(2) [OF s1(1)] p show ?case by simp
  next
    case 4
    show ?case
    proof
      assume e: "parseblock (Suc n) buf s = PFuel"
      obtain s1 k where "peek buf s [40] = (s1, k)" by fastforce
      then have p: "peek buf s [40] = (s1, True)" using e by (auto split: if_splits)
      note S = skip_token_bounds [OF p]
      have "4 * (length buf - skip_token buf s1) + 4 \<le> n" using S 4 by arith
      with Suc(1) [OF S(3)] have "parseline n buf (skip_token buf s1) \<noteq> PFuel" by simp
      then obtain c s2 where l: "parseline n buf (skip_token buf s1) = POk c s2"
        using e p by (cases "parseline n buf (skip_token buf s1)") auto
      obtain s3 b where "peek buf s2 [41] = (s3, b)" by fastforce
      then have c: "parseline n buf (skip_token buf s1) = POk c s2" "peek buf s2 [41] = (s3, True)"
        "parseredirs c buf (skip_token buf s3) = PFuel" using e p l by (auto split: if_splits)
      then have "cmd_ok buf c" using parse_ok(1) [OF S(3), of n] by (auto simp: res_ok_def)
      with parseredirs_ok [OF skip_token_bounds(3) [OF c(2)]] c(3) show False by simp
    qed
  }
qed simp_all

section \<open>The terminated strings\<close>

fun spans :: "cmd \<Rightarrow> (nat \<times> nat) list" where
  "spans (EXEC args) = args"
| "spans (REDIR c q eq mode fd) = spans c @ [(q, eq)]"
| "spans (PIPE c d) = spans c @ spans d"
| "spans (LIST c d) = spans c @ spans d"
| "spans (BACK c) = spans c"

definition cut :: "str \<Rightarrow> nat \<times> nat \<Rightarrow> str" where
  "cut buf p = (case p of (q, eq) \<Rightarrow> take (eq - q) (drop q buf))"

lemma nulterminate_fold: "nulterminate c m = fold (\<lambda>(q, eq) m. m[eq := 0]) (spans c) m"
  by (induction c arbitrary: m) simp_all

lemma fold_update_nth:
  "length (fold (\<lambda>(q, eq) m. m[eq := 0]) ps m) = length m \<and>
   (i < length m \<longrightarrow> fold (\<lambda>(q, eq) m. m[eq := 0]) ps m ! i = (if i \<in> snd ` set ps then 0 else m ! i))"
proof (induction ps arbitrary: m)
  case (Cons p ps)
  obtain q eq where "p = (q, eq)" by fastforce
  with Cons [of "m[eq := 0]"] show ?case by (simp add: nth_list_update)
qed simp

lemma cmd_ok_spans: "cmd_ok buf c \<Longrightarrow> (q, eq) \<in> set (spans c) \<Longrightarrow> word_span buf q eq"
  by (induction c) (auto simp: list_all_iff)

lemma word_span_nth: "word_span buf q eq \<Longrightarrow> q \<le> i \<Longrightarrow> i < eq \<Longrightarrow> word_char (buf ! i)"
proof -
  assume a: "word_span buf q eq" "q \<le> i" "i < eq"
  moreover from a have "i - q < length (take (eq - q) (drop q buf))" by (auto simp: word_span_def)
  ultimately have "word_char (take (eq - q) (drop q buf) ! (i - q))" unfolding word_span_def list_all_length by blast
  with a show ?thesis by (simp add: word_span_def)
qed

lemma str_at_span:
  assumes ok: "cmd_ok buf c" and z: "0 \<notin> set buf" and p: "(q, eq) \<in> set (spans c)"
  shows "str_at (nulterminate c (buf @ [0])) q = cut buf (q, eq)"
proof -
  let ?m = "nulterminate c (buf @ [0])"
  have w: "word_span buf q eq" by (rule cmd_ok_spans [OF ok p])
  then have b: "q < eq" "eq \<le> length buf" by (auto simp: word_span_def)
  have len: "length ?m = length buf + 1" by (simp add: nulterminate_fold fold_update_nth)
  have nth: "?m ! i = (if i \<in> snd ` set (spans c) then 0 else (buf @ [0]) ! i)" if "i < length buf + 1" for i
    using fold_update_nth [of "spans c" "buf @ [0]" i] that by (simp add: nulterminate_fold)
  have keep: "?m ! i = buf ! i \<and> buf ! i \<noteq> 0" if i: "q \<le> i" "i < eq" for i
  proof -
    have "i \<notin> snd ` set (spans c)"
    proof
      assume "i \<in> snd ` set (spans c)"
      then obtain q' where "(q', i) \<in> set (spans c)" by auto
      from cmd_ok_spans [OF ok this] word_span_nth [OF w i] b i show False by (auto simp: word_span_def)
    qed
    moreover have "buf ! i \<noteq> 0" using z b i nth_mem [of i buf] by fastforce
    ultimately show ?thesis using nth [of i] b i by (auto simp: nth_append)
  qed
  have "?m ! eq = 0" using nth [of eq] b p by (auto simp: image_iff)
  then have "takeWhile (\<lambda>c. c \<noteq> 0) (drop q ?m) = take (eq - q) (drop q ?m)"
    using b len keep by (intro takeWhile_eq_take_P_nth) auto
  also have "\<dots> = take (eq - q) (drop q buf)"
    using b len keep by (intro nth_equalityI) auto
  finally show ?thesis by (simp add: str_at_def cut_def)
qed

section \<open>Printing and parsing\<close>

text \<open>A command with its strings, the reading of a parsed command, and how it is written.\<close>

datatype scmd =
    SExec "str list"
  | SRedir scmd str uint nat
  | SPipe scmd scmd
  | SList scmd scmd
  | SBack scmd

fun reading :: "(nat \<times> nat \<Rightarrow> str) \<Rightarrow> cmd \<Rightarrow> scmd" where
  "reading f (EXEC args) = SExec (map f args)"
| "reading f (REDIR c q eq mode fd) = SRedir (reading f c) (f (q, eq)) mode fd"
| "reading f (PIPE c d) = SPipe (reading f c) (reading f d)"
| "reading f (LIST c d) = SList (reading f c) (reading f d)"
| "reading f (BACK c) = SBack (reading f c)"

lemma reading_cong: "(\<And>p. p \<in> set (spans c) \<Longrightarrow> f p = g p) \<Longrightarrow> reading f c = reading g c"
  by (induction c) auto

fun level :: "scmd \<Rightarrow> nat" where
  "level (SExec ws) = 0"
| "level (SRedir c w mode fd) = 0"
| "level (SPipe c d) = 1"
| "level (SBack c) = 2"
| "level (SList c d) = 3"

definition par :: "bool \<Rightarrow> str \<Rightarrow> str" where
  "par b t = (if b then 40 # t @ [41] else t)"

fun join :: "str list \<Rightarrow> str" where
  "join [] = []"
| "join [w] = w"
| "join (w # v # ws) = w @ 32 # join (v # ws)"

fun sh_print :: "scmd \<Rightarrow> str" where
  "sh_print (SExec ws) = join ws"
| "sh_print (SRedir c w mode fd) = par (0 < level c) (sh_print c) @ (if fd = 0 then 60 else 62) # w"
| "sh_print (SPipe c d) = par (0 < level c) (sh_print c) @ 124 # par (1 < level d) (sh_print d)"
| "sh_print (SBack c) = par (2 < level c) (sh_print c) @ [38]"
| "sh_print (SList c d) = par (2 < level c) (sh_print c) @ 59 # sh_print d"

definition sh_word :: "str \<Rightarrow> bool" where
  "sh_word w \<longleftrightarrow> w \<noteq> [] \<and> 0 \<notin> set w \<and> list_all word_char w"

fun scmd_ok :: "scmd \<Rightarrow> bool" where
  "scmd_ok (SExec ws) \<longleftrightarrow> length ws < 10 \<and> list_all sh_word ws"
| "scmd_ok (SRedir c w mode fd) \<longleftrightarrow> scmd_ok c \<and> sh_word w \<and> (mode = 0 \<and> fd = 0 \<or> mode = 0x201 \<and> fd = 1)"
| "scmd_ok (SPipe c d) \<longleftrightarrow> scmd_ok c \<and> scmd_ok d"
| "scmd_ok (SBack c) \<longleftrightarrow> scmd_ok c"
| "scmd_ok (SList c d) \<longleftrightarrow> scmd_ok c \<and> scmd_ok d"

subsection \<open>Tokens at a position\<close>

definition hd0 :: "str \<Rightarrow> uchar" where
  "hd0 r = (case r of [] \<Rightarrow> 0 | x # _ \<Rightarrow> x)"

lemma hd0_simps [simp]: "hd0 [] = 0" "hd0 (x # r) = x"
  by (simp_all add: hd0_def)

lemma at_hd0: "at buf i = hd0 (drop i buf)"
proof (cases "i < length buf")
  case True
  then have "drop i buf = buf ! i # drop (Suc i) buf" by (simp add: Cons_nth_drop_Suc)
  with True show ?thesis by (simp add: at_def)
qed (simp add: at_def)

lemma skip_ws_here: "hd0 (drop i buf) \<notin> set whitespace \<Longrightarrow> skip_ws buf i = i"
  by (subst skip_ws.simps) (simp add: at_hd0)

lemma peek_here: "hd0 (drop i buf) \<notin> set whitespace \<Longrightarrow>
    peek buf i toks = (i, hd0 (drop i buf) \<noteq> 0 \<and> hd0 (drop i buf) \<in> set toks)"
  by (simp add: peek_def skip_ws_here at_hd0)

lemma drop_plus: "drop i buf = t @ r \<Longrightarrow> drop (i + length t) buf = r"
  by (metis add.commute append_eq_conv_conj drop_drop)

lemma drop_Suc_plus: "drop i buf = x # r \<Longrightarrow> drop (Suc i) buf = r"
  using drop_plus [of i buf "[x]" r] by simp

lemma skip_word_here:
  "drop i buf = w @ r \<Longrightarrow> list_all word_char w \<Longrightarrow> r = [] \<or> \<not> word_char (hd r) \<Longrightarrow> skip_word buf i = i + length w"
proof (induction w arbitrary: i)
  case Nil
  then show ?case by (subst skip_word.simps) (cases r; force simp: at_hd0 word_char_def)
next
  case (Cons x w)
  have "i < length buf" using Cons(2) by (metis append_Cons drop_all list.discI not_less)
  moreover have "drop (Suc i) buf = w @ r" using drop_Suc_plus [of i buf x "w @ r"] Cons(2) by simp
  ultimately show ?case using Cons by (subst skip_word.simps) (auto simp: at_hd0 word_char_def)
qed

lemma gettoken_word_here:
  assumes d: "drop i buf = w @ r" and w: "sh_word w" and r: "r = [] \<or> \<not> word_char (hd r)"
  shows "gettoken buf i = (97, i, i + length w, skip_ws buf (i + length w))"
proof -
  obtain x w' where x: "w = x # w'" using w by (cases w) (auto simp: sh_word_def)
  then have "word_char x" "x \<noteq> 0" using w by (auto simp: sh_word_def)
  then have "x \<notin> set whitespace" "x \<notin> set symbols" by (auto simp: word_char_def)
  moreover have "skip_word buf i = i + length w" by (rule skip_word_here [OF d _ r]) (use w in \<open>simp add: sh_word_def\<close>)
  ultimately show ?thesis using d x \<open>x \<noteq> 0\<close>
    by (simp add: gettoken_def Let_def at_hd0 skip_ws_here symbols_def)
qed

lemma gettoken_sym_here:
  assumes d: "drop i buf = x # r" and x: "x \<in> set symbols" and r: "x = 62 \<longrightarrow> hd0 r \<noteq> 62"
  shows "gettoken buf i = (x, i, Suc i, skip_ws buf (Suc i))"
proof -
  have "x \<notin> set whitespace" "x \<noteq> 0" using x by (auto simp: symbols_def whitespace_def)
  then show ?thesis using d x r drop_Suc_plus [OF d]
    by (auto simp: gettoken_def Let_def at_hd0 skip_ws_here symbols_def)
qed

text \<open>\<open>foll xs r\<close>: the rest of the line is empty or begins with one of the symbols \<open>xs\<close>.\<close>

definition foll :: "str \<Rightarrow> str \<Rightarrow> bool" where
  "foll xs r \<longleftrightarrow> set xs \<subseteq> set symbols \<and> (r = [] \<or> hd r \<in> set xs)"

lemma symbols_no_ws: "x \<in> set symbols \<Longrightarrow> x \<notin> set whitespace \<and> x \<noteq> 0"
  by (auto simp: symbols_def whitespace_def)

lemma follD:
  assumes "foll xs r"
  shows "hd0 r \<notin> set whitespace" "r = [] \<or> \<not> word_char (hd r)" "hd0 r = 0 \<or> hd0 r \<in> set xs"
  using assms symbols_no_ws [of "hd r"]
  by (cases r; auto simp: foll_def word_char_def whitespace_def)+

lemma foll_mono: "foll xs r \<Longrightarrow> set xs \<subseteq> set ys \<Longrightarrow> set ys \<subseteq> set symbols \<Longrightarrow> foll ys r"
  by (auto simp: foll_def)

lemma sh_word_hd: "sh_word w \<Longrightarrow> hd0 (w @ r) \<notin> set whitespace \<and> hd0 (w @ r) \<notin> set symbols \<and> hd0 (w @ r) \<noteq> 0"
  by (cases w) (auto simp: sh_word_def word_char_def)

lemma redirs_stop: "hd0 (drop j buf) \<notin> set whitespace \<Longrightarrow> hd0 (drop j buf) \<notin> {60, 62} \<Longrightarrow> redirs_loop buf rs j = POk rs j"
  by (subst redirs_loop.simps) (simp add: peek_here)

lemma redirs_step:
  assumes d: "drop j buf = x # w @ r" and w: "sh_word w" and r: "foll xs r"
    and x: "x = 60 \<and> m = 0 \<and> fd = 0 \<or> x = 62 \<and> m = 0x201 \<and> fd = 1"
  shows "redirs_loop buf rs j =
    redirs_loop buf (rs @ [(j + 1, j + 1 + length w, m, fd)]) (j + 1 + length w)"
proof -
  have sy: "x \<in> set symbols" using x by (auto simp: symbols_def)
  have d1: "drop (Suc j) buf = w @ r" by (rule drop_Suc_plus [OF d])
  have d2: "drop (Suc j + length w) buf = r" by (rule drop_plus [OF d1])
  have w1: "skip_ws buf (Suc j) = Suc j" by (rule skip_ws_here) (use d1 sh_word_hd [OF w] in simp)
  have w2: "skip_ws buf (Suc j + length w) = Suc j + length w" by (rule skip_ws_here) (use d2 follD(1) [OF r] in simp)
  have g: "gettoken buf j = (x, j, Suc j, Suc j)"
    using gettoken_sym_here [OF d sy] sh_word_hd [OF w, of r] w1 by (auto simp: symbols_def)
  have h: "gettoken buf (Suc j) = (97, Suc j, Suc j + length w, Suc j + length w)"
    using gettoken_word_here [OF d1 w follD(2) [OF r]] w2 by simp
  have p: "peek buf j [60, 62] = (j, True)" using peek_here [of j buf "[60, 62]"] d symbols_no_ws [OF sy] x by auto
  show ?thesis by (subst redirs_loop.simps) (use p g h x in auto)
qed

lemma args_stop:
  assumes "foll [124, 41, 38, 59] (drop s buf)"
  shows "args_loop buf args rs s = POk (foldl wrap (EXEC args) rs) s"
proof -
  have ws: "hd0 (drop s buf) \<notin> set whitespace" by (rule follD(1) [OF assms])
  then show ?thesis using follD(3) [OF assms]
    by (subst args_loop.simps) (auto simp: peek_here gettoken_def Let_def skip_ws_here at_hd0)
qed

lemma args_word:
  assumes d: "drop i buf = w @ r" and w: "sh_word w" and r: "r = [] \<or> \<not> word_char (hd r)" and n: "length args < 9"
  shows "args_loop buf args rs i =
    bindP (redirs_loop buf rs (skip_ws buf (i + length w))) (args_loop buf (args @ [(i, i + length w)]))"
proof -
  have h: "hd0 (drop i buf) \<notin> set whitespace \<and> hd0 (drop i buf) \<notin> set symbols" using sh_word_hd [OF w] d by simp
  then have "peek buf i [124, 41, 38, 59] = (i, False)" by (auto simp: peek_here symbols_def)
  then show ?thesis using gettoken_word_here [OF d w r] n by (subst args_loop.simps) simp
qed

lemma join_hd: "ws \<noteq> [] \<Longrightarrow> list_all sh_word ws \<Longrightarrow> \<exists>w r. join ws = w @ r \<and> sh_word w"
  by (cases ws rule: join.cases) auto

lemma args_words:
  "ws \<noteq> [] \<Longrightarrow> drop i buf = join ws @ r \<Longrightarrow> foll xs r \<Longrightarrow> list_all sh_word ws \<Longrightarrow> length args + length ws < 10 \<Longrightarrow>
    \<exists>sp. args_loop buf args rs i =
        bindP (redirs_loop buf rs (i + length (join ws))) (args_loop buf (args @ sp)) \<and> map (cut buf) sp = ws"
proof (induction ws arbitrary: i args rule: join.induct)
  case (2 w)
  have "skip_ws buf (i + length w) = i + length w"
    by (rule skip_ws_here) (use drop_plus [of i buf w r] 2(2) follD(1) [OF 2(3)] in simp)
  then show ?case using args_word [of i buf w r args rs] 2 follD(2) [OF 2(3)]
    by (intro exI [of _ "[(i, i + length w)]"]) (simp add: cut_def)
next
  case (3 w v ws)
  let ?j = "i + length w + 1"
  have w: "sh_word w" and d: "drop i buf = w @ 32 # join (v # ws) @ r" using 3 by auto
  have d1: "drop (i + length w) buf = 32 # join (v # ws) @ r" using drop_plus [OF d] .
  have d2: "drop ?j buf = join (v # ws) @ r" using drop_Suc_plus [OF d1] by simp
  have h: "hd0 (drop ?j buf) \<notin> set whitespace \<and> hd0 (drop ?j buf) \<notin> set symbols"
    using join_hd [of "v # ws"] 3(5) d2 sh_word_hd by (auto simp del: join.simps)
  have "i + length w < length buf" using d1 by (metis drop_all list.discI not_less)
  then have "skip_ws buf (i + length w) = skip_ws buf ?j"
    using d1 by (subst skip_ws.simps) (simp add: at_hd0 whitespace_def)
  also have "\<dots> = ?j" by (rule skip_ws_here) (use h in simp)
  finally have sk: "skip_ws buf (i + length w) = ?j" .
  have "redirs_loop buf rs ?j = POk rs ?j" by (rule redirs_stop) (use h in \<open>auto simp: symbols_def\<close>)
  then have e: "args_loop buf args rs i = args_loop buf (args @ [(i, i + length w)]) rs ?j"
    using args_word [OF d w, of args rs] sk 3(6) by (simp add: word_char_def whitespace_def)
  obtain sp where sp: "args_loop buf (args @ [(i, i + length w)]) rs ?j =
      bindP (redirs_loop buf rs (?j + length (join (v # ws)))) (args_loop buf ((args @ [(i, i + length w)]) @ sp))"
      "map (cut buf) sp = v # ws"
    using 3(1) [OF _ d2 3(4), of "args @ [(i, i + length w)]"] 3(5,6) by auto
  have "cut buf (i, i + length w) = w" using d by (simp add: cut_def)
  with sp show ?case unfolding e by (intro exI [of _ "(i, i + length w) # sp"]) (simp add: add.assoc)
qed simp

subsection \<open>The round trip\<close>

text \<open>
  Four statements about a command, one for each level of the grammar: reading what was printed, at
  any place of a line, gives the command back and stops where the text ends.  The first one keeps the
  state of the loop over redirections, to which another redirection may be added.
\<close>

definition exec_rt :: "str \<Rightarrow> scmd \<Rightarrow> bool" where
  "exec_rt buf c \<longleftrightarrow> (\<forall>i n t r. t = par (0 < level c) (sh_print c) \<longrightarrow> drop i buf = t @ r \<longrightarrow>
     foll symbols r \<longrightarrow> hd0 r \<noteq> 40 \<longrightarrow> i \<le> length buf \<longrightarrow> 4 * (length buf - i) + 2 \<le> n \<longrightarrow>
     (\<exists>K rs c0. parseexec n buf i = bindP (redirs_loop buf rs (i + length t)) K \<and>
        reading (cut buf) (foldl wrap c0 rs) = c \<and>
        (\<forall>rs s. foll [124, 41, 38, 59] (drop s buf) \<longrightarrow> K rs s = POk (foldl wrap c0 rs) s)))"

definition pipe_rt :: "str \<Rightarrow> scmd \<Rightarrow> bool" where
  "pipe_rt buf c \<longleftrightarrow> (\<forall>i n t r. t = par (1 < level c) (sh_print c) \<longrightarrow> drop i buf = t @ r \<longrightarrow>
     foll [41, 38, 59] r \<longrightarrow> i \<le> length buf \<longrightarrow> 4 * (length buf - i) + 3 \<le> n \<longrightarrow>
     (\<exists>d. parsepipe n buf i = POk d (i + length t) \<and> reading (cut buf) d = c))"

definition back_rt :: "str \<Rightarrow> scmd \<Rightarrow> bool" where
  "back_rt buf c \<longleftrightarrow> (\<forall>i n t r. t = par (2 < level c) (sh_print c) \<longrightarrow> drop i buf = t @ r \<longrightarrow>
     foll [41, 38, 59] r \<longrightarrow> i \<le> length buf \<longrightarrow> 4 * (length buf - i) + 3 \<le> n \<longrightarrow>
     (\<exists>d0 s0 d. parsepipe n buf i = POk d0 s0 \<and> back_loop buf d0 s0 = back_loop buf d (i + length t) \<and>
        reading (cut buf) d = c))"

definition line_rt :: "str \<Rightarrow> scmd \<Rightarrow> bool" where
  "line_rt buf c \<longleftrightarrow> (\<forall>i n r. drop i buf = sh_print c @ r \<longrightarrow>
     foll [41] r \<longrightarrow> i \<le> length buf \<longrightarrow> 4 * (length buf - i) + 4 \<le> n \<longrightarrow>
     (\<exists>d. parseline n buf i = POk d (i + length (sh_print c)) \<and> reading (cut buf) d = c))"

lemma exec_rt_done:
  assumes x: "exec_rt buf c" and t: "t = par (0 < level c) (sh_print c)" and d: "drop i buf = t @ r"
    and r: "foll [124, 41, 38, 59] r" and i: "i \<le> length buf" and n: "4 * (length buf - i) + 2 \<le> n"
  shows "\<exists>d. parseexec n buf i = POk d (i + length t) \<and> reading (cut buf) d = c"
proof -
  have h: "hd0 r \<notin> {40, 60, 62}" using follD(3) [OF r] by auto
  have "foll symbols r" by (rule foll_mono [OF r]) (auto simp: symbols_def)
  with x t d h i n obtain K rs c0 where K: "parseexec n buf i = bindP (redirs_loop buf rs (i + length t)) K"
    "reading (cut buf) (foldl wrap c0 rs) = c"
    "\<forall>rs s. foll [124, 41, 38, 59] (drop s buf) \<longrightarrow> K rs s = POk (foldl wrap c0 rs) s"
    unfolding exec_rt_def by blast
  have r': "drop (i + length t) buf = r" by (rule drop_plus [OF d])
  have "redirs_loop buf rs (i + length t) = POk rs (i + length t)"
    by (rule redirs_stop) (use r' h follD(1) [OF r] in auto)
  with K r r' show ?thesis by auto
qed

lemma skip_token_sym:
  assumes d: "drop j buf = x # r" and x: "x \<in> set symbols" "x \<noteq> 62" and r: "hd0 r \<notin> set whitespace"
  shows "skip_token buf j = Suc j"
proof -
  have "skip_ws buf (Suc j) = Suc j" by (rule skip_ws_here) (use drop_Suc_plus [OF d] r in simp)
  with gettoken_sym_here [OF d x(1)] x(2) show ?thesis by (simp add: skip_token_def)
qed

lemma print_hd: "scmd_ok c \<Longrightarrow> hd0 r \<notin> set whitespace \<Longrightarrow> hd0 (sh_print c @ r) \<notin> set whitespace"
proof (induction c arbitrary: r)
  case (SExec ws)
  show ?case
  proof (cases "ws = []")
    case False
    with SExec(1) join_hd [of ws] obtain w q where "join ws = w @ q" "sh_word w" by auto
    with sh_word_hd [of w "q @ r"] show ?thesis by simp
  qed (use SExec in simp)
qed (auto simp: par_def whitespace_def)

lemma par_hd: "scmd_ok c \<Longrightarrow> hd0 r \<notin> set whitespace \<Longrightarrow> hd0 (par b (sh_print c) @ r) \<notin> set whitespace"
  using print_hd [of c r] by (auto simp: par_def whitespace_def)

lemma drop_length: "i \<le> length buf \<Longrightarrow> drop i buf = t @ r \<Longrightarrow> i + length t + length r = length buf"
  using length_drop [of i buf] by simp

lemma exec_rt_SExec:
  assumes ok: "scmd_ok (SExec ws)"
  shows "exec_rt buf (SExec ws)"
  unfolding exec_rt_def
proof (intro allI impI)
  fix i n t r
  assume t: "t = par (0 < level (SExec ws)) (sh_print (SExec ws))" and d: "drop i buf = t @ r"
    and r: "foll symbols r" "hd0 r \<noteq> 40" and n: "4 * (length buf - i) + 2 \<le> n"
  obtain m where m: "n = Suc m" using n by (cases n) auto
  have t: "t = join ws" using t by (simp add: par_def)
  have h: "hd0 (drop i buf) \<notin> set whitespace \<and> hd0 (drop i buf) \<noteq> 40 \<and> (ws = [] \<or> hd0 (drop i buf) \<notin> set symbols)"
  proof (cases "ws = []")
    case False
    with ok join_hd [of ws] obtain w q where "join ws = w @ q" "sh_word w" by auto
    with sh_word_hd [of w "q @ r"] d t show ?thesis by (auto simp: symbols_def)
  qed (use d t r follD(1) [OF r(1)] in simp)
  have e: "parseexec n buf i = bindP (redirs_loop buf [] i) (args_loop buf [])"
    using h by (simp add: m peek_here)
  have "\<exists>sp. parseexec n buf i = bindP (redirs_loop buf [] (i + length t)) (args_loop buf sp) \<and> map (cut buf) sp = ws"
  proof (cases "ws = []")
    case False
    have "redirs_loop buf [] i = POk [] i" by (rule redirs_stop) (use h False in \<open>auto simp: symbols_def\<close>)
    moreover obtain sp where "args_loop buf [] [] i =
        bindP (redirs_loop buf [] (i + length (join ws))) (args_loop buf ([] @ sp))" "map (cut buf) sp = ws"
      using args_words [OF False d [unfolded t] r(1), of "[]" "[]"] ok by auto
    ultimately show ?thesis using e t by auto
  qed (use e t in simp)
  then obtain sp where "parseexec n buf i = bindP (redirs_loop buf [] (i + length t)) (args_loop buf sp)" "map (cut buf) sp = ws"
    by auto
  then show "\<exists>K rs c0. parseexec n buf i = bindP (redirs_loop buf rs (i + length t)) K \<and>
      reading (cut buf) (foldl wrap c0 rs) = SExec ws \<and>
      (\<forall>rs s. foll [124, 41, 38, 59] (drop s buf) \<longrightarrow> K rs s = POk (foldl wrap c0 rs) s)"
    by (intro exI [of _ "args_loop buf sp"] exI [of _ "[]"] exI [of _ "EXEC sp"]) (simp add: args_stop)
qed

lemma exec_rt_SRedir:
  assumes x: "exec_rt buf c" and ok: "scmd_ok (SRedir c w m fd)"
  shows "exec_rt buf (SRedir c w m fd)"
  unfolding exec_rt_def
proof (intro allI impI)
  fix i n t r
  let ?y = "if fd = 0 then 60 else 62 :: uchar" and ?u = "par (0 < level c) (sh_print c)"
  assume t: "t = par (0 < level (SRedir c w m fd)) (sh_print (SRedir c w m fd))" and d: "drop i buf = t @ r"
    and r: "foll symbols r" "hd0 r \<noteq> 40" and i: "i \<le> length buf" and n: "4 * (length buf - i) + 2 \<le> n"
  have t: "t = ?u @ ?y # w" using t by (simp add: par_def)
  have w: "sh_word w" using ok by simp
  have du: "drop i buf = ?u @ ?y # w @ r" using d t by simp
  have "foll symbols (?y # w @ r)" "hd0 (?y # w @ r) \<noteq> 40" by (simp_all add: foll_def symbols_def)
  from x [unfolded exec_rt_def, rule_format, OF refl du this i n] obtain K rs c0 where K: "parseexec n buf i = bindP (redirs_loop buf rs (i + length ?u)) K"
    "reading (cut buf) (foldl wrap c0 rs) = c"
    "\<forall>rs s. foll [124, 41, 38, 59] (drop s buf) \<longrightarrow> K rs s = POk (foldl wrap c0 rs) s"
    by blast
  let ?j = "i + length ?u"
  have dj: "drop ?j buf = ?y # w @ r" by (rule drop_plus [OF du])
  let ?e = "(?j + 1, ?j + 1 + length w, m, fd)"
  have "redirs_loop buf rs ?j = redirs_loop buf (rs @ [?e]) (i + length t)"
    using redirs_step [OF dj w r(1), of m fd rs] ok t by (auto simp: add.assoc)
  moreover have "cut buf (?j + 1, ?j + 1 + length w) = w" using drop_Suc_plus [OF dj] by (simp add: cut_def)
  ultimately show "\<exists>K rs c0. parseexec n buf i = bindP (redirs_loop buf rs (i + length t)) K \<and>
      reading (cut buf) (foldl wrap c0 rs) = SRedir c w m fd \<and>
      (\<forall>rs s. foll [124, 41, 38, 59] (drop s buf) \<longrightarrow> K rs s = POk (foldl wrap c0 rs) s)"
    using K by (intro exI [of _ K] exI [of _ "rs @ [?e]"] exI [of _ c0]) (simp add: wrap_def)
qed

lemma exec_rt_block:
  assumes l: "line_rt buf c" and ok: "scmd_ok c" and lv: "0 < level c"
  shows "exec_rt buf c"
  unfolding exec_rt_def
proof (intro allI impI)
  fix i n t r
  assume t: "t = par (0 < level c) (sh_print c)" and d: "drop i buf = t @ r"
    and r: "foll symbols r" and i: "i \<le> length buf" and n: "4 * (length buf - i) + 2 \<le> n"
  let ?p = "sh_print c" and ?j = "Suc i + length (sh_print c)"
  have t: "t = 40 # ?p @ [41]" using t lv by (simp add: par_def)
  have d0: "drop i buf = 40 # ?p @ 41 # r" using d t by simp
  have d1: "drop (Suc i) buf = ?p @ 41 # r" by (rule drop_Suc_plus [OF d0])
  have dj: "drop ?j buf = 41 # r" by (rule drop_plus [OF d1])
  have len: "i < length buf" using d0 by (metis drop_all list.discI not_less)
  then obtain m where m: "n = Suc (Suc m)" "4 * (length buf - Suc i) + 4 \<le> m"
    using n by (cases n; cases "n - 1") auto
  have pk: "peek buf i [40] = (i, True)" using d0 by (simp add: peek_here whitespace_def)
  have sk: "skip_token buf i = Suc i"
    by (rule skip_token_sym [OF d0]) (use print_hd [OF ok, of "41 # r"] in \<open>simp_all add: symbols_def whitespace_def\<close>)
  have "foll [41] (41 # r)" by (simp add: foll_def symbols_def)
  then obtain e where e: "parseline m buf (Suc i) = POk e ?j" "reading (cut buf) e = c"
    using l [unfolded line_rt_def] d1 len m(2) by (metis Suc_leI)
  have pj: "peek buf ?j [41] = (?j, True)" using dj by (simp add: peek_here whitespace_def)
  have sj: "skip_token buf ?j = i + length t"
    using skip_token_sym [OF dj] follD(1) [OF r] t by (simp add: symbols_def)
  have "parseexec n buf i = bindP (redirs_loop buf [] (i + length t)) (\<lambda>rs s. POk (foldl wrap e rs) s)"
    using pk sk e pj sj by (simp add: m(1) parseredirs_def)
  with e(2) show "\<exists>K rs c0. parseexec n buf i = bindP (redirs_loop buf rs (i + length t)) K \<and>
      reading (cut buf) (foldl wrap c0 rs) = c \<and>
      (\<forall>rs s. foll [124, 41, 38, 59] (drop s buf) \<longrightarrow> K rs s = POk (foldl wrap c0 rs) s)"
    by (intro exI [of _ "\<lambda>rs s. POk (foldl wrap e rs) s"] exI [of _ "[]"] exI [of _ e]) simp
qed

lemma pipe_rt_exec:
  assumes x: "exec_rt buf c" and lv: "level c \<noteq> 1"
  shows "pipe_rt buf c"
  unfolding pipe_rt_def
proof (intro allI impI)
  fix i n t r
  assume t: "t = par (1 < level c) (sh_print c)" and d: "drop i buf = t @ r"
    and r: "foll [41, 38, 59] r" and i: "i \<le> length buf" and n: "4 * (length buf - i) + 3 \<le> n"
  obtain m where m: "n = Suc m" "4 * (length buf - i) + 2 \<le> m" using n by (cases n) auto
  have t: "t = par (0 < level c) (sh_print c)" using t lv by (cases "level c") auto
  have "foll [124, 41, 38, 59] r" by (rule foll_mono [OF r]) (auto simp: symbols_def)
  from exec_rt_done [OF x t d this i m(2)] obtain e
    where e: "parseexec m buf i = POk e (i + length t)" "reading (cut buf) e = c" by blast
  have "peek buf (i + length t) [124] = (i + length t, False)"
    using drop_plus [OF d] follD(1,3) [OF r] by (auto simp: peek_here)
  with e show "\<exists>d. parsepipe n buf i = POk d (i + length t) \<and> reading (cut buf) d = c" by (simp add: m(1))
qed

lemma pipe_rt_SPipe:
  assumes x: "exec_rt buf a" and y: "pipe_rt buf b" and ok: "scmd_ok b"
  shows "pipe_rt buf (SPipe a b)"
  unfolding pipe_rt_def
proof (intro allI impI)
  fix i n t r
  let ?u = "par (0 < level a) (sh_print a)" and ?v = "par (1 < level b) (sh_print b)"
  assume t: "t = par (1 < level (SPipe a b)) (sh_print (SPipe a b))" and d: "drop i buf = t @ r"
    and r: "foll [41, 38, 59] r" and i: "i \<le> length buf" and n: "4 * (length buf - i) + 3 \<le> n"
  obtain m where m: "n = Suc m" "4 * (length buf - i) + 2 \<le> m" using n by (cases n) auto
  have t: "t = ?u @ 124 # ?v" using t by (simp add: par_def)
  have du: "drop i buf = ?u @ 124 # ?v @ r" using d t by simp
  let ?j = "i + length ?u"
  have dj: "drop ?j buf = 124 # ?v @ r" by (rule drop_plus [OF du])
  have dk: "drop (Suc ?j) buf = ?v @ r" by (rule drop_Suc_plus [OF dj])
  have "foll [124, 41, 38, 59] (124 # ?v @ r)" by (simp add: foll_def symbols_def)
  from exec_rt_done [OF x refl du this i m(2)] obtain e
    where e: "parseexec m buf i = POk e ?j" "reading (cut buf) e = a" by blast
  have pk: "peek buf ?j [124] = (?j, True)" using dj by (simp add: peek_here whitespace_def)
  have sk: "skip_token buf ?j = Suc ?j"
    by (rule skip_token_sym [OF dj]) (use par_hd [OF ok follD(1) [OF r]] in \<open>simp_all add: symbols_def\<close>)
  have k: "Suc ?j \<le> length buf" using drop_length [OF i du] by simp
  then have "4 * (length buf - Suc ?j) + 3 \<le> m" using m(2) by arith
  from y [unfolded pipe_rt_def, rule_format, OF refl dk r k this] obtain f
    where f: "parsepipe m buf (Suc ?j) = POk f (Suc ?j + length ?v)" "reading (cut buf) f = b" by blast
  show "\<exists>d. parsepipe n buf i = POk d (i + length t) \<and> reading (cut buf) d = SPipe a b"
    using e pk sk f t by (intro exI [of _ "PIPE e f"]) (simp add: m(1))
qed

lemma back_rt_pipe:
  assumes x: "pipe_rt buf c" and lv: "level c \<noteq> 2"
  shows "back_rt buf c"
  unfolding back_rt_def
proof (intro allI impI)
  fix i n t r
  assume t: "t = par (2 < level c) (sh_print c)" and d: "drop i buf = t @ r"
    and r: "foll [41, 38, 59] r" and i: "i \<le> length buf" and n: "4 * (length buf - i) + 3 \<le> n"
  have t: "t = par (1 < level c) (sh_print c)" using t lv by (cases c) auto
  from x [unfolded pipe_rt_def, rule_format, OF t d r i n]
  show "\<exists>d0 s0 d. parsepipe n buf i = POk d0 s0 \<and> back_loop buf d0 s0 = back_loop buf d (i + length t) \<and>
      reading (cut buf) d = c" by blast
qed

lemma back_rt_SBack:
  assumes x: "back_rt buf c"
  shows "back_rt buf (SBack c)"
  unfolding back_rt_def
proof (intro allI impI)
  fix i n t r
  let ?u = "par (2 < level c) (sh_print c)"
  assume t: "t = par (2 < level (SBack c)) (sh_print (SBack c))" and d: "drop i buf = t @ r"
    and r: "foll [41, 38, 59] r" and i: "i \<le> length buf" and n: "4 * (length buf - i) + 3 \<le> n"
  have t: "t = ?u @ [38]" using t by (simp add: par_def)
  have du: "drop i buf = ?u @ 38 # r" using d t by simp
  let ?j = "i + length ?u"
  have dj: "drop ?j buf = 38 # r" by (rule drop_plus [OF du])
  have "foll [41, 38, 59] (38 # r)" by (simp add: foll_def symbols_def)
  from x [unfolded back_rt_def, rule_format, OF refl du this i n] obtain d0 s0 e
    where e: "parsepipe n buf i = POk d0 s0" "back_loop buf d0 s0 = back_loop buf e ?j" "reading (cut buf) e = c" by blast
  have "skip_ws buf (Suc ?j) = Suc ?j" by (rule skip_ws_here) (use drop_Suc_plus [OF dj] follD(1) [OF r] in simp)
  then have "gettoken buf ?j = (38, ?j, Suc ?j, Suc ?j)" using gettoken_sym_here [OF dj] by (simp add: symbols_def)
  moreover have "peek buf ?j [38] = (?j, True)" using dj by (simp add: peek_here whitespace_def)
  ultimately have "back_loop buf e ?j = back_loop buf (BACK e) (i + length t)"
    using t by (subst back_loop.simps) simp
  with e show "\<exists>d0 s0 d. parsepipe n buf i = POk d0 s0 \<and> back_loop buf d0 s0 = back_loop buf d (i + length t) \<and>
      reading (cut buf) d = SBack c" by (metis reading.simps(5))
qed

lemma back_stop: "hd0 (drop j buf) \<notin> set whitespace \<Longrightarrow> hd0 (drop j buf) \<noteq> 38 \<Longrightarrow> back_loop buf c j = (c, j)"
  by (subst back_loop.simps) (simp add: peek_here)

lemma line_rt_back:
  assumes x: "back_rt buf c" and lv: "level c \<noteq> 3"
  shows "line_rt buf c"
  unfolding line_rt_def
proof (intro allI impI)
  fix i n r
  let ?t = "sh_print c"
  assume d: "drop i buf = ?t @ r" and r: "foll [41] r" and i: "i \<le> length buf" and n: "4 * (length buf - i) + 4 \<le> n"
  obtain m where m: "n = Suc m" "4 * (length buf - i) + 3 \<le> m" using n by (cases n) auto
  have t: "?t = par (2 < level c) ?t" using lv by (cases c) (auto simp: par_def)
  have r': "foll [41, 38, 59] r" by (rule foll_mono [OF r]) (auto simp: symbols_def)
  from x [unfolded back_rt_def, rule_format, OF t d r' i m(2)] obtain d0 s0 e
    where e: "parsepipe m buf i = POk d0 s0" "back_loop buf d0 s0 = back_loop buf e (i + length ?t)"
      "reading (cut buf) e = c" by blast
  have h: "hd0 (drop (i + length ?t) buf) \<notin> set whitespace" "hd0 (drop (i + length ?t) buf) \<in> {0, 41}"
    using drop_plus [OF d] follD(1,3) [OF r] by auto
  have "back_loop buf e (i + length ?t) = (e, i + length ?t)" by (rule back_stop) (use h in auto)
  moreover have "peek buf (i + length ?t) [59] = (i + length ?t, False)" using h by (auto simp: peek_here)
  ultimately show "\<exists>d. parseline n buf i = POk d (i + length ?t) \<and> reading (cut buf) d = c"
    using e by (simp add: m(1))
qed

lemma line_rt_SList:
  assumes x: "back_rt buf a" and y: "line_rt buf b" and ok: "scmd_ok b"
  shows "line_rt buf (SList a b)"
  unfolding line_rt_def
proof (intro allI impI)
  fix i n r
  let ?u = "par (2 < level a) (sh_print a)" and ?v = "sh_print b" and ?t = "sh_print (SList a b)"
  assume d: "drop i buf = ?t @ r" and r: "foll [41] r" and i: "i \<le> length buf" and n: "4 * (length buf - i) + 4 \<le> n"
  obtain m where m: "n = Suc m" "4 * (length buf - i) + 3 \<le> m" using n by (cases n) auto
  have du: "drop i buf = ?u @ 59 # ?v @ r" using d by simp
  let ?j = "i + length ?u"
  have dj: "drop ?j buf = 59 # ?v @ r" by (rule drop_plus [OF du])
  have dk: "drop (Suc ?j) buf = ?v @ r" by (rule drop_Suc_plus [OF dj])
  have "foll [41, 38, 59] (59 # ?v @ r)" by (simp add: foll_def symbols_def)
  from x [unfolded back_rt_def, rule_format, OF refl du this i m(2)] obtain d0 s0 e
    where e: "parsepipe m buf i = POk d0 s0" "back_loop buf d0 s0 = back_loop buf e ?j" "reading (cut buf) e = a" by blast
  have bl: "back_loop buf e ?j = (e, ?j)" by (rule back_stop) (use dj in \<open>simp_all add: whitespace_def\<close>)
  have pk: "peek buf ?j [59] = (?j, True)" using dj by (simp add: peek_here whitespace_def)
  have sk: "skip_token buf ?j = Suc ?j"
    by (rule skip_token_sym [OF dj]) (use print_hd [OF ok follD(1) [OF r]] in \<open>simp_all add: symbols_def\<close>)
  have k: "Suc ?j \<le> length buf" using drop_length [OF i du] by simp
  then have "4 * (length buf - Suc ?j) + 4 \<le> m" using m(2) by arith
  from y [unfolded line_rt_def, rule_format, OF dk r k this] obtain f
    where f: "parseline m buf (Suc ?j) = POk f (Suc ?j + length ?v)" "reading (cut buf) f = b" by blast
  show "\<exists>d. parseline n buf i = POk d (i + length ?t) \<and> reading (cut buf) d = SList a b"
    using e bl pk sk f by (intro exI [of _ "LIST e f"]) (simp add: m(1))
qed

lemma all_rt: "scmd_ok c \<Longrightarrow> exec_rt buf c \<and> pipe_rt buf c \<and> back_rt buf c \<and> line_rt buf c"
proof (induction c)
  case (SExec ws)
  then show ?case using exec_rt_SExec pipe_rt_exec back_rt_pipe line_rt_back by simp
next
  case (SRedir c w m fd)
  then have "exec_rt buf (SRedir c w m fd)" by (intro exec_rt_SRedir) auto
  then show ?case using pipe_rt_exec back_rt_pipe line_rt_back by simp
next
  case (SPipe a b)
  then have p: "pipe_rt buf (SPipe a b)" by (intro pipe_rt_SPipe) auto
  then have "line_rt buf (SPipe a b)" using back_rt_pipe line_rt_back by simp
  then show ?case using p exec_rt_block SPipe(3) back_rt_pipe by simp
next
  case (SList a b)
  then have l: "line_rt buf (SList a b)" by (intro line_rt_SList) auto
  then have "exec_rt buf (SList a b)" using exec_rt_block SList(3) by simp
  then show ?case using l pipe_rt_exec back_rt_pipe by simp
next
  case (SBack a)
  then have b: "back_rt buf (SBack a)" by (intro back_rt_SBack) auto
  then have l: "line_rt buf (SBack a)" using line_rt_back by simp
  then have "exec_rt buf (SBack a)" using exec_rt_block SBack(2) by simp
  then show ?case using b l pipe_rt_exec by simp
qed

lemma join_no_zero: "list_all sh_word ws \<Longrightarrow> 0 \<notin> set (join ws)"
  by (induction ws rule: join.induct) (auto simp: sh_word_def)

lemma print_no_zero: "scmd_ok c \<Longrightarrow> 0 \<notin> set (sh_print c)"
  by (induction c) (auto simp: join_no_zero sh_word_def par_def)

section \<open>The properties of the parser\<close>

text \<open>
  C31.  The parser ends on every line, and a parse that succeeds gives a well-formed command: every
  command to execute has at most nine arguments, every string of the command is a word of the line,
  redirections are of the two kinds, and the terminated buffer has the size of the line and its final
  zero.  Every string, read from the terminated buffer up to the first zero, is that word.
\<close>

theorem parsecmd_type:
  assumes "0 \<notin> set buf"
  shows "case parsecmd buf of
      POk (c, m) s \<Rightarrow> s = length buf \<and> cmd_ok buf c \<and> length m = length buf + 1 \<and>
        reading (\<lambda>(q, eq). str_at m q) c = reading (cut buf) c
    | PPanic e \<Rightarrow> True
    | PFuel \<Rightarrow> False"
proof (cases "parseline (4 * length buf + 4) buf 0")
  case (POk c s)
  with parse_ok(1) [of 0 buf "4 * length buf + 4"] have ok: "cmd_ok buf c" by (simp add: res_ok_def)
  obtain s1 k where p: "peek buf s [] = (s1, k)" by fastforce
  have "reading (\<lambda>(q, eq). str_at (nulterminate c (buf @ [0])) q) c = reading (cut buf) c"
    by (rule reading_cong) (use str_at_span [OF ok assms] in auto)
  moreover have "length (nulterminate c (buf @ [0])) = length buf + 1"
    by (simp add: nulterminate_fold fold_update_nth)
  ultimately show ?thesis using POk ok p by (simp add: parsecmd_def)
next
  case PFuel
  with parse_fuel(1) [of 0 buf "4 * length buf + 4"] show ?thesis by simp
qed (simp add: parsecmd_def)

text \<open>
  C32.  The parser inverts printing: the line that writes a command, with the parentheses it needs,
  parses to that command, with the strings that are executed and opened.
\<close>

theorem parse_print:
  assumes "scmd_ok c"
  shows "\<exists>d m. parsecmd (sh_print c) = POk (d, m) (length (sh_print c)) \<and> reading (\<lambda>(q, eq). str_at m q) d = c"
proof -
  let ?b = "sh_print c"
  have "line_rt ?b c" using all_rt [OF assms] by simp
  from this [unfolded line_rt_def, rule_format, of 0 "[]" "4 * length ?b + 4"]
  obtain d where d: "parseline (4 * length ?b + 4) ?b 0 = POk d (length ?b)" "reading (cut ?b) d = c"
    by (auto simp: foll_def symbols_def)
  have ok: "cmd_ok ?b d" using parse_ok(1) [of 0 ?b "4 * length ?b + 4"] d by (simp add: res_ok_def)
  have "peek ?b (length ?b) [] = (length ?b, False)" by (simp add: peek_here whitespace_def)
  with d have "parsecmd ?b = POk (d, nulterminate d (?b @ [0])) (length ?b)" by (simp add: parsecmd_def)
  moreover have "reading (\<lambda>(q, eq). str_at (nulterminate d (?b @ [0])) q) d = reading (cut ?b) d"
    by (rule reading_cong) (use str_at_span [OF ok print_no_zero [OF assms]] in auto)
  ultimately show ?thesis using d by auto
qed

theorem parsecmd_type_witness:
  "0 \<notin> set (ubytes ''(ls a;wc)<f|cat&'') \<and>
   (case parsecmd (ubytes ''(ls a;wc)<f|cat&'') of
      POk (c, m) s \<Rightarrow> s = length (ubytes ''(ls a;wc)<f|cat&'') \<and> cmd_ok (ubytes ''(ls a;wc)<f|cat&'') c \<and>
        length m = length (ubytes ''(ls a;wc)<f|cat&'') + 1 \<and>
        reading (\<lambda>(q, eq). str_at m q) c = reading (cut (ubytes ''(ls a;wc)<f|cat&'')) c
    | PPanic e \<Rightarrow> True
    | PFuel \<Rightarrow> False)"
proof -
  have "0 \<notin> set (ubytes ''(ls a;wc)<f|cat&'')" by code_simp
  with parsecmd_type [OF this] show ?thesis by simp
qed

theorem parse_print_witness:
  "\<exists>d m. parsecmd (sh_print (SBack (SPipe (SRedir (SList (SExec [[97]]) (SExec [[98], [99]])) [102] 0 0) (SExec [[100]])))) =
     POk (d, m) (length (sh_print (SBack (SPipe (SRedir (SList (SExec [[97]]) (SExec [[98], [99]])) [102] 0 0) (SExec [[100]]))))) \<and>
     reading (\<lambda>(q, eq). str_at m q) d =
       SBack (SPipe (SRedir (SList (SExec [[97]]) (SExec [[98], [99]])) [102] 0 0) (SExec [[100]]))"
  by (rule parse_print) code_simp

section \<open>How the programs of a command are connected\<close>

text \<open>
  The programs that are started when every call succeeds.  A descriptor table maps the sixteen
  descriptors of a process to what they are open on; \<open>open\<close>, \<open>dup\<close> and \<open>pipe\<close> take the lowest free
  descriptor, \<open>fork\<close> copies the table, and pipes are numbered in the order in which they are made.
  The result lists the path, the arguments and the table of every program that is executed.
\<close>

datatype fdesc = FTerm nat | FFile str uint | FPipeR nat | FPipeW nat

type_synonym fdtab = "nat \<Rightarrow> fdesc option"

definition lowest :: "fdtab \<Rightarrow> nat option" where
  "lowest t = find (\<lambda>i. t i = None) [0..<16]"

type_synonym started = "(str \<times> str list \<times> fdtab) list \<times> nat"

primrec starts :: "prog \<Rightarrow> fdtab \<Rightarrow> nat \<Rightarrow> started" where
  "starts PExit t n = ([], n)"
| "starts (PPrint f a k) t n = starts k t n"
| "starts (PClose fd k) t n = starts k (t(fd := None)) n"
| "starts (POpen p m k) t n =
     (case lowest t of None \<Rightarrow> starts (k False) t n | Some fd \<Rightarrow> starts (k True) (t(fd \<mapsto> FFile p m)) n)"
| "starts (PDup old k) t n = (case lowest t of None \<Rightarrow> starts k t n | Some fd \<Rightarrow> starts k (t(fd := t old)) n)"
| "starts (PExec p a k) t n = ([(p, a, t)], n)"
| "starts (PPipe k) t n =
     (case lowest t of None \<Rightarrow> starts (k None) t n
      | Some p0 \<Rightarrow> (case lowest (t(p0 \<mapsto> FPipeR n)) of None \<Rightarrow> starts (k None) t n
      | Some p1 \<Rightarrow> starts (k (Some (p0, p1))) (t(p0 \<mapsto> FPipeR n, p1 \<mapsto> FPipeW n)) (Suc n)))"
| "starts (PFork a b e) t n = (case starts a t n of (xs, n) \<Rightarrow> case starts b t n of (ys, n) \<Rightarrow> (xs @ ys, n))"
| "starts (PWait k) t n = starts k t n"

text \<open>
  What a command says: a redirection replaces one descriptor by a file, the left side of a pipeline
  writes to a new pipe instead of the output, and the right side reads from it.
\<close>

fun connect :: "scmd \<Rightarrow> fdtab \<Rightarrow> nat \<Rightarrow> started" where
  "connect (SExec ws) t n = (case ws of [] \<Rightarrow> ([], n) | w # _ \<Rightarrow> ([(w, ws, t)], n))"
| "connect (SRedir c w mode fd) t n = connect c (t(fd \<mapsto> FFile w mode)) n"
| "connect (SPipe c d) t n =
     (case connect c (t(1 \<mapsto> FPipeW n)) (Suc n) of (xs, k) \<Rightarrow>
      case connect d (t(0 \<mapsto> FPipeR n)) k of (ys, k) \<Rightarrow> (xs @ ys, k))"
| "connect (SList c d) t n =
     (case connect c t n of (xs, k) \<Rightarrow> case connect d t k of (ys, k) \<Rightarrow> (xs @ ys, k))"
| "connect (SBack c) t n = connect c t n"

text \<open>A table the shell starts with: standard input and output are open, and two descriptors are free.\<close>

definition tab_ok :: "fdtab \<Rightarrow> bool" where
  "tab_ok t \<longleftrightarrow> t 0 \<noteq> None \<and> t 1 \<noteq> None \<and> (\<exists>i<16. \<exists>j<16. i \<noteq> j \<and> t i = None \<and> t j = None)"

lemma upt16: "[0..<16] = 0 # 1 # [2..<16::nat]"
  by (simp add: upt_rec)

lemma lowest_SomeD: "lowest t = Some i \<Longrightarrow> t i = None \<and> i < 16"
  by (auto simp: lowest_def find_Some_iff)

lemma lowest_ex: "t i = None \<Longrightarrow> i < 16 \<Longrightarrow> \<exists>k. lowest t = Some k"
  by (cases "lowest t") (auto simp: lowest_def find_None_iff)

lemma tab_ok_upd:
  assumes "tab_ok t" "fd < 2"
  shows "tab_ok (t(fd \<mapsto> x))"
proof -
  obtain i j where ij: "i < 16" "j < 16" "i \<noteq> j" "t i = None" "t j = None" and o: "t 0 \<noteq> None" "t 1 \<noteq> None"
    using assms by (auto simp: tab_ok_def)
  then have "i \<noteq> fd" "j \<noteq> fd" using assms(2) by (auto simp: less_2_cases_iff)
  then have "(t(fd \<mapsto> x)) i = None" "(t(fd \<mapsto> x)) j = None" "(t(fd \<mapsto> x)) 0 \<noteq> None" "(t(fd \<mapsto> x)) 1 \<noteq> None"
    using ij o by auto
  with ij show ?thesis unfolding tab_ok_def by blast
qed

lemma lowest_low: "fd < 2 \<Longrightarrow> t fd = None \<Longrightarrow> fd = 1 \<longrightarrow> t 0 \<noteq> None \<Longrightarrow> lowest t = Some fd"
  unfolding lowest_def upt16 by (cases "fd = 0") (simp_all add: less_2_cases_iff)

lemma lowest_hole: "tab_ok t \<Longrightarrow> fd < 2 \<Longrightarrow> lowest (t(fd := None)) = Some fd"
  by (rule lowest_low) (simp_all add: tab_ok_def)

lemma two_free:
  assumes "tab_ok t"
  obtains p0 p1 where "lowest t = Some p0" "lowest (t(p0 \<mapsto> x)) = Some p1" "p0 \<notin> {0, 1}" "p1 \<notin> {0, 1}"
    "t p0 = None" "t p1 = None" "p0 \<noteq> p1"
proof -
  obtain i j where ij: "i < 16" "j < 16" "i \<noteq> j" "t i = None" "t j = None" using assms by (auto simp: tab_ok_def)
  obtain p0 where p0: "lowest t = Some p0" using lowest_ex ij by blast
  obtain k where "k < 16" "k \<noteq> p0" "t k = None" using ij by metis
  then obtain p1 where p1: "lowest (t(p0 \<mapsto> x)) = Some p1" using lowest_ex [of "t(p0 \<mapsto> x)" k] by auto
  have n: "t p0 = None" "t p1 = None" "p1 \<noteq> p0"
    using lowest_SomeD [OF p0] lowest_SomeD [OF p1] by (auto split: if_splits)
  have o: "t 0 \<noteq> None" "t 1 \<noteq> None" using assms by (simp_all add: tab_ok_def)
  have "q \<notin> {0, 1}" if "t q = None" for q using that o by (metis insertE singletonD)
  with n p0 p1 show thesis by (intro that [of p0 p1]) blast+
qed

text \<open>Moving an end of the pipe to a standard descriptor and closing both ends.\<close>

lemma starts_move:
  assumes t: "tab_ok t" and fd: "fd < 2" and p: "p0 \<notin> {0, 1}" "p1 \<notin> {0, 1}" "t p0 = None" "t p1 = None" "p0 \<noteq> p1"
    and old: "old = p0 \<and> x = FPipeR n \<or> old = p1 \<and> x = FPipeW n"
  shows "starts (PClose fd (PDup old (PClose p0 (PClose p1 k)))) (t(p0 \<mapsto> FPipeR n, p1 \<mapsto> FPipeW n)) m =
    starts k (t(fd \<mapsto> x)) m"
proof -
  let ?t = "t(p0 \<mapsto> FPipeR n, p1 \<mapsto> FPipeW n)"
  have ne: "fd \<noteq> p0" "fd \<noteq> p1" using fd p by (auto simp: less_2_cases_iff)
  have "t 0 \<noteq> None" using t by (simp add: tab_ok_def)
  then have "lowest (?t(fd := None)) = Some fd"
    by (intro lowest_low [OF fd]) (use p in auto)
  moreover have "((?t(fd := None))(fd := (?t(fd := None)) old))(p0 := None, p1 := None) = t(fd \<mapsto> x)"
    using p old ne by (auto simp: fun_eq_iff)
  ultimately show ?thesis by simp
qed

text \<open>
  C33.  Running a parsed command connects the programs as the command says, when the calls succeed:
  every program is started once, in order, with its arguments, and its table differs from the shell's
  only in the standard input and output that redirections and pipelines name.
\<close>

theorem runcmd_connects:
  assumes "cmd_ok buf c" "tab_ok t"
  shows "starts (runcmd m c) t n = connect (reading (\<lambda>(q, eq). str_at m q) c) t n"
  using assms
proof (induction c arbitrary: t n)
  case (EXEC args)
  then show ?case by (cases args) (auto simp: case_prod_unfold)
next
  case (REDIR c q eq mode fd)
  then have fd: "fd < 2" by auto
  have "starts (runcmd m c) (t(fd \<mapsto> FFile (str_at m q) mode)) n =
      connect (reading (\<lambda>(q, eq). str_at m q) c) (t(fd \<mapsto> FFile (str_at m q) mode)) n"
    by (rule REDIR(1) [OF _ tab_ok_upd [OF REDIR(3) fd]]) (use REDIR(2) in simp)
  with lowest_hole [OF REDIR(3) fd] show ?case by simp
next
  case (PIPE c d)
  obtain p0 p1 where p: "lowest t = Some p0" "lowest (t(p0 \<mapsto> FPipeR n)) = Some p1" "p0 \<notin> {0, 1}" "p1 \<notin> {0, 1}"
    "t p0 = None" "t p1 = None" "p0 \<noteq> p1" by (rule two_free [OF PIPE(4)])
  let ?t = "t(p0 \<mapsto> FPipeR n, p1 \<mapsto> FPipeW n)" and ?r = "reading (\<lambda>(q, eq). str_at m q)"
  have "tab_ok (t(1 \<mapsto> FPipeW n))" "tab_ok (t(0 \<mapsto> FPipeR n))" using tab_ok_upd [OF PIPE(4)] by auto
  then have IH: "starts (runcmd m c) (t(1 \<mapsto> FPipeW n)) k = connect (?r c) (t(1 \<mapsto> FPipeW n)) k"
    "starts (runcmd m d) (t(0 \<mapsto> FPipeR n)) k = connect (?r d) (t(0 \<mapsto> FPipeR n)) k" for k
    using PIPE(1-3) by auto
  have c: "starts (PClose 1 (PDup p1 (PClose p0 (PClose p1 (runcmd m c))))) ?t k = connect (?r c) (t(1 \<mapsto> FPipeW n)) k" for k
    unfolding IH [symmetric] by (rule starts_move [OF PIPE(4) _ p(3-7)]) auto
  have d: "starts (PClose 0 (PDup p0 (PClose p0 (PClose p1 (runcmd m d))))) ?t k = connect (?r d) (t(0 \<mapsto> FPipeR n)) k" for k
    unfolding IH [symmetric] by (rule starts_move [OF PIPE(4) _ p(3-7)]) auto
  have w: "starts (PClose p0 (PClose p1 (PWait (PWait PExit)))) ?t k = ([], k)" for k by simp
  have "starts (runcmd m (PIPE c d)) t n =
    (case connect (?r c) (t(1 \<mapsto> FPipeW n)) (Suc n) of (xs, k) \<Rightarrow>
     case (case connect (?r d) (t(0 \<mapsto> FPipeR n)) k of (ys, k) \<Rightarrow> (ys @ [], k)) of (ys, k) \<Rightarrow> (xs @ ys, k))"
    unfolding runcmd.simps fork1_def starts.simps(7,8) p(1,2) option.case prod.case c d w ..
  then show ?case by (simp split: prod.split)
next
  case (LIST c d)
  then show ?case by (simp add: fork1_def split: prod.split)
next
  case (BACK c)
  then show ?case by (simp add: fork1_def split: prod.split)
qed

theorem runcmd_connects_witness:
  "starts (runcmd [97, 0, 102, 0, 98, 0] (PIPE (REDIR (EXEC [(0, 1)]) 2 3 0 0) (EXEC [(4, 5)])))
     (\<lambda>i. if i < 3 then Some (FTerm i) else None) 0 =
   connect (reading (\<lambda>(q, eq). str_at [97, 0, 102, 0, 98, 0] q) (PIPE (REDIR (EXEC [(0, 1)]) 2 3 0 0) (EXEC [(4, 5)])))
     (\<lambda>i. if i < 3 then Some (FTerm i) else None) 0"
proof (rule runcmd_connects)
  show "cmd_ok [97, 60, 102, 124, 98] (PIPE (REDIR (EXEC [(0, 1)]) 2 3 0 0) (EXEC [(4, 5)]))" by code_simp
  show "tab_ok (\<lambda>i. if i < 3 then Some (FTerm i) else None)"
    unfolding tab_ok_def by (intro conjI exI [of _ 3] exI [of _ 4]) simp_all
qed

end
