(* ===== verification/Spec2Isabelle.thy ===== *)
theory Spec2Isabelle
  imports Spinlock_Mutex Mlfq_Policy Disk_Props Pipe_Fifo Fs_Rw Umalloc Sh_Props
begin

text \<open>
  A verification library for the xv6 kernel with a multilevel feedback queue scheduler and for its user
  programs.  Paths are relative to \<^verbatim>\<open>src/xv6-modularized\<close>.

  \<^bold>\<open>The program.\<close>  The kernel runs processes on several processors.  Each processor loops in
  \<open>scheduler\<close>, which takes the first process of the first ready queue that is not empty; the clock
  interrupt charges the running process, moves it to a lower queue when its quantum is used up and from
  time to time raises all priorities.  Processes enter the kernel through \<open>trap\<close> and \<open>syscall\<close>; system
  calls work on open files, pipes, the console and the file system, which stores its blocks through the
  log and the buffer cache on a memory disk.  Pages come from one allocator.  Everything shared is guarded
  by spin locks and sleep locks.  User programs are linked with a small library and an allocator; the
  shell parses command lines and connects programs with pipes.

  \<^bold>\<open>The model.\<close>  Each C function is one definition over explicit state.  The state is a chain of extensible
  records, each adding the globals of one component: \<open>mach\<close> (processors and locks), \<open>kmem\<close>, \<open>vm\<close>, \<open>pt\<close>
  (process table and queues), \<open>slk\<close>, \<open>bc\<close> (buffer cache and disk), \<open>lg\<close>, \<open>fsys\<close>, and those of pipes, open
  files and the console.  Kernel code has an outcome of type \<open>kres\<close>: it returns, panics, faults on a bad
  access, spins on a taken lock, or goes to sleep.  Integers have their C width where they can wrap.  The
  \<open>pushcli\<close> depth, process identifiers and reference counts, which are \<open>int\<close> in C, where overflow is undefined, are
  unbounded integers; counters of loops over tables and over the block map are naturals.  The debugging fields
  of a lock are left out.  Repeated calls of \<open>myproc\<close> in the clock part of \<open>trap\<close> are one call, and a write to a device
  takes all its bytes before the device function runs.  A
  function that calls \<open>swtch\<close> is cut there into the part before and the part after.  User programs take the
  system calls as an argument and are \<open>None\<close> when they do not end.

  \<^bold>\<open>Theories and sources.\<close>
  \<^item> \<open>Xv6_Prelude\<close>: C types, \<^verbatim>\<open>libs/param.h\<close>, outcomes and generic lemmas.
  \<^item> \<open>Spinlock\<close>, \<open>Spinlock_Mutex\<close>, \<open>Lock_Inv\<close>, \<open>Lock_Seq\<close>: \<^verbatim>\<open>kernel/spinlock.c\<close> and \<open>mycpu\<close>, \<open>cpuid\<close>, \<open>myproc\<close>
    of \<^verbatim>\<open>kernel/proc.c\<close>.  All outcomes of \<open>acquire\<close>, nested critical sections in any order; mutual exclusion when every
    load and store of the lock interleaves with the other processors; the lock discipline of the machine.
  \<^item> \<open>Kstring\<close>: \<^verbatim>\<open>kernel/string.c\<close> on byte memory, with overlapping copies and bounded strings.
  \<^item> \<open>Kalloc\<close>: \<^verbatim>\<open>kernel/kalloc.c\<close>, the free list inside the free pages, a stack to its clients; locale
    \<open>page_pool\<close>.
  \<^item> \<open>Vm\<close>, \<open>Vm_Frame\<close>, \<open>Uaccess\<close>, \<open>User_Mem\<close>: \<^verbatim>\<open>kernel/vm.c\<close>, \<^verbatim>\<open>kernel/mmu.h\<close> and accesses at user addresses.
  \<^item> \<open>Proc\<close>, \<open>Mlfq\<close>, \<open>Sched_Inv\<close>, \<open>Sched_Machine\<close>, \<open>Sched_Safety\<close>, \<open>Sched_Live\<close>, \<open>Mlfq_Policy\<close>: \<^verbatim>\<open>kernel/proc.c\<close>.
    The linked queues implement lists (locale \<open>ready_lists\<close>).  \<open>sched_step\<close> is a step of any processor; in
    every state it reaches, the queues hold exactly the ready processes, no process runs twice and the
    scheduler does not panic.  A process that is ready at a boost is among the next choices.
    \<open>Mlfq_Policy\<close> has the rules for quantum and boost, over \<open>trap_quantum\<close> and \<open>timer_tick\<close> of \<^verbatim>\<open>kernel/trap.c\<close>.
  \<^item> \<open>Sleeplock\<close>: \<^verbatim>\<open>kernel/sleeplock.c\<close>.
  \<^item> \<open>Ring\<close>, \<open>Bio\<close>, \<open>Bio_Inv\<close>, \<open>Disk_Props\<close>: \<^verbatim>\<open>kernel/bio.c\<close> over \<^verbatim>\<open>kernel/memide.c\<close>.  Locale \<open>block_cache\<close> is
    what the cache promises: the contents of a block are the same for every reader.
  \<^item> \<open>Fs_Layout\<close>, \<open>Log\<close>, \<open>Log_Crash\<close>, \<open>Log_Atomic\<close>, \<open>Log_Trans\<close>: \<^verbatim>\<open>libs/fs.h\<close> and \<^verbatim>\<open>kernel/log.c\<close>.  A crash between any
    two disk writes of a commit or of a recovery leaves a disk that recovers to all of the transaction
    or nothing of it; a finished transaction is on the disk.
  \<^item> \<open>Fs\<close>, \<open>Fs_Trans\<close>, \<open>Fs_File\<close>, \<open>Fs_Rw\<close>: \<^verbatim>\<open>kernel/fs.c\<close>.  \<open>balloc\<close> takes the lowest free block; \<open>bmap\<close> keeps the
    blocks of different files apart; \<open>readi\<close> and \<open>writei\<close> read and splice the bytes of a file, seen
    through all indirections.
  \<^item> \<open>Ringbuf\<close>, \<open>Pipe\<close>, \<open>Pipe_Fifo\<close>: \<^verbatim>\<open>kernel/pipe.c\<close>; a pipe is a bounded queue of bytes (locale \<open>byte_queue\<close>), also
    when its counters wrap.
  \<^item> \<open>File\<close>, \<open>Console\<close>, \<open>Sysargs\<close>, \<open>Proc_Sys\<close>, \<open>Exec\<close>, \<open>Sysfile\<close>, \<open>Trap\<close>: \<^verbatim>\<open>kernel/file.c\<close>, \<^verbatim>\<open>kernel/console.c\<close>,
    \<^verbatim>\<open>kernel/uart.c\<close>, \<^verbatim>\<open>kernel/kbd.c\<close>, \<^verbatim>\<open>kernel/syscall.c\<close>, \<^verbatim>\<open>kernel/sysproc.c\<close>, \<^verbatim>\<open>kernel/exec.c\<close>, \<^verbatim>\<open>kernel/sysfile.c\<close>,
    \<^verbatim>\<open>kernel/trap.c\<close>.  \<open>Machine0\<close> is a concrete machine on which properties are applied.
  \<^item> \<open>Ulib\<close>, \<open>Umalloc\<close>, \<open>Textutils\<close>: \<^verbatim>\<open>libs/ulib.c\<close>, \<^verbatim>\<open>libs/printf.c\<close>, \<^verbatim>\<open>libs/umalloc.c\<close> and the text programs of \<^verbatim>\<open>user\<close>.
    \<open>atoi\<close> reads what \<open>printf\<close> writes; blocks of \<open>malloc\<close> are disjoint for any history of calls; the matcher
    of \<open>grep\<close> decides its patterns, and \<open>grep\<close> finds the matching lines of a file but only the last piece of a
    line that arrives in pieces; \<open>wc\<close> counts lines, words and bytes.
  \<^item> \<open>Sh\<close>, \<open>Sh_Props\<close>: \<^verbatim>\<open>user/sh.c\<close>.  The parser always ends, inverts printing, and the system calls of a command
    connect its programs as the command says.

  \<^bold>\<open>Bounds and fuel.\<close>  Loops over tables recurse over their indices.  The parser of the shell counts down
  four times the length of the line plus four calls; that it never runs out is part of the property of
  \<open>parsecmd\<close>.  User loops that may run forever are partial functions to an option.  The file system
  properties are about the state inside one transaction, seen by one processor with no other lock holder,
  with a stated number of log entries and free blocks left: at most six log entries for each block that
  \<open>writei\<close> touches and one for the inode.

  \<^bold>\<open>Not modelled.\<close>  The IDE driver, the interrupt controllers and the serial port setup (device
  registers), \<^verbatim>\<open>kernel/mp.c\<close> (tables of the BIOS), boot and \<open>main\<close>, segment and interrupt descriptor tables,
  the assembly files, the image builder \<^verbatim>\<open>mkfs/mkfs.c\<close>, and the test and benchmark programs.  Directories, path
  names, \<open>exec\<close> and the system calls on files are defined in full; no properties are stated about them.
\<close>

end
